(* ===== verification/Prelude.thy ===== *)
theory Prelude
  imports Main "HOL-Library.Word"
begin

text \<open>
  What the theories of this development share: the names of the machine integer types,
  the collections of rewrite rules and introduction rules that the component theories
  fill, and generic facts on words, bit fields, byte sequences and lists.

  C's \<^verbatim>\<open>uint8_t\<close>, \<^verbatim>\<open>uint16_t\<close>, \<^verbatim>\<open>uint32_t\<close> (and \<^verbatim>\<open>unsigned\<close> of the 32-bit target) and
  \<^verbatim>\<open>uint64_t\<close> are words of that width, so that every sum, difference, product and shift
  wraps around as it does in the code.
\<close>

unbundle bit_operations_syntax

type_synonym u8 = "8 word"
type_synonym u16 = "16 word"
type_synonym u32 = "32 word"
type_synonym u64 = "64 word"

named_theorems machine_simps \<open>unfolding rules of the instruction set and its emulator\<close>
named_theorems machine_inv \<open>operations that keep the emulator's machine well formed\<close>
named_theorems field_simps32 \<open>extraction of operand fields from an encoded word\<close>
named_theorems kernel_simps \<open>unfolding rules of the kernel's process layer\<close>
named_theorems disk_simps \<open>unfolding rules of the disk and file system layer\<close>


section \<open>Bits of machine words\<close>

lemma bit_ltD:
  fixes v :: "'a::len word"
  assumes "v < 2 ^ k" and "k < LENGTH('a)" and "k \<le> n"
  shows "\<not> bit v n"
proof -
  have "take_bit k v = v"
    using less_mask_eq [OF assms(1)] by (simp add: take_bit_eq_mask)
  then have "bit v n = bit (take_bit k v) n"
    by simp
  with assms(3) show ?thesis
    by (simp add: bit_take_bit_iff)
qed

lemma reg_not_bit:
  fixes v :: u32
  assumes "v < 16" and "4 \<le> n"
  shows "\<not> bit v n"
  using bit_ltD [of v 4 n] assms by simp

lemma imm_not_bit:
  fixes v :: u32
  assumes "v \<le> 0xFFFF" and "16 \<le> n"
  shows "\<not> bit v n"
proof -
  from assms(1) have "v < 2 ^ 16"
    by (simp add: word_le_nat_alt word_less_nat_alt)
  then show ?thesis
    using bit_ltD [of v 16 n] assms(2) by simp
qed


lemma unat32_less: "unat (x :: u32) < 4294967296"
  by (rule order_less_le_trans [OF unsigned_less]) simp


section \<open>Big-endian byte sequences\<close>

definition be_bytes16 :: "u16 \<Rightarrow> u8 list" where
  "be_bytes16 v = [ucast (drop_bit 8 v), ucast v]"

definition be_bytes32 :: "u32 \<Rightarrow> u8 list" where
  "be_bytes32 v = [ucast (drop_bit 24 v), ucast (drop_bit 16 v), ucast (drop_bit 8 v), ucast v]"

definition be_word16 :: "u8 \<Rightarrow> u8 \<Rightarrow> u16" where
  "be_word16 a b = push_bit 8 (ucast a) OR ucast b"

definition be_word32 :: "u8 \<Rightarrow> u8 \<Rightarrow> u8 \<Rightarrow> u8 \<Rightarrow> u32" where
  "be_word32 a b c d =
     push_bit 24 (ucast a) OR push_bit 16 (ucast b) OR push_bit 8 (ucast c) OR ucast d"

lemma be_word16_bytes [simp]:
  "be_word16 (ucast (drop_bit 8 v)) (ucast v) = (v :: u16)"
  by (rule bit_word_eqI) (auto simp: be_word16_def bit_simps)

lemma be_word32_bytes [simp]:
  "be_word32 (ucast (drop_bit 24 v)) (ucast (drop_bit 16 v)) (ucast (drop_bit 8 v)) (ucast v)
     = (v :: u32)"
proof (rule bit_word_eqI)
  fix n
  assume "n < LENGTH(32)"
  then have "n < 8 \<or> (8 \<le> n \<and> n < 16) \<or> (16 \<le> n \<and> n < 24) \<or> (24 \<le> n \<and> n < 32)"
    by auto
  then show "bit (be_word32 (ucast (drop_bit 24 v)) (ucast (drop_bit 16 v)) (ucast (drop_bit 8 v)) (ucast v)) n
      = bit v n"
    by (elim disjE) (auto simp: be_word32_def bit_simps)
qed

lemma be_bytes32_length [simp]: "length (be_bytes32 v) = 4"
  by (simp add: be_bytes32_def)

lemma be_bytes16_length [simp]: "length (be_bytes16 v) = 2"
  by (simp add: be_bytes16_def)

lemma be_byte32:
  "ucast (be_word32 a b c d) = d"
  "ucast (drop_bit 8 (be_word32 a b c d)) = c"
  "ucast (drop_bit 16 (be_word32 a b c d)) = b"
  "ucast (drop_bit 24 (be_word32 a b c d)) = a"
  by (rule bit_word_eqI, auto simp: be_word32_def bit_simps dest: bit_imp_le_length)+

lemma be_byte16:
  "ucast (be_word16 a b) = b"
  "ucast (drop_bit 8 (be_word16 a b)) = a"
  by (rule bit_word_eqI, auto simp: be_word16_def bit_simps dest: bit_imp_le_length)+

end
