(* ===== verification/Isa.thy ===== *)
theory Isa
  imports Prelude
begin

text \<open>
  The instruction table and encoder of \<^verbatim>\<open>emu/isa.c\<close> and \<^verbatim>\<open>emu/isa.h\<close>, shared by the assembler
  and the emulator: one \<^verbatim>\<open>Insn\<close> row per mnemonic and operand shape, the register names, and
  \<^verbatim>\<open>isa_encode\<close>, which places each operand value in its bit field of the 32-bit words of
  the instruction and writes the words in big-endian order.

  The property of this theory is that the table and the encoder agree: for every row and
  every operand in range, the encoded words carry the row's fixed bits unchanged and each
  operand can be read back from its field.
\<close>

section \<open>Data of the table\<close>

datatype op_kind = OP_NONE | OP_REG | OP_IMM

text \<open>\<^verbatim>\<open>OpField\<close>: \<^verbatim>\<open>pos[1]\<close> is \<open>None\<close> where the C table has \<open>-1\<close>.\<close>

record op_field =
  op_kind :: op_kind
  op_pos0 :: nat
  op_pos1 :: "nat option"

text \<open>\<^verbatim>\<open>Insn\<close>: the arrays hold the \<open>nwords\<close> entries in use.\<close>

record insn =
  in_name :: string
  in_nwords :: nat
  in_bits :: "u32 list"
  in_mask :: "u32 list"
  in_ops :: "op_field list list"
  in_opcount :: nat

definition REG :: "nat \<Rightarrow> op_field" where
  "REG p = \<lparr>op_kind = OP_REG, op_pos0 = p, op_pos1 = None\<rparr>"

definition IMM :: "nat \<Rightarrow> op_field" where
  "IMM p = \<lparr>op_kind = OP_IMM, op_pos0 = p, op_pos1 = None\<rparr>"

text \<open>The position of an unused field is never read; the C macro fills in \<open>-1\<close>.\<close>

definition NONE :: op_field where
  "NONE = \<lparr>op_kind = OP_NONE, op_pos0 = 0, op_pos1 = None\<rparr>"

definition row :: "string \<Rightarrow> nat \<Rightarrow> u32 list \<Rightarrow> u32 list \<Rightarrow> op_field list list \<Rightarrow> nat \<Rightarrow> insn" where
  "row name nwords bits msk ops opcount =
     \<lparr>in_name = name, in_nwords = nwords, in_bits = bits, in_mask = msk, in_ops = ops,
      in_opcount = opcount\<rparr>"

definition reg_names :: "string list" where
  "reg_names =
     [''zr'', ''r1'', ''r2'', ''r3'', ''r4'', ''r5'', ''r6'', ''r7'',
      ''r8'', ''r9'', ''r10'', ''r11'', ''r12'', ''r13'', ''sp'', ''flags'']"

definition isa_table :: "insn list" where
  "isa_table = [
   row ''nop'' 1 [0x00000000] [0xFFFFFFFF]
     [[NONE, NONE, NONE]] 0,
   row ''in'' 1 [0x01000000] [0xFF00FFFF]
     [[REG 20, NONE, NONE]] 1,
   row ''out'' 1 [0x02000000] [0xFFFF00FF]
     [[REG 8, NONE, NONE]] 1,
   row ''out'' 1 [0x12000000] [0xFFFF0000]
     [[IMM 0, NONE, NONE]] 1,
   row ''keyboard'' 1 [0x03000000] [0xFF00FFFF]
     [[REG 20, NONE, NONE]] 1,
   row ''screen'' 1 [0x04000000] [0xFFF0F0FF]
     [[REG 16, REG 8, NONE]] 2,
   row ''screen'' 1 [0x14000000] [0xFFF00000]
     [[REG 16, IMM 0, NONE]] 2,
   row ''time_0'' 1 [0x05000000] [0xFF00FFFF]
     [[REG 20, NONE, NONE]] 1,
   row ''time_1'' 1 [0x06000000] [0xFF00FFFF]
     [[REG 20, NONE, NONE]] 1,
   row ''counter'' 1 [0x07000000] [0xFF00FFFF]
     [[REG 20, NONE, NONE]] 1,
   row ''mov'' 1 [0x21000000] [0xFFF0F0FF]
     [[REG 20, REG 8, NONE]] 2,
   row ''mov'' 1 [0x31000000] [0xFFF00000]
     [[REG 20, IMM 0, NONE]] 2,
   row ''neg'' 1 [0x25000000] [0xFFF0F0FF]
     [[REG 20, REG 8, NONE]] 2,
   row ''neg'' 1 [0x35000000] [0xFFF00000]
     [[REG 20, IMM 0, NONE]] 2,
   row ''not'' 1 [0x23000000] [0xFF00F0FF]
     [[REG 20, \<lparr>op_kind = OP_REG, op_pos0 = 16, op_pos1 = Some 8\<rparr>, NONE]] 2,
   row ''not'' 1 [0x33000000] [0xFFF00000]
     [[REG 20, IMM 0, NONE]] 2,
   row ''nand'' 1 [0x20000000] [0xFF00F0FF]
     [[REG 20, REG 16, REG 8]] 3,
   row ''or'' 1 [0x21000000] [0xFF00F0FF]
     [[REG 20, REG 16, REG 8]] 3,
   row ''and'' 1 [0x22000000] [0xFF00F0FF]
     [[REG 20, REG 16, REG 8]] 3,
   row ''nor'' 1 [0x23000000] [0xFF00F0FF]
     [[REG 20, REG 16, REG 8]] 3,
   row ''add'' 1 [0x24000000] [0xFF00F0FF]
     [[REG 20, REG 16, REG 8]] 3,
   row ''sub'' 1 [0x25000000] [0xFF00F0FF]
     [[REG 20, REG 16, REG 8]] 3,
   row ''xor'' 1 [0x26000000] [0xFF00F0FF]
     [[REG 20, REG 16, REG 8]] 3,
   row ''lsl'' 1 [0x27000000] [0xFF00F0FF]
     [[REG 20, REG 16, REG 8]] 3,
   row ''lsr'' 1 [0x28000000] [0xFF00F0FF]
     [[REG 20, REG 16, REG 8]] 3,
   row ''asr'' 1 [0x29000000] [0xFF00F0FF]
     [[REG 20, REG 16, REG 8]] 3,
   row ''mul'' 1 [0x2B000000] [0xFF00F0FF]
     [[REG 20, REG 16, REG 8]] 3,
   row ''div'' 1 [0x2C000000] [0xFF00F0FF]
     [[REG 20, REG 16, REG 8]] 3,
   row ''mod'' 1 [0x2D000000] [0xFF00F0FF]
     [[REG 20, REG 16, REG 8]] 3,
   row ''cmp'' 1 [0x2AF00000] [0xFFF0F0FF]
     [[REG 16, REG 8, NONE]] 2,
   row ''nand'' 1 [0x30000000] [0xFF000000]
     [[REG 20, REG 16, IMM 0]] 3,
   row ''or'' 1 [0x31000000] [0xFF000000]
     [[REG 20, REG 16, IMM 0]] 3,
   row ''and'' 1 [0x32000000] [0xFF000000]
     [[REG 20, REG 16, IMM 0]] 3,
   row ''nor'' 1 [0x33000000] [0xFF000000]
     [[REG 20, REG 16, IMM 0]] 3,
   row ''add'' 1 [0x34000000] [0xFF000000]
     [[REG 20, REG 16, IMM 0]] 3,
   row ''sub'' 1 [0x35000000] [0xFF000000]
     [[REG 20, REG 16, IMM 0]] 3,
   row ''xor'' 1 [0x36000000] [0xFF000000]
     [[REG 20, REG 16, IMM 0]] 3,
   row ''lsl'' 1 [0x37000000] [0xFF000000]
     [[REG 20, REG 16, IMM 0]] 3,
   row ''lsr'' 1 [0x38000000] [0xFF000000]
     [[REG 20, REG 16, IMM 0]] 3,
   row ''asr'' 1 [0x39000000] [0xFF000000]
     [[REG 20, REG 16, IMM 0]] 3,
   row ''mul'' 1 [0x3B000000] [0xFF000000]
     [[REG 20, REG 16, IMM 0]] 3,
   row ''div'' 1 [0x3C000000] [0xFF000000]
     [[REG 20, REG 16, IMM 0]] 3,
   row ''mod'' 1 [0x3D000000] [0xFF000000]
     [[REG 20, REG 16, IMM 0]] 3,
   row ''cmp'' 1 [0x3AF00000] [0xFFF00000]
     [[REG 16, IMM 0, NONE]] 2,
   row ''jmp'' 1 [0x480F0000] [0xFFFF0FFF]
     [[REG 8, NONE, NONE]] 1,
   row ''jmp'' 1 [0x580F0000] [0xFFFF0000]
     [[IMM 0, NONE, NONE]] 1,
   row ''je'' 1 [0x510F0000] [0xFFFF0000]
     [[IMM 0, NONE, NONE]] 1,
   row ''jne'' 1 [0x590F0000] [0xFFFF0000]
     [[IMM 0, NONE, NONE]] 1,
   row ''jb'' 1 [0x520F0000] [0xFFFF0000]
     [[IMM 0, NONE, NONE]] 1,
   row ''jae'' 1 [0x5A0F0000] [0xFFFF0000]
     [[IMM 0, NONE, NONE]] 1,
   row ''jbe'' 1 [0x530F0000] [0xFFFF0000]
     [[IMM 0, NONE, NONE]] 1,
   row ''ja'' 1 [0x5B0F0000] [0xFFFF0000]
     [[IMM 0, NONE, NONE]] 1,
   row ''jl'' 1 [0x540F0000] [0xFFFF0000]
     [[IMM 0, NONE, NONE]] 1,
   row ''jge'' 1 [0x5C0F0000] [0xFFFF0000]
     [[IMM 0, NONE, NONE]] 1,
   row ''jle'' 1 [0x550F0000] [0xFFFF0000]
     [[IMM 0, NONE, NONE]] 1,
   row ''jg'' 1 [0x5D0F0000] [0xFFFF0000]
     [[IMM 0, NONE, NONE]] 1,
   row ''load_8'' 1 [0x60000000] [0xFFF0F0FF]
     [[REG 20, REG 8, NONE]] 2,
   row ''load_16'' 1 [0x61000000] [0xFFF0F0FF]
     [[REG 20, REG 8, NONE]] 2,
   row ''load_32'' 1 [0x62000000] [0xFFF0F0FF]
     [[REG 20, REG 8, NONE]] 2,
   row ''pload'' 1 [0x63000000] [0xFFF0F0FF]
     [[REG 20, REG 8, NONE]] 2,
   row ''store_8'' 1 [0x64000000] [0xFF0FF0FF]
     [[REG 8, REG 16, NONE]] 2,
   row ''store_16'' 1 [0x65000000] [0xFF0FF0FF]
     [[REG 8, REG 16, NONE]] 2,
   row ''store_32'' 1 [0x66000000] [0xFF0FF0FF]
     [[REG 8, REG 16, NONE]] 2,
   row ''pstore'' 1 [0x67000000] [0xFF0FF0FF]
     [[REG 8, REG 16, NONE]] 2,
   row ''load_8'' 1 [0x70000000] [0xFFF00000]
     [[REG 20, IMM 0, NONE]] 2,
   row ''load_16'' 1 [0x71000000] [0xFFF00000]
     [[REG 20, IMM 0, NONE]] 2,
   row ''load_32'' 1 [0x72000000] [0xFFF00000]
     [[REG 20, IMM 0, NONE]] 2,
   row ''pload'' 1 [0x73000000] [0xFFF00000]
     [[REG 20, IMM 0, NONE]] 2,
   row ''store_8'' 1 [0x74000000] [0xFF0F0000]
     [[IMM 0, REG 16, NONE]] 2,
   row ''store_16'' 1 [0x75000000] [0xFF0F0000]
     [[IMM 0, REG 16, NONE]] 2,
   row ''store_32'' 1 [0x76000000] [0xFF0F0000]
     [[IMM 0, REG 16, NONE]] 2,
   row ''pstore'' 1 [0x77000000] [0xFF0F0000]
     [[IMM 0, REG 16, NONE]] 2,
   row ''push'' 2 [0x35EE0004, 0x66000E00] [0xFFFFFFFF, 0xFFF0FFFF]
     [[NONE, NONE, NONE], [REG 16, NONE, NONE]] 1,
   row ''pop'' 2 [0x62000E00, 0x34EE0004] [0xFFF0FFFF, 0xFFFFFFFF]
     [[REG 20, NONE, NONE], [NONE, NONE, NONE]] 1,
   row ''call'' 5 [0x07F00000, 0x34FF0014, 0x35EE0004, 0x660F0E00, 0x580F0000] [0xFFFFFFFF, 0xFFFFFFFF, 0xFFFFFFFF, 0xFFFFFFFF, 0xFFFF0000]
     [[NONE, NONE, NONE], [NONE, NONE, NONE], [NONE, NONE, NONE], [NONE, NONE, NONE], [IMM 0, NONE, NONE]] 1,
   row ''ret'' 3 [0x62F00E00, 0x34EE0004, 0x480F0F00] [0xFFFFFFFF, 0xFFFFFFFF, 0xFFFFFFFF]
     [[NONE, NONE, NONE], [NONE, NONE, NONE], [NONE, NONE, NONE]] 0]"


section \<open>Lookup and encoding\<close>

definition isa_find :: "string \<Rightarrow> insn option" where
  "isa_find name = find (\<lambda>i. in_name i = name) isa_table"

text \<open>The linear search of \<^verbatim>\<open>isa_reg_index\<close>, from index \<open>i\<close>; \<open>-1\<close> when no name matches.\<close>

fun reg_index_from :: "nat \<Rightarrow> string list \<Rightarrow> string \<Rightarrow> int" where
  "reg_index_from i [] name = -1"
| "reg_index_from i (r # rs) name = (if r = name then int i else reg_index_from (Suc i) rs name)"

definition isa_reg_index :: "string \<Rightarrow> int" where
  "isa_reg_index name = reg_index_from 0 reg_names name"

text \<open>
  The operand values are the C array \<^verbatim>\<open>vals\<close>, a function of the index; \<open>vi\<close> counts the
  operands over all words of the instruction.
\<close>

fun encode_fields :: "op_field list \<Rightarrow> (nat \<Rightarrow> u32) \<Rightarrow> nat \<Rightarrow> u32 \<Rightarrow> u32 \<times> nat" where
  "encode_fields [] vals vi word = (word, vi)"
| "encode_fields (f # fs) vals vi word =
     (if op_kind f = OP_NONE then encode_fields fs vals vi word
      else
        let v = vals vi;
            word1 = word OR push_bit (op_pos0 f) v;
            word2 = (case op_pos1 f of None \<Rightarrow> word1 | Some p \<Rightarrow> word1 OR push_bit p v)
        in encode_fields fs vals (Suc vi) word2)"

fun encode_words :: "(u32 \<times> op_field list) list \<Rightarrow> (nat \<Rightarrow> u32) \<Rightarrow> nat \<Rightarrow> u32 list" where
  "encode_words [] vals vi = []"
| "encode_words ((bits, fs) # ws) vals vi =
     (let (word, vi') = encode_fields fs vals vi bits in word # encode_words ws vals vi')"

definition isa_encode_words :: "insn \<Rightarrow> (nat \<Rightarrow> u32) \<Rightarrow> u32 list" where
  "isa_encode_words insn vals =
     encode_words (take (in_nwords insn) (zip (in_bits insn) (in_ops insn))) vals 0"

definition isa_encode :: "insn \<Rightarrow> (nat \<Rightarrow> u32) \<Rightarrow> u8 list" where
  "isa_encode insn vals = concat (map be_bytes32 (isa_encode_words insn vals))"


section \<open>Well-formed rows\<close>

definition live :: "op_field list \<Rightarrow> op_field list" where
  "live fs = filter (\<lambda>f. op_kind f \<noteq> OP_NONE) fs"

definition field_width :: "op_field \<Rightarrow> nat" where
  "field_width f = (if op_kind f = OP_REG then 4 else 16)"

definition field_range :: "op_field \<Rightarrow> nat list" where
  "field_range f =
     [op_pos0 f ..< op_pos0 f + field_width f] @
     (case op_pos1 f of None \<Rightarrow> [] | Some p \<Rightarrow> [p ..< p + field_width f])"

text \<open>
  A word of a row is well formed when its operand fields lie inside the word, overlap each
  other nowhere, leave the opcode byte alone, and the fixed bits are zero where a field goes.
\<close>

definition word_wf :: "u32 \<Rightarrow> op_field list \<Rightarrow> bool" where
  "word_wf bits fs \<longleftrightarrow>
     (let ps = concat (map field_range (live fs))
      in distinct ps \<and> list_all (\<lambda>n. n < 24 \<and> \<not> bit bits n) ps)"

definition row_wf :: "insn \<Rightarrow> bool" where
  "row_wf i \<longleftrightarrow>
     length (in_bits i) = in_nwords i \<and> length (in_ops i) = in_nwords i \<and>
     in_opcount i = length (concat (map live (in_ops i))) \<and>
     list_all (\<lambda>(b, fs). word_wf b fs) (zip (in_bits i) (in_ops i))"

text \<open>
  \<^verbatim>\<open>isa.h\<close> describes \<^verbatim>\<open>mask\<close> as the fixed bits of each word, zero on the operand fields. No
  code reads it.
\<close>

definition mask_wf :: "insn \<Rightarrow> bool" where
  "mask_wf i \<longleftrightarrow>
     list_all (\<lambda>(m, fs). list_all (\<lambda>n. \<not> bit m n) (concat (map field_range (live fs))))
       (zip (in_mask i) (in_ops i))"

lemma isa_table_wf: "list_all row_wf isa_table"
  by code_simp

lemma isa_table_names: "length isa_table = 76"
  by code_simp


section \<open>What the encoder writes\<close>

text \<open>The operand fields in order, each with the index of the word that holds it.\<close>

definition operand_fields :: "insn \<Rightarrow> (nat \<times> op_field) list" where
  "operand_fields i = concat (map (\<lambda>w. map (Pair w) (live (in_ops i ! w))) [0 ..< in_nwords i])"

definition operand_in_range :: "op_field \<Rightarrow> u32 \<Rightarrow> bool" where
  "operand_in_range f v \<longleftrightarrow> (if op_kind f = OP_REG then v < 16 else v \<le> 0xFFFF)"

definition operands_ok :: "insn \<Rightarrow> (nat \<Rightarrow> u32) \<Rightarrow> bool" where
  "operands_ok i vals \<longleftrightarrow>
     (\<forall>k < length (operand_fields i). operand_in_range (snd (operand_fields i ! k)) (vals k))"

definition field_of :: "op_field \<Rightarrow> u32 \<Rightarrow> u32" where
  "field_of f x = drop_bit (op_pos0 f) x AND mask (field_width f)"

lemma in_range_not_bit:
  "operand_in_range f v \<Longrightarrow> field_width f \<le> n \<Longrightarrow> \<not> bit v n"
  by (auto simp: operand_in_range_def field_width_def reg_not_bit imm_not_bit split: if_splits)

text \<open>The bits a field's value contributes to its word.\<close>

definition put :: "op_field \<Rightarrow> u32 \<Rightarrow> u32" where
  "put f v = push_bit (op_pos0 f) v OR (case op_pos1 f of None \<Rightarrow> 0 | Some p \<Rightarrow> push_bit p v)"

lemma live_Cons:
  "live (f # fs) = (if op_kind f = OP_NONE then live fs else f # live fs)"
  by (simp add: live_def)

lemma encode_fields_index: "snd (encode_fields fs vals vi word) = vi + length (live fs)"
  by (induction fs vals vi word rule: encode_fields.induct)
    (auto simp: live_def Let_def split: option.splits)

lemma encode_fields_bit:
  "bit (fst (encode_fields fs vals vi word)) n \<longleftrightarrow>
     bit word n \<or> (\<exists>j < length (live fs). bit (put (live fs ! j) (vals (vi + j))) n)"
proof (induction fs vals vi word rule: encode_fields.induct)
  case (1 vals vi word)
  show ?case by (simp add: live_def)
next
  case (2 f fs vals vi word)
  show ?case
  proof (cases "op_kind f = OP_NONE")
    case True
    with 2 show ?thesis by (simp add: live_Cons)
  next
    case False
    let ?w = "word OR put f (vals vi)"
    have step: "encode_fields (f # fs) vals vi word = encode_fields fs vals (Suc vi) ?w"
      using False by (simp add: put_def Let_def or.assoc split: option.splits)
    have "bit (fst (encode_fields fs vals (Suc vi) ?w)) n \<longleftrightarrow>
        bit ?w n \<or> (\<exists>j < length (live fs). bit (put (live fs ! j) (vals (Suc vi + j))) n)"
      using 2(2) [OF False refl refl] False
      by (simp add: put_def Let_def or.assoc split: option.splits)
    then show ?thesis
      using False unfolding step
      by (simp add: live_Cons Ex_less_Suc2 bit_or_iff ac_simps)
  qed
qed


lemma push_bit_span:
  assumes "operand_in_range f v" and "bit (push_bit p v) n"
  shows "p \<le> n \<and> n < p + field_width f"
proof -
  from assms(2) have "p \<le> n" and "bit v (n - p)"
    by (simp_all add: bit_push_bit_iff)
  then have "n - p < field_width f"
    using in_range_not_bit [OF assms(1), of "n - p"] by (cases "n - p < field_width f") auto
  with \<open>p \<le> n\<close> show ?thesis by arith
qed

lemma put_bit_range:
  assumes "operand_in_range f v" and "bit (put f v) n"
  shows "n \<in> set (field_range f)"
  using assms(2) push_bit_span [OF assms(1), of _ n]
  by (auto simp: put_def field_range_def bit_or_iff split: option.splits)

lemma distinct_concat_index:
  "distinct (concat xss) \<Longrightarrow> i < length xss \<Longrightarrow> j < length xss \<Longrightarrow> x \<in> set (xss ! i)
    \<Longrightarrow> x \<in> set (xss ! j) \<Longrightarrow> i = j"
proof (induction xss arbitrary: i j)
  case Nil
  then show ?case by simp
next
  case (Cons ys yss)
  have sub: "k < length yss \<Longrightarrow> x \<in> set (yss ! k) \<Longrightarrow> x \<in> \<Union> (set ` set yss)" for k
    by auto
  from Cons show ?case
    by (cases i; cases j) (auto dest!: sub)
qed

text \<open>Bits outside the fields are the row's; each field holds its operand.\<close>

lemma encode_fields_frame:
  assumes "\<And>j. j < length (live fs) \<Longrightarrow> operand_in_range (live fs ! j) (vals (vi + j))"
    and "n \<notin> set (concat (map field_range (live fs)))"
  shows "bit (fst (encode_fields fs vals vi bits)) n = bit bits n"
proof -
  have "\<not> bit (put (live fs ! j) (vals (vi + j))) n" if "j < length (live fs)" for j
    using put_bit_range [OF assms(1) [OF that], of n] assms(2) nth_mem [OF that] by auto
  then show ?thesis
    by (auto simp: encode_fields_bit)
qed

lemma encode_fields_operand:
  assumes wf: "word_wf bits fs" and j: "j < length (live fs)"
    and ok: "\<And>j. j < length (live fs) \<Longrightarrow> operand_in_range (live fs ! j) (vals (vi + j))"
  shows "field_of (live fs ! j) (fst (encode_fields fs vals vi bits)) = vals (vi + j)"
proof (rule bit_word_eqI)
  fix n
  let ?f = "live fs ! j" and ?v = "vals (vi + j)" and ?w = "fst (encode_fields fs vals vi bits)"
  let ?ps = "map field_range (live fs)"
  from wf have dist: "distinct (concat ?ps)"
    and zero: "\<And>n. n \<in> set (concat ?ps) \<Longrightarrow> n < 24 \<and> \<not> bit bits n"
    by (auto simp: word_wf_def Let_def list_all_iff)
  show "bit (field_of ?f ?w) n = bit ?v n"
  proof (cases "n < field_width ?f")
    case False
    with in_range_not_bit [OF ok [OF j]] show ?thesis
      by (simp add: field_of_def bit_and_iff bit_mask_iff)
  next
    case True
    let ?n = "op_pos0 ?f + n"
    have rng: "?n \<in> set (field_range ?f)"
      using True by (auto simp: field_range_def)
    with j have "?n \<in> set (concat ?ps)" by auto
    with zero have z: "?n < 24" "\<not> bit bits ?n" by auto
    have "bit (put ?f ?v) ?n = bit ?v n"
    proof -
      have "field_range ?f \<in> set ?ps"
        using j by simp
      then have "distinct (field_range ?f)"
        using dist by (auto simp: distinct_concat_iff)
      then have "\<not> bit (push_bit p ?v) ?n" if "op_pos1 ?f = Some p" for p
      proof -
        have "\<not> (p \<le> ?n \<and> ?n < p + field_width ?f)"
          using \<open>distinct (field_range ?f)\<close> that True
          by (auto simp: field_range_def disjoint_iff)
        then show ?thesis
          using push_bit_span [OF ok [OF j], of p ?n] by blast
      qed
      with z True show ?thesis
        by (auto simp: put_def bit_or_iff bit_push_bit_iff split: option.splits)
    qed
    moreover have "k = j" if "k < length (live fs)" "bit (put (live fs ! k) (vals (vi + k))) ?n" for k
      using put_bit_range [OF ok [OF that(1)] that(2)] rng
        distinct_concat_index [OF dist, of k j ?n] that(1) j by simp
    ultimately have "bit ?w ?n = bit ?v n"
      using j z by (auto simp: encode_fields_bit)
    with True z show ?thesis
      by (simp add: field_of_def bit_and_iff bit_mask_iff bit_drop_bit_eq)
  qed
qed


text \<open>The words of an instruction, one by one.\<close>

definition operand_base :: "op_field list list \<Rightarrow> nat \<Rightarrow> nat" where
  "operand_base fss w = length (concat (map live (take w fss)))"

lemma operand_base_simps [simp]:
  "operand_base fss 0 = 0"
  "operand_base (fs # fss) (Suc w) = length (live fs) + operand_base fss w"
  by (simp_all add: operand_base_def)

lemma encode_words_nth:
  "w < length ws \<Longrightarrow> encode_words ws vals vi ! w =
     fst (encode_fields (snd (ws ! w)) vals (vi + operand_base (map snd ws) w) (fst (ws ! w)))"
proof (induction ws vals vi arbitrary: w rule: encode_words.induct)
  case (1 vals vi)
  then show ?case by simp
next
  case (2 bits fs ws vals vi)
  obtain word vi' where e: "encode_fields fs vals vi bits = (word, vi')"
    by (cases "encode_fields fs vals vi bits") auto
  then have "vi' = vi + length (live fs)"
    using encode_fields_index [of fs vals vi bits] by simp
  with 2 e show ?case
    by (cases w) (auto simp: add.assoc)
qed

lemma length_encode_words [simp]: "length (encode_words ws vals vi) = length ws"
  by (induction ws vals vi rule: encode_words.induct) (auto simp: Let_def split: prod.splits)

lemma length_isa_encode_words [simp]:
  "row_wf i \<Longrightarrow> length (isa_encode_words i vals) = in_nwords i"
  by (simp add: isa_encode_words_def row_wf_def)

lemma concat_be_bytes32_length [simp]: "length (concat (map be_bytes32 ws)) = 4 * length ws"
  by (induction ws) auto

lemma concat_split: "xs ! w = x \<Longrightarrow> w < length xs \<Longrightarrow> xs = take w xs @ x # drop (Suc w) xs"
  using id_take_nth_drop by metis

lemma operand_fields_split:
  assumes "w < in_nwords i" and "length (in_ops i) = in_nwords i" and "j < length (live (in_ops i ! w))"
  shows "operand_fields i ! (operand_base (in_ops i) w + j) = (w, live (in_ops i ! w) ! j)
       \<and> operand_base (in_ops i) w + j < length (operand_fields i)"
proof -
  let ?g = "\<lambda>w. map (Pair w) (live (in_ops i ! w))"
  have up: "[0 ..< in_nwords i] = [0 ..< w] @ w # [Suc w ..< in_nwords i]"
    using assms(1) by (metis le_add_same_cancel1 less_imp_le_nat upt_add_eq_append upt_conv_Cons zero_le le_Suc_ex)
  have len: "length (concat (map ?g [0 ..< w])) = operand_base (in_ops i) w"
  proof -
    have "map length (map ?g [0 ..< w]) = map length (map live (take w (in_ops i)))"
      using assms(1,2) by (intro nth_equalityI) auto
    then show ?thesis
      by (simp add: operand_base_def length_concat del: map_map)
  qed
  show ?thesis
    unfolding operand_fields_def up using assms(3) len
    by (simp add: nth_append)
qed

text \<open>C24: encoding places every operand of every instruction in its own field.\<close>

theorem isa_encode_operands:
  assumes "i \<in> set isa_table" and "operands_ok i vals"
  shows "length (isa_encode i vals) = 4 * in_nwords i
    \<and> (\<forall>w < in_nwords i.
         drop_bit 24 (isa_encode_words i vals ! w) = drop_bit 24 (in_bits i ! w)
         \<and> (\<forall>j < length (live (in_ops i ! w)).
              field_of (live (in_ops i ! w) ! j) (isa_encode_words i vals ! w)
                = vals (operand_base (in_ops i) w + j)))"
proof -
  from assms(1) isa_table_wf have wf: "row_wf i"
    by (auto simp: list_all_iff)
  then have lens: "length (in_bits i) = in_nwords i" "length (in_ops i) = in_nwords i"
    by (auto simp: row_wf_def)
  have word: "drop_bit 24 (isa_encode_words i vals ! w) = drop_bit 24 (in_bits i ! w)
      \<and> (\<forall>j < length (live (in_ops i ! w)).
           field_of (live (in_ops i ! w) ! j) (isa_encode_words i vals ! w)
             = vals (operand_base (in_ops i) w + j))" if w: "w < in_nwords i" for w
  proof -
    let ?fs = "in_ops i ! w" and ?b = "operand_base (in_ops i) w"
    have nth: "isa_encode_words i vals ! w = fst (encode_fields ?fs vals ?b (in_bits i ! w))"
      using w lens by (simp add: isa_encode_words_def encode_words_nth)
    have wwf: "word_wf (in_bits i ! w) ?fs"
      using wf w lens by (auto simp: row_wf_def list_all_length)
    have ok: "operand_in_range (live ?fs ! j) (vals (?b + j))" if "j < length (live ?fs)" for j
      using operand_fields_split [OF w lens(2) that] assms(2) by (auto simp: operands_ok_def)
    have "bit (fst (encode_fields ?fs vals ?b (in_bits i ! w))) n = bit (in_bits i ! w) n"
      if "24 \<le> n" for n
    proof (intro encode_fields_frame ok)
      show "n \<notin> set (concat (map field_range (live ?fs)))"
        using that wwf unfolding word_wf_def Let_def list_all_iff by (meson leD)
    qed
    then have "drop_bit 24 (isa_encode_words i vals ! w) = drop_bit 24 (in_bits i ! w)"
      unfolding nth by (intro bit_word_eqI) (simp add: bit_drop_bit_eq)
    then show ?thesis
      unfolding nth by (auto intro: encode_fields_operand [OF wwf] ok)
  qed
  show ?thesis
    using word wf by (auto simp: isa_encode_def)
qed


text \<open>A register operand and an immediate: \<^verbatim>\<open>sub r3, r1, 4\<close>.\<close>

theorem isa_encode_operands_witness:
  "row ''sub'' 1 [0x35000000] [0xFF000000] [[REG 20, REG 16, IMM 0]] 3 \<in> set isa_table \<and>
   (let i = row ''sub'' 1 [0x35000000] [0xFF000000] [[REG 20, REG 16, IMM 0]] 3;
        vals = (\<lambda>k. if k = 0 then 3 else if k = 1 then 1 else 4)
    in length (isa_encode i vals) = 4 \<and> drop_bit 24 (isa_encode_words i vals ! 0) = 0x35
       \<and> field_of (REG 20) (isa_encode_words i vals ! 0) = 3)"
proof -
  let ?i = "row ''sub'' 1 [0x35000000] [0xFF000000] [[REG 20, REG 16, IMM 0]] 3"
  let ?vals = "\<lambda>k. if k = 0 then 3 else if k = 1 then 1 else 4 :: u32"
  have mem: "?i \<in> set isa_table"
    by (simp add: isa_table_def)
  have fs: "operand_fields ?i = [(0, REG 20), (0, REG 16), (0, IMM 0)]"
    by (simp add: operand_fields_def row_def live_def REG_def IMM_def)
  have ok: "operands_ok ?i ?vals"
    by (simp add: operands_ok_def fs operand_in_range_def REG_def IMM_def less_Suc_eq numeral_3_eq_3)
  from isa_encode_operands [OF mem ok] mem show ?thesis
    by (auto simp: row_def live_def REG_def IMM_def operand_base_def Let_def)
qed

text \<open>
  The encoding masks that \<^verbatim>\<open>isa.h\<close> documents as zero on every operand field are set on
  an operand field in exactly these rows; no code reads the masks.
\<close>

theorem isa_table_masks:
  "map in_name (filter (\<lambda>i. \<not> mask_wf i) isa_table) =
     [''mov'', ''mov'', ''neg'', ''neg'', ''not'', ''jmp'', ''load_8'', ''load_16'', ''load_32'',
      ''pload'', ''store_8'', ''store_16'', ''store_32'', ''pstore'', ''load_8'', ''load_16'',
      ''load_32'', ''pload'', ''store_8'', ''store_16'', ''store_32'', ''pstore'', ''pop'']"
  by code_simp

end
