(* ===== verification/Emu.thy ===== *)
theory Emu
  imports Isa
begin

text \<open>
  The instruction emulator of \<^verbatim>\<open>emu/emu.c\<close>. The locals of \<^verbatim>\<open>emu_run_ex\<close> and the buffers of its
  result are the record \<open>emu\<close>; what stays fixed during a run (buffer sizes, address masks, the
  options) is the record \<open>emu_env\<close>. One definition per group of cases of the \<^verbatim>\<open>switch\<close> returns
  \<open>None\<close> when the opcode belongs to another group; \<open>exec_insn\<close> is the whole \<^verbatim>\<open>switch\<close>, \<open>emu_step\<close>
  one pass of the loop, \<open>emu_loop\<close> the loop, which recurses on the instructions still allowed.

  The observer and keyboard callbacks are arguments: functions on the caller's \<^verbatim>\<open>opaque\<close>
  value, of type \<open>'o\<close>. The observer is given the registers, settings and buffers to read. The
  size of main memory is the C \<^verbatim>\<open>size_t\<close>, 64 bits wide on the host, and buffers are functions of
  a 64-bit index, so that an access outside the buffer is a statement about the model and not
  undefined.
\<close>

section \<open>State\<close>

record 'o emu =
  regs :: "nat \<Rightarrow> u32"
  settings :: "nat \<Rightarrow> u32"
  last_a :: u32
  last_b :: u32
  pc :: u64
  ram :: "u64 \<Rightarrow> u8"
  dsk :: "u64 \<Rightarrow> u8"
  key_index :: nat
  time_high :: u32
  instructions :: u64
  printed :: "u32 list"
  opaque :: 'o

type_synonym 'o observer =
  "(nat \<Rightarrow> u32) \<Rightarrow> (nat \<Rightarrow> u32) \<Rightarrow> (u64 \<Rightarrow> u8) \<Rightarrow> (u64 \<Rightarrow> u8) \<Rightarrow> u64 \<Rightarrow> 'o \<Rightarrow> bool \<times> 'o"

record 'o emu_options =
  opt_disk :: "u8 list option"
  opt_disk_len :: u64
  opt_events :: "(u64 \<times> u32) list"
  opt_ns :: u64
  opt_observe :: "'o observer option"
  opt_keyboard :: "('o \<Rightarrow> u32 \<times> 'o) option"
  opt_ram_mask :: u32
  opt_disk_mask :: u32

record 'o emu_env =
  ram_size :: u64
  disk_size :: u64
  ram_mask :: u32
  disk_mask :: u32
  emu_opt :: "'o emu_options option"

record 'o emu_result =
  res_state :: "'o emu"
  res_exit :: int
  res_error :: nat
  res_stop :: nat

text \<open>What a case of the \<^verbatim>\<open>switch\<close> does next: \<^verbatim>\<open>break\<close>, \<^verbatim>\<open>continue\<close>, \<^verbatim>\<open>goto halt\<close>, \<^verbatim>\<open>goto done\<close>.\<close>

datatype flow = Next | Again | Halted | Fault nat

definition UINT32_MAX :: u32 where "UINT32_MAX = 0xFFFFFFFF"
definition DISK_SIZE :: u64 where "DISK_SIZE = push_bit 20 8"
definition SP_DISK_BYTES :: u64 where "SP_DISK_BYTES = 0x2000000"


section \<open>Memory and registers\<close>

definition rd32 :: "(u64 \<Rightarrow> u8) \<Rightarrow> u64 \<Rightarrow> u32" where
  "rd32 m p = push_bit 24 (ucast (m p)) OR push_bit 16 (ucast (m (p + 1)))
     OR push_bit 8 (ucast (m (p + 2))) OR ucast (m (p + 3))"

definition rd16 :: "(u64 \<Rightarrow> u8) \<Rightarrow> u64 \<Rightarrow> u16" where
  "rd16 m p = push_bit 8 (ucast (m p)) OR ucast (m (p + 1))"

definition wr16 :: "u64 \<Rightarrow> u16 \<Rightarrow> (u64 \<Rightarrow> u8) \<Rightarrow> u64 \<Rightarrow> u8" where
  "wr16 p v m = m(p := ucast (drop_bit 8 v), p + 1 := ucast v)"

definition wr32 :: "u64 \<Rightarrow> u32 \<Rightarrow> (u64 \<Rightarrow> u8) \<Rightarrow> u64 \<Rightarrow> u8" where
  "wr32 p v m = m(p := ucast (drop_bit 24 v), p + 1 := ucast (drop_bit 16 v),
     p + 2 := ucast (drop_bit 8 v), p + 3 := ucast v)"

text \<open>\<^verbatim>\<open>set_reg\<close>: writes to register 0 are dropped.\<close>

definition set_reg :: "nat \<Rightarrow> u32 \<Rightarrow> 'o emu \<Rightarrow> 'o emu" where
  "set_reg i v st = (if i > 0 then st\<lparr>regs := (regs st)(i := v)\<rparr> else st)"


section \<open>Decoding\<close>

definition dec_op :: "u32 \<Rightarrow> u32" where "dec_op w = drop_bit 24 w"
definition nibble :: "nat \<Rightarrow> u32 \<Rightarrow> u32" where "nibble p w = drop_bit p w AND 0xF"
definition dec_a :: "u32 \<Rightarrow> nat" where "dec_a w = unat (nibble 20 w)"
definition dec_b :: "u32 \<Rightarrow> nat" where "dec_b w = unat (nibble 16 w)"
definition dec_c :: "u32 \<Rightarrow> nat" where "dec_c w = unat (nibble 8 w)"
definition dec_imm :: "u32 \<Rightarrow> u32" where "dec_imm w = w AND 0xFFFF"

definition fetch_addr :: "'o emu_env \<Rightarrow> 'o emu \<Rightarrow> u64" where
  "fetch_addr env st =
     (if ram_mask env = UINT32_MAX then pc st else pc st AND ucast (ram_mask env))"

definition data_addr :: "'o emu_env \<Rightarrow> u32 \<Rightarrow> 'o emu \<Rightarrow> u64" where
  "data_addr env w st =
     (let b0 = dec_op w;
          msk = (if b0 AND 3 = 3 then disk_mask env else ram_mask env)
      in if b0 AND 0xF8 = 0x60 then ucast (regs st (dec_c w) AND msk)
         else if b0 AND 0xF8 = 0x70 then ucast (dec_imm w AND msk)
         else 0)"


section \<open>The cases of the switch\<close>

type_synonym 'o exec = "(flow \<times> 'o emu) option"

definition set_setting :: "u32 \<Rightarrow> u32 \<Rightarrow> 'o emu \<Rightarrow> 'o exec" where
  "set_setting k v st =
     Some (if k \<ge> 8 then (Fault 2, st)
           else (Next, st\<lparr>settings := (settings st)(unat k := v)\<rparr>))"

text \<open>Opcode 0x03: a scripted event that is due, or the live keyboard when there is no script.\<close>

definition exec_keyboard :: "'o emu_env \<Rightarrow> u64 \<Rightarrow> nat \<Rightarrow> 'o emu \<Rightarrow> 'o emu" where
  "exec_keyboard env t a st =
     (case emu_opt env of
        None \<Rightarrow> set_reg a 0 st
      | Some opt \<Rightarrow>
          (if key_index st < length (opt_events opt) \<and> fst (opt_events opt ! key_index st) \<le> t
           then set_reg a (snd (opt_events opt ! key_index st))
                  (st\<lparr>key_index := Suc (key_index st)\<rparr>)
           else if opt_events opt = [] then
             (case opt_keyboard opt of
                None \<Rightarrow> set_reg a 0 st
              | Some f \<Rightarrow> (let (key, o') = f (opaque st) in set_reg a key (st\<lparr>opaque := o'\<rparr>)))
           else set_reg a 0 st))"

definition elapsed_ns :: "'o emu_env \<Rightarrow> u64 \<Rightarrow> u64" where
  "elapsed_ns env t = (case emu_opt env of None \<Rightarrow> 0 | Some opt \<Rightarrow> t * opt_ns opt)"

definition exec_io :: "'o emu_env \<Rightarrow> u64 \<Rightarrow> u32 \<Rightarrow> 'o emu \<Rightarrow> 'o exec" where
  "exec_io env t w st =
     (let b0 = dec_op w; a = dec_a w; rb = regs st (dec_b w); rc = regs st (dec_c w) in
      if b0 = 0x00 then Some (Next, st)
      else if b0 = 0x01 then Some (Next, set_reg a 0 st)
      else if b0 = 0x02 then Some (Next, st\<lparr>printed := printed st @ [rc]\<rparr>)
      else if b0 = 0x03 then Some (Next, exec_keyboard env t a st)
      else if b0 = 0x04 then set_setting rb rc st
      else if b0 = 0x05 then
        Some (Next, set_reg a (ucast (elapsed_ns env t))
          (st\<lparr>time_high := ucast (drop_bit 32 (elapsed_ns env t))\<rparr>))
      else if b0 = 0x06 then Some (Next, set_reg a (time_high st) st)
      else if b0 = 0x07 then Some (Next, set_reg a (ucast (pc st)) st)
      else if b0 = 0x10 then Some (Next, st\<lparr>printed := printed st @ [dec_imm w]\<rparr>)
      else if b0 = 0x14 then set_setting rb (dec_imm w) st
      else None)"

text \<open>The register forms of the ALU; the arithmetic right shift is of the signed value.\<close>

definition exec_alu_reg :: "u32 \<Rightarrow> 'o emu \<Rightarrow> 'o exec" where
  "exec_alu_reg w st =
     (let b0 = dec_op w; rb = regs st (dec_b w); rc = regs st (dec_c w);
          out = (\<lambda>v. Some (Next, set_reg (dec_a w) v st)) in
      if b0 = 0x20 then out (NOT (rb AND rc))
      else if b0 = 0x21 then out (rb OR rc)
      else if b0 = 0x22 then out (rb AND rc)
      else if b0 = 0x23 then out (NOT (rb OR rc))
      else if b0 = 0x24 then out (rb + rc)
      else if b0 = 0x25 then out (rb - rc)
      else if b0 = 0x26 then out (rb XOR rc)
      else if b0 = 0x27 then out (push_bit (unat (rc AND 31)) rb)
      else if b0 = 0x28 then out (drop_bit (unat (rc AND 31)) rb)
      else if b0 = 0x29 then out (signed_drop_bit (unat (rc AND 31)) rb)
      else if b0 = 0x2A then Some (Next, st\<lparr>last_a := rb, last_b := rc\<rparr>)
      else if b0 = 0x2B then out (rb * rc)
      else if b0 = 0x2C then out (if rc \<noteq> 0 then rb div rc else 0)
      else if b0 = 0x2D then out (if rc \<noteq> 0 then rb mod rc else 0)
      else None)"

definition exec_alu_imm :: "u32 \<Rightarrow> 'o emu \<Rightarrow> 'o exec" where
  "exec_alu_imm w st =
     (let b0 = dec_op w; rb = regs st (dec_b w); im = dec_imm w;
          out = (\<lambda>v. Some (Next, set_reg (dec_a w) v st)) in
      if b0 = 0x30 then out (NOT (rb AND im))
      else if b0 = 0x31 then out (rb OR im)
      else if b0 = 0x32 then out (rb AND im)
      else if b0 = 0x33 then out (NOT (rb OR im))
      else if b0 = 0x34 then out (rb + im)
      else if b0 = 0x35 then out (rb - im)
      else if b0 = 0x36 then out (rb XOR im)
      else if b0 = 0x37 then out (push_bit (unat (im AND 31)) rb)
      else if b0 = 0x38 then out (drop_bit (unat (im AND 31)) rb)
      else if b0 = 0x39 then out (signed_drop_bit (unat (im AND 31)) rb)
      else if b0 = 0x3A then Some (Next, st\<lparr>last_a := rb, last_b := im\<rparr>)
      else if b0 = 0x3B then out (rb * im)
      else if b0 = 0x3C then out (if im \<noteq> 0 then rb div im else 0)
      else if b0 = 0x3D then out (if im \<noteq> 0 then rb mod im else 0)
      else None)"

text \<open>
  A jump to the address of the jump itself halts. The unconditional forms compare with the
  program counter cut to 32 bits, the conditional ones with all of it.
\<close>

definition jump_uncond :: "u32 \<Rightarrow> 'o emu \<Rightarrow> 'o exec" where
  "jump_uncond t st =
     Some (if t = ucast (pc st) then (Halted, st) else (Again, st\<lparr>pc := ucast t\<rparr>))"

definition jump_if :: "bool \<Rightarrow> u32 \<Rightarrow> 'o emu \<Rightarrow> 'o exec" where
  "jump_if cond t st =
     Some (if cond then
             (if ucast t = pc st then (Halted, st) else (Again, st\<lparr>pc := ucast t\<rparr>))
           else (Next, st))"

definition exec_jump :: "u32 \<Rightarrow> 'o emu \<Rightarrow> 'o exec" where
  "exec_jump w st =
     (let b0 = dec_op w; im = dec_imm w; x = last_a st; y = last_b st in
      if b0 = 0x48 then jump_uncond (regs st (dec_c w)) st
      else if b0 = 0x58 then jump_uncond im st
      else if b0 = 0x51 then jump_if (x = y) im st
      else if b0 = 0x59 then jump_if (x \<noteq> y) im st
      else if b0 = 0x52 then jump_if (x < y) im st
      else if b0 = 0x5A then jump_if (x \<ge> y) im st
      else if b0 = 0x53 then jump_if (x \<le> y) im st
      else if b0 = 0x5B then jump_if (x > y) im st
      else if b0 = 0x54 then jump_if (sint x < sint y) im st
      else if b0 = 0x5C then jump_if (sint x \<ge> sint y) im st
      else if b0 = 0x55 then jump_if (sint x \<le> sint y) im st
      else if b0 = 0x5D then jump_if (sint x > sint y) im st
      else None)"

text \<open>Loads and stores; the bounds are checked with 64-bit sums.\<close>

definition guarded :: "bool \<Rightarrow> 'o emu \<Rightarrow> 'o emu \<Rightarrow> 'o exec" where
  "guarded out_of_range st st' = Some (if out_of_range then (Fault 2, st) else (Next, st'))"

definition exec_mem_reg :: "'o emu_env \<Rightarrow> u32 \<Rightarrow> 'o emu \<Rightarrow> 'o exec" where
  "exec_mem_reg env w st =
     (let b0 = dec_op w; a = dec_a w; rb = regs st (dec_b w); p = data_addr env w st;
          m = ram st; d = dsk st; rs = ram_size env; ds = disk_size env in
      if b0 = 0x60 then guarded (p \<ge> rs) st (set_reg a (ucast (m p)) st)
      else if b0 = 0x61 then guarded (p + 2 > rs) st (set_reg a (ucast (rd16 m p)) st)
      else if b0 = 0x62 then guarded (p + 4 > rs) st (set_reg a (rd32 m p) st)
      else if b0 = 0x63 then guarded (p + 4 > ds) st (set_reg a (rd32 d p) st)
      else if b0 = 0x64 then guarded (p \<ge> rs) st (st\<lparr>ram := m(p := ucast rb)\<rparr>)
      else if b0 = 0x65 then guarded (p + 2 > rs) st (st\<lparr>ram := wr16 p (ucast rb) m\<rparr>)
      else if b0 = 0x66 then guarded (p + 4 > rs) st (st\<lparr>ram := wr32 p rb m\<rparr>)
      else if b0 = 0x67 then guarded (p + 4 > ds) st (st\<lparr>dsk := wr32 p rb d\<rparr>)
      else None)"

definition exec_mem_imm :: "'o emu_env \<Rightarrow> u32 \<Rightarrow> 'o emu \<Rightarrow> 'o exec" where
  "exec_mem_imm env w st =
     (let b0 = dec_op w; a = dec_a w; rb = regs st (dec_b w); p = data_addr env w st;
          m = ram st; d = dsk st; rs = ram_size env; ds = disk_size env in
      if b0 = 0x70 then guarded (p \<ge> rs) st (set_reg a (ucast (m p)) st)
      else if b0 = 0x71 then guarded (p + 2 > rs) st (set_reg a (ucast (rd16 m p)) st)
      else if b0 = 0x72 then guarded (p + 4 > rs) st (set_reg a (rd32 m p) st)
      else if b0 = 0x73 then guarded (p + 4 > ds) st (set_reg a (rd32 d p) st)
      else if b0 = 0x74 then guarded (p \<ge> rs) st (st\<lparr>ram := m(p := ucast rb)\<rparr>)
      else if b0 = 0x75 then guarded (p + 2 > rs) st (st\<lparr>ram := wr16 p (ucast rb) m\<rparr>)
      else if b0 = 0x76 then guarded (p + 4 > rs) st (st\<lparr>ram := wr32 p rb m\<rparr>)
      else if b0 = 0x77 then guarded (p + 4 > ds) st (st\<lparr>dsk := wr32 p rb d\<rparr>)
      else None)"

fun first_exec :: "(unit \<Rightarrow> 'o exec) list \<Rightarrow> flow \<times> 'o emu \<Rightarrow> flow \<times> 'o emu" where
  "first_exec [] dflt = dflt"
| "first_exec (g # gs) dflt = (case g () of Some r \<Rightarrow> r | None \<Rightarrow> first_exec gs dflt)"

definition exec_insn :: "'o emu_env \<Rightarrow> u64 \<Rightarrow> u32 \<Rightarrow> 'o emu \<Rightarrow> flow \<times> 'o emu" where
  "exec_insn env t w st =
     first_exec
       [\<lambda>_. exec_io env t w st, \<lambda>_. exec_alu_reg w st, \<lambda>_. exec_alu_imm w st, \<lambda>_. exec_jump w st,
        \<lambda>_. exec_mem_reg env w st, \<lambda>_. exec_mem_imm env w st]
       (Fault 3, st)"


section \<open>The loop\<close>

text \<open>How one pass of the loop ends, with the error code where there is one.\<close>

datatype step_end = Continue | Stop_observer | Stop_fetch | Stop_halt | Stop_fault nat

definition observed :: "'o emu_env \<Rightarrow> u64 \<Rightarrow> 'o emu \<Rightarrow> bool \<times> 'o emu" where
  "observed env t st =
     (case emu_opt env of
        None \<Rightarrow> (False, st)
      | Some opt \<Rightarrow>
          (case opt_observe opt of
             None \<Rightarrow> (False, st)
           | Some f \<Rightarrow>
               (if t mod 1024 = 0 then
                  (let (stop, o') = f (regs st) (settings st) (ram st) (dsk st) t (opaque st)
                   in (stop, st\<lparr>opaque := o'\<rparr>))
                else (False, st))))"

definition fetch_exec :: "'o emu_env \<Rightarrow> u64 \<Rightarrow> 'o emu \<Rightarrow> step_end \<times> 'o emu" where
  "fetch_exec env t st =
     (let p = fetch_addr env st in
      if p + 4 > ram_size env then (Stop_fetch, st)
      else
        (case exec_insn env t (rd32 (ram st) p) st of
           (Next, st') \<Rightarrow> (Continue, st'\<lparr>pc := pc st' + 4\<rparr>)
         | (Again, st') \<Rightarrow> (Continue, st')
         | (Halted, st') \<Rightarrow> (Stop_halt, st')
         | (Fault e, st') \<Rightarrow> (Stop_fault e, st')))"

definition emu_step :: "'o emu_env \<Rightarrow> u64 \<Rightarrow> 'o emu \<Rightarrow> step_end \<times> 'o emu" where
  "emu_step env t st =
     (let (stop, st1) = observed env t (st\<lparr>instructions := t\<rparr>)
      in if stop then (Stop_observer, st1) else fetch_exec env t st1)"

definition emu_done :: "'o emu \<Rightarrow> int \<Rightarrow> nat \<Rightarrow> nat \<Rightarrow> 'o emu_result" where
  "emu_done st code error stop =
     \<lparr>res_state = st, res_exit = code, res_error = error,
      res_stop = (if error \<noteq> 0 then (if error = 1 then 2 else 3) else stop)\<rparr>"

definition emu_halt :: "'o emu \<Rightarrow> nat \<Rightarrow> 'o emu_result" where
  "emu_halt st error = emu_done st (sint (regs st 1)) error 0"

text \<open>
  \<open>t\<close> is the C \<open>n\<close> before the test of the loop, \<open>k\<close> the passes left: \<open>k = max_instr - t\<close>. At the end
  of the allowance \<open>n\<close> has been increased once more; it exceeds \<open>max_instr\<close> unless it wrapped.
\<close>

fun emu_loop :: "'o emu_env \<Rightarrow> u64 \<Rightarrow> nat \<Rightarrow> u64 \<Rightarrow> 'o emu \<Rightarrow> 'o emu_result" where
  "emu_loop env max_instr 0 t st = emu_halt st (if t + 1 > max_instr then 1 else 0)"
| "emu_loop env max_instr (Suc k) t st =
     (case emu_step env t st of
        (Continue, st') \<Rightarrow> emu_loop env max_instr k (t + 1) st'
      | (Stop_observer, st') \<Rightarrow> emu_done st' 0 0 1
      | (Stop_fetch, st') \<Rightarrow> emu_halt st' 2
      | (Stop_halt, st') \<Rightarrow> emu_halt st' 0
      | (Stop_fault e, st') \<Rightarrow> emu_done st' 0 e 0)"


section \<open>Set-up\<close>

definition emu_env_of :: "u64 \<Rightarrow> 'o emu_options option \<Rightarrow> 'o emu_env" where
  "emu_env_of msize opt =
     \<lparr>ram_size = (if msize < 1 then 1 else msize),
      disk_size = (case opt of None \<Rightarrow> DISK_SIZE
                   | Some r \<Rightarrow> if opt_disk_len r > DISK_SIZE then SP_DISK_BYTES else DISK_SIZE),
      ram_mask = (case opt of None \<Rightarrow> UINT32_MAX
                  | Some r \<Rightarrow> if opt_ram_mask r \<noteq> 0 then opt_ram_mask r else UINT32_MAX),
      disk_mask = (case opt of None \<Rightarrow> UINT32_MAX
                   | Some r \<Rightarrow> if opt_disk_mask r \<noteq> 0 then opt_disk_mask r else UINT32_MAX),
      emu_opt = opt\<rparr>"

definition emu_start :: "'o \<Rightarrow> 'o emu" where
  "emu_start o0 =
     \<lparr>regs = (\<lambda>_. 0), settings = (\<lambda>_. 0), last_a = 0, last_b = 0, pc = 0, ram = (\<lambda>_. 0),
      dsk = (\<lambda>_. 0), key_index = 0, time_high = 0, instructions = 0, printed = [], opaque = o0\<rparr>"

text \<open>\<^verbatim>\<open>memcpy\<close> of the first \<open>n\<close> bytes into a fresh buffer.\<close>

definition copy_in :: "u8 list \<Rightarrow> nat \<Rightarrow> u64 \<Rightarrow> u8" where
  "copy_in bs n p = (if unat p < n \<and> unat p < length bs then bs ! unat p else 0)"

text \<open>\<open>alloc\<close> says whether the two \<^verbatim>\<open>calloc\<close> calls succeed.\<close>

definition emu_run_ex ::
    "bool \<Rightarrow> u8 list \<Rightarrow> u64 \<Rightarrow> u64 \<Rightarrow> 'o emu_options option \<Rightarrow> 'o \<Rightarrow> 'o emu_result" where
  "emu_run_ex alloc bin msize max_instr opt o0 =
     (let env = emu_env_of msize opt; st = emu_start o0 in
      if \<not> alloc then emu_done st 0 2 0
      else if length bin > unat (ram_size env) then emu_done st 0 2 0
      else
        let st1 = st\<lparr>ram := copy_in bin (length bin)\<rparr> in
        (case opt of
           None \<Rightarrow> emu_loop env max_instr (unat max_instr) 0 st1
         | Some r \<Rightarrow>
             (if opt_disk_len r = 0 then emu_loop env max_instr (unat max_instr) 0 st1
              else
                (case opt_disk r of
                   None \<Rightarrow> emu_done st1 0 2 0
                 | Some d \<Rightarrow>
                     (if opt_disk_len r > SP_DISK_BYTES then emu_done st1 0 2 0
                      else emu_loop env max_instr (unat max_instr) 0
                             (st1\<lparr>dsk := copy_in d (unat (opt_disk_len r))\<rparr>))))))"

definition emu_run :: "bool \<Rightarrow> u8 list \<Rightarrow> u64 \<Rightarrow> u64 \<Rightarrow> unit emu_result" where
  "emu_run alloc bin msize limit = emu_run_ex alloc bin msize limit None ()"

end
