(* ===== verification/Machine.thy ===== *)
theory Machine
  imports Emu
begin

text \<open>
  What the machine promises: a semantics by mnemonic and operands, without opcodes or bit
  fields, and the theorem that the emulator of \<^verbatim>\<open>emu/emu.c\<close> on a word that \<^verbatim>\<open>emu/isa.c\<close>
  encodes does exactly that. The four pseudo instructions (\<^verbatim>\<open>push\<close>, \<^verbatim>\<open>pop\<close>, \<^verbatim>\<open>call\<close>, \<^verbatim>\<open>ret\<close>) are
  runs of several words and are treated as such. The theory also holds the invariant of the
  emulator and the bounds of its loop.
\<close>

section \<open>Decoding an encoded word\<close>

lemma F_mask: "(0xF :: u32) = mask 4" "(0xFFFF :: u32) = mask 16"
  by (simp_all add: mask_eq_exp_minus_1)

lemma fields_or:
  fixes x y :: u32
  shows "dec_op (x OR y) = dec_op x OR dec_op y"
    and "nibble p (x OR y) = nibble p x OR nibble p y"
    and "dec_imm (x OR y) = dec_imm x OR dec_imm y"
  by (simp_all add: dec_op_def dec_imm_def nibble_def word_ao_dist)

lemma dec_op_push:
  fixes a :: u32
  shows "a < 16 \<Longrightarrow> p \<le> 20 \<Longrightarrow> dec_op (push_bit p a) = 0"
  by (rule bit_word_eqI) (simp add: dec_op_def bit_simps reg_not_bit)

lemma dec_op_imm:
  fixes a :: u32
  shows "a \<le> 0xFFFF \<Longrightarrow> dec_op a = 0"
  by (rule bit_word_eqI) (simp add: dec_op_def bit_simps imm_not_bit)

lemma nib_push:
  fixes a :: u32
  assumes "a < 16"
  shows "p + 4 \<le> q \<Longrightarrow> nibble q (push_bit p a) = 0"
    and "q + 4 \<le> p \<Longrightarrow> nibble q (push_bit p a) = 0"
    and "p \<le> 28 \<Longrightarrow> nibble p (push_bit p a) = a"
proof -
  have high: "n < 4" if "bit a n" for n
    using reg_not_bit [OF assms, of n] that by (cases "n < 4") auto
  show "p + 4 \<le> q \<Longrightarrow> nibble q (push_bit p a) = 0"
    unfolding nibble_def F_mask by (rule bit_word_eqI) (force simp add: bit_simps dest: high)
  show "q + 4 \<le> p \<Longrightarrow> nibble q (push_bit p a) = 0"
    unfolding nibble_def F_mask by (rule bit_word_eqI) (force simp add: bit_simps dest: high)
  show "p \<le> 28 \<Longrightarrow> nibble p (push_bit p a) = a"
    unfolding nibble_def F_mask by (rule bit_word_eqI) (auto simp add: bit_simps dest: high)
qed

lemma nib_imm:
  fixes a :: u32
  assumes "a \<le> 0xFFFF"
  shows "16 \<le> q \<Longrightarrow> nibble q a = 0"
  unfolding nibble_def F_mask
  by (rule bit_word_eqI; use assms imm_not_bit [of a] in \<open>force simp add: bit_simps\<close>)

lemma imm_imm:
  fixes a :: u32
  assumes "a \<le> 0xFFFF"
  shows "dec_imm a = a"
proof -
  have "a < 2 ^ 16"
    using assms by (simp add: word_le_nat_alt word_less_nat_alt)
  from less_mask_eq [OF this] show ?thesis
    by (simp add: dec_imm_def F_mask)
qed

lemma imm_push: "16 \<le> p \<Longrightarrow> dec_imm (push_bit p a) = 0"
  unfolding dec_imm_def F_mask
  by (rule bit_word_eqI) (force simp add: bit_simps)

lemmas decode_fields =
  fields_or dec_op_push dec_op_imm nib_push nib_imm imm_imm imm_push dec_a_def dec_b_def dec_c_def

declare decode_fields [field_simps32]


section \<open>The semantics by mnemonic\<close>

datatype operand = Reg nat | Imm u32

text \<open>Operands that have an encoding: registers 0 to 15 and 16-bit immediates.\<close>

fun operand_ok :: "operand \<Rightarrow> bool" where
  "operand_ok (Reg i) = (i < 16)"
| "operand_ok (Imm v) = (v \<le> 0xFFFF)"

fun operand_kind :: "operand \<Rightarrow> op_kind" where
  "operand_kind (Reg i) = OP_REG"
| "operand_kind (Imm v) = OP_IMM"

fun operand_code :: "operand \<Rightarrow> u32" where
  "operand_code (Reg i) = of_nat i"
| "operand_code (Imm v) = v"

fun operand_val :: "'o emu \<Rightarrow> operand \<Rightarrow> u32" where
  "operand_val st (Reg i) = regs st i"
| "operand_val st (Imm v) = v"

text \<open>Division by zero yields zero, and a shift uses the low five bits of its count.\<close>

definition alu_ops :: "(string \<times> (u32 \<Rightarrow> u32 \<Rightarrow> u32)) list" where
  "alu_ops =
     [(''nand'', \<lambda>x y. NOT (x AND y)),
      (''or'', \<lambda>x y. x OR y),
      (''and'', \<lambda>x y. x AND y),
      (''nor'', \<lambda>x y. NOT (x OR y)),
      (''add'', \<lambda>x y. x + y),
      (''sub'', \<lambda>x y. x - y),
      (''xor'', \<lambda>x y. x XOR y),
      (''lsl'', \<lambda>x y. push_bit (unat (y AND 31)) x),
      (''lsr'', \<lambda>x y. drop_bit (unat (y AND 31)) x),
      (''asr'', \<lambda>x y. signed_drop_bit (unat (y AND 31)) x),
      (''mul'', \<lambda>x y. x * y),
      (''div'', \<lambda>x y. if y = 0 then 0 else x div y),
      (''mod'', \<lambda>x y. if y = 0 then 0 else x mod y)]"

definition move_ops :: "(string \<times> (u32 \<Rightarrow> u32)) list" where
  "move_ops = [(''mov'', \<lambda>x. x), (''neg'', \<lambda>x. - x), (''not'', \<lambda>x. NOT x)]"

definition jump_conds :: "(string \<times> (u32 \<Rightarrow> u32 \<Rightarrow> bool)) list" where
  "jump_conds =
     [(''je'', \<lambda>x y. x = y), (''jne'', \<lambda>x y. x \<noteq> y),
      (''jb'', \<lambda>x y. x < y), (''jae'', \<lambda>x y. y \<le> x),
      (''jbe'', \<lambda>x y. x \<le> y), (''ja'', \<lambda>x y. y < x),
      (''jl'', \<lambda>x y. sint x < sint y), (''jge'', \<lambda>x y. sint y \<le> sint x),
      (''jle'', \<lambda>x y. sint x \<le> sint y), (''jg'', \<lambda>x y. sint y < sint x)]"

text \<open>An access of \<open>n\<close> bytes at \<open>p\<close> of a buffer.\<close>

definition in_buffer :: "u64 \<Rightarrow> nat \<Rightarrow> u32 \<Rightarrow> bool" where
  "in_buffer sz n p \<longleftrightarrow> unat p + n \<le> unat sz"

definition sem_load :: "'o emu_env \<Rightarrow> string \<Rightarrow> u32 \<Rightarrow> 'o emu \<Rightarrow> u32 option" where
  "sem_load env nm adr st =
     (let p = adr AND ram_mask env; q = adr AND disk_mask env;
          ld = (\<lambda>sz n x v. if in_buffer sz n x then Some v else None) in
      if nm = ''load_8'' then ld (ram_size env) 1 p (ucast (ram st (ucast p)))
      else if nm = ''load_16'' then ld (ram_size env) 2 p (ucast (rd16 (ram st) (ucast p)))
      else if nm = ''load_32'' then ld (ram_size env) 4 p (rd32 (ram st) (ucast p))
      else ld (disk_size env) 4 q (rd32 (dsk st) (ucast q)))"

definition sem_store :: "'o emu_env \<Rightarrow> string \<Rightarrow> u32 \<Rightarrow> u32 \<Rightarrow> 'o emu \<Rightarrow> 'o emu option" where
  "sem_store env nm adr v st =
     (let p = adr AND ram_mask env; q = adr AND disk_mask env;
          sto = (\<lambda>n m. if in_buffer (ram_size env) n p then Some (st\<lparr>ram := m\<rparr>) else None) in
      if nm = ''store_8'' then sto 1 ((ram st)(ucast p := ucast v))
      else if nm = ''store_16'' then sto 2 (wr16 (ucast p) (ucast v) (ram st))
      else if nm = ''store_32'' then sto 4 (wr32 (ucast p) v (ram st))
      else if in_buffer (disk_size env) 4 q then Some (st\<lparr>dsk := wr32 (ucast q) v (dsk st)\<rparr>)
      else None)"

definition take_jump :: "bool \<Rightarrow> u64 \<Rightarrow> 'o emu \<Rightarrow> flow \<times> 'o emu" where
  "take_jump self t st = (if self then (Halted, st) else (Again, st\<lparr>pc := t\<rparr>))"

definition sem_screen :: "u32 \<Rightarrow> u32 \<Rightarrow> 'o emu \<Rightarrow> flow \<times> 'o emu" where
  "sem_screen k v st =
     (if k < 8 then (Next, st\<lparr>settings := (settings st)(unat k := v)\<rparr>) else (Fault 2, st))"

text \<open>One instruction of one word, by its mnemonic and the form of its operands.\<close>

fun sem3 :: "string \<Rightarrow> nat \<Rightarrow> nat \<Rightarrow> operand \<Rightarrow> 'o emu \<Rightarrow> flow \<times> 'o emu" where
  "sem3 nm d s x st =
     (case map_of alu_ops nm of
        Some f \<Rightarrow> (Next, set_reg d (f (regs st s) (operand_val st x)) st)
      | None \<Rightarrow> (Fault 3, st))"

definition sem2 :: "'o emu_env \<Rightarrow> string \<Rightarrow> operand \<Rightarrow> operand \<Rightarrow> 'o emu \<Rightarrow> flow \<times> 'o emu" where
  "sem2 env nm x y st =
     (if nm = ''cmp'' then (Next, st\<lparr>last_a := operand_val st x, last_b := operand_val st y\<rparr>)
      else if nm = ''screen'' then sem_screen (operand_val st x) (operand_val st y) st
      else if nm \<in> {''store_8'', ''store_16'', ''store_32'', ''pstore''} then
        (case sem_store env nm (operand_val st x) (operand_val st y) st of
           Some st' \<Rightarrow> (Next, st') | None \<Rightarrow> (Fault 2, st))
      else
        (case x of
           Imm _ \<Rightarrow> (Fault 3, st)
         | Reg d \<Rightarrow>
             (if nm \<in> {''load_8'', ''load_16'', ''load_32'', ''pload''} then
                (case sem_load env nm (operand_val st y) st of
                   Some v \<Rightarrow> (Next, set_reg d v st) | None \<Rightarrow> (Fault 2, st))
              else
                (case map_of move_ops nm of
                   Some f \<Rightarrow> (Next, set_reg d (f (operand_val st y)) st)
                 | None \<Rightarrow> (Fault 3, st)))))"

definition sem1 :: "'o emu_env \<Rightarrow> u64 \<Rightarrow> string \<Rightarrow> operand \<Rightarrow> 'o emu \<Rightarrow> flow \<times> 'o emu" where
  "sem1 env t nm x st =
     (if nm = ''jmp'' then
        take_jump (operand_val st x = ucast (pc st)) (ucast (operand_val st x)) st
      else if nm = ''out'' then (Next, st\<lparr>printed := printed st @ [operand_val st x]\<rparr>)
      else
        (case x of
           Imm v \<Rightarrow>
             (case map_of jump_conds nm of
                Some c \<Rightarrow> (if c (last_a st) (last_b st) then take_jump (pc st = ucast v) (ucast v) st
                           else (Next, st))
              | None \<Rightarrow> (Fault 3, st))
         | Reg d \<Rightarrow>
             (if nm = ''in'' then (Next, set_reg d 0 st)
              else if nm = ''keyboard'' then (Next, exec_keyboard env t d st)
              else if nm = ''time_0'' then
                (Next, set_reg d (ucast (elapsed_ns env t))
                   (st\<lparr>time_high := ucast (drop_bit 32 (elapsed_ns env t))\<rparr>))
              else if nm = ''time_1'' then (Next, set_reg d (time_high st) st)
              else if nm = ''counter'' then (Next, set_reg d (ucast (pc st)) st)
              else (Fault 3, st))))"

fun sem :: "'o emu_env \<Rightarrow> u64 \<Rightarrow> string \<Rightarrow> operand list \<Rightarrow> 'o emu \<Rightarrow> flow \<times> 'o emu" where
  "sem env t nm [] st = (Next, st)"
| "sem env t nm [x] st = sem1 env t nm x st"
| "sem env t nm [x, y] st = sem2 env nm x y st"
| "sem env t nm [Reg d, Reg s, x] st = sem3 nm d s x st"
| "sem env t nm _ st = (Fault 3, st)"

definition row_kinds :: "insn \<Rightarrow> op_kind list" where
  "row_kinds i = map op_kind (concat (map live (in_ops i)))"

text \<open>The operand values as the C array of the encoder.\<close>

definition vals_of :: "operand list \<Rightarrow> nat \<Rightarrow> u32" where
  "vals_of xs k = (if k < length xs then operand_code (xs ! k) else 0)"

definition word_of :: "insn \<Rightarrow> operand list \<Rightarrow> u32" where
  "word_of i xs = isa_encode_words i (vals_of xs) ! 0"

definition zero_reg :: "'o emu \<Rightarrow> bool" where
  "zero_reg st \<longleftrightarrow> regs st 0 = 0"


section \<open>Agreement of decoder and encoder\<close>

lemma of_nat16 [simp]: "i < 16 \<Longrightarrow> (of_nat i :: u32) < 16"
  by (simp add: word_less_nat_alt unat_of_nat)

lemma unat16 [simp]: "i < 16 \<Longrightarrow> unat (of_nat i :: u32) = i"
  by (simp add: unat_of_nat)

lemmas encode_simps =
  isa_encode_words_def vals_of_def word_of_def REG_def IMM_def NONE_def Let_def

definition clear :: "nat list \<Rightarrow> u32 \<Rightarrow> bool" where
  "clear ps K \<longleftrightarrow> list_all (\<lambda>p. nibble p K = 0) ps"

text \<open>The shapes of one-word rows: which fields hold the operands.\<close>

definition shape :: "insn \<Rightarrow> u32 \<Rightarrow> op_field list \<Rightarrow> bool" where
  "shape i K fs \<longleftrightarrow> in_nwords i = 1 \<and> in_bits i = [K] \<and> in_ops i = [fs]"

lemma decode_rrr:
  assumes "shape i K [REG 20, REG 16, REG 8]"
    and "clear [20, 16, 8] K" "a < 16" "b < 16" "c < 16"
    and w: "w = word_of i [Reg a, Reg b, Reg c]"
  shows "dec_op w = drop_bit 24 K \<and> dec_a w = a \<and> dec_b w = b \<and> dec_c w = c"
  using assms unfolding shape_def clear_def w
  by (simp add: encode_simps field_simps32 dec_op_def [of K])

lemma decode_rri:
  assumes "shape i K [REG 20, REG 16, IMM 0]"
    and "clear [20, 16] K" "dec_imm K = 0" "a < 16" "b < 16" "v \<le> 0xFFFF"
    and w: "w = word_of i [Reg a, Reg b, Imm v]"
  shows "dec_op w = drop_bit 24 K \<and> dec_a w = a \<and> dec_b w = b \<and> dec_imm w = v"
  using assms unfolding shape_def clear_def w
  by (simp add: encode_simps field_simps32 dec_op_def [of K])

lemma decode_not:
  assumes "shape i K [REG 20, \<lparr>op_kind = OP_REG, op_pos0 = 16, op_pos1 = Some 8\<rparr>, NONE]"
    and "clear [20, 16, 8] K" "a < 16" "b < 16"
    and w: "w = word_of i [Reg a, Reg b]"
  shows "dec_op w = drop_bit 24 K \<and> dec_a w = a \<and> dec_b w = b \<and> dec_c w = b"
  using assms unfolding shape_def clear_def w
  by (simp add: encode_simps field_simps32 dec_op_def [of K])

lemma decode_rr:
  assumes "shape i K [REG 20, REG 8, NONE]"
    and "clear [20, 16, 8] K" "a < 16" "b < 16"
    and w: "w = word_of i [Reg a, Reg b]"
  shows "dec_op w = drop_bit 24 K \<and> dec_a w = a \<and> dec_b w = 0 \<and> dec_c w = b"
  using assms unfolding shape_def clear_def w
  by (simp add: encode_simps field_simps32 dec_op_def [of K])

lemma decode_ri:
  assumes "shape i K [REG 20, IMM 0, NONE]"
    and "clear [20, 16] K" "dec_imm K = 0" "a < 16" "v \<le> 0xFFFF"
    and w: "w = word_of i [Reg a, Imm v]"
  shows "dec_op w = drop_bit 24 K \<and> dec_a w = a \<and> dec_b w = 0 \<and> dec_imm w = v"
  using assms unfolding shape_def clear_def w
  by (simp add: encode_simps field_simps32 dec_op_def [of K])

lemma decode_br:
  assumes "shape i K [REG 16, REG 8, NONE]"
    and "clear [16, 8] K" "a < 16" "b < 16"
    and w: "w = word_of i [Reg a, Reg b]"
  shows "dec_op w = drop_bit 24 K \<and> dec_b w = a \<and> dec_c w = b"
  using assms unfolding shape_def clear_def w
  by (simp add: encode_simps field_simps32 dec_op_def [of K])

lemma decode_bi:
  assumes "shape i K [REG 16, IMM 0, NONE]"
    and "clear [16] K" "dec_imm K = 0" "a < 16" "v \<le> 0xFFFF"
    and w: "w = word_of i [Reg a, Imm v]"
  shows "dec_op w = drop_bit 24 K \<and> dec_b w = a \<and> dec_imm w = v"
  using assms unfolding shape_def clear_def w
  by (simp add: encode_simps field_simps32 dec_op_def [of K])

lemma decode_cb:
  assumes "shape i K [REG 8, REG 16, NONE]"
    and "clear [16, 8] K" "a < 16" "b < 16"
    and w: "w = word_of i [Reg a, Reg b]"
  shows "dec_op w = drop_bit 24 K \<and> dec_c w = a \<and> dec_b w = b"
  using assms unfolding shape_def clear_def w
  by (simp add: encode_simps field_simps32 dec_op_def [of K])

lemma decode_ib:
  assumes "shape i K [IMM 0, REG 16, NONE]"
    and "clear [16] K" "dec_imm K = 0" "a < 16" "v \<le> 0xFFFF"
    and w: "w = word_of i [Imm v, Reg a]"
  shows "dec_op w = drop_bit 24 K \<and> dec_b w = a \<and> dec_imm w = v"
  using assms unfolding shape_def clear_def w
  by (simp add: encode_simps field_simps32 dec_op_def [of K])

lemma decode_a:
  assumes "shape i K [REG 20, NONE, NONE]"
    and "clear [20] K" "a < 16"
    and w: "w = word_of i [Reg a]"
  shows "dec_op w = drop_bit 24 K \<and> dec_a w = a"
  using assms unfolding shape_def clear_def w
  by (simp add: encode_simps field_simps32 dec_op_def [of K])

lemma decode_c:
  assumes "shape i K [REG 8, NONE, NONE]"
    and "clear [8] K" "a < 16"
    and w: "w = word_of i [Reg a]"
  shows "dec_op w = drop_bit 24 K \<and> dec_c w = a"
  using assms unfolding shape_def clear_def w
  by (simp add: encode_simps field_simps32 dec_op_def [of K])

lemma decode_i:
  assumes "shape i K [IMM 0, NONE, NONE]"
    and "dec_imm K = 0" "v \<le> 0xFFFF"
    and w: "w = word_of i [Imm v]"
  shows "dec_op w = drop_bit 24 K \<and> dec_imm w = v"
  using assms unfolding shape_def clear_def w
  by (simp add: encode_simps field_simps32 dec_op_def [of K])

lemma decode_none:
  assumes "shape i K [NONE, NONE, NONE]"
    and w: "w = word_of i []"
  shows "dec_op w = drop_bit 24 K"
  using assms unfolding shape_def clear_def w
  by (simp add: encode_simps field_simps32 dec_op_def [of K])


section \<open>Agreement of decoder and semantics\<close>

lemmas exec_groups [machine_simps] =
  exec_insn_def exec_io_def exec_alu_reg_def exec_alu_imm_def exec_jump_def
  exec_mem_reg_def exec_mem_imm_def jump_uncond_def jump_if_def take_jump_def
  set_setting_def sem_screen_def

text \<open>The tables of opcodes; an ALU row has the code 0x20 plus its number, or 0x30 plus it.\<close>

definition alu_codes :: "(string \<times> u32) list" where
  "alu_codes =
     [(''nand'', 0), (''or'', 1), (''and'', 2), (''nor'', 3), (''add'', 4), (''sub'', 5), (''xor'', 6),
      (''lsl'', 7), (''lsr'', 8), (''asr'', 9), (''mul'', 11), (''div'', 12), (''mod'', 13)]"

definition load_codes :: "(string \<times> u32) list" where
  "load_codes = [(''load_8'', 0), (''load_16'', 1), (''load_32'', 2), (''pload'', 3)]"

definition store_codes :: "(string \<times> u32) list" where
  "store_codes = [(''store_8'', 4), (''store_16'', 5), (''store_32'', 6), (''pstore'', 7)]"

definition jump_codes :: "(string \<times> u32) list" where
  "jump_codes =
     [(''je'', 0x51), (''jne'', 0x59), (''jb'', 0x52), (''jae'', 0x5A), (''jbe'', 0x53), (''ja'', 0x5B),
      (''jl'', 0x54), (''jge'', 0x5C), (''jle'', 0x55), (''jg'', 0x5D)]"

definition move_codes :: "(string \<times> u32) list" where
  "move_codes = [(''mov'', 1), (''neg'', 5), (''not'', 3)]"

lemma exec_alu_reg_sem:
  assumes "(nm, k) \<in> set alu_codes" and "dec_op w = 0x20 + k"
  shows "exec_insn env t w st = sem3 nm (dec_a w) (dec_b w) (Reg (dec_c w)) st"
  using assms unfolding alu_codes_def
  by (simp; elim disjE; simp add: machine_simps alu_ops_def)

lemma exec_alu_imm_sem:
  assumes "(nm, k) \<in> set alu_codes" and "dec_op w = 0x30 + k"
  shows "exec_insn env t w st = sem3 nm (dec_a w) (dec_b w) (Imm (dec_imm w)) st"
  using assms unfolding alu_codes_def
  by (simp; elim disjE; simp add: machine_simps alu_ops_def)

lemma exec_move_reg_sem:
  assumes "(nm, k) \<in> set move_codes" and "dec_op w = 0x20 + k" and "zero_reg st"
    and "dec_b w = 0 \<or> (k = 3 \<and> dec_b w = dec_c w)"
  shows "exec_insn env t w st = sem2 env nm (Reg (dec_a w)) (Reg (dec_c w)) st"
  using assms unfolding move_codes_def zero_reg_def
  by (simp; elim disjE; simp add: machine_simps move_ops_def sem2_def)

lemma exec_move_imm_sem:
  assumes "(nm, k) \<in> set move_codes" and "dec_op w = 0x30 + k" and "zero_reg st" and "dec_b w = 0"
  shows "exec_insn env t w st = sem2 env nm (Reg (dec_a w)) (Imm (dec_imm w)) st"
  using assms unfolding move_codes_def zero_reg_def
  by (simp; elim disjE; simp add: machine_simps move_ops_def sem2_def)

lemma exec_jump_sem:
  assumes "(nm, k) \<in> set jump_codes" and "dec_op w = k"
  shows "exec_insn env t w st = sem1 env u nm (Imm (dec_imm w)) st"
  using assms unfolding jump_codes_def
  by (simp; elim disjE; simp add: machine_simps jump_conds_def sem1_def eq_commute)

text \<open>Bounds: the 64-bit sums of the checks do not wrap around.\<close>

lemma unat_ucast32 [simp]: "unat (ucast (x :: u32) :: u64) = unat x"
  using unat32_less [of x] by (simp add: unsigned_ucast_eq take_bit_nat_eq_self)

lemma in_buffer_check:
  "(sz :: u64) \<le> ucast (x :: u32) \<longleftrightarrow> \<not> in_buffer sz 1 x"
  "sz < ucast x + 2 \<longleftrightarrow> \<not> in_buffer sz 2 x"
  "sz < ucast x + 4 \<longleftrightarrow> \<not> in_buffer sz 4 x"
proof -
  have "unat (ucast x + 2 :: u64) = unat x + 2" "unat (ucast x + 4 :: u64) = unat x + 4"
    using unat32_less [of x] by (simp_all add: unat_word_ariths)
  then show "sz < ucast x + 2 \<longleftrightarrow> \<not> in_buffer sz 2 x" "sz < ucast x + 4 \<longleftrightarrow> \<not> in_buffer sz 4 x"
    by (auto simp: in_buffer_def word_less_nat_alt)
  show "sz \<le> ucast x \<longleftrightarrow> \<not> in_buffer sz 1 x"
    by (auto simp: in_buffer_def word_le_nat_alt)
qed

lemma data_addr_reg:
  "dec_op w AND 0xF8 = 0x60 \<Longrightarrow>
     data_addr env w st = ucast (regs st (dec_c w) AND (if dec_op w AND 3 = 3 then disk_mask env else ram_mask env))"
  by (simp add: data_addr_def Let_def)

lemma data_addr_imm:
  "dec_op w AND 0xF8 = 0x70 \<Longrightarrow>
     data_addr env w st = ucast (dec_imm w AND (if dec_op w AND 3 = 3 then disk_mask env else ram_mask env))"
  by (simp add: data_addr_def Let_def)

lemmas exec_mem_simps =
  machine_simps in_buffer_check guarded_def Let_def sem2_def sem_load_def sem_store_def

lemma exec_load_reg_sem:
  assumes "(nm, k) \<in> set load_codes" and "dec_op w = 0x60 + k"
  shows "exec_insn env t w st = sem2 env nm (Reg (dec_a w)) (Reg (dec_c w)) st"
  using assms data_addr_reg [of w env st] unfolding load_codes_def
  by (simp; elim disjE; simp add: exec_mem_simps)

lemma exec_load_imm_sem:
  assumes "(nm, k) \<in> set load_codes" and "dec_op w = 0x70 + k"
  shows "exec_insn env t w st = sem2 env nm (Reg (dec_a w)) (Imm (dec_imm w)) st"
  using assms data_addr_imm [of w env st] unfolding load_codes_def
  by (simp; elim disjE; simp add: exec_mem_simps)

lemma exec_store_reg_sem:
  assumes "(nm, k) \<in> set store_codes" and "dec_op w = 0x60 + k"
  shows "exec_insn env t w st = sem2 env nm (Reg (dec_c w)) (Reg (dec_b w)) st"
  using assms data_addr_reg [of w env st] unfolding store_codes_def
  by (simp; elim disjE; simp add: exec_mem_simps)

lemma exec_store_imm_sem:
  assumes "(nm, k) \<in> set store_codes" and "dec_op w = 0x70 + k"
  shows "exec_insn env t w st = sem2 env nm (Imm (dec_imm w)) (Reg (dec_b w)) st"
  using assms data_addr_imm [of w env st] unfolding store_codes_def
  by (simp; elim disjE; simp add: exec_mem_simps)

lemma exec_io_sem:
  assumes "(nm, k) \<in> set [(''in'', 1), (''keyboard'', 3), (''time_0'', 5), (''time_1'', 6), (''counter'', 7)]"
    and "dec_op w = k"
  shows "exec_insn env t w st = sem1 env t nm (Reg (dec_a w)) st"
  using assms
  by (simp; elim disjE; simp add: machine_simps sem1_def jump_conds_def)

lemma exec_single_sem:
  "dec_op w = 0 \<Longrightarrow> exec_insn env t w st = (Next, st)"
  "dec_op w = 0x02 \<Longrightarrow> exec_insn env t w st = sem1 env t ''out'' (Reg (dec_c w)) st"
  "dec_op w = 0x48 \<Longrightarrow> exec_insn env t w st = sem1 env t ''jmp'' (Reg (dec_c w)) st"
  "dec_op w = 0x58 \<Longrightarrow> exec_insn env t w st = sem1 env t ''jmp'' (Imm (dec_imm w)) st"
  "dec_op w = 0x2A \<Longrightarrow> exec_insn env t w st = sem2 env ''cmp'' (Reg (dec_b w)) (Reg (dec_c w)) st"
  "dec_op w = 0x3A \<Longrightarrow> exec_insn env t w st = sem2 env ''cmp'' (Reg (dec_b w)) (Imm (dec_imm w)) st"
  "dec_op w = 0x04 \<Longrightarrow> exec_insn env t w st = sem2 env ''screen'' (Reg (dec_b w)) (Reg (dec_c w)) st"
  "dec_op w = 0x14 \<Longrightarrow> exec_insn env t w st = sem2 env ''screen'' (Reg (dec_b w)) (Imm (dec_imm w)) st"
  by (simp_all add: machine_simps sem1_def sem2_def Let_def linorder_not_less)

text \<open>Every one-word row of the table has one of the shapes, with the opcode of its mnemonic.\<close>

definition shape3 :: "string \<Rightarrow> u32 \<Rightarrow> op_field list \<Rightarrow> bool" where
  "shape3 nm K fs \<longleftrightarrow>
     (let op = drop_bit 24 K in
       fs = [REG 20, REG 16, REG 8] \<and> clear [20, 16, 8] K \<and> (nm, op - 0x20) \<in> set alu_codes
       \<or> fs = [REG 20, REG 16, IMM 0] \<and> clear [20, 16] K \<and> dec_imm K = 0 \<and> (nm, op - 0x30) \<in> set alu_codes)"

definition shape2 :: "string \<Rightarrow> u32 \<Rightarrow> op_field list \<Rightarrow> bool" where
  "shape2 nm K fs \<longleftrightarrow>
     (let op = drop_bit 24 K in
       fs = [REG 20, \<lparr>op_kind = OP_REG, op_pos0 = 16, op_pos1 = Some 8\<rparr>, NONE]
           \<and> clear [20, 16, 8] K \<and> nm = ''not'' \<and> op = 0x23
       \<or> fs = [REG 20, REG 8, NONE] \<and> clear [20, 16, 8] K
           \<and> ((nm, op - 0x20) \<in> set move_codes \<or> (nm, op - 0x60) \<in> set load_codes)
       \<or> fs = [REG 20, IMM 0, NONE] \<and> clear [20, 16] K \<and> dec_imm K = 0
           \<and> ((nm, op - 0x30) \<in> set move_codes \<or> (nm, op - 0x70) \<in> set load_codes))"

definition shape2s :: "string \<Rightarrow> u32 \<Rightarrow> op_field list \<Rightarrow> bool" where
  "shape2s nm K fs \<longleftrightarrow>
     (let op = drop_bit 24 K in
       fs = [REG 16, REG 8, NONE] \<and> clear [16, 8] K \<and> (nm = ''cmp'' \<and> op = 0x2A \<or> nm = ''screen'' \<and> op = 0x04)
       \<or> fs = [REG 16, IMM 0, NONE] \<and> clear [16] K \<and> dec_imm K = 0
           \<and> (nm = ''cmp'' \<and> op = 0x3A \<or> nm = ''screen'' \<and> op = 0x14)
       \<or> fs = [REG 8, REG 16, NONE] \<and> clear [16, 8] K \<and> (nm, op - 0x60) \<in> set store_codes
       \<or> fs = [IMM 0, REG 16, NONE] \<and> clear [16] K \<and> dec_imm K = 0 \<and> (nm, op - 0x70) \<in> set store_codes)"

definition shape1 :: "string \<Rightarrow> u32 \<Rightarrow> op_field list \<Rightarrow> bool" where
  "shape1 nm K fs \<longleftrightarrow>
     (let op = drop_bit 24 K in
       fs = [REG 20, NONE, NONE] \<and> clear [20] K
           \<and> (nm, op) \<in> set [(''in'', 1), (''keyboard'', 3), (''time_0'', 5), (''time_1'', 6), (''counter'', 7)]
       \<or> fs = [REG 8, NONE, NONE] \<and> clear [8] K \<and> (nm = ''out'' \<and> op = 0x02 \<or> nm = ''jmp'' \<and> op = 0x48)
       \<or> fs = [IMM 0, NONE, NONE] \<and> dec_imm K = 0
           \<and> ((nm, op) \<in> set jump_codes \<or> nm = ''jmp'' \<and> op = 0x58 \<or> nm = ''out'' \<and> op = 0x12)
       \<or> fs = [NONE, NONE, NONE] \<and> op = 0)"

definition row_shape :: "insn \<Rightarrow> bool" where
  "row_shape i \<longleftrightarrow>
     (let nm = in_name i; K = in_bits i ! 0; fs = in_ops i ! 0 in
      in_bits i = [K] \<and> in_ops i = [fs] \<and>
      (shape3 nm K fs \<or> shape2 nm K fs \<or> shape2s nm K fs \<or> shape1 nm K fs))"

lemma isa_table_shapes: "list_all (\<lambda>i. in_nwords i = 1 \<longrightarrow> row_shape i) isa_table"
  by code_simp

text \<open>Operand lists of a given shape.\<close>

lemma kind_reg: "operand_kind x = OP_REG \<longleftrightarrow> (\<exists>a. x = Reg a)"
  by (cases x) auto

lemma kind_imm: "operand_kind x = OP_IMM \<longleftrightarrow> (\<exists>v. x = Imm v)"
  by (cases x) auto

lemmas kinds_simps = row_kinds_def live_def REG_def IMM_def NONE_def map_eq_Cons_conv kind_reg kind_imm

text \<open>The operands of each shape.\<close>

lemma kinds_rrr:
  "in_ops i = [[REG p, REG q, REG r]] \<Longrightarrow> map operand_kind xs = row_kinds i
     \<Longrightarrow> \<exists>a b c. xs = [Reg a, Reg b, Reg c]"
  "in_ops i = [[REG p, REG q, IMM r]] \<Longrightarrow> map operand_kind xs = row_kinds i
     \<Longrightarrow> \<exists>a b v. xs = [Reg a, Reg b, Imm v]"
  "in_ops i = [[REG p, \<lparr>op_kind = OP_REG, op_pos0 = q, op_pos1 = s\<rparr>, NONE]] \<Longrightarrow> map operand_kind xs = row_kinds i
     \<Longrightarrow> \<exists>a b. xs = [Reg a, Reg b]"
  "in_ops i = [[REG p, REG q, NONE]] \<Longrightarrow> map operand_kind xs = row_kinds i
     \<Longrightarrow> \<exists>a b. xs = [Reg a, Reg b]"
  "in_ops i = [[REG p, IMM q, NONE]] \<Longrightarrow> map operand_kind xs = row_kinds i
     \<Longrightarrow> \<exists>a v. xs = [Reg a, Imm v]"
  "in_ops i = [[IMM q, REG p, NONE]] \<Longrightarrow> map operand_kind xs = row_kinds i
     \<Longrightarrow> \<exists>a v. xs = [Imm v, Reg a]"
  "in_ops i = [[REG p, NONE, NONE]] \<Longrightarrow> map operand_kind xs = row_kinds i
     \<Longrightarrow> \<exists>a. xs = [Reg a]"
  "in_ops i = [[IMM p, NONE, NONE]] \<Longrightarrow> map operand_kind xs = row_kinds i
     \<Longrightarrow> \<exists>v. xs = [Imm v]"
  "in_ops i = [[NONE, NONE, NONE]] \<Longrightarrow> map operand_kind xs = row_kinds i \<Longrightarrow> xs = []"
  by (auto simp: kinds_simps)

text \<open>The four groups of shapes; \<open>zr\<close> reads as zero where an encoding uses it as an operand.\<close>

lemma exec_shape3_sem:
  assumes sh: "shape3 (in_name i) K fs" and s: "shape i K fs"
    and kinds: "map operand_kind xs = row_kinds i" and ok: "list_all operand_ok xs"
  shows "exec_insn env t (word_of i xs) st = sem env t (in_name i) xs st"
proof -
  let ?op = "drop_bit 24 K" and ?w = "word_of i xs"
  have ops: "in_ops i = [fs]"
    using s by (simp add: shape_def)
  show ?thesis
    using sh unfolding shape3_def Let_def
  proof (elim disjE conjE)
    assume "fs = [REG 20, REG 16, REG 8]" "clear [20, 16, 8] K" and c: "(in_name i, ?op - 0x20) \<in> set alu_codes"
    moreover obtain a b c where "xs = [Reg a, Reg b, Reg c]"
      using kinds_rrr(1) ops kinds calculation(1) by blast
    ultimately show ?thesis
      using decode_rrr [of i K a b c ?w] s ok exec_alu_reg_sem [OF c, of ?w] by simp
  next
    assume "fs = [REG 20, REG 16, IMM 0]" "clear [20, 16] K" "dec_imm K = 0"
      and c: "(in_name i, ?op - 0x30) \<in> set alu_codes"
    moreover obtain a b v where "xs = [Reg a, Reg b, Imm v]"
      using kinds_rrr(2) ops kinds calculation(1) by blast
    ultimately show ?thesis
      using decode_rri [of i K a b v ?w] s ok exec_alu_imm_sem [OF c, of ?w] by simp
  qed
qed

lemma exec_shape2_sem:
  assumes sh: "shape2 (in_name i) K fs" and s: "shape i K fs"
    and kinds: "map operand_kind xs = row_kinds i" and ok: "list_all operand_ok xs"
    and zr: "zero_reg st"
  shows "exec_insn env t (word_of i xs) st = sem env t (in_name i) xs st"
proof -
  let ?op = "drop_bit 24 K" and ?w = "word_of i xs"
  have ops: "in_ops i = [fs]"
    using s by (simp add: shape_def)
  show ?thesis
    using sh unfolding shape2_def Let_def
  proof (elim disjE conjE)
    assume "fs = [REG 20, \<lparr>op_kind = OP_REG, op_pos0 = 16, op_pos1 = Some 8\<rparr>, NONE]"
      "clear [20, 16, 8] K" and c: "in_name i = ''not''" "?op = 0x23"
    moreover obtain a b where "xs = [Reg a, Reg b]"
      using kinds_rrr(3) ops kinds calculation(1) by blast
    ultimately show ?thesis
      using decode_not [of i K a b ?w] s ok zr exec_move_reg_sem [of "''not''" 3 ?w st]
      by (simp add: move_codes_def)
  next
    assume "fs = [REG 20, REG 8, NONE]" "clear [20, 16, 8] K"
      and c: "(in_name i, ?op - 0x20) \<in> set move_codes"
    moreover obtain a b where "xs = [Reg a, Reg b]"
      using kinds_rrr(4) ops kinds calculation(1) by blast
    ultimately show ?thesis
      using decode_rr [of i K a b ?w] s ok zr exec_move_reg_sem [OF c, of ?w st] by simp
  next
    assume "fs = [REG 20, REG 8, NONE]" "clear [20, 16, 8] K"
      and c: "(in_name i, ?op - 0x60) \<in> set load_codes"
    moreover obtain a b where "xs = [Reg a, Reg b]"
      using kinds_rrr(4) ops kinds calculation(1) by blast
    ultimately show ?thesis
      using decode_rr [of i K a b ?w] s ok exec_load_reg_sem [OF c, of ?w] by simp
  next
    assume "fs = [REG 20, IMM 0, NONE]" "clear [20, 16] K" "dec_imm K = 0"
      and c: "(in_name i, ?op - 0x30) \<in> set move_codes"
    moreover obtain a v where "xs = [Reg a, Imm v]"
      using kinds_rrr(5) ops kinds calculation(1) by blast
    ultimately show ?thesis
      using decode_ri [of i K a v ?w] s ok zr exec_move_imm_sem [OF c, of ?w st] by simp
  next
    assume "fs = [REG 20, IMM 0, NONE]" "clear [20, 16] K" "dec_imm K = 0"
      and c: "(in_name i, ?op - 0x70) \<in> set load_codes"
    moreover obtain a v where "xs = [Reg a, Imm v]"
      using kinds_rrr(5) ops kinds calculation(1) by blast
    ultimately show ?thesis
      using decode_ri [of i K a v ?w] s ok exec_load_imm_sem [OF c, of ?w] by simp
  qed
qed

lemma exec_shape2s_sem:
  assumes sh: "shape2s (in_name i) K fs" and s: "shape i K fs"
    and kinds: "map operand_kind xs = row_kinds i" and ok: "list_all operand_ok xs"
  shows "exec_insn env t (word_of i xs) st = sem env t (in_name i) xs st"
proof -
  let ?op = "drop_bit 24 K" and ?w = "word_of i xs"
  have ops: "in_ops i = [fs]"
    using s by (simp add: shape_def)
  show ?thesis
    using sh unfolding shape2s_def Let_def
  proof (elim disjE conjE)
    assume "fs = [REG 16, REG 8, NONE]" "clear [16, 8] K" "in_name i = ''cmp''" "?op = 0x2A"
    moreover obtain a b where "xs = [Reg a, Reg b]"
      using kinds_rrr(4) ops kinds calculation(1) by blast
    ultimately show ?thesis
      using decode_br [of i K a b ?w] s ok exec_single_sem(5) [of ?w] by simp
  next
    assume "fs = [REG 16, REG 8, NONE]" "clear [16, 8] K" "in_name i = ''screen''" "?op = 0x04"
    moreover obtain a b where "xs = [Reg a, Reg b]"
      using kinds_rrr(4) ops kinds calculation(1) by blast
    ultimately show ?thesis
      using decode_br [of i K a b ?w] s ok exec_single_sem(7) [of ?w] by simp
  next
    assume "fs = [REG 16, IMM 0, NONE]" "clear [16] K" "dec_imm K = 0" "in_name i = ''cmp''" "?op = 0x3A"
    moreover obtain a v where "xs = [Reg a, Imm v]"
      using kinds_rrr(5) ops kinds calculation(1) by blast
    ultimately show ?thesis
      using decode_bi [of i K a v ?w] s ok exec_single_sem(6) [of ?w] by simp
  next
    assume "fs = [REG 16, IMM 0, NONE]" "clear [16] K" "dec_imm K = 0" "in_name i = ''screen''" "?op = 0x14"
    moreover obtain a v where "xs = [Reg a, Imm v]"
      using kinds_rrr(5) ops kinds calculation(1) by blast
    ultimately show ?thesis
      using decode_bi [of i K a v ?w] s ok exec_single_sem(8) [of ?w] by simp
  next
    assume "fs = [REG 8, REG 16, NONE]" "clear [16, 8] K" and c: "(in_name i, ?op - 0x60) \<in> set store_codes"
    moreover obtain a b where "xs = [Reg a, Reg b]"
      using kinds_rrr(4) ops kinds calculation(1) by blast
    ultimately show ?thesis
      using decode_cb [of i K a b ?w] s ok exec_store_reg_sem [OF c, of ?w] by simp
  next
    assume "fs = [IMM 0, REG 16, NONE]" "clear [16] K" "dec_imm K = 0"
      and c: "(in_name i, ?op - 0x70) \<in> set store_codes"
    moreover obtain a v where "xs = [Imm v, Reg a]"
      using kinds_rrr(6) ops kinds calculation(1) by blast
    ultimately show ?thesis
      using decode_ib [of i K a v ?w] s ok exec_store_imm_sem [OF c, of ?w] by simp
  qed
qed

lemma exec_shape1_sem:
  assumes sh: "shape1 (in_name i) K fs" and s: "shape i K fs"
    and kinds: "map operand_kind xs = row_kinds i" and ok: "list_all operand_ok xs"
    and no: "\<not> (in_name i = ''out'' \<and> row_kinds i = [OP_IMM])"
  shows "exec_insn env t (word_of i xs) st = sem env t (in_name i) xs st"
proof -
  let ?op = "drop_bit 24 K" and ?w = "word_of i xs"
  have ops: "in_ops i = [fs]"
    using s by (simp add: shape_def)
  show ?thesis
    using sh unfolding shape1_def Let_def
  proof (elim disjE conjE)
    assume "fs = [REG 20, NONE, NONE]" "clear [20] K"
      and c: "(in_name i, ?op) \<in> set [(''in'', 1), (''keyboard'', 3), (''time_0'', 5), (''time_1'', 6), (''counter'', 7)]"
    moreover obtain a where "xs = [Reg a]"
      using kinds_rrr(7) ops kinds calculation(1) by blast
    ultimately show ?thesis
      using decode_a [of i K a ?w] s ok exec_io_sem [OF c, of ?w] by simp
  next
    assume "fs = [REG 8, NONE, NONE]" "clear [8] K" "in_name i = ''out''" "?op = 0x02"
    moreover obtain a where "xs = [Reg a]"
      using kinds_rrr(7) ops kinds calculation(1) by blast
    ultimately show ?thesis
      using decode_c [of i K a ?w] s ok exec_single_sem(2) [of ?w] by simp
  next
    assume "fs = [REG 8, NONE, NONE]" "clear [8] K" "in_name i = ''jmp''" "?op = 0x48"
    moreover obtain a where "xs = [Reg a]"
      using kinds_rrr(7) ops kinds calculation(1) by blast
    ultimately show ?thesis
      using decode_c [of i K a ?w] s ok exec_single_sem(3) [of ?w] by simp
  next
    assume "fs = [IMM 0, NONE, NONE]" "dec_imm K = 0" and c: "(in_name i, ?op) \<in> set jump_codes"
    moreover obtain v where "xs = [Imm v]"
      using kinds_rrr(8) ops kinds calculation(1) by blast
    ultimately show ?thesis
      using decode_i [of i K v ?w] s ok exec_jump_sem [OF c, of ?w] by simp
  next
    assume "fs = [IMM 0, NONE, NONE]" "dec_imm K = 0" "in_name i = ''jmp''" "?op = 0x58"
    moreover obtain v where "xs = [Imm v]"
      using kinds_rrr(8) ops kinds calculation(1) by blast
    ultimately show ?thesis
      using decode_i [of i K v ?w] s ok exec_single_sem(4) [of ?w] by simp
  next
    assume "fs = [IMM 0, NONE, NONE]" "in_name i = ''out''"
    with no ops show ?thesis
      by (simp add: kinds_simps)
  next
    assume "fs = [NONE, NONE, NONE]" "?op = 0"
    then show ?thesis
      using kinds_rrr(9) [of i xs] ops kinds decode_none [of i K ?w] s exec_single_sem(1) [of ?w] by simp
  qed
qed

lemma row_shape_cases:
  assumes "i \<in> set isa_table" and "in_nwords i = 1"
  obtains K fs where "shape i K fs"
    and "shape3 (in_name i) K fs \<or> shape2 (in_name i) K fs \<or> shape2s (in_name i) K fs \<or> shape1 (in_name i) K fs"
proof -
  have "row_shape i"
    using isa_table_shapes assms by (simp add: list_all_iff)
  with assms(2) show thesis
    by (intro that [of "in_bits i ! 0" "in_ops i ! 0"]) (auto simp: row_shape_def shape_def Let_def)
qed

text \<open>
  C2: on the word that the encoder writes for an instruction, the emulator does what the
  semantics by mnemonic says, for every one-word row of the table except \<^verbatim>\<open>out\<close> with an
  immediate.
\<close>

theorem emulator_implements_isa:
  assumes "i \<in> set isa_table" and "in_nwords i = 1"
    and "map operand_kind xs = row_kinds i" and "list_all operand_ok xs"
    and "\<not> (in_name i = ''out'' \<and> row_kinds i = [OP_IMM])" and "zero_reg st"
  shows "exec_insn env t (word_of i xs) st = sem env t (in_name i) xs st"
  using row_shape_cases [OF assms(1,2)] exec_shape3_sem exec_shape2_sem exec_shape2s_sem exec_shape1_sem
    assms(3-6) by metis

theorem emulator_implements_isa_witness:
  "exec_insn (emu_env_of 16 None) 0
     (word_of (row ''mod'' 1 [0x3D000000] [0xFF000000] [[REG 20, REG 16, IMM 0]] 3) [Reg 2, Reg 1, Imm 10])
     ((emu_start ())\<lparr>regs := (\<lambda>_. 0)(1 := 47)\<rparr>)
   = (Next, (emu_start ())\<lparr>regs := (\<lambda>_. 0)(1 := 47, 2 := 7)\<rparr>)"
proof -
  let ?i = "row ''mod'' 1 [0x3D000000] [0xFF000000] [[REG 20, REG 16, IMM 0]] 3"
  have i: "?i \<in> set isa_table" "in_nwords ?i = 1"
    by (simp_all add: isa_table_def row_def)
  show ?thesis
    by (subst emulator_implements_isa [OF i])
      (simp_all add: kinds_simps row_def zero_reg_def alu_ops_def set_reg_def)
qed

text \<open>
  C28: \<^verbatim>\<open>out\<close> with an immediate is encoded with opcode 0x12, for which the emulator has no case
  (it has 0x10): it stops with error 3 and prints nothing.
\<close>

theorem out_imm_faults:
  "exec_insn env t (word_of (row ''out'' 1 [0x12000000] [0xFFFF0000] [[IMM 0, NONE, NONE]] 1) [Imm (w AND 0xFFFF)]) st
     = (Fault 3, st)
   \<and> row ''out'' 1 [0x12000000] [0xFFFF0000] [[IMM 0, NONE, NONE]] 1 \<in> set isa_table"
proof -
  let ?i = "row ''out'' 1 [0x12000000] [0xFFFF0000] [[IMM 0, NONE, NONE]] 1"
  have "shape ?i 0x12000000 [IMM 0, NONE, NONE]"
    by (simp add: shape_def row_def)
  moreover have "w AND 0xFFFF \<le> 0xFFFF"
    by (rule word_and_le1)
  ultimately have "dec_op (word_of ?i [Imm (w AND 0xFFFF)]) = 0x12"
    using decode_i [of ?i "0x12000000" "w AND 0xFFFF" "word_of ?i [Imm (w AND 0xFFFF)]"] by (simp add: dec_imm_def)
  then have "exec_insn env t (word_of ?i [Imm (w AND 0xFFFF)]) st = (Fault 3, st)"
    by (simp add: machine_simps)
  then show ?thesis
    by (simp add: isa_table_def)
qed


end
