(* ===== verification/Machine_Run.thy ===== *)
theory Machine_Run
  imports Machine
begin

text \<open>
  Runs of the emulator: the invariant of its state (register 0 is zero and no byte outside
  the buffers is written), the limits of its loop and the codes of its result.
\<close>

section \<open>The invariant of the machine\<close>

definition emu_wf :: "'o emu_env \<Rightarrow> 'o emu \<Rightarrow> bool" where
  "emu_wf env st \<longleftrightarrow>
     regs st 0 = 0 \<and> (\<forall>i \<ge> 16. regs st i = 0) \<and> (\<forall>k \<ge> 8. settings st k = 0) \<and>
     (\<forall>p \<ge> ram_size env. ram st p = 0) \<and> (\<forall>p \<ge> disk_size env. dsk st p = 0)"

lemma emu_wf_other [simp]:
  "emu_wf env (st\<lparr>last_a := x, last_b := y\<rparr>) = emu_wf env st"
  "emu_wf env (st\<lparr>pc := q\<rparr>) = emu_wf env st"
  "emu_wf env (st\<lparr>key_index := k\<rparr>) = emu_wf env st"
  "emu_wf env (st\<lparr>time_high := h\<rparr>) = emu_wf env st"
  "emu_wf env (st\<lparr>instructions := t\<rparr>) = emu_wf env st"
  "emu_wf env (st\<lparr>printed := ps\<rparr>) = emu_wf env st"
  "emu_wf env (st\<lparr>opaque := o'\<rparr>) = emu_wf env st"
  by (simp_all add: emu_wf_def)

lemma nibble_less: "unat (nibble p w) < 16"
proof -
  have "nibble p w < 2 ^ 4"
    unfolding nibble_def F_mask by (rule and_mask_less') simp
  then show ?thesis
    by (simp add: word_less_nat_alt)
qed

lemma emu_wf_set_reg [machine_inv, simp]:
  "emu_wf env st \<Longrightarrow> emu_wf env (set_reg (dec_a w) v st)"
  using nibble_less [of 20 w] by (auto simp: emu_wf_def set_reg_def dec_a_def)

lemma emu_wf_setting [machine_inv]:
  fixes k :: u32
  shows "emu_wf env st \<Longrightarrow> k < 8 \<Longrightarrow> emu_wf env (st\<lparr>settings := (settings st)(unat k := v)\<rparr>)"
  by (auto simp: emu_wf_def word_less_nat_alt)

lemma data_addr_small: "unat (data_addr env w st) < 2 ^ 32"
  using unat32_less by (auto simp: data_addr_def Let_def)

lemma past_end:
  fixes p q sz :: u64
  assumes "unat p < 2 ^ 32" and "k \<le> 4" and "p + of_nat k \<le> sz" and "sz \<le> q" and "j < k"
  shows "p + of_nat j \<noteq> q"
proof -
  have "unat (p + of_nat k) = unat p + k" "unat (p + of_nat j) = unat p + j"
    using assms by (simp_all add: unat_word_ariths unat_of_nat)
  with assms show ?thesis
    by (auto simp: word_le_nat_alt)
qed

lemma write_past:
  assumes "unat p < 2 ^ 32" and "sz \<le> q"
  shows "p < sz \<Longrightarrow> (m(p := x)) q = m q"
    and "p + 2 \<le> sz \<Longrightarrow> wr16 p y m q = m q"
    and "p + 4 \<le> sz \<Longrightarrow> wr32 p v m q = m q"
proof -
  show "p < sz \<Longrightarrow> (m(p := x)) q = m q"
    using assms(2) by auto
  show "p + 2 \<le> sz \<Longrightarrow> wr16 p y m q = m q"
    using past_end [OF assms(1), of 2 sz q 0] past_end [OF assms(1), of 2 sz q 1] assms(2)
    by (simp add: wr16_def)
  show "p + 4 \<le> sz \<Longrightarrow> wr32 p v m q = m q"
    using past_end [OF assms(1), of 4 sz q 0] past_end [OF assms(1), of 4 sz q 1]
      past_end [OF assms(1), of 4 sz q 2] past_end [OF assms(1), of 4 sz q 3] assms(2)
    by (simp add: wr32_def)
qed

lemma emu_wf_stores:
  fixes p :: u64
  assumes "emu_wf env st" and "unat p < 2 ^ 32"
  shows "\<not> p \<ge> ram_size env \<Longrightarrow> emu_wf env (st\<lparr>ram := (ram st)(p := x)\<rparr>)"
    and "\<not> p + 2 > ram_size env \<Longrightarrow> emu_wf env (st\<lparr>ram := wr16 p y (ram st)\<rparr>)"
    and "\<not> p + 4 > ram_size env \<Longrightarrow> emu_wf env (st\<lparr>ram := wr32 p v (ram st)\<rparr>)"
    and "\<not> p + 4 > disk_size env \<Longrightarrow> emu_wf env (st\<lparr>dsk := wr32 p v (dsk st)\<rparr>)"
  using assms(1) write_past [OF assms(2)]
  by (simp_all add: emu_wf_def linorder_not_less linorder_not_le del: fun_upd_apply)

definition wf_exec :: "'o emu_env \<Rightarrow> 'o exec \<Rightarrow> bool" where
  "wf_exec env r \<longleftrightarrow> (case r of None \<Rightarrow> True | Some (_, st') \<Rightarrow> emu_wf env st')"

lemma wf_exec_simps [simp]:
  "wf_exec env None"
  "wf_exec env (Some (fl, st)) = emu_wf env st"
  "wf_exec env (if c then r1 else r2) = (if c then wf_exec env r1 else wf_exec env r2)"
  by (simp_all add: wf_exec_def)

lemma wf_exec_guarded [machine_inv]:
  "emu_wf env st \<Longrightarrow> (\<not> c \<Longrightarrow> emu_wf env st') \<Longrightarrow> wf_exec env (guarded c st st')"
  by (simp add: guarded_def)

lemma wf_exec_groups [machine_inv]:
  assumes wf: "emu_wf env st"
  shows "wf_exec env (exec_io env t w st)"
    and "wf_exec env (exec_alu_reg w st)"
    and "wf_exec env (exec_alu_imm w st)"
    and "wf_exec env (exec_jump w st)"
proof -
  have key: "emu_wf env (exec_keyboard env t (dec_a w) st)"
    using wf by (auto simp: exec_keyboard_def Let_def split: option.splits prod.splits)
  have set: "wf_exec env (set_setting k v st)" for k v
    using wf emu_wf_setting [OF wf, of k v] by (simp add: set_setting_def linorder_not_le)
  show "wf_exec env (exec_io env t w st)"
    using wf key set by (simp add: exec_io_def Let_def)
  show "wf_exec env (exec_alu_reg w st)" "wf_exec env (exec_alu_imm w st)"
    using wf by (simp_all add: exec_alu_reg_def exec_alu_imm_def Let_def)
  have "wf_exec env (jump_uncond u st)" "wf_exec env (jump_if c u st)" for u c
    using wf by (simp_all add: jump_uncond_def jump_if_def wf_exec_def)
  then show "wf_exec env (exec_jump w st)"
    by (simp add: exec_jump_def Let_def)
qed

lemma wf_exec_mem [machine_inv]:
  assumes wf: "emu_wf env st"
  shows "wf_exec env (exec_mem_reg env w st)" and "wf_exec env (exec_mem_imm env w st)"
  using wf
  by (auto simp: exec_mem_reg_def exec_mem_imm_def Let_def
      intro!: wf_exec_guarded emu_wf_stores [OF wf data_addr_small])

lemma emu_wf_exec [machine_inv]:
  assumes "emu_wf env st"
  shows "emu_wf env (snd (exec_insn env t w st))"
  using wf_exec_groups(1) [OF assms, of t w] wf_exec_groups(2-4) [OF assms, of w]
    wf_exec_mem [OF assms, of w] assms
  by (auto simp: exec_insn_def wf_exec_def split: option.splits)

lemma emu_wf_step [machine_inv]:
  assumes "emu_wf env st"
  shows "emu_wf env (snd (emu_step env t st))"
proof -
  have obs: "emu_wf env (snd (observed env t st'))" if "emu_wf env st'" for st'
    using that by (auto simp: observed_def Let_def split: option.splits prod.splits)
  have fetch: "emu_wf env (snd (fetch_exec env t st'))" if "emu_wf env st'" for st'
    using emu_wf_exec [OF that, of t "rd32 (ram st') (fetch_addr env st')"] that
    by (auto simp: fetch_exec_def Let_def split: prod.splits flow.splits)
  show ?thesis
    using obs [of "st\<lparr>instructions := t\<rparr>"] fetch assms
    by (auto simp: emu_step_def Let_def split: prod.splits)
qed

lemma emu_wf_loop:
  "emu_wf env st \<Longrightarrow> emu_wf env (res_state (emu_loop env limit k t st))"
proof (induction k arbitrary: t st)
  case 0
  then show ?case by (simp add: emu_halt_def emu_done_def)
next
  case (Suc k)
  have "emu_wf env (snd (emu_step env t st))"
    by (rule emu_wf_step [OF Suc.prems])
  with Suc.IH show ?case
    by (cases "emu_step env t st"; cases "fst (emu_step env t st)")
      (auto simp: emu_halt_def emu_done_def)
qed

lemma copy_in_past:
  "n \<le> unat sz \<Longrightarrow> sz \<le> p \<Longrightarrow> copy_in bs n p = 0"
  by (simp add: copy_in_def word_le_nat_alt)

lemma emu_start_wf:
  "emu_wf env (emu_start o0)"
  by (simp add: emu_wf_def emu_start_def)

text \<open>
  C12: whatever the program and the options, when a run ends register 0 is zero, there are
  sixteen registers and eight settings, and no byte outside the main memory and the disk has
  been written.
\<close>

theorem emu_run_safe:
  "emu_wf (emu_env_of msize opt) (res_state (emu_run_ex alloc bin msize limit opt o0))"
proof -
  let ?env = "emu_env_of msize opt"
  have ram: "emu_wf ?env ((emu_start o0)\<lparr>ram := copy_in bin (length bin)\<rparr>)"
    if "length bin \<le> unat (ram_size ?env)"
    using that by (simp add: emu_wf_def emu_start_def copy_in_past)
  have disk: "emu_wf ?env (st\<lparr>dsk := copy_in d (unat (opt_disk_len r))\<rparr>)"
    if "emu_wf ?env st" "opt = Some r" "opt_disk_len r \<le> SP_DISK_BYTES" for st d r
  proof -
    have "unat (opt_disk_len r) \<le> unat (disk_size ?env)"
      using that(2,3) by (auto simp: emu_env_of_def word_le_nat_alt word_less_nat_alt)
    with that(1) show ?thesis
      by (simp add: emu_wf_def copy_in_past)
  qed
  show ?thesis
    using ram disk emu_start_wf [of ?env o0]
    by (auto simp: emu_run_ex_def Let_def emu_done_def linorder_not_less intro!: emu_wf_loop
        split: option.splits)
qed


section \<open>Limits and codes of a run\<close>

text \<open>The codes a result can have, and the number of the last instruction begun.\<close>

definition result_ok :: "u64 \<Rightarrow> 'o emu_result \<Rightarrow> bool" where
  "result_ok limit r \<longleftrightarrow>
     (res_error r = 0 \<and> res_stop r \<in> {0, 1} \<or> res_error r = 1 \<and> res_stop r = 2
       \<or> res_error r \<in> {2, 3} \<and> res_stop r = 3) \<and>
     (if limit = 0 then instructions (res_state r) = 0 else instructions (res_state r) < limit) \<and>
     (res_error r = 1 \<and> limit \<noteq> 0 \<longrightarrow> instructions (res_state r) = limit - 1)"

lemma exec_fault: "fst (exec_insn env t w st) = Fault e \<Longrightarrow> e = 2 \<or> e = 3"
proof -
  have g: "fst r = Fault e \<Longrightarrow> e = 2" if "guarded c st st' = Some r" for c st st' and r :: "flow \<times> 'b emu"
    using that by (auto simp: guarded_def split: if_splits)
  have io: "fst r = Fault e \<Longrightarrow> e = 2" if "exec_io env t w st = Some r" for r
    using that by (auto simp: exec_io_def set_setting_def Let_def split: if_splits)
  have ar: "fst r \<noteq> Fault e" if "exec_alu_reg w st = Some r \<or> exec_alu_imm w st = Some r" for r
    using that by (elim disjE) (auto simp: exec_alu_reg_def exec_alu_imm_def Let_def split: if_splits)
  have jp: "fst r \<noteq> Fault e" if "exec_jump w st = Some r" for r
    using that by (auto simp: exec_jump_def jump_uncond_def jump_if_def Let_def split: if_splits)
  have mm: "fst r = Fault e \<Longrightarrow> e = 2" if "exec_mem_reg env w st = Some r \<or> exec_mem_imm env w st = Some r" for r
    using that by (elim disjE) (auto simp: exec_mem_reg_def exec_mem_imm_def Let_def dest: g split: if_splits)
  assume "fst (exec_insn env t w st) = Fault e"
  then show ?thesis
    using io ar jp mm by (auto simp: exec_insn_def split: option.splits)
qed


lemma instructions_exec: "instructions (snd (exec_insn env t w st)) = instructions st"
proof -
  have key: "instructions (exec_keyboard env t a st) = instructions st" for a
    by (auto simp: exec_keyboard_def set_reg_def Let_def split: option.splits prod.splits)
  have io: "instructions (snd r) = instructions st" if "exec_io env t w st = Some r" for r
    using that key by (auto simp: exec_io_def set_setting_def set_reg_def Let_def split: if_splits)
  have ar: "instructions (snd r) = instructions st"
    if "exec_alu_reg w st = Some r \<or> exec_alu_imm w st = Some r" for r
    using that by (elim disjE) (auto simp: exec_alu_reg_def exec_alu_imm_def set_reg_def Let_def split: if_splits)
  have jp: "instructions (snd r) = instructions st" if "exec_jump w st = Some r" for r
    using that by (auto simp: exec_jump_def jump_uncond_def jump_if_def Let_def split: if_splits)
  have mm: "instructions (snd r) = instructions st"
    if "exec_mem_reg env w st = Some r \<or> exec_mem_imm env w st = Some r" for r
    using that by (elim disjE)
      (auto simp: exec_mem_reg_def exec_mem_imm_def guarded_def set_reg_def Let_def split: if_splits)
  show ?thesis
    using io ar jp mm by (auto simp: exec_insn_def split: option.splits)
qed

lemma emu_step_instructions: "instructions (snd (emu_step env t st)) = t"
proof -
  have obs: "instructions (snd (observed env t st')) = instructions st'" for st'
    by (auto simp: observed_def Let_def split: option.splits prod.splits)
  have "instructions (snd (fetch_exec env t st')) = instructions st'" for st'
    using instructions_exec [of env t "rd32 (ram st') (fetch_addr env st')" st']
    by (auto simp: fetch_exec_def Let_def split: prod.splits flow.splits)
  then show ?thesis
    using obs [of "st\<lparr>instructions := t\<rparr>"]
    by (auto simp: emu_step_def Let_def split: prod.splits)
qed

lemma emu_step_fault:
  assumes "fst (emu_step env t st) = Stop_fault e"
  shows "e = 2 \<or> e = 3"
proof -
  have "e = 2 \<or> e = 3" if "fst (fetch_exec env t st') = Stop_fault e" for st'
    using that exec_fault [of env t "rd32 (ram st') (fetch_addr env st')" st' e]
    by (auto simp: fetch_exec_def Let_def split: prod.splits flow.splits if_splits)
  with assms show ?thesis
    by (auto simp: emu_step_def Let_def split: prod.splits if_splits)
qed

lemma emu_loop_ok:
  assumes "unat t + k = unat limit" and "t \<noteq> 0 \<Longrightarrow> instructions st = t - 1"
    and "t = 0 \<Longrightarrow> instructions st = 0"
  shows "result_ok limit (emu_loop env limit k t st)"
  using assms
proof (induction k arbitrary: t st)
  case 0
  then have "t = limit" by (simp add: unsigned_word_eqI)
  moreover have "limit \<noteq> 0 \<Longrightarrow> limit - 1 < limit"
    by (simp add: word_less_nat_alt measure_unat)
  ultimately show ?case
    using 0(2,3) by (auto simp: result_ok_def emu_halt_def emu_done_def)
next
  case (Suc k)
  let ?r = "emu_step env t st"
  have lt: "t < limit" "limit \<noteq> 0"
    using Suc.prems(1) by (auto simp: word_less_nat_alt)
  have ins: "instructions (snd ?r) = t"
    by (rule emu_step_instructions)
  have next_t: "unat (t + 1) = unat t + 1"
    using lt(1) unsigned_less [of limit, where ?'a = nat] by (simp add: word_less_nat_alt unat_word_ariths)
  have "result_ok limit (emu_loop env limit k (t + 1) (snd ?r))"
    using Suc.IH [of "t + 1" "snd ?r"] Suc.prems(1) next_t ins
    by (metis add_Suc_right add_Suc Suc_eq_plus1 add_diff_cancel_right' unat_0 Zero_not_Suc)
  then show ?case
    using ins lt emu_step_fault [of env t st]
    by (cases ?r; cases "fst ?r") (auto simp: result_ok_def emu_halt_def emu_done_def)
qed

text \<open>
  C25: a run ends: it begins at most \<open>limit\<close> instructions, its error code and its stop reason
  agree, and error 1 means that the whole allowance was used.
\<close>

theorem emu_run_bounded:
  "result_ok limit (emu_run_ex alloc bin msize limit opt o0)"
proof -
  have fail: "result_ok limit (emu_done st 0 2 0)" if "instructions st = 0" for st :: "'a emu"
    using that by (auto simp: result_ok_def emu_done_def word_neq_0_conv)
  have loop: "result_ok limit (emu_loop env limit (unat limit) 0 st)"
    if "instructions st = 0" for env and st :: "'a emu"
    using that by (intro emu_loop_ok) auto
  show ?thesis
    using fail loop
    by (auto simp: emu_run_ex_def Let_def emu_start_def split: option.splits)
qed

end
