(* ===== verification/Machine_Steps.thy ===== *)
theory Machine_Steps
  imports Machine_Run
begin

text \<open>
  Sequences of steps of the emulator, and the pseudo instructions of \<^verbatim>\<open>isa.c\<close> (\<^verbatim>\<open>push\<close>, \<^verbatim>\<open>pop\<close>,
  \<^verbatim>\<open>call\<close>, \<^verbatim>\<open>ret\<close>) as sequences of their words: a value pushed is the value popped, and a call
  comes back.
\<close>

section \<open>Sequences of steps\<close>

fun emu_steps :: "'o emu_env \<Rightarrow> u64 \<Rightarrow> nat \<Rightarrow> 'o emu \<Rightarrow> 'o emu option" where
  "emu_steps env t 0 st = Some st"
| "emu_steps env t (Suc n) st =
     (case emu_step env t st of
        (Continue, st') \<Rightarrow> emu_steps env (t + 1) n st'
      | _ \<Rightarrow> None)"

text \<open>The words \<open>ws\<close> are in main memory from address \<open>p\<close> on.\<close>

definition code_at :: "'o emu_env \<Rightarrow> (u64 \<Rightarrow> u8) \<Rightarrow> u64 \<Rightarrow> u32 list \<Rightarrow> bool" where
  "code_at env m p ws \<longleftrightarrow>
     unat p + 4 * length ws \<le> unat (ram_size env) \<and>
     (\<forall>k < length ws. rd32 m (p + 4 * of_nat k) = ws ! k)"

text \<open>A machine with full addressing and no callbacks.\<close>

definition plain :: "'o emu_env \<Rightarrow> bool" where
  "plain env \<longleftrightarrow> emu_opt env = None \<and> ram_mask env = UINT32_MAX"

lemma rd32_wr32_same [simp]: "rd32 (wr32 p v m) p = v"
proof -
  have ne: "p + 1 \<noteq> p" "p + 2 \<noteq> p" "p + 3 \<noteq> p" "p + 2 \<noteq> p + 1" "p + 3 \<noteq> p + 1" "p + 3 \<noteq> p + 2"
    by simp_all
  show ?thesis
    using be_word32_bytes [of v] by (simp add: rd32_def wr32_def be_word32_def)
qed

lemma rd32_wr32_other:
  assumes "unat p + 4 \<le> unat q \<or> unat q + 4 \<le> unat p" "unat p + 4 \<le> 2 ^ 64" "unat q + 4 \<le> 2 ^ 64"
  shows "rd32 (wr32 p v m) q = rd32 m q"
proof -
  have u: "unat (x + of_nat k) = unat x + k" if "unat x + 4 \<le> 2 ^ 64" "k < 4" for x :: u64 and k
    using that by (simp add: unat_word_ariths unat_of_nat)
  have ne: "p + of_nat j \<noteq> q + of_nat k" if "j < 4" "k < 4" for j k
    using u [OF assms(2) that(1)] u [OF assms(3) that(2)] assms(1) that by auto
  show ?thesis
    using ne [of 0 0] ne [of 0 1] ne [of 0 2] ne [of 0 3] ne [of 1 0] ne [of 1 1] ne [of 1 2] ne [of 1 3]
      ne [of 2 0] ne [of 2 1] ne [of 2 2] ne [of 2 3] ne [of 3 0] ne [of 3 1] ne [of 3 2] ne [of 3 3]
    by (simp add: rd32_def wr32_def)
qed


lemma code_at_nth:
  assumes "code_at env m p ws" and "k < length ws"
  shows "rd32 m (p + 4 * of_nat k) = ws ! k" and "\<not> ram_size env < p + 4 * of_nat k + 4"
proof -
  show "rd32 m (p + 4 * of_nat k) = ws ! k"
    using assms by (simp add: code_at_def)
  have "unat p + 4 * k + 4 \<le> unat (ram_size env)"
    using assms by (simp add: code_at_def)
  moreover from this have "unat (p + 4 * of_nat k + 4) = unat p + 4 * k + 4"
    using unsigned_less [of "ram_size env", where ?'a = nat]
    by (simp add: unat_word_ariths unat_of_nat)
  ultimately show "\<not> ram_size env < p + 4 * of_nat k + 4"
    by (simp add: word_less_nat_alt)
qed

lemma plain_step:
  assumes "plain env" and "code_at env (ram st) p ws" and "pc st = p + 4 * of_nat k" and "k < length ws"
  shows "emu_step env t st =
    (case exec_insn env t (ws ! k) (st\<lparr>instructions := t\<rparr>) of
       (Next, st') \<Rightarrow> (Continue, st'\<lparr>pc := pc st' + 4\<rparr>)
     | (Again, st') \<Rightarrow> (Continue, st')
     | (Halted, st') \<Rightarrow> (Stop_halt, st')
     | (Fault e, st') \<Rightarrow> (Stop_fault e, st'))"
  using assms(1,3) code_at_nth [OF assms(2,4)]
  by (simp add: emu_step_def observed_def fetch_exec_def fetch_addr_def plain_def)

lemma code_at_write:
  assumes "code_at env m p ws" and "in_buffer (ram_size env) 4 a"
    and "unat a + 4 \<le> unat p \<or> unat p + 4 * length ws \<le> unat a"
  shows "code_at env (wr32 (ucast a) v m) p ws"
proof -
  have lim: "unat (ram_size env) < 2 ^ 64"
    using unsigned_less [of "ram_size env", where ?'a = nat] by simp
  have "rd32 (wr32 (ucast a) v m) (p + 4 * of_nat k) = rd32 m (p + 4 * of_nat k)" if "k < length ws" for k
  proof (rule rd32_wr32_other)
    have u: "unat (p + 4 * of_nat k) = unat p + 4 * k"
      using assms(1) that lim by (simp add: code_at_def unat_word_ariths unat_of_nat)
    show "unat (ucast a :: u64) + 4 \<le> unat (p + 4 * of_nat k) \<or> unat (p + 4 * of_nat k) + 4 \<le> unat (ucast a :: u64)"
      using assms(3) that u by auto
    show "unat (p + 4 * of_nat k) + 4 \<le> 2 ^ 64"
      using assms(1) that lim u by (simp add: code_at_def)
    show "unat (ucast a :: u64) + 4 \<le> 2 ^ 64"
      using unat32_less [of a] by simp
  qed
  with assms(1) show ?thesis
    by (simp add: code_at_def)
qed

lemma code_at_append:
  assumes "code_at env m p (us @ ws)"
  shows "code_at env m p us" and "code_at env m (p + 4 * of_nat (length us)) ws"
proof -
  show "code_at env m p us"
    using assms by (auto simp: code_at_def nth_append) 
  have lim: "unat (ram_size env) < 2 ^ 64"
    using unsigned_less [of "ram_size env", where ?'a = nat] by simp
  have "unat (p + 4 * of_nat (length us)) = unat p + 4 * length us"
    using assms lim by (simp add: code_at_def unat_word_ariths unat_of_nat)
  moreover have "rd32 m (p + 4 * of_nat (length us) + 4 * of_nat k) = ws ! k" if "k < length ws" for k
    using assms that by (auto simp: code_at_def nth_append algebra_simps dest: spec [of _ "length us + k"])
  ultimately show "code_at env m (p + 4 * of_nat (length us)) ws"
    using assms by (simp add: code_at_def)
qed

lemma stack_words:
  "isa_find ''push'' = Some i \<Longrightarrow>
     isa_encode_words i (vals_of [Reg r]) = [0x35EE0004, 0x66000E00 OR push_bit 16 (of_nat r)]"
  "isa_find ''pop'' = Some i \<Longrightarrow>
     isa_encode_words i (vals_of [Reg r]) = [0x62000E00 OR push_bit 20 (of_nat r), 0x34EE0004]"
  "isa_find ''call'' = Some i \<Longrightarrow>
     isa_encode_words i (vals_of [Imm v]) = [0x07F00000, 0x34FF0014, 0x35EE0004, 0x660F0E00, 0x580F0000 OR v]"
  "isa_find ''ret'' = Some i \<Longrightarrow>
     isa_encode_words i (vals_of []) = [0x62F00E00, 0x34EE0004, 0x480F0F00]"
  by (auto simp: isa_find_def isa_table_def row_def encode_simps)

lemma exec_stack_words:
  "exec_insn env t 0x35EE0004 st = (Next, set_reg 14 (regs st 14 - 4) st)"
  "exec_insn env t 0x34EE0004 st = (Next, set_reg 14 (regs st 14 + 4) st)"
  "exec_insn env t 0x07F00000 st = (Next, set_reg 15 (ucast (pc st)) st)"
  "exec_insn env t 0x34FF0014 st = (Next, set_reg 15 (regs st 15 + 20) st)"
  "exec_insn env t 0x480F0F00 st = take_jump (regs st 15 = ucast (pc st)) (ucast (regs st 15)) st"
  by (simp_all add: machine_simps dec_op_def dec_a_def dec_b_def dec_c_def dec_imm_def nibble_def Let_def)

lemma exec_stack_mem:
  assumes "r < 16" and "ram_mask env = UINT32_MAX"
  shows "exec_insn env t (0x66000E00 OR push_bit 16 (of_nat r)) st =
      (if in_buffer (ram_size env) 4 (regs st 14)
       then (Next, st\<lparr>ram := wr32 (ucast (regs st 14)) (regs st r) (ram st)\<rparr>) else (Fault 2, st))"
    and "exec_insn env t (0x62000E00 OR push_bit 20 (of_nat r)) st =
      (if in_buffer (ram_size env) 4 (regs st 14)
       then (Next, set_reg r (rd32 (ram st) (ucast (regs st 14))) st) else (Fault 2, st))"
proof -
  have m: "x AND UINT32_MAX = x" for x :: u32
  proof -
    have "UINT32_MAX = - 1" by (simp add: UINT32_MAX_def)
    then show ?thesis by (metis and.right_neutral)
  qed
  let ?w = "0x66000E00 OR push_bit 16 (of_nat r) :: u32" and ?v = "0x62000E00 OR push_bit 20 (of_nat r) :: u32"
  have f: "dec_op (0x66000E00 :: u32) = 0x66" "dec_op (0x62000E00 :: u32) = 0x62"
    "nibble 16 0x66000E00 = 0" "nibble 8 0x66000E00 = 14" "nibble 20 0x62000E00 = 0" "nibble 8 0x62000E00 = 14"
    by (simp_all add: dec_op_def nibble_def)
  have "dec_op ?w = 0x66" "dec_b ?w = r" "dec_c ?w = 14" "dec_op ?v = 0x62" "dec_a ?v = r" "dec_c ?v = 14"
    using assms(1) f by (simp_all add: field_simps32)
  then show "exec_insn env t ?w st =
      (if in_buffer (ram_size env) 4 (regs st 14)
       then (Next, st\<lparr>ram := wr32 (ucast (regs st 14)) (regs st r) (ram st)\<rparr>) else (Fault 2, st))"
    and "exec_insn env t ?v st =
      (if in_buffer (ram_size env) 4 (regs st 14)
       then (Next, set_reg r (rd32 (ram st) (ucast (regs st 14))) st) else (Fault 2, st))"
    using exec_store_reg_sem [of "''store_32''" 6 ?w env t st] exec_load_reg_sem [of "''load_32''" 2 ?v env t st]
    by (simp_all add: load_codes_def store_codes_def sem2_def sem_load_def sem_store_def assms(2) m)
qed


text \<open>
  C27: \<^verbatim>\<open>push\<close> of one register followed by \<^verbatim>\<open>pop\<close> into another moves the value and restores the
  stack pointer, when the stack slot is in main memory and apart from the code still to run.
\<close>

theorem push_pop_moves:
  assumes "plain env" and "r < 16" "q < 16" "r \<noteq> 14" "q \<noteq> 14" "q \<noteq> 0"
    and i: "isa_find ''push'' = Some i" and j: "isa_find ''pop'' = Some j"
    and code: "code_at env (ram st) (pc st)
                 (isa_encode_words i (vals_of [Reg r]) @ isa_encode_words j (vals_of [Reg q]))"
    and slot: "in_buffer (ram_size env) 4 (regs st 14 - 4)"
    and apart: "unat (regs st 14 - 4) + 4 \<le> unat (pc st) \<or> unat (pc st) + 16 \<le> unat (regs st 14 - 4)"
  shows "emu_steps env t 4 st =
    Some (st\<lparr>regs := (regs st)(q := regs st r), pc := pc st + 16, instructions := t + 3,
             ram := wr32 (ucast (regs st 14 - 4)) (regs st r) (ram st)\<rparr>)"
proof -
  let ?a = "regs st 14 - 4"
  let ?ws = "[0x35EE0004, 0x66000E00 OR push_bit 16 (of_nat r), 0x62000E00 OR push_bit 20 (of_nat q), 0x34EE0004]"
  have c0: "code_at env (ram st) (pc st) ?ws"
    using code stack_words(1) [OF i] stack_words(2) [OF j] by simp
  let ?m = "wr32 (ucast ?a) (regs st r) (ram st)"
  have c1: "code_at env ?m (pc st) ?ws"
    by (rule code_at_write [OF c0 slot]) (use apart in simp)
  have mk: "ram_mask env = UINT32_MAX"
    using assms(1) by (simp add: plain_def)
  have keep: "(regs st)(q := regs st r, 14 := regs st 14) = (regs st)(q := regs st r)"
    using assms(5) by auto
  note w0 = plain_step [OF assms(1), where p = "pc st" and ws = ?ws]
  have s0: "emu_step env t st = (Continue, st\<lparr>regs := (regs st)(14 := ?a), instructions := t, pc := pc st + 4\<rparr>)"
    by (subst w0 [where k = 0]) (use c0 in \<open>simp_all add: exec_stack_words set_reg_def\<close>)
  let ?s1 = "st\<lparr>regs := (regs st)(14 := ?a), instructions := t, pc := pc st + 4\<rparr>"
  have s1: "emu_step env (t + 1) ?s1 = (Continue, ?s1\<lparr>instructions := t + 1, pc := pc st + 8, ram := ?m\<rparr>)"
    by (subst w0 [where k = 1])
      (use c0 slot assms(2,4) in \<open>simp_all add: exec_stack_mem [OF _ mk]\<close>)
  let ?s2 = "?s1\<lparr>instructions := t + 1, pc := pc st + 8, ram := ?m\<rparr>"
  have s2: "emu_step env (t + 2) ?s2 =
      (Continue, ?s2\<lparr>regs := (regs st)(14 := ?a, q := regs st r), instructions := t + 2, pc := pc st + 12\<rparr>)"
    by (subst w0 [where k = 2])
      (use c1 slot assms(3,6) in \<open>simp_all add: exec_stack_mem [OF _ mk] set_reg_def\<close>)
  let ?s3 = "?s2\<lparr>regs := (regs st)(14 := ?a, q := regs st r), instructions := t + 2, pc := pc st + 12\<rparr>"
  have s3: "emu_step env (t + 3) ?s3 =
      (Continue, ?s3\<lparr>regs := (regs st)(q := regs st r), instructions := t + 3, pc := pc st + 16\<rparr>)"
    by (subst w0 [where k = 3])
      (use c1 assms(5) keep in \<open>simp_all add: exec_stack_words set_reg_def add.commute\<close>)
  have n: "4 = Suc (Suc (Suc (Suc 0)))" by simp
  show ?thesis
    unfolding n using s0 s1 s2 s3 by (simp add: add.assoc)
qed

lemma exec_call_jump:
  assumes "v \<le> 0xFFFF"
  shows "exec_insn env t (0x580F0000 OR v) st = take_jump (v = ucast (pc st)) (ucast v) st"
proof -
  let ?w = "0x580F0000 OR v"
  have f: "dec_op (0x580F0000 :: u32) = 0x58" "dec_imm 0x580F0000 = 0"
    by (simp_all add: dec_op_def dec_imm_def)
  have "dec_op ?w = 0x58" "dec_imm ?w = v"
    using assms f by (simp_all add: field_simps32)
  then show ?thesis
    using exec_single_sem(4) [of ?w env t st] by (simp add: sem1_def)
qed

lemma UINT32_AND [simp]: "x AND UINT32_MAX = x"
proof -
  have "UINT32_MAX = - 1" by (simp add: UINT32_MAX_def)
  then show ?thesis by (metis and.right_neutral)
qed

lemma exec_call_mem:
  assumes "ram_mask env = UINT32_MAX"
  shows "exec_insn env t 0x660F0E00 st =
      (if in_buffer (ram_size env) 4 (regs st 14)
       then (Next, st\<lparr>ram := wr32 (ucast (regs st 14)) (regs st 15) (ram st)\<rparr>) else (Fault 2, st))"
    and "exec_insn env t 0x62F00E00 st =
      (if in_buffer (ram_size env) 4 (regs st 14)
       then (Next, set_reg 15 (rd32 (ram st) (ucast (regs st 14))) st) else (Fault 2, st))"
  using exec_stack_mem [of 15 env t st] assms by simp_all

lemma emu_steps_add:
  "emu_steps env t (m + n) st =
     (case emu_steps env t m st of None \<Rightarrow> None | Some st' \<Rightarrow> emu_steps env (t + of_nat m) n st')"
  by (induction m arbitrary: t st) (auto simp: add.assoc split: prod.splits step_end.splits option.splits)

text \<open>The five words of \<^verbatim>\<open>call\<close>: the return address goes to \<^verbatim>\<open>flags\<close> and the stack.\<close>

lemma call_steps:
  assumes pl: "plain env" and v: "v \<le> 0xFFFF" and lim: "unat (pc st) + 20 < 2 ^ 32"
    and c0: "code_at env (ram st) (pc st) [0x07F00000, 0x34FF0014, 0x35EE0004, 0x660F0E00, 0x580F0000 OR v]"
    and slot: "in_buffer (ram_size env) 4 (regs st 14 - 4)"
    and apart: "unat (regs st 14 - 4) + 4 \<le> unat (pc st) \<or> unat (pc st) + 20 \<le> unat (regs st 14 - 4)"
    and self: "unat v \<noteq> unat (pc st) + 16"
  shows "emu_steps env t 5 st =
    Some (st\<lparr>regs := (regs st)(15 := ucast (pc st + 20), 14 := regs st 14 - 4), pc := ucast v,
             instructions := t + 4,
             ram := wr32 (ucast (regs st 14 - 4)) (ucast (pc st + 20)) (ram st)\<rparr>)"
proof -
  let ?a = "regs st 14 - 4" and ?p = "pc st" and ?b = "ucast (pc st + 20) :: u32"
  let ?cs = "[0x07F00000, 0x34FF0014, 0x35EE0004, 0x660F0E00, 0x580F0000 OR v]"
  let ?m = "wr32 (ucast ?a) ?b (ram st)"
  have c1: "code_at env ?m ?p ?cs"
    by (rule code_at_write [OF c0 slot]) (use apart in simp)
  have mk: "ram_mask env = UINT32_MAX"
    using pl by (simp add: plain_def)
  have pn: "unat (?p + of_nat k) = unat ?p + k" if "k \<le> 20" for k
    using lim that by (simp add: unat_word_ariths unat_of_nat)
  have b: "ucast ?p + 20 = ?b"
    using lim pn [of 20]
    by (intro unsigned_word_eqI [where ?'a = nat])
      (simp add: unat_word_ariths unsigned_ucast_eq take_bit_nat_eq_self)
  have "unat (ucast (?p + of_nat 16) :: u32) = unat ?p + 16"
    using lim pn [of 16] by (simp add: unsigned_ucast_eq take_bit_nat_eq_self)
  with self have vp: "v \<noteq> ucast (?p + 16)"
    by auto
  note w0 = plain_step [OF pl, where p = "?p" and ws = ?cs]
  have s0: "emu_step env t st = (Continue, st\<lparr>regs := (regs st)(15 := ucast ?p), instructions := t, pc := ?p + 4\<rparr>)"
    by (subst w0 [where k = 0]) (use c0 in \<open>simp_all add: exec_stack_words set_reg_def\<close>)
  let ?s1 = "st\<lparr>regs := (regs st)(15 := ucast ?p), instructions := t, pc := ?p + 4\<rparr>"
  have s1: "emu_step env (t + 1) ?s1 = (Continue, ?s1\<lparr>regs := (regs st)(15 := ?b), instructions := t + 1, pc := ?p + 8\<rparr>)"
    by (subst w0 [where k = 1]) (use c0 b in \<open>simp_all add: exec_stack_words set_reg_def\<close>)
  let ?s2 = "?s1\<lparr>regs := (regs st)(15 := ?b), instructions := t + 1, pc := ?p + 8\<rparr>"
  have s2: "emu_step env (t + 2) ?s2 =
      (Continue, ?s2\<lparr>regs := (regs st)(15 := ?b, 14 := ?a), instructions := t + 2, pc := ?p + 12\<rparr>)"
    by (subst w0 [where k = 2]) (use c0 in \<open>simp_all add: exec_stack_words set_reg_def\<close>)
  let ?s3 = "?s2\<lparr>regs := (regs st)(15 := ?b, 14 := ?a), instructions := t + 2, pc := ?p + 12\<rparr>"
  have s3: "emu_step env (t + 3) ?s3 = (Continue, ?s3\<lparr>ram := ?m, instructions := t + 3, pc := ?p + 16\<rparr>)"
    by (subst w0 [where k = 3]) (use c0 slot in \<open>simp_all add: exec_call_mem [OF mk]\<close>)
  let ?s4 = "?s3\<lparr>ram := ?m, instructions := t + 3, pc := ?p + 16\<rparr>"
  have s4: "emu_step env (t + 4) ?s4 = (Continue, ?s4\<lparr>instructions := t + 4, pc := ucast v\<rparr>)"
    by (subst w0 [where k = 4]) (use c1 vp v in \<open>simp_all add: exec_call_jump take_jump_def\<close>)
  have n: "5 = Suc (Suc (Suc (Suc (Suc 0))))" by simp
  show ?thesis
    unfolding n using s0 s1 s2 s3 s4 by (simp add: add.assoc)
qed

text \<open>The three words of \<^verbatim>\<open>ret\<close>: the address on top of the stack goes to \<^verbatim>\<open>flags\<close> and is jumped to.\<close>

lemma ret_steps:
  assumes pl: "plain env"
    and r1: "code_at env (ram st) (pc st) [0x62F00E00, 0x34EE0004, 0x480F0F00]"
    and slot: "in_buffer (ram_size env) 4 (regs st 14)"
    and b: "b = rd32 (ram st) (ucast (regs st 14))" and self: "b \<noteq> ucast (pc st + 8)"
  shows "emu_steps env t 3 st =
    Some (st\<lparr>regs := (regs st)(15 := b, 14 := regs st 14 + 4), pc := ucast b, instructions := t + 2\<rparr>)"
proof -
  let ?rs = "[0x62F00E00, 0x34EE0004, 0x480F0F00]" and ?p = "pc st"
  have mk: "ram_mask env = UINT32_MAX"
    using pl by (simp add: plain_def)
  note w1 = plain_step [OF pl, where p = "?p" and ws = ?rs]
  have s0: "emu_step env t st = (Continue, st\<lparr>regs := (regs st)(15 := b), instructions := t, pc := ?p + 4\<rparr>)"
    by (subst w1 [where k = 0]) (use r1 slot in \<open>simp_all add: exec_call_mem [OF mk] set_reg_def b\<close>)
  let ?s1 = "st\<lparr>regs := (regs st)(15 := b), instructions := t, pc := ?p + 4\<rparr>"
  have s1: "emu_step env (t + 1) ?s1 =
      (Continue, ?s1\<lparr>regs := (regs st)(15 := b, 14 := regs st 14 + 4), instructions := t + 1, pc := ?p + 8\<rparr>)"
    by (subst w1 [where k = 1]) (use r1 in \<open>simp_all add: exec_stack_words set_reg_def\<close>)
  let ?s2 = "?s1\<lparr>regs := (regs st)(15 := b, 14 := regs st 14 + 4), instructions := t + 1, pc := ?p + 8\<rparr>"
  have s2: "emu_step env (t + 2) ?s2 = (Continue, ?s2\<lparr>instructions := t + 2, pc := ucast b\<rparr>)"
    by (subst w1 [where k = 2]) (use r1 self in \<open>simp_all add: exec_stack_words take_jump_def\<close>)
  have n: "3 = Suc (Suc (Suc 0))" by simp
  show ?thesis
    unfolding n using s0 s1 s2 by (simp add: add.assoc)
qed

text \<open>
  C26: a \<^verbatim>\<open>call\<close> of a routine that consists of \<^verbatim>\<open>ret\<close> comes back to the instruction after the
  call with the stack pointer restored; only the \<^verbatim>\<open>flags\<close> register and the stack slot change.
\<close>

theorem call_ret_returns:
  assumes pl: "plain env" and v: "v \<le> 0xFFFF" and lim: "unat (pc st) + 20 < 2 ^ 32"
    and i: "isa_find ''call'' = Some i" and j: "isa_find ''ret'' = Some j"
    and call: "code_at env (ram st) (pc st) (isa_encode_words i (vals_of [Imm v]))"
    and ret: "code_at env (ram st) (ucast v) (isa_encode_words j (vals_of []))"
    and slot: "in_buffer (ram_size env) 4 (regs st 14 - 4)"
    and apart: "unat (regs st 14 - 4) + 4 \<le> unat (pc st) \<or> unat (pc st) + 20 \<le> unat (regs st 14 - 4)"
      "unat (regs st 14 - 4) + 4 \<le> unat v \<or> unat v + 12 \<le> unat (regs st 14 - 4)"
    and self: "unat v \<noteq> unat (pc st) + 16" "unat v \<noteq> unat (pc st) + 12"
  shows "emu_steps env t 8 st =
    Some (st\<lparr>regs := (regs st)(15 := ucast (pc st + 20)), pc := pc st + 20, instructions := t + 7,
             ram := wr32 (ucast (regs st 14 - 4)) (ucast (pc st + 20)) (ram st)\<rparr>)"
proof -
  let ?a = "regs st 14 - 4" and ?b = "ucast (pc st + 20) :: u32"
  let ?m = "wr32 (ucast ?a) ?b (ram st)"
  let ?st = "st\<lparr>regs := (regs st)(15 := ?b, 14 := ?a), pc := ucast v, instructions := t + 4, ram := ?m\<rparr>"
  have p20: "unat (pc st + 20) = unat (pc st) + 20"
    using lim by (simp add: unat_word_ariths)
  then have b: "unat ?b = unat (pc st) + 20"
    using lim by (simp add: unsigned_ucast_eq take_bit_nat_eq_self)
  then have ub: "ucast ?b = pc st + 20"
    using p20 by (intro unsigned_word_eqI [where ?'a = nat]) simp
  have "unat (ucast (ucast v + 8 :: u64) :: u32) = unat v + 8"
    using v by (simp add: word_le_nat_alt unsigned_ucast_eq unat_word_ariths take_bit_nat_eq_self)
  then have bv: "?b \<noteq> ucast (ucast v + 8 :: u64)"
    using self(2) b by auto
  have r: "code_at env ?m (ucast v) [0x62F00E00, 0x34EE0004, 0x480F0F00]"
    using code_at_write [OF ret slot] stack_words(4) [OF j] apart(2) by simp
  have "emu_steps env t 5 st = Some ?st"
    using call_steps [OF pl v lim _ slot apart(1) self(1)] call stack_words(3) [OF i] by simp
  moreover have "emu_steps env (t + 5) 3 ?st =
      Some (?st\<lparr>regs := (regs st)(15 := ?b), pc := pc st + 20, instructions := t + 7\<rparr>)"
    using ret_steps [OF pl, of ?st ?b "t + 5"] r slot bv ub by (simp add: fun_upd_triv fun_upd_twist)
  ultimately show ?thesis
    using emu_steps_add [of env t 5 3 st] by simp
qed

text \<open>A machine of 64 bytes whose memory holds \<open>bs\<close>, with the stack pointer at its end.\<close>

definition demo_env :: "unit emu_env" where "demo_env = emu_env_of 64 None"

definition demo :: "u32 list \<Rightarrow> unit emu" where
  "demo ws = (emu_start ())\<lparr>ram := copy_in (concat (map be_bytes32 ws)) 64, regs := (\<lambda>_. 0)(14 := 64, 1 := 7)\<rparr>"

theorem push_pop_moves_witness:
  "map_option (\<lambda>st. (regs st 1, regs st 2, regs st 14))
     (emu_steps demo_env 0 4 (demo [0x35EE0004, 0x66010E00, 0x62200E00, 0x34EE0004])) = Some (7, 7, 64)"
proof -
  let ?st = "demo [0x35EE0004, 0x66010E00, 0x62200E00, 0x34EE0004]"
  obtain i j where i: "isa_find ''push'' = Some i" and j: "isa_find ''pop'' = Some j"
    by (simp add: isa_find_def isa_table_def row_def)
  have c: "code_at demo_env (ram ?st) 0 [0x35EE0004, 0x66010E00, 0x62200E00, 0x34EE0004]"
    by code_simp
  show ?thesis
    using push_pop_moves [of demo_env 1 2 i j ?st 0] i j c stack_words(1) [OF i, of 1] stack_words(2) [OF j, of 2]
    by (simp add: demo_env_def demo_def emu_env_of_def emu_start_def plain_def in_buffer_def)
qed

theorem call_ret_returns_witness:
  "map_option (\<lambda>st. (pc st, regs st 14, regs st 15))
     (emu_steps demo_env 0 8
       (demo [0x07F00000, 0x34FF0014, 0x35EE0004, 0x660F0E00, 0x580F0014, 0x62F00E00, 0x34EE0004, 0x480F0F00]))
   = Some (20, 64, 20)"
proof -
  let ?st = "demo [0x07F00000, 0x34FF0014, 0x35EE0004, 0x660F0E00, 0x580F0014, 0x62F00E00, 0x34EE0004, 0x480F0F00]"
  obtain i j where i: "isa_find ''call'' = Some i" and j: "isa_find ''ret'' = Some j"
    by (simp add: isa_find_def isa_table_def row_def)
  have c: "code_at demo_env (ram ?st) 0 [0x07F00000, 0x34FF0014, 0x35EE0004, 0x660F0E00, 0x580F0014]"
    by code_simp
  have r: "code_at demo_env (ram ?st) 20 [0x62F00E00, 0x34EE0004, 0x480F0F00]"
    by code_simp
  show ?thesis
    using call_ret_returns [of demo_env 20 ?st i j 0] i j c r stack_words(3) [OF i, of 20] stack_words(4) [OF j]
    by (simp add: demo_env_def demo_def emu_env_of_def emu_start_def plain_def in_buffer_def)
qed
end
