(* ===== verification/Cstd.thy ===== *)
theory Cstd
  imports Prelude
begin

text \<open>
  The parts of the C library that the program's text processing uses, on strings as lists of
  characters (the list ends where the C string has its NUL): the character classes of the C
  locale, \<^verbatim>\<open>strchr\<close>, and \<^verbatim>\<open>strtoull\<close> with base 0 and 64-bit results.
\<close>

section \<open>Character classes\<close>

definition code_of :: "char \<Rightarrow> nat" where "code_of c = of_char c"

definition is_lower :: "char \<Rightarrow> bool" where "is_lower c \<longleftrightarrow> 97 \<le> code_of c \<and> code_of c \<le> 122"
definition is_upper :: "char \<Rightarrow> bool" where "is_upper c \<longleftrightarrow> 65 \<le> code_of c \<and> code_of c \<le> 90"
definition is_digit :: "char \<Rightarrow> bool" where "is_digit c \<longleftrightarrow> 48 \<le> code_of c \<and> code_of c \<le> 57"
definition is_alpha :: "char \<Rightarrow> bool" where "is_alpha c \<longleftrightarrow> is_lower c \<or> is_upper c"
definition is_alnum :: "char \<Rightarrow> bool" where "is_alnum c \<longleftrightarrow> is_alpha c \<or> is_digit c"

text \<open>Space, form feed, newline, carriage return, tab, vertical tab.\<close>

definition is_space :: "char \<Rightarrow> bool" where
  "is_space c \<longleftrightarrow> code_of c = 32 \<or> 9 \<le> code_of c \<and> code_of c \<le> 13"

definition tab :: char where "tab = CHR 0x09"
definition newline :: char where "newline = CHR 0x0A"
definition carriage :: char where "carriage = CHR 0x0D"
definition dquote :: char where "dquote = CHR 0x22"

text \<open>Blanks as the assembler and the shell see them: space and tab.\<close>

definition is_blank :: "char \<Rightarrow> bool" where "is_blank c \<longleftrightarrow> c = CHR '' '' \<or> c = tab"

definition drop_blanks :: "string \<Rightarrow> string" where "drop_blanks s = dropWhile is_blank s"

definition rtrim :: "string \<Rightarrow> string" where
  "rtrim s = rev (dropWhile is_blank (rev s))"

lemma length_drop_blanks: "length (drop_blanks s) \<le> length s"
  by (simp add: drop_blanks_def length_dropWhile_le)

lemma length_rtrim: "length (rtrim s) \<le> length s"
  using length_dropWhile_le [of is_blank "rev s"] by (simp add: rtrim_def)


section \<open>Unsigned numbers\<close>

definition digit_value :: "char \<Rightarrow> nat" where
  "digit_value c =
     (if is_digit c then code_of c - 48
      else if is_lower c then code_of c - 87
      else if is_upper c then code_of c - 55
      else 36)"

text \<open>The digits of \<open>base\<close> at the front of the text: their value, and what follows.\<close>

fun digits :: "nat \<Rightarrow> nat \<Rightarrow> string \<Rightarrow> nat \<times> string" where
  "digits base acc [] = (acc, [])"
| "digits base acc (c # cs) =
     (if digit_value c < base then digits base (acc * base + digit_value c) cs else (acc, c # cs))"

definition hex_prefix :: "string \<Rightarrow> bool" where
  "hex_prefix s \<longleftrightarrow>
     (case s of a # b # c # _ \<Rightarrow> a = CHR ''0'' \<and> (b = CHR ''x'' \<or> b = CHR ''X'') \<and> digit_value c < 16
      | _ \<Rightarrow> False)"

text \<open>
  \<^verbatim>\<open>strtoull(s, &end, 0)\<close>: the value, \<^verbatim>\<open>end\<close> (\<open>None\<close> when no conversion was done and \<^verbatim>\<open>end\<close> is \<open>s\<close>)
  and whether \<^verbatim>\<open>errno\<close> is \<^verbatim>\<open>ERANGE\<close>. A minus sign negates the value in 64 bits.
\<close>

definition strtoull0 :: "string \<Rightarrow> nat \<times> string option \<times> bool" where
  "strtoull0 s =
     (let s1 = dropWhile is_space s;
          neg = (s1 \<noteq> [] \<and> hd s1 = CHR ''-'');
          s2 = (if s1 \<noteq> [] \<and> (hd s1 = CHR ''-'' \<or> hd s1 = CHR ''+'') then tl s1 else s1);
          base = (if hex_prefix s2 then 16 else if s2 \<noteq> [] \<and> hd s2 = CHR ''0'' then 8 else 10);
          s3 = (if hex_prefix s2 then drop 2 s2 else s2);
          (v, rest) = digits base 0 s3
      in if rest = s3 then (0, None, False)
         else if v \<ge> 2 ^ 64 then (2 ^ 64 - 1, Some rest, True)
         else ((if neg then (2 ^ 64 - v) mod 2 ^ 64 else v), Some rest, False))"

lemma strtoull0_less: "strtoull0 s = (v, e, r) \<Longrightarrow> v < 2 ^ 64"
  by (auto simp: strtoull0_def Let_def split: prod.splits if_splits)


section \<open>Signed numbers and formatted input\<close>

text \<open>\<^verbatim>\<open>long\<close> of the host has 64 bits; a conversion out of its range is the nearest bound.\<close>

definition clamp_long :: "int \<Rightarrow> int" where
  "clamp_long v = max (- (2 ^ 63)) (min (2 ^ 63 - 1) v)"

definition in_long :: "int \<Rightarrow> bool" where
  "in_long v \<longleftrightarrow> - (2 ^ 63) \<le> v \<and> v < 2 ^ 63"

lemma clamp_in_long [simp]: "in_long v \<Longrightarrow> clamp_long v = v"
  by (simp add: clamp_long_def in_long_def)

definition take_sign :: "string \<Rightarrow> bool \<times> string" where
  "take_sign s =
     (if s \<noteq> [] \<and> hd s = CHR ''-'' then (True, tl s)
      else if s \<noteq> [] \<and> hd s = CHR ''+'' then (False, tl s) else (False, s))"

text \<open>\<^verbatim>\<open>strtol(s, &end, 0)\<close>: the value and \<^verbatim>\<open>end\<close>, \<open>None\<close> when no conversion was done.\<close>

definition strtol0 :: "string \<Rightarrow> (int \<times> string) option" where
  "strtol0 s =
     (let (neg, s2) = take_sign (dropWhile is_space s);
          base = (if hex_prefix s2 then 16 else if s2 \<noteq> [] \<and> hd s2 = CHR ''0'' then 8 else 10);
          s3 = (if hex_prefix s2 then drop 2 s2 else s2);
          (v, rest) = digits base 0 s3
      in if rest = s3 then None else Some (clamp_long (if neg then - int v else int v), rest))"

text \<open>The conversions \<^verbatim>\<open>%<n>s\<close> and \<^verbatim>\<open>%ld\<close> of \<^verbatim>\<open>sscanf\<close>: the value and the text that follows.\<close>

definition scan_word :: "nat \<Rightarrow> string \<Rightarrow> (string \<times> string) option" where
  "scan_word n s =
     (let s1 = dropWhile is_space s; w = take n (takeWhile (\<lambda>c. \<not> is_space c) s1) in
      if w = [] then None else Some (w, drop (length w) s1))"

definition scan_long :: "string \<Rightarrow> (int \<times> string) option" where
  "scan_long s =
     (let (neg, s2) = take_sign (dropWhile is_space s); (v, rest) = digits 10 0 s2 in
      if rest = s2 then None else Some (clamp_long (if neg then - int v else int v), rest))"


section \<open>Formatted output\<close>

definition digit_char :: "nat \<Rightarrow> char" where
  "digit_char d = ''0123456789abcdef'' ! d"

text \<open>The digits of a number, the least significant last; \<^verbatim>\<open>%ld\<close>, \<^verbatim>\<open>%lx\<close> and \<^verbatim>\<open>%0<w>lx\<close>.\<close>

fun show_base :: "nat \<Rightarrow> nat \<Rightarrow> string" where
  "show_base b n = (if b < 2 \<or> n < b then [digit_char n] else show_base b (n div b) @ [digit_char (n mod b)])"

declare show_base.simps [simp del]

definition show_int :: "int \<Rightarrow> string" where
  "show_int v = (if v < 0 then CHR ''-'' # show_base 10 (nat (- v)) else show_base 10 (nat v))"

definition show_hex :: "int \<Rightarrow> string" where
  "show_hex v = show_base 16 (nat (v mod 2 ^ 64))"

definition show_hex_pad :: "nat \<Rightarrow> int \<Rightarrow> string" where
  "show_hex_pad w v = replicate (w - length (show_hex v)) CHR ''0'' @ show_hex v"

text \<open>Printed digits read back as the number.\<close>

lemma digit_char_value [simp]: "d < 16 \<Longrightarrow> digit_value (digit_char d) = d"
proof -
  assume "d < 16"
  then have "d \<in> set [0 ..< 16]" by simp
  then show ?thesis
    by (simp add: digit_char_def digit_value_def is_digit_def is_lower_def is_upper_def code_of_def upt_rec)
      (elim disjE; simp)
qed

lemma digit_mod_value: "1 < b \<Longrightarrow> b \<le> 16 \<Longrightarrow> digit_value (digit_char (n mod b)) = n mod b"
  by (rule digit_char_value) (use mod_less_divisor [of b n] in linarith)

lemma digits_stop: "rest = [] \<or> \<not> digit_value (hd rest) < b \<Longrightarrow> digits b acc rest = (acc, rest)"
  by (cases rest) auto

lemma digits_append_stop:
  "\<forall>c \<in> set w. digit_value c < b \<Longrightarrow> rest = [] \<or> \<not> digit_value (hd rest) < b \<Longrightarrow>
   digits b acc (w @ rest) = (foldl (\<lambda>a c. a * b + digit_value c) acc w, rest)"
  by (induction w arbitrary: acc) (auto simp: digits_stop)

lemma show_base_digits: "1 < b \<Longrightarrow> b \<le> 16 \<Longrightarrow> \<forall>c \<in> set (show_base b n). digit_value c < b"
proof (induction b n rule: show_base.induct)
  case (1 b n)
  then show ?case
    using mod_less_divisor [of b n] by (subst show_base.simps) (auto simp: digit_mod_value)
qed

lemma show_base_value:
  "1 < b \<Longrightarrow> b \<le> 16 \<Longrightarrow> foldl (\<lambda>a c. a * b + digit_value c) 0 (show_base b n) = n"
proof (induction b n rule: show_base.induct)
  case (1 b n)
  then show ?case
    by (subst show_base.simps) (auto simp: digit_mod_value)
qed

lemma show_base_nonempty [simp]: "show_base b n \<noteq> []"
  by (subst show_base.simps) auto

lemma digits_show_base:
  assumes "1 < b" and "b \<le> 16" and "rest = [] \<or> \<not> digit_value (hd rest) < b"
  shows "digits b 0 (show_base b n @ rest) = (n, rest)"
  using digits_append_stop [OF show_base_digits [OF assms(1,2)] assms(3), of 0 n] show_base_value [OF assms(1,2)]
  by simp


lemma digit_of_shown: "c \<in> set (show_base 10 n) \<Longrightarrow> is_digit c"
proof -
  assume "c \<in> set (show_base 10 n)"
  then have "digit_value c < 10"
    using show_base_digits [of 10 n] by simp
  then show ?thesis
    by (auto simp: digit_value_def is_lower_def is_upper_def split: if_splits)
qed

lemma digit_plain: "is_digit c \<Longrightarrow> \<not> is_space c \<and> c \<noteq> CHR ''-'' \<and> c \<noteq> CHR ''+''"
  by (auto simp: is_digit_def is_space_def code_of_def)

lemma shown_head:
  obtains c cs where "show_base 10 n = c # cs" "is_digit c"
  using digit_of_shown [of _ n] by (cases "show_base 10 n") auto

lemma scan_long_show:
  assumes "in_long v" and "rest = [] \<or> \<not> is_digit (hd rest)"
  shows "scan_long (CHR '' '' # show_int v @ rest) = Some (v, rest)"
proof -
  have r: "rest = [] \<or> \<not> digit_value (hd rest) < 10"
    using assms(2) by (auto simp: digit_value_def is_lower_def is_upper_def split: if_splits)
  have sp: "is_space (CHR '' '')" "\<not> is_space (CHR ''-'')"
    by (simp_all add: is_space_def code_of_def)
  have d: "digits 10 0 (show_base 10 n @ rest) = (n, rest)" for n
    by (rule digits_show_base) (use r in auto)
  show ?thesis
  proof (cases "v < 0")
    case True
    have "take_sign (dropWhile is_space (CHR '' '' # show_int v @ rest)) = (True, show_base 10 (nat (- v)) @ rest)"
      using True sp by (simp add: show_int_def take_sign_def)
    then show ?thesis
      using True assms(1) d [of "nat (- v)"] by (simp add: scan_long_def Let_def)
  next
    case False
    obtain c cs where c: "show_base 10 (nat v) = c # cs" "is_digit c"
      by (rule shown_head)
    have "take_sign (dropWhile is_space (CHR '' '' # show_int v @ rest)) = (False, show_base 10 (nat v) @ rest)"
      using False sp c digit_plain [OF c(2)] by (simp add: show_int_def take_sign_def)
    then show ?thesis
      using False assms(1) d [of "nat v"] by (simp add: scan_long_def Let_def)
  qed
qed

lemma scan_word_shown:
  assumes "w \<noteq> []" and "length w \<le> n" and "list_all (\<lambda>c. \<not> is_space c) w"
    and "rest = [] \<or> is_space (hd rest)"
  shows "scan_word n (CHR '' '' # w @ rest) = Some (w, rest)" and "scan_word n (w @ rest) = Some (w, rest)"
proof -
  have tw: "takeWhile (\<lambda>c. \<not> is_space c) (w @ rest) = w"
    using assms(3,4) by (subst takeWhile_append2) (auto simp: list_all_iff takeWhile_eq_Nil_iff)
  have dw: "dropWhile is_space (w @ rest) = w @ rest"
    using assms(1,3) by (cases w) auto
  have sp: "is_space (CHR '' '')"
    by (simp add: is_space_def code_of_def)
  show "scan_word n (w @ rest) = Some (w, rest)"
    using assms(1,2) by (cases n) (auto simp: scan_word_def Let_def tw dw)
  then show "scan_word n (CHR '' '' # w @ rest) = Some (w, rest)"
    by (simp add: scan_word_def sp)
qed

end
