(* ===== verification/Asm.thy ===== *)
theory Asm
  imports Isa Cstd
begin

text \<open>
  The two-pass assembler of \<^verbatim>\<open>emu/asm.c\<close>: the first pass records the labels and adds up the
  sizes of the lines, the second encodes with the labels resolved. \<^verbatim>\<open>set_err\<close> followed by a
  return is an error value with the line number and the message; a variant of an instruction
  that does not fit the operands (\<^verbatim>\<open>-1\<close> without an error) is \<open>Mismatch\<close>. The in-place edits of
  the line buffer are followed where they show: the trimmed text before a colon stays cut.
  The bytes of the second pass are the list of what each line writes at its offset; numbers
  are those of the host build, where \<^verbatim>\<open>CcUInt\<close> has 64 bits.
\<close>

section \<open>Errors and results\<close>

datatype asm_msg =
    Bad_label string | Label_is_register string | Too_many_labels | Undefined_label string
  | Imm_too_large u32 | Output_too_large | Unknown_insn string | Bad_number string
  | Value_too_large nat | Unterminated_string | Bad_pad string | Pad_before_offset nat
  | Bad_line string

type_synonym asm_error = "nat \<times> asm_msg"

datatype 'a parsed = Parsed 'a | Mismatch | Hard asm_error

type_synonym labels = "(string \<times> u32) list"

definition MAX_LABELS :: nat where "MAX_LABELS = 4096"
definition MAX_LINE :: nat where "MAX_LINE = 4096"

text \<open>\<^verbatim>\<open>snprintf\<close> into a name of 64 bytes keeps the first 63.\<close>

definition label_name :: "string \<Rightarrow> string" where "label_name s = take 63 s"


section \<open>Lines and words of the text\<close>

definition trim :: "string \<Rightarrow> string" where
  "trim s = rtrim (drop_blanks s)"

definition after_newline :: "string \<Rightarrow> string" where
  "after_newline s = (case dropWhile (\<lambda>c. c \<noteq> newline) s of [] \<Rightarrow> [] | _ # cs \<Rightarrow> cs)"

text \<open>The characters of one line without its comment, and the text after the line.\<close>

fun scan_line :: "bool \<Rightarrow> string \<Rightarrow> string \<Rightarrow> string \<times> string" where
  "scan_line in_str buf [] = (buf, [])"
| "scan_line in_str buf (c # cs) =
     (if c = newline then (buf, cs)
      else if c = carriage then scan_line in_str buf cs
      else
        let in_str' = (if c = dquote then \<not> in_str else in_str) in
        if \<not> in_str' \<and> (c = CHR '';'' \<or> (c = CHR ''/'' \<and> cs \<noteq> [] \<and> hd cs = CHR ''/''))
        then (buf, after_newline (c # cs))
        else scan_line in_str' (if length buf + 1 < MAX_LINE then buf @ [c] else buf) cs)"

definition next_line :: "string \<Rightarrow> (string \<times> string) option" where
  "next_line p = (if p = [] then None else Some (scan_line False [] p))"

definition parse_num :: "string \<Rightarrow> nat option" where
  "parse_num s =
     (if s \<noteq> [] \<and> hd s = CHR ''-'' then None
      else
        (case strtoull0 s of
           (v, e, erange) \<Rightarrow> if erange then None else if e = Some [] then Some v else None))"

definition is_ident :: "string \<Rightarrow> bool" where
  "is_ident s \<longleftrightarrow>
     (case s of [] \<Rightarrow> False
      | c # cs \<Rightarrow> (c = CHR ''_'' \<or> is_alpha c) \<and> list_all (\<lambda>x. x = CHR ''_'' \<or> is_alnum x) cs)"


section \<open>Labels\<close>

definition add_label :: "string \<Rightarrow> u32 \<Rightarrow> nat \<Rightarrow> labels \<Rightarrow> asm_error + labels" where
  "add_label name off lineno labels =
     (if \<not> is_ident name then Inl (lineno, Bad_label name)
      else if isa_reg_index name \<ge> 0 then Inl (lineno, Label_is_register name)
      else if list_ex (\<lambda>l. fst l = name) labels then Inr labels
      else if length labels \<ge> MAX_LABELS then Inl (lineno, Too_many_labels)
      else Inr (labels @ [(label_name name, off)]))"

definition label_off :: "string \<Rightarrow> labels \<Rightarrow> u32" where
  "label_off name labels =
     (case find (\<lambda>l. fst l = name) labels of Some l \<Rightarrow> snd l | None \<Rightarrow> 0xFFFFFFFF)"


section \<open>Operands\<close>

definition char_literal :: "string \<Rightarrow> bool" where
  "char_literal t \<longleftrightarrow> length t = 3 \<and> t ! 0 = CHR 0x27 \<and> t ! 2 = CHR 0x27"

text \<open>In the first pass a label's value is not filled in; the 0 here is not used.\<close>

definition parse_imm :: "string \<Rightarrow> bool \<Rightarrow> nat \<Rightarrow> labels \<Rightarrow> u32 parsed" where
  "parse_imm t resolve lineno labels =
     (if char_literal t then Parsed (of_nat (code_of (t ! 1)))
      else if isa_reg_index t \<ge> 0 then Mismatch
      else
        (case parse_num t of
           Some v \<Rightarrow> Parsed (of_nat v)
         | None \<Rightarrow>
             (if \<not> is_ident t then Mismatch
              else if \<not> resolve then Parsed 0
              else if label_off t labels = 0xFFFFFFFF then Hard (lineno, Undefined_label t)
              else Parsed (label_off t labels))))"

definition split_comma :: "string \<Rightarrow> string \<times> string" where
  "split_comma s =
     (takeWhile (\<lambda>c. c \<noteq> CHR '','') s,
      case dropWhile (\<lambda>c. c \<noteq> CHR '','') s of [] \<Rightarrow> [] | _ # cs \<Rightarrow> cs)"

definition strip_brackets :: "string \<Rightarrow> string" where
  "strip_brackets t =
     (if length t \<ge> 2 \<and> hd t = CHR ''['' \<and> last t = CHR '']'' then butlast (tl t) else t)"

definition parse_operand :: "op_field \<Rightarrow> string \<Rightarrow> bool \<Rightarrow> nat \<Rightarrow> labels \<Rightarrow> u32 parsed" where
  "parse_operand f t resolve lineno labels =
     (if op_kind f = OP_REG then
        (if isa_reg_index t < 0 then Mismatch else Parsed (of_int (isa_reg_index t)))
      else
        (case parse_imm t resolve lineno labels of
           Parsed v \<Rightarrow> if resolve \<and> v > 0xFFFF then Hard (lineno, Imm_too_large v) else Parsed v
         | Mismatch \<Rightarrow> Mismatch
         | Hard e \<Rightarrow> Hard e))"

text \<open>The operand fields of all words in order, against the comma-separated text.\<close>

fun parse_fields :: "op_field list \<Rightarrow> string \<Rightarrow> bool \<Rightarrow> nat \<Rightarrow> labels \<Rightarrow> u32 list parsed" where
  "parse_fields [] tok resolve lineno labels = (if trim tok \<noteq> [] then Mismatch else Parsed [])"
| "parse_fields (f # fs) tok resolve lineno labels =
     (if op_kind f = OP_NONE then parse_fields fs tok resolve lineno labels
      else
        let (t0, tok') = split_comma tok; t = trim t0 in
        if t = [] then Mismatch
        else
          (case parse_operand f (strip_brackets t) resolve lineno labels of
             Parsed v \<Rightarrow>
               (case parse_fields fs tok' resolve lineno labels of
                  Parsed vs \<Rightarrow> Parsed (v # vs)
                | Mismatch \<Rightarrow> Mismatch
                | Hard e \<Rightarrow> Hard e)
           | Mismatch \<Rightarrow> Mismatch
           | Hard e \<Rightarrow> Hard e))"

definition parse_operands :: "insn \<Rightarrow> string \<Rightarrow> bool \<Rightarrow> nat \<Rightarrow> labels \<Rightarrow> u32 list parsed" where
  "parse_operands insn ops_text resolve lineno labels =
     (case parse_fields (concat (take (in_nwords insn) (in_ops insn))) ops_text resolve lineno labels of
        Parsed vs \<Rightarrow> if length vs = in_opcount insn then Parsed vs else Mismatch
      | Mismatch \<Rightarrow> Mismatch
      | Hard e \<Rightarrow> Hard e)"


section \<open>One line\<close>

text \<open>The result of a line: the \<^verbatim>\<open>int\<close> returned and, in the second pass, the bytes written.\<close>

type_synonym emitted = "asm_error + int \<times> u8 list"

definition room :: "u32 \<Rightarrow> nat \<Rightarrow> nat \<Rightarrow> bool" where
  "room off n cap \<longleftrightarrow> unat (off + of_nat n) \<le> cap"

fun emit_rows :: "insn list \<Rightarrow> string \<Rightarrow> string \<Rightarrow> bool \<Rightarrow> u32 \<Rightarrow> nat \<Rightarrow> nat \<Rightarrow> labels \<Rightarrow> emitted" where
  "emit_rows [] mnem ops resolve off cap lineno labels = Inl (lineno, Unknown_insn mnem)"
| "emit_rows (i # is) mnem ops resolve off cap lineno labels =
     (if in_name i \<noteq> mnem then emit_rows is mnem ops resolve off cap lineno labels
      else
        (case parse_operands i ops resolve lineno labels of
           Hard e \<Rightarrow> Inl e
         | Mismatch \<Rightarrow> emit_rows is mnem ops resolve off cap lineno labels
         | Parsed vs \<Rightarrow>
             (let n = in_nwords i * 4 in
              if \<not> resolve then Inr (int n, [])
              else if \<not> room off n cap then Inl (lineno, Output_too_large)
              else Inr (int n, isa_encode i (\<lambda>k. vs ! k)))))"

definition emit_insn :: "string \<Rightarrow> string \<Rightarrow> bool \<Rightarrow> u32 \<Rightarrow> nat \<Rightarrow> nat \<Rightarrow> labels \<Rightarrow> emitted" where
  "emit_insn mnem ops resolve off cap lineno labels =
     emit_rows isa_table mnem ops resolve off cap lineno labels"

definition datas :: "(string \<times> nat) list" where
  "datas = [(''U8'', 1), (''U16'', 2), (''U32'', 4), (''U64'', 8)]"

definition data_width :: "string \<Rightarrow> (nat \<times> string) option" where
  "data_width rest =
     (case find (\<lambda>(name, _). take (length name) rest = name \<and> length name < length rest
                   \<and> is_blank (rest ! length name)) datas of
        Some (name, width) \<Rightarrow> Some (width, drop_blanks (drop (length name) rest))
      | None \<Rightarrow> None)"

definition be_data :: "nat \<Rightarrow> nat \<Rightarrow> u8 list" where
  "be_data width v = map (\<lambda>i. of_nat (v div 2 ^ (8 * (width - 1 - i)))) [0 ..< width]"

text \<open>\<open>None\<close> when the line is not a data line.\<close>

definition emit_data :: "string \<Rightarrow> bool \<Rightarrow> u32 \<Rightarrow> nat \<Rightarrow> nat \<Rightarrow> emitted option" where
  "emit_data rest resolve off cap lineno =
     (case data_width rest of
        None \<Rightarrow> None
      | Some (width, p) \<Rightarrow> Some
          (case parse_num p of
             None \<Rightarrow> Inl (lineno, Bad_number rest)
           | Some v \<Rightarrow>
               (if width < 8 \<and> v \<ge> 2 ^ (8 * width) then Inl (lineno, Value_too_large width)
                else if resolve then
                  (if \<not> room off width cap then Inl (lineno, Output_too_large)
                   else Inr (int width, be_data width v))
                else Inr (int width, []))))"

definition bytes_of :: "string \<Rightarrow> u8 list" where
  "bytes_of s = map (\<lambda>c. of_nat (code_of c)) s"

definition emit_string :: "string \<Rightarrow> bool \<Rightarrow> u32 \<Rightarrow> nat \<Rightarrow> nat \<Rightarrow> emitted" where
  "emit_string rest resolve off cap lineno =
     (let body = takeWhile (\<lambda>c. c \<noteq> dquote) (tl rest) in
      if length body = length (tl rest) then Inl (lineno, Unterminated_string)
      else if resolve then
        (if \<not> room off (length body) cap then Inl (lineno, Output_too_large)
         else Inr (int (length body), bytes_of body))
      else Inr (int (length body), []))"

definition emit_pad :: "string \<Rightarrow> bool \<Rightarrow> u32 \<Rightarrow> nat \<Rightarrow> nat \<Rightarrow> emitted" where
  "emit_pad rest resolve off cap lineno =
     (case parse_num (tl rest) of
        None \<Rightarrow> Inl (lineno, Bad_pad rest)
      | Some target \<Rightarrow>
          (if target < unat off then Inl (lineno, Pad_before_offset target)
           else if target - unat off > cap then Inl (lineno, Output_too_large)
           else
             Inr (sint (of_nat (target - unat off) :: u32),
                  if resolve then replicate (target - unat off) 0 else [])))"

text \<open>What remains of the line after a possible label definition; the labels after it.\<close>

definition take_label :: "string \<Rightarrow> bool \<Rightarrow> u32 \<Rightarrow> nat \<Rightarrow> labels \<Rightarrow> asm_error + string \<times> labels" where
  "take_label p resolve off lineno labels =
     (if CHR '':'' \<notin> set p then Inr (p, labels)
      else
        let pre = takeWhile (\<lambda>c. c \<noteq> CHR '':'') p;
            rest = trim (drop (Suc (length pre)) p)
        in if is_ident (trim pre) then
             (if resolve then Inr (rest, labels)
              else
                (case add_label (trim pre) off lineno labels of
                   Inl e \<Rightarrow> Inl e
                 | Inr labels' \<Rightarrow> Inr (rest, labels')))
           else if rtrim pre \<noteq> pre then Inr (rtrim pre, labels)
           else Inr (p, labels))"

definition is_word :: "char \<Rightarrow> bool" where
  "is_word c \<longleftrightarrow> is_alnum c \<or> c = CHR ''_''"

definition emit_rest :: "string \<Rightarrow> bool \<Rightarrow> u32 \<Rightarrow> nat \<Rightarrow> nat \<Rightarrow> labels \<Rightarrow> emitted" where
  "emit_rest p resolve off cap lineno labels =
     (if p = [] then Inr (0, [])
      else if hd p = CHR ''@'' then emit_pad p resolve off cap lineno
      else if hd p = dquote then emit_string p resolve off cap lineno
      else if is_alpha (hd p) then
        (case emit_data p resolve off cap lineno of
           Some r \<Rightarrow> r
         | None \<Rightarrow>
             emit_insn (take 63 (takeWhile is_word p)) (trim (dropWhile is_word p))
               resolve off cap lineno labels)
      else Inl (lineno, Bad_line p))"

definition process_line ::
    "string \<Rightarrow> bool \<Rightarrow> u32 \<Rightarrow> nat \<Rightarrow> nat \<Rightarrow> labels \<Rightarrow> asm_error + int \<times> u8 list \<times> labels" where
  "process_line line resolve off cap lineno labels =
     (case take_label (trim line) resolve off lineno labels of
        Inl e \<Rightarrow> Inl e
      | Inr (p, labels') \<Rightarrow>
          (case emit_rest p resolve off cap lineno labels' of
             Inl e \<Rightarrow> Inl e
           | Inr (n, bs) \<Rightarrow> Inr (n, bs, labels')))"



section \<open>The two passes\<close>

lemma after_newline_shorter: "after_newline xs = [] \<or> length (after_newline xs) < length xs"
  using length_dropWhile_le [of "\<lambda>c. c \<noteq> newline" xs]
  unfolding after_newline_def by (auto split: list.split)

lemma scan_line_shorter:
  "snd (scan_line in_str buf p) = [] \<or> length (snd (scan_line in_str buf p)) < length p"
proof (induction p arbitrary: in_str buf)
  case Nil
  show ?case by simp
next
  case (Cons c cs)
  have "snd (scan_line q b cs) = [] \<or> length (snd (scan_line q b cs)) < length (c # cs)" for q b
    using Cons [of q b] by auto
  moreover have "snd (scan_line in_str buf (c # cs)) \<in>
      {cs, after_newline (c # cs)} \<union> {snd (scan_line q b cs) | q b. True}"
    by (simp add: Let_def) blast
  ultimately show ?case
    using after_newline_shorter [of "c # cs"] by auto
qed

text \<open>The lines that repeated calls of \<^verbatim>\<open>next_line\<close> deliver.\<close>

function lines_of :: "string \<Rightarrow> string list" where
  "lines_of p = (case next_line p of None \<Rightarrow> [] | Some (line, rest) \<Rightarrow> line # lines_of rest)"
  by auto
termination
proof (relation "measure length")
  fix p line rest and x :: "string \<times> string"
  assume "next_line p = Some x" and "(line, rest) = x"
  then have "p \<noteq> []" and "rest = snd (scan_line False [] p)"
    by (auto simp: next_line_def split: if_splits)
  then show "(rest, p) \<in> measure length"
    using scan_line_shorter [of False "[]" p] by (cases "rest = []") auto
qed simp

declare lines_of.simps [simp del]

text \<open>
  One pass over the lines from number \<open>lineno\<close> on, with the final offset, the bytes and the
  labels. \<open>Inl None\<close> is a negative size without an error message.
\<close>

fun asm_pass ::
    "bool \<Rightarrow> nat \<Rightarrow> string list \<Rightarrow> nat \<Rightarrow> u32 \<Rightarrow> labels \<Rightarrow> asm_error option + u32 \<times> u8 list \<times> labels" where
  "asm_pass resolve cap [] lineno off labels = Inr (off, [], labels)"
| "asm_pass resolve cap (line # ls) lineno off labels =
     (case process_line line resolve off cap (Suc lineno) labels of
        Inl e \<Rightarrow> Inl (Some e)
      | Inr (n, bs, labels') \<Rightarrow>
          (if n < 0 then Inl None
           else
             (case asm_pass resolve cap ls (Suc lineno) (off + of_int n) labels' of
                Inl e \<Rightarrow> Inl e
              | Inr (off', bs', labels'') \<Rightarrow> Inr (off', bs @ bs', labels''))))"

definition asm_assemble :: "string \<Rightarrow> nat \<Rightarrow> asm_error option + int \<times> u8 list" where
  "asm_assemble source cap =
     (case asm_pass False cap (lines_of source) 0 0 [] of
        Inl e \<Rightarrow> Inl e
      | Inr (off, _, labels) \<Rightarrow>
          (if unat off > cap then Inl (Some (0, Output_too_large))
           else
             (case asm_pass True cap (lines_of source) 0 0 labels of
                Inl e \<Rightarrow> Inl e
              | Inr (off', bs, _) \<Rightarrow> Inr (sint off', bs))))"


section \<open>Agreement of the passes\<close>

text \<open>The first pass finds no errors in operands, does not use the labels, and fits a variant
  to the operands exactly when the second does.\<close>

fun agree :: "'a parsed \<Rightarrow> 'b parsed \<Rightarrow> bool" where
  "agree (Hard _) _ = True"
| "agree (Parsed _) (Parsed _) = True"
| "agree Mismatch Mismatch = True"
| "agree _ _ = False"

lemma parse_operand_agree:
  "agree (parse_operand f t True lineno labels) (parse_operand f t False lineno' labels')"
  by (auto simp: parse_operand_def parse_imm_def split: if_splits option.splits parsed.splits)

lemma parse_operand_first: "parse_operand f t False lineno labels \<noteq> Hard e"
  by (auto simp: parse_operand_def parse_imm_def split: if_splits option.splits parsed.splits)

lemma parse_fields_first: "parse_fields fs tok False lineno labels \<noteq> Hard e"
proof (induction fs arbitrary: tok)
  case Nil
  show ?case by simp
next
  case (Cons f fs)
  then show ?case
    using parse_operand_first by (auto simp: Let_def split: prod.splits parsed.splits)
qed

lemma parse_fields_agree:
  "agree (parse_fields fs tok True lineno labels) (parse_fields fs tok False lineno' labels')"
proof (induction fs arbitrary: tok)
  case Nil
  show ?case by simp
next
  case (Cons f fs)
  obtain t0 tok' where sp: "split_comma tok = (t0, tok')"
    by (cases "split_comma tok")
  let ?o = "parse_operand f (strip_brackets (trim t0))"
  have "agree (?o True lineno labels) (?o False lineno' labels')"
    by (rule parse_operand_agree)
  with Cons [of tok] Cons [of tok'] show ?case
    by (cases "?o True lineno labels"; cases "?o False lineno' labels'";
        cases "parse_fields fs tok' True lineno labels"; cases "parse_fields fs tok' False lineno' labels'")
      (simp_all add: sp Let_def)
qed

lemma parse_fields_length:
  "parse_fields fs tok resolve lineno labels = Parsed vs \<Longrightarrow> length vs = length (live fs)"
  by (induction fs arbitrary: tok vs)
    (auto simp: Let_def live_Cons live_def split: if_splits prod.splits parsed.splits)

lemma parse_operands_agree:
  "agree (parse_operands i ops True lineno labels) (parse_operands i ops False lineno' labels')"
proof -
  let ?p = "parse_fields (concat (take (in_nwords i) (in_ops i))) ops"
  have "agree (?p True lineno labels) (?p False lineno' labels')"
    by (rule parse_fields_agree)
  then show ?thesis
    using parse_fields_length [of _ ops True lineno labels] parse_fields_length [of _ ops False lineno' labels']
    by (cases "?p True lineno labels"; cases "?p False lineno' labels'")
      (auto simp: parse_operands_def)
qed

lemma parse_operands_first: "parse_operands i ops False lineno labels \<noteq> Hard e"
  by (auto simp: parse_operands_def parse_fields_first split: parsed.splits)

text \<open>The sizes of a line in the two passes.\<close>

definition same_size :: "emitted \<Rightarrow> emitted \<Rightarrow> bool" where
  "same_size second first \<longleftrightarrow>
     (\<forall>n bs. second = Inr (n, bs) \<longrightarrow> first = Inr (n, []) \<and> int (length bs) = n)"

lemma emit_rows_size:
  assumes "list_all row_wf is"
  shows "same_size (emit_rows is mnem ops True off cap lineno labels)
    (emit_rows is mnem ops False off cap lineno' labels')"
  using assms
proof (induction "is")
  case Nil
  show ?case by (simp add: same_size_def)
next
  case (Cons i rows)
  have "agree (parse_operands i ops True lineno labels) (parse_operands i ops False lineno' labels')"
    by (rule parse_operands_agree)
  with Cons show ?case
    by (cases "parse_operands i ops True lineno labels"; cases "parse_operands i ops False lineno' labels'")
      (auto simp: same_size_def Let_def isa_encode_def)
qed

lemma emit_insn_size:
  "same_size (emit_insn mnem ops True off cap lineno labels) (emit_insn mnem ops False off cap lineno' labels')"
  unfolding emit_insn_def by (rule emit_rows_size [OF isa_table_wf])

lemma emit_data_size:
  "emit_data p True off cap lineno = Some r \<Longrightarrow>
     \<exists>r'. emit_data p False off cap lineno' = Some r' \<and> same_size r r'"
  "emit_data p True off cap lineno = None \<Longrightarrow> emit_data p False off cap lineno' = None"
  by (auto simp: emit_data_def same_size_def be_data_def split: option.splits prod.splits if_splits)

lemma emit_string_size:
  "same_size (emit_string p True off cap lineno) (emit_string p False off cap lineno')"
  by (auto simp: emit_string_def same_size_def bytes_of_def Let_def split: if_splits)

lemma emit_pad_size:
  assumes "cap < 2 ^ 31"
  shows "same_size (emit_pad p True off cap lineno) (emit_pad p False off cap lineno')"
proof -
  have "sint (of_nat d :: u32) = int d" if "d \<le> cap" for d
    using that assms by (simp add: signed_of_nat signed_take_bit_int_eq_self)
  then show ?thesis
    by (auto simp: emit_pad_def same_size_def simp del: of_nat_diff split: option.splits if_splits)
qed

lemma emit_rest_size:
  assumes "cap < 2 ^ 31"
  shows "same_size (emit_rest p True off cap lineno labels) (emit_rest p False off cap lineno' labels')"
proof (cases "emit_data p True off cap lineno")
  case None
  then show ?thesis
    using emit_data_size(2) [OF None, of lineno'] emit_insn_size emit_string_size emit_pad_size [OF assms]
    by (simp add: emit_rest_def) (simp add: same_size_def)
next
  case (Some r)
  then obtain r' where "emit_data p False off cap lineno' = Some r'" "same_size r r'"
    using emit_data_size(1) by blast
  with Some show ?thesis
    using emit_string_size emit_pad_size [OF assms]
    by (simp add: emit_rest_def) (simp add: same_size_def)
qed

lemma take_label_rest:
  assumes "take_label p True off lineno labels = Inr (r, l)"
    and "take_label p False off lineno' labels' = Inr (r', l')"
  shows "r = r' \<and> l = labels"
  using assms by (auto simp: take_label_def Let_def split: if_splits sum.splits)

lemma process_line_size:
  assumes "cap < 2 ^ 31"
    and "process_line line True off cap lineno labels = Inr (n, bs, l)"
    and "process_line line False off cap lineno' labels' = Inr (n', bs', l')"
  shows "n = n' \<and> int (length bs) = n \<and> l = labels"
proof -
  obtain r where r: "take_label (trim line) True off lineno labels = Inr (r, l)"
      "emit_rest r True off cap lineno l = Inr (n, bs)"
    using assms(2) by (auto simp: process_line_def split: sum.splits)
  obtain r' where r': "take_label (trim line) False off lineno' labels' = Inr (r', l')"
      "emit_rest r' False off cap lineno' l' = Inr (n', bs')"
    using assms(3) by (auto simp: process_line_def split: sum.splits)
  show ?thesis
    using take_label_rest [OF r(1) r'(1)] emit_rest_size [OF assms(1), of r off lineno l lineno' l'] r(2) r'(2)
    by (auto simp: same_size_def)
qed

lemma asm_pass_agree:
  assumes "cap < 2 ^ 31"
  shows "asm_pass False cap ls lineno off labels' = Inr (o1, b1, l1) \<Longrightarrow>
    asm_pass True cap ls lineno' off labels = Inr (o2, b2, l2) \<Longrightarrow>
    o1 = o2 \<and> o2 = off + of_nat (length b2) \<and> l2 = labels"
proof (induction ls arbitrary: lineno lineno' off labels' o1 b1 l1 o2 b2 l2)
  case Nil
  then show ?case by simp
next
  case (Cons line ls)
  from Cons.prems(1) obtain n bs l b1' where p1: "process_line line False off cap (Suc lineno) labels' = Inr (n, bs, l)"
      "asm_pass False cap ls (Suc lineno) (off + of_int n) l = Inr (o1, b1', l1)" "\<not> n < 0"
    by (auto split: sum.splits prod.splits if_splits)
  from Cons.prems(2) obtain n' bs' l' b2' where p2: "process_line line True off cap (Suc lineno') labels = Inr (n', bs', l')"
      "asm_pass True cap ls (Suc lineno') (off + of_int n') l' = Inr (o2, b2', l2)" "b2 = bs' @ b2'"
    by (auto split: sum.splits prod.splits if_splits)
  have "n' = n \<and> int (length bs') = n' \<and> l' = labels"
    by (rule process_line_size [OF assms p2(1) p1(1)])
  moreover from this have "o1 = o2 \<and> o2 = (off + of_int n') + of_nat (length b2') \<and> l2 = l'"
    using Cons.IH [OF p1(2), of "Suc lineno'" o2 b2' l2] p2(2) \<open>n' = n \<and> int (length bs') = n' \<and> l' = labels\<close> by simp
  ultimately show ?case
    using p2(3) by (metis add.assoc length_append of_int_of_nat_eq of_nat_add)
qed

text \<open>
  The assembler's result has the length that it returns: what the second pass writes is
  as long as the first pass counted, which fits the capacity. (Offsets have 32 bits; padding
  lines can add up to more than that.)
\<close>

theorem asm_assemble_size:
  assumes "asm_assemble source cap = Inr (n, bs)" and "cap < 2 ^ 31" and "length bs < 2 ^ 32"
  shows "n = int (length bs) \<and> length bs \<le> cap"
proof -
  from assms(1) obtain off b l o2 l2 where p: "asm_pass False cap (lines_of source) 0 0 [] = Inr (off, b, l)"
      "unat off \<le> cap" "asm_pass True cap (lines_of source) 0 0 l = Inr (o2, bs, l2)" "n = sint o2"
    by (auto simp: asm_assemble_def split: sum.splits if_splits)
  from asm_pass_agree [OF assms(2) p(1) p(3)] have "off = o2" "o2 = of_nat (length bs)"
    by auto
  with p(2,4) assms(2,3) show ?thesis
    by (simp add: unat_of_nat signed_of_nat signed_take_bit_int_eq_self)
qed



section \<open>Only operands that fit are encoded\<close>

lemma reg_index_range: "reg_index_from i rs nm = -1 \<or> (int i \<le> reg_index_from i rs nm \<and> reg_index_from i rs nm < int (i + length rs))"
  by (induction i rs nm rule: reg_index_from.induct) auto

lemma isa_reg_index_less: "isa_reg_index t \<ge> 0 \<Longrightarrow> isa_reg_index t < 16"
  using reg_index_range [of 0 reg_names t] by (simp add: isa_reg_index_def reg_names_def)

lemma parse_operand_fits:
  assumes "parse_operand f t True lineno labels = Parsed v" and "op_kind f \<noteq> OP_NONE"
  shows "operand_in_range f v"
proof (cases "op_kind f = OP_REG")
  case True
  with assms(1) have r: "isa_reg_index t \<ge> 0" "v = of_int (isa_reg_index t)"
    by (auto simp: parse_operand_def split: if_splits)
  have "v < 16"
    using isa_reg_index_less [OF r(1)] r
    by (cases "isa_reg_index t") (simp_all add: word_less_nat_alt unat_of_nat)
  with True show ?thesis
    by (simp add: operand_in_range_def)
next
  case False
  with assms(1) show ?thesis
    by (auto simp: parse_operand_def operand_in_range_def linorder_not_less split: parsed.splits if_splits)
qed

lemma parse_fields_fit:
  "parse_fields fs tok True lineno labels = Parsed vs \<Longrightarrow> list_all2 operand_in_range (live fs) vs"
proof (induction fs arbitrary: tok vs)
  case Nil
  then show ?case by (simp add: live_def split: if_splits)
next
  case (Cons f fs)
  then show ?case
    using parse_operand_fits
    by (auto simp: Let_def live_Cons split: if_splits prod.splits parsed.splits)
qed

lemma live_append: "live (xs @ ys) = live xs @ live ys"
  by (simp add: live_def)

lemma live_concat: "live (concat xss) = concat (map live xss)"
  by (induction xss) (simp_all add: live_append live_def)

lemma operand_fields_live:
  assumes "row_wf i"
  shows "map snd (operand_fields i) = live (concat (take (in_nwords i) (in_ops i)))"
proof -
  have len: "length (in_ops i) = in_nwords i"
    using assms by (simp add: row_wf_def)
  have "map live (in_ops i) = map (\<lambda>w. live (in_ops i ! w)) [0 ..< in_nwords i]"
    using len by (intro nth_equalityI) auto
  then show ?thesis
    using len by (simp add: operand_fields_def map_concat comp_def live_concat)
qed

lemma parse_operands_fit:
  assumes "row_wf i" and "parse_operands i ops True lineno labels = Parsed vs"
  shows "operands_ok i (\<lambda>k. vs ! k)"
proof -
  have "list_all2 operand_in_range (map snd (operand_fields i)) vs"
    using assms parse_fields_fit
    by (auto simp: parse_operands_def operand_fields_live split: parsed.splits if_splits)
  then show ?thesis
    by (auto simp: operands_ok_def list_all2_conv_all_nth)
qed

text \<open>
  C30: an instruction line that assembles is a row of the table of that name, encoded with
  operands that all fit their fields: registers below 16 and immediates of 16 bits.
\<close>

theorem emit_insn_fits:
  assumes "emit_insn mnem ops True off cap lineno labels = Inr (n, bs)"
  shows "\<exists>i \<in> set isa_table. \<exists>vals. in_name i = mnem \<and> operands_ok i vals \<and> bs = isa_encode i vals
           \<and> unat (off + of_nat (length bs)) \<le> cap"
proof -
  have "\<exists>i \<in> set rows. \<exists>vals. in_name i = mnem \<and> operands_ok i vals \<and> bs = isa_encode i vals
           \<and> unat (off + of_nat (length bs)) \<le> cap"
    if "emit_rows rows mnem ops True off cap lineno labels = Inr (n, bs)" "list_all row_wf rows" for rows
    using that
  proof (induction rows)
    case Nil
    then show ?case by simp
  next
    case (Cons i rows)
    then show ?case
      using parse_operands_fit [of i ops lineno labels]
      by (auto simp: Let_def room_def isa_encode_def mult.commute split: if_splits parsed.splits)
  qed
  then show ?thesis
    using assms isa_table_wf by (auto simp: emit_insn_def)
qed


text \<open>Evaluation of the assembler on concrete text.\<close>

lemmas asm_eval =
  emit_insn_def isa_table_def row_def parse_operands_def split_comma_def trim_def rtrim_def
  drop_blanks_def is_blank_def tab_def strip_brackets_def parse_operand_def parse_imm_def
  char_literal_def isa_reg_index_def reg_names_def parse_num_def strtoull0_def is_space_def
  code_of_def hex_prefix_def digit_value_def is_digit_def is_lower_def is_upper_def is_alpha_def
  is_alnum_def Let_def room_def isa_encode_def isa_encode_words_def be_bytes32_def
  REG_def IMM_def NONE_def

text \<open>\<^verbatim>\<open>mov r1, 258\<close>, four bytes at offset 0.\<close>

theorem emit_insn_fits_witness:
  "emit_insn ''mov'' ''r1, 258'' True 0 4 1 [] = Inr (4, [0x31, 0x10, 1, 2]) \<and>
   (\<exists>i \<in> set isa_table. \<exists>vals. in_name i = ''mov'' \<and> operands_ok i vals \<and> isa_encode i vals = [0x31, 0x10, 1, 2])"
proof -
  have e: "emit_insn ''mov'' ''r1, 258'' True 0 4 1 [] = Inr (4, [0x31, 0x10, 1, 2])"
    by (simp add: asm_eval)
  from emit_insn_fits [OF this] obtain i vals where
    "i \<in> set isa_table" "in_name i = ''mov''" "operands_ok i vals" "isa_encode i vals = [0x31, 0x10, 1, 2]"
    by metis
  with e show ?thesis by blast
qed

text \<open>A program of one labelled line: \<^verbatim>\<open>halt: jmp halt\<close>.\<close>

theorem asm_assemble_size_witness:
  "asm_assemble ''halt: jmp halt'' 16 = Inr (4, [0x58, 0x0F, 0, 0]) \<and> length [0x58, 0x0F, 0, 0 :: u8] \<le> 16"
proof -
  have e: "asm_assemble ''halt: jmp halt'' 16 = Inr (4, [0x58, 0x0F, 0, 0])"
    by code_simp
  from asm_assemble_size [OF this] e show ?thesis by simp
qed


section \<open>Labels\<close>

lemma asm_pass_append:
  "asm_pass r cap (ls @ ms) lineno off labels =
     (case asm_pass r cap ls lineno off labels of
        Inl e \<Rightarrow> Inl e
      | Inr (o1, b1, l1) \<Rightarrow>
          (case asm_pass r cap ms (lineno + length ls) o1 l1 of
             Inl e \<Rightarrow> Inl e
           | Inr (o2, b2, l2) \<Rightarrow> Inr (o2, b1 @ b2, l2)))"
  by (induction ls arbitrary: lineno off labels) (auto split: sum.splits prod.splits)

lemma add_label_extends: "add_label name off lineno labels = Inr labels' \<Longrightarrow> \<exists>x. labels' = labels @ x"
  by (auto simp: add_label_def split: if_splits)

lemma process_line_extends:
  "process_line line r off cap lineno labels = Inr (n, bs, labels') \<Longrightarrow> \<exists>x. labels' = labels @ x"
  using add_label_extends
  by (auto simp: process_line_def take_label_def Let_def split: sum.splits if_splits)

lemma asm_pass_extends:
  "asm_pass r cap ls lineno off labels = Inr (off', bs, labels') \<Longrightarrow> \<exists>x. labels' = labels @ x"
proof (induction ls arbitrary: lineno off labels off' bs labels')
  case Nil
  then show ?case by simp
next
  case (Cons line ls)
  then obtain n b l b' where "process_line line r off cap (Suc lineno) labels = Inr (n, b, l)"
      "asm_pass r cap ls (Suc lineno) (off + of_int n) l = Inr (off', b', labels')"
    by (auto split: sum.splits prod.splits if_splits)
  with process_line_extends Cons.IH show ?case
    by (metis append.assoc)
qed

lemma find_append_case:
  "find P (xs @ ys) = (case find P xs of Some x \<Rightarrow> Some x | None \<Rightarrow> find P ys)"
  by (induction xs) auto

lemma label_off_extend: "name \<in> fst ` set labels \<Longrightarrow> label_off name (labels @ x) = label_off name labels"
  by (auto simp: label_off_def find_append_case split: option.splits) (auto simp: find_None_iff)

lemma is_ident_chars: "is_ident name \<Longrightarrow> c \<in> set name \<Longrightarrow> \<not> is_blank c \<and> c \<noteq> CHR '':''"
proof -
  assume "is_ident name" "c \<in> set name"
  then have "c = CHR ''_'' \<or> is_alnum c"
    by (cases name) (auto simp: is_ident_def is_alnum_def list_all_iff)
  then show ?thesis
    by (auto simp: is_alnum_def is_alpha_def is_lower_def is_upper_def is_digit_def is_blank_def tab_def code_of_def)
qed

lemma trim_no_blanks: "\<forall>c \<in> set s. \<not> is_blank c \<Longrightarrow> trim s = s"
proof -
  assume none: "\<forall>c \<in> set s. \<not> is_blank c"
  have dw: "dropWhile is_blank xs = xs" if "\<forall>c \<in> set xs. \<not> is_blank c" for xs
    using that by (cases xs) auto
  show "trim s = s"
    using none by (simp add: trim_def rtrim_def drop_blanks_def dw)
qed

lemma take_label_new:
  assumes "is_ident name" and "name \<notin> fst ` set labels" and "length name < 64"
    and "take_label (name @ CHR '':'' # r) False off lineno labels = Inr (p, labels')"
  shows "labels' = labels @ [(name, off)]"
proof -
  have pre: "takeWhile (\<lambda>c. c \<noteq> CHR '':'') (name @ CHR '':'' # r) = name"
    using is_ident_chars [OF assms(1)] by (subst takeWhile_append2) auto
  have t: "trim name = name"
    by (rule trim_no_blanks) (use is_ident_chars [OF assms(1)] in blast)
  from assms(2) have "\<not> list_ex (\<lambda>l. fst l = name) labels"
    by (auto simp: list_ex_iff)
  with assms show ?thesis
    by (auto simp: take_label_def Let_def pre t add_label_def label_name_def split: sum.splits if_splits)
qed

text \<open>
  C29: a label stands for the address at which the second pass emits the line that defines it
  first: if a line starts with the definition of a name that no line before it defines, then
  wherever the name is referenced it is replaced by the number of bytes of the lines before.
\<close>

theorem label_is_address:
  assumes "cap < 2 ^ 31"
    and "asm_pass False cap (ls @ line # ms) 0 0 [] = Inr (off, b, labels)"
    and "asm_pass True cap (ls @ line # ms) 0 0 labels = Inr (off2, bs, labels2)"
    and "asm_pass False cap ls 0 0 [] = Inr (o1, b1, labels1)" and "name \<notin> fst ` set labels1"
    and "trim line = name @ CHR '':'' # r" and "is_ident name" and "length name < 64"
  shows "\<exists>bs1 bs2. bs = bs1 @ bs2 \<and> asm_pass True cap ls 0 0 labels = Inr (o1, bs1, labels)
           \<and> label_off name labels = of_nat (length bs1)"
proof -
  obtain o2 b2 bs2 where two: "asm_pass True cap ls 0 0 labels = Inr (o2, b2, labels2)" "bs = b2 @ bs2"
  proof -
    obtain o2 b2 l2 where a: "asm_pass True cap ls 0 0 labels = Inr (o2, b2, l2)"
      using assms(3) by (auto simp: asm_pass_append split: sum.splits)
    from assms(3) obtain b3 where "asm_pass True cap (line # ms) (length ls) o2 l2 = Inr (off2, b3, labels2)"
        "bs = b2 @ b3"
      by (auto simp: asm_pass_append a split: sum.splits)
    moreover have "l2 = labels"
      using asm_pass_agree [OF assms(1,4) a] by simp
    moreover have "labels2 = labels"
      using asm_pass_agree [OF assms(1-3)] by simp
    ultimately show thesis
      using that a by simp
  qed
  from assms(2,4) have "asm_pass False cap (line # ms) (length ls) o1 labels1 = Inr (off, drop (length b1) b, labels)"
    by (auto simp: asm_pass_append simp del: asm_pass.simps split: sum.splits)
  then obtain n b' l b'' where p: "process_line line False o1 cap (Suc (length ls)) labels1 = Inr (n, b', l)"
      "asm_pass False cap ms (Suc (length ls)) (o1 + of_int n) l = Inr (off, b'', labels)"
    by (auto split: sum.splits prod.splits if_splits)
  from p(1) assms(6) obtain q where "take_label (name @ CHR '':'' # r) False o1 (Suc (length ls)) labels1 = Inr (q, l)"
    by (auto simp: process_line_def split: sum.splits)
  from take_label_new [OF assms(7,5,8) this] have l: "l = labels1 @ [(name, o1)]" .
  obtain x where "labels = l @ x"
    using asm_pass_extends [OF p(2)] by blast
  moreover have "find (\<lambda>l. fst l = name) labels1 = None"
    using assms(5) by (force simp: find_None_iff image_iff)
  then have "label_off name l = o1"
    by (simp add: l label_off_def find_append_case)
  ultimately have "label_off name labels = o1"
    using label_off_extend [of name l x] l by simp
  moreover have "o1 = o2" "o2 = of_nat (length b2)" "labels2 = labels"
    using asm_pass_agree [OF assms(1,4) two(1)] asm_pass_agree [OF assms(1-3)] by auto
  ultimately show ?thesis
    using two by blast
qed


text \<open>\<^verbatim>\<open>end\<close> on the third line, after two instructions of one word.\<close>

theorem label_is_address_witness:
  "\<exists>bs1 bs2. asm_pass True 64 [''nop'', ''jmp end'', ''end: nop''] 0 0 [(''end'', 8)] = Inr (12, bs1 @ bs2, [(''end'', 8)])
     \<and> length bs1 = 8 \<and> label_off ''end'' [(''end'', 8)] = of_nat (length bs1)"
proof -
  have p1: "asm_pass False 64 [''nop'', ''jmp end'', ''end: nop''] 0 0 [] = Inr (12, [], [(''end'', 8)])"
    by code_simp
  obtain bs where p2: "asm_pass True 64 [''nop'', ''jmp end'', ''end: nop''] 0 0 [(''end'', 8)] = Inr (12, bs, [(''end'', 8)])"
  proof -
    have "asm_pass True 64 [''nop'', ''jmp end'', ''end: nop''] 0 0 [(''end'', 8)]
        = Inr (12, [0, 0, 0, 0, 0x58, 0x0F, 0, 8, 0, 0, 0, 0], [(''end'', 8)])"
      by code_simp
    then show thesis by (rule that)
  qed
  have p3: "asm_pass False 64 [''nop'', ''jmp end''] 0 0 [] = Inr (8, [], [])"
    by code_simp
  have t: "trim ''end: nop'' = ''end'' @ CHR '':'' # '' nop''" "is_ident ''end''"
    by code_simp+
  from label_is_address [of 64 "[''nop'', ''jmp end'']" "''end: nop''" "[]" 12 "[]" "[(''end'', 8)]" 12 bs
      "[(''end'', 8)]" 8 "[]" "[]" "''end''" "'' nop''"] p1 p2 p3 t
  obtain bs1 bs2 where r: "bs = bs1 @ bs2" "asm_pass True 64 [''nop'', ''jmp end''] 0 0 [(''end'', 8)] = Inr (8, bs1, [(''end'', 8)])"
      "label_off ''end'' [(''end'', 8)] = of_nat (length bs1)"
    by auto
  have "asm_pass True 64 [''nop'', ''jmp end''] 0 0 [(''end'', 8)] = Inr (8, [0, 0, 0, 0, 0x58, 0x0F, 0, 8], [(''end'', 8)])"
    by code_simp
  with r(2) have "length bs1 = 8" by simp
  with r p2 show ?thesis by blast
qed

text \<open>
  A string with a blank before its first colon does not assemble: the text before the
  colon is trimmed in the line buffer while the line is examined for a label, and stays cut.
  The same string without the blank does.
\<close>

theorem string_blank_colon:
  "process_line (dquote # ''a : b'' @ [dquote]) False 0 64 1 [] = Inl (1, Unterminated_string)
   \<and> process_line (dquote # ''a: b'' @ [dquote]) False 0 64 1 [] = Inr (4, [], [])"
  by code_simp

end
