(* ===== verification/Probe.thy ===== *)
theory Probe
  imports Machine_Steps
begin

text \<open>
  The capacity probe of \<^verbatim>\<open>runtime/capacity_probe.c\<close>, which writes four words and reads them back to
  find out whether address lines alias. \<^verbatim>\<open>probe\<close> is given its memory as two functions; what it
  relies on is the contract \<open>word_store\<close>, a store of words whose addresses may alias. The
  contract is interpreted on the main memory of the emulator, whose address mask is what the
  probe looks for.
\<close>

section \<open>The probe\<close>

definition probe_addresses :: "u32 list" where
  "probe_addresses = [0x1000, 0x801000, 0x1001000, 0x1fffffc]"

definition probe_value :: "nat \<Rightarrow> u32" where
  "probe_value i = 0x13572468 XOR (of_nat i * 0x10204080)"

definition probe :: "(u32 \<Rightarrow> 's \<Rightarrow> u32) \<Rightarrow> (u32 \<Rightarrow> u32 \<Rightarrow> 's \<Rightarrow> 's) \<Rightarrow> 's \<Rightarrow> bool \<times> 's" where
  "probe read_word write_word s =
     (let saved = map (\<lambda>a. read_word a s) probe_addresses;
          s1 = fold (\<lambda>i. write_word (probe_addresses ! i) (probe_value i)) [0, 1, 2, 3] s;
          ok = list_all (\<lambda>i. read_word (probe_addresses ! i) s1 = probe_value i) [0, 1, 2, 3];
          s2 = fold (\<lambda>i. write_word (probe_addresses ! i) (saved ! i)) [3, 2, 1, 0] s1
      in (ok, s2))"


section \<open>The contract of the memory\<close>

locale word_store =
  fixes rd :: "u32 \<Rightarrow> 's \<Rightarrow> u32"
    and wr :: "u32 \<Rightarrow> u32 \<Rightarrow> 's \<Rightarrow> 's"
    and same :: "u32 \<Rightarrow> u32 \<Rightarrow> bool"
    and ok :: "u32 \<Rightarrow> bool"
  assumes rd_wr: "ok a \<Longrightarrow> ok b \<Longrightarrow> rd b (wr a v s) = (if same a b then v else rd b s)"
    and same_refl: "same a a"
    and same_sym: "same a b \<Longrightarrow> same b a"
    and same_trans: "same a b \<Longrightarrow> same b c \<Longrightarrow> same a c"
    and same_rd: "same a b \<Longrightarrow> rd a s = rd b s"
begin

lemma same_commute: "same a b = same b a"
  using same_sym by blast

lemma probe_values_distinct:
  "probe_value 0 \<noteq> probe_value 1" "probe_value 0 \<noteq> probe_value 2" "probe_value 0 \<noteq> probe_value 3"
  "probe_value 1 \<noteq> probe_value 2" "probe_value 1 \<noteq> probe_value 3" "probe_value 2 \<noteq> probe_value 3"
  by (simp_all add: probe_value_def)

lemma probe_finds_aliases:
  assumes "list_all ok probe_addresses"
  shows "fst (probe rd wr s) \<longleftrightarrow> sorted_wrt (\<lambda>a b. \<not> same b a) probe_addresses"
proof -
  have o: "ok 0x1000" "ok 0x801000" "ok 0x1001000" "ok 0x1fffffc"
    using assms by (simp_all add: probe_addresses_def)
  show ?thesis
    using probe_values_distinct
    by (simp add: probe_def Let_def probe_addresses_def rd_wr o same_refl)
qed

lemma probe_restores:
  assumes "list_all ok probe_addresses" and "ok a"
  shows "rd a (snd (probe rd wr s)) = rd a s"
proof -
  have o: "ok 0x1000" "ok 0x801000" "ok 0x1001000" "ok 0x1fffffc"
    using assms by (simp_all add: probe_addresses_def)
  have r: "same 0x1000 a \<Longrightarrow> rd 0x1000 s = rd a s" "same 0x801000 a \<Longrightarrow> rd 0x801000 s = rd a s"
    "same 0x1001000 a \<Longrightarrow> rd 0x1001000 s = rd a s" "same 0x1fffffc a \<Longrightarrow> rd 0x1fffffc s = rd a s"
    by (rule same_rd, assumption)+
  show ?thesis
    using assms(2) r
    by (simp add: probe_def Let_def probe_addresses_def rd_wr o)
qed

end


section \<open>The emulator's main memory keeps the contract\<close>

text \<open>
  A word access of a program: the address is masked as the emulator does for \<^verbatim>\<open>load_32\<close> and
  \<^verbatim>\<open>store_32\<close>. A mask that keeps the low two bits maps words to words.
\<close>

definition mem_load :: "u32 \<Rightarrow> u32 \<Rightarrow> (u64 \<Rightarrow> u8) \<Rightarrow> u32" where
  "mem_load msk a m = rd32 m (ucast (a AND msk))"

definition mem_store :: "u32 \<Rightarrow> u32 \<Rightarrow> u32 \<Rightarrow> (u64 \<Rightarrow> u8) \<Rightarrow> (u64 \<Rightarrow> u8)" where
  "mem_store msk a v m = wr32 (ucast (a AND msk)) v m"

definition aligned :: "u32 \<Rightarrow> bool" where
  "aligned a \<longleftrightarrow> a AND 3 = 0"

lemma aligned_mult4: "aligned a \<longleftrightarrow> unat a mod 4 = 0"
proof -
  have "a AND 3 = a AND mask 2"
    by (simp add: mask_eq_exp_minus_1)
  then have "unat (a AND 3) = unat a mod 4"
    by (simp add: take_bit_eq_mod unat_mod_distrib flip: take_bit_eq_mask)
  then show ?thesis
    by (auto simp: aligned_def unat_eq_zero)
qed

lemma aligned_masked: "aligned a \<Longrightarrow> aligned (a AND msk)"
proof -
  assume "aligned a"
  moreover have "(a AND msk) AND 3 = (a AND 3) AND msk"
    by (simp add: ac_simps)
  ultimately show ?thesis
    by (simp add: aligned_def)
qed

lemma aligned_apart:
  assumes "aligned a" and "aligned b" and "a \<noteq> b"
  shows "unat a + 4 \<le> unat b \<or> unat b + 4 \<le> unat a"
proof -
  from assms(3) have "unat a \<noteq> unat b"
    by (simp add: word_unat_eq_iff)
  with assms(1,2) show ?thesis
    unfolding aligned_mult4 by presburger
qed

interpretation ram_words: word_store "mem_load msk" "mem_store msk" "\<lambda>a b. a AND msk = b AND msk" aligned
proof
  fix a b v :: u32 and m :: "u64 \<Rightarrow> u8"
  assume al: "aligned a" "aligned b"
  show "mem_load msk b (mem_store msk a v m) = (if a AND msk = b AND msk then v else mem_load msk b m)"
  proof (cases "a AND msk = b AND msk")
    case True
    then show ?thesis
      by (simp add: mem_load_def mem_store_def)
  next
    case False
    have "rd32 (wr32 (ucast (a AND msk)) v m) (ucast (b AND msk)) = rd32 m (ucast (b AND msk))"
      using aligned_apart [OF aligned_masked [OF al(1)] aligned_masked [OF al(2)] False]
        unat32_less [of "a AND msk"] unat32_less [of "b AND msk"]
      by (intro rd32_wr32_other) auto
    with False show ?thesis
      by (simp add: mem_load_def mem_store_def)
  qed
qed (auto simp: mem_load_def)

text \<open>
  C33: on the emulator's main memory with an address mask, the probe reports success exactly
  when the mask keeps its four addresses apart, and leaves every aligned word as it was.
\<close>

theorem probe_detects_mask:
  "(fst (probe (mem_load msk) (mem_store msk) m) \<longleftrightarrow> distinct (map (\<lambda>a. a AND msk) probe_addresses))
   \<and> (aligned a \<longrightarrow> mem_load msk a (snd (probe (mem_load msk) (mem_store msk) m)) = mem_load msk a m)"
proof -
  have al: "list_all aligned probe_addresses"
    by (simp add: probe_addresses_def aligned_def)
  have "sorted_wrt (\<lambda>a b. b AND msk \<noteq> a AND msk) probe_addresses \<longleftrightarrow> distinct (map (\<lambda>a. a AND msk) probe_addresses)"
    by (auto simp: probe_addresses_def)
  then show ?thesis
    using ram_words.probe_finds_aliases [OF al] ram_words.probe_restores [OF al] by simp
qed

text \<open>A machine that drops the address lines above 8 MB fails the probe.\<close>

theorem probe_detects_mask_witness:
  "\<not> fst (probe (mem_load 0x7FFFFF) (mem_store 0x7FFFFF) (\<lambda>_. 7)) \<and> fst (probe (mem_load 0x1FFFFFF) (mem_store 0x1FFFFFF) (\<lambda>_. 7))
   \<and> mem_load 0x7FFFFF 0x1000 (snd (probe (mem_load 0x7FFFFF) (mem_store 0x7FFFFF) (\<lambda>_. 7)))
     = mem_load 0x7FFFFF 0x1000 (\<lambda>_. 7)"
  using probe_detects_mask [of "0x7FFFFF" "\<lambda>_. 7" 0] probe_detects_mask [of "0x1FFFFFF" "\<lambda>_. 7" 0]
    probe_detects_mask [of "0x7FFFFF" "\<lambda>_. 7" "0x1000"]
  by (simp add: probe_addresses_def aligned_def)

end
