(* ===== verification/Runtime.thy ===== *)
theory Runtime
  imports Prelude
begin

text \<open>
  Arithmetic and console routines that run on the target: signed division from the unsigned
  one (\<^verbatim>\<open>runtime/divsi3.c\<close>), the clock's division of a 64-bit time by ten million on a 32-bit ALU
  (\<^verbatim>\<open>kernel/symplus/tick.c\<close>), the character output of \<^verbatim>\<open>runtime/tty.c\<close> and the capacity probe of
  \<^verbatim>\<open>runtime/capacity_probe.c\<close>. The properties say that each computes the mathematical function
  it stands for.
\<close>

section \<open>Signed division\<close>

text \<open>
  The unsigned quotient by zero is the 0 of the hardware's \<^verbatim>\<open>div\<close>, as is that of HOL's words; the
  remainder by zero is 0 on the hardware.
\<close>

definition udiv :: "u32 \<Rightarrow> u32 \<Rightarrow> u32" where "udiv a b = (if b = 0 then 0 else a div b)"
definition umod :: "u32 \<Rightarrow> u32 \<Rightarrow> u32" where "umod a b = (if b = 0 then 0 else a mod b)"

definition neg32 :: "u32 \<Rightarrow> bool" where "neg32 a \<longleftrightarrow> sint a < 0"

definition divsi3 :: "u32 \<Rightarrow> u32 \<Rightarrow> u32" where
  "divsi3 a b =
     (let ua = (if neg32 a then 0 - a else a);
          ub = (if neg32 b then 0 - b else b);
          q = udiv ua ub
      in if neg32 a \<noteq> neg32 b then 0 - q else q)"

definition modsi3 :: "u32 \<Rightarrow> u32 \<Rightarrow> u32" where
  "modsi3 a b =
     (let ua = (if neg32 a then 0 - a else a);
          ub = (if neg32 b then 0 - b else b);
          r = umod ua ub
      in if neg32 a then 0 - r else r)"

text \<open>C's division truncates towards zero; the remainder has the sign of the dividend.\<close>

definition trunc_div :: "int \<Rightarrow> int \<Rightarrow> int" where
  "trunc_div a b = sgn a * sgn b * (\<bar>a\<bar> div \<bar>b\<bar>)"

definition trunc_mod :: "int \<Rightarrow> int \<Rightarrow> int" where
  "trunc_mod a b = sgn a * (\<bar>a\<bar> mod \<bar>b\<bar>)"

lemma trunc_div_mod: "b \<noteq> 0 \<Longrightarrow> trunc_div a b * b + trunc_mod a b = a"
proof -
  assume "b \<noteq> 0"
  have b: "sgn b * b = \<bar>b\<bar>" by (simp add: abs_sgn mult.commute)
  have "trunc_div a b * b + trunc_mod a b = sgn a * (\<bar>a\<bar> div \<bar>b\<bar> * (sgn b * b)) + sgn a * (\<bar>a\<bar> mod \<bar>b\<bar>)"
    unfolding trunc_div_def trunc_mod_def by (simp add: mult.assoc mult.left_commute)
  also have "\<dots> = sgn a * (\<bar>a\<bar> div \<bar>b\<bar> * \<bar>b\<bar> + \<bar>a\<bar> mod \<bar>b\<bar>)"
    unfolding b by (simp only: distrib_left)
  also have "\<dots> = sgn a * \<bar>a\<bar>"
    by (simp only: div_mult_mod_eq)
  finally show ?thesis
    by (simp add: mult_sgn_abs)
qed

definition magnitude :: "u32 \<Rightarrow> u32" where
  "magnitude a = (if neg32 a then 0 - a else a)"

lemma sint_bounds: "- (2 ^ 31) \<le> sint (a :: u32) \<and> sint a < 2 ^ 31"
  using sint_greater_eq [of a] sint_lt [of a] by simp

lemma uint_of_int32: "0 \<le> k \<Longrightarrow> k < 2 ^ 32 \<Longrightarrow> uint (word_of_int k :: u32) = k"
  by (simp add: uint_word_of_int)

lemma sint_of_int32: "- (2 ^ 31) \<le> k \<Longrightarrow> k < 2 ^ 31 \<Longrightarrow> sint (word_of_int k :: u32) = k"
  by (simp add: signed_of_int signed_take_bit_int_eq_self)

lemma word_sint: "a = word_of_int (sint (a :: u32))"
  by simp

lemma uint_magnitude: "uint (magnitude a) = \<bar>sint a\<bar>"
proof (cases "sint a < 0")
  case True
  have "magnitude a = word_of_int (- sint a)"
    using True by (simp add: magnitude_def neg32_def)
  then show ?thesis
    using True sint_bounds [of a] uint_of_int32 [of "- sint a"] by simp
next
  case False
  have "uint a = sint a"
    using False sint_bounds [of a] uint_of_int32 [of "sint a"] by simp
  with False show ?thesis
    by (simp add: magnitude_def neg32_def)
qed

lemma magnitude_zero: "magnitude b = 0 \<longleftrightarrow> b = 0"
  by (simp add: magnitude_def)

lemma uint_udiv: "uint (udiv (magnitude a) (magnitude b)) = \<bar>sint a\<bar> div \<bar>sint b\<bar>"
  using uint_magnitude by (simp add: udiv_def uint_div magnitude_zero)

lemma uint_umod: "b \<noteq> 0 \<Longrightarrow> uint (umod (magnitude a) (magnitude b)) = \<bar>sint a\<bar> mod \<bar>sint b\<bar>"
  using uint_magnitude by (simp add: umod_def uint_mod magnitude_zero)

lemma signed_result:
  fixes q :: u32
  assumes "uint q = k" and "k \<le> 2 ^ 31"
  shows "sint (0 - q) = - k" and "k < 2 ^ 31 \<Longrightarrow> sint q = k"
proof -
  have q: "q = word_of_int k" and "0 \<le> k"
    using assms(1) by auto
  then show "sint (0 - q) = - k" "k < 2 ^ 31 \<Longrightarrow> sint q = k"
    using assms(2) sint_of_int32 [of "- k"] sint_of_int32 [of k] by auto
qed

lemma quotient_bounds:
  assumes "b \<noteq> 0"
  shows "\<bar>sint (a :: u32)\<bar> div \<bar>sint (b :: u32)\<bar> \<le> 2 ^ 31"
    and "\<bar>sint a\<bar> div \<bar>sint b\<bar> = 2 ^ 31 \<Longrightarrow> sint a = - (2 ^ 31) \<and> \<bar>sint b\<bar> = 1"
proof -
  have pos: "0 < \<bar>sint b\<bar>"
    using assms signed_eq_0_iff [of b] by auto
  have le: "\<bar>sint a\<bar> div \<bar>sint b\<bar> \<le> \<bar>sint a\<bar>"
    using zdiv_mono2 [of "\<bar>sint a\<bar>" 1 "\<bar>sint b\<bar>"] pos by simp
  then show "\<bar>sint a\<bar> div \<bar>sint b\<bar> \<le> 2 ^ 31"
    using sint_bounds [of a] by linarith
  assume eq: "\<bar>sint a\<bar> div \<bar>sint b\<bar> = 2 ^ 31"
  with le sint_bounds [of a] have a: "\<bar>sint a\<bar> = 2 ^ 31"
    by linarith
  have "\<not> 1 < \<bar>sint b\<bar>"
    using int_div_less_self [of "\<bar>sint a\<bar>" "\<bar>sint b\<bar>"] eq a by auto
  with pos a sint_bounds [of a] show "sint a = - (2 ^ 31) \<and> \<bar>sint b\<bar> = 1"
    by linarith
qed



text \<open>
  \<^verbatim>\<open>__modsi3\<close> computes the remainder that goes with the truncated quotient, for every
  divisor but zero.
\<close>

theorem modsi3_truncates:
  assumes "b \<noteq> 0"
  shows "sint (modsi3 a b) = trunc_mod (sint a) (sint b)
    \<and> trunc_div (sint a) (sint b) * sint b + sint (modsi3 a b) = sint a"
proof -
  let ?k = "\<bar>sint a\<bar> mod \<bar>sint b\<bar>"
  define r where "r = umod (magnitude a) (magnitude b)"
  have ur: "uint r = ?k"
    unfolding r_def by (rule uint_umod [OF assms])
  have nz: "sint b \<noteq> 0"
    using assms signed_eq_0_iff [of b] by auto
  then have "?k < \<bar>sint b\<bar>" and "?k \<ge> 0"
    by simp_all
  then have k: "?k < 2 ^ 31"
    using sint_bounds [of b] by linarith
  have d: "modsi3 a b = (if neg32 a then 0 - r else r)"
    by (simp only: modsi3_def magnitude_def r_def Let_def)
  have "sint (modsi3 a b) = trunc_mod (sint a) (sint b)"
    using signed_result [OF ur] k by (auto simp: d trunc_mod_def neg32_def sgn_if)
  then show ?thesis
    using trunc_div_mod [OF nz] by simp
qed

theorem modsi3_truncates_witness:
  "sint (modsi3 (- 7) 2) = - 1"
proof -
  have "sint (- 7 :: u32) = - 7" "sint (2 :: u32) = 2"
    by simp_all
  then show ?thesis
    using modsi3_truncates [of 2 "- 7"] by (simp add: trunc_mod_def)
qed



section \<open>Clock ticks\<close>

definition TICK_NS :: u32 where "TICK_NS = 10000000"

text \<open>The loops over the bits \<open>i - 1\<close> down to 0 of the high and the low word of the time.\<close>

definition tick_rem :: "u32 \<Rightarrow> nat \<Rightarrow> u32 \<Rightarrow> u32" where
  "tick_rem w i rem = rem * 2 + (drop_bit i w AND 1)"

fun tick_high :: "nat \<Rightarrow> u32 \<Rightarrow> u32 \<Rightarrow> u32" where
  "tick_high 0 hi rem = rem"
| "tick_high (Suc i) hi rem =
     (let r = tick_rem hi i rem in tick_high i hi (if r \<ge> TICK_NS then r - TICK_NS else r))"

fun tick_low :: "nat \<Rightarrow> u32 \<Rightarrow> u32 \<Rightarrow> u32 \<Rightarrow> u32 \<times> u32" where
  "tick_low 0 lo rem ticks = (ticks, rem)"
| "tick_low (Suc i) lo rem ticks =
     (let r = tick_rem lo i rem; t = push_bit 1 ticks in
      if r \<ge> TICK_NS then tick_low i lo (r - TICK_NS) (t OR 1) else tick_low i lo r t)"

definition sp_tick_elapsed :: "u32 \<Rightarrow> u32 \<Rightarrow> u32 \<Rightarrow> u32 \<Rightarrow> u32 \<Rightarrow> u32 \<times> u32" where
  "sp_tick_elapsed old_low old_high low high saved =
     (let lo = low - old_low;
          hi = high - old_high - (if low < old_low then 1 else 0);
          (ticks, rem) =
            (if hi = 0 then (lo div TICK_NS, lo mod TICK_NS)
             else tick_low 32 lo (tick_high 32 hi 0) 0);
          rem' = rem + saved
      in if rem' \<ge> TICK_NS then (ticks + 1, rem' - TICK_NS) else (ticks, rem'))"

lemma bits_step: "(x :: int) div 2 ^ i = 2 * (x div 2 ^ Suc i) + x div 2 ^ i mod 2"
proof -
  have "x div 2 ^ Suc i = x div 2 ^ i div 2"
    by (simp only: power_Suc2 zdiv_zmult2_eq zero_le_numeral zero_le_power)
  then show ?thesis
    by simp
qed

lemma uint_tick_bit: "uint (drop_bit i w AND 1) = uint (w :: u32) div 2 ^ i mod 2"
proof -
  have "uint (drop_bit i w) = drop_bit i (uint w)"
    by (rule bit_eqI) (simp add: bit_unsigned_iff bit_drop_bit_eq)
  then show ?thesis
    by (simp add: and_one_eq drop_bit_eq_div uint_mod_distrib)
qed

lemma tick_step:
  assumes "uint rem = m mod 10000000" and "0 \<le> m"
  shows "uint (tick_rem w i rem) = 2 * (m mod 10000000) + uint w div 2 ^ i mod 2"
proof -
  have "m mod 10000000 < 10000000" "0 \<le> m mod 10000000" by simp_all
  then have "0 \<le> 2 * (m mod 10000000) + uint w div 2 ^ i mod 2"
      "2 * (m mod 10000000) + uint w div 2 ^ i mod 2 < 4294967296"
    using pos_mod_bound [of 2 "uint w div 2 ^ i"] pos_mod_sign [of 2 "uint w div 2 ^ i"] by linarith+
  then show ?thesis
    using assms(1) by (simp add: tick_rem_def uint_word_ariths uint_tick_bit mod_simps mult.commute)
qed

lemma mod_double:
  assumes b: "0 \<le> b" "b \<le> (1 :: int)" and M: "0 < M"
  shows "2 * (m mod M) + b < M \<Longrightarrow> (2 * m + b) mod M = 2 * (m mod M) + b \<and> (2 * m + b) div M = 2 * (m div M)"
    and "M \<le> 2 * (m mod M) + b \<Longrightarrow>
      (2 * m + b) mod M = 2 * (m mod M) + b - M \<and> (2 * m + b) div M = 2 * (m div M) + 1"
proof -
  define q r where "q = m div M" and "r = m mod M"
  then have m: "m = M * q + r" and r: "0 \<le> r" "r < M"
    using M by simp_all
  have "(2 * m + b) mod M = 2 * r + b \<and> (2 * m + b) div M = 2 * q" if "2 * r + b < M"
    by (intro conjI int_mod_pos_eq [where q = "2 * q"] int_div_pos_eq [where r = "2 * r + b"])
      (use that r b in \<open>simp_all add: m algebra_simps\<close>)
  then show "2 * (m mod M) + b < M \<Longrightarrow> (2 * m + b) mod M = 2 * (m mod M) + b \<and> (2 * m + b) div M = 2 * (m div M)"
    by (simp add: q_def r_def)
  have "(2 * m + b) mod M = 2 * r + b - M \<and> (2 * m + b) div M = 2 * q + 1" if "M \<le> 2 * r + b"
    by (intro conjI int_mod_pos_eq [where q = "2 * q + 1"] int_div_pos_eq [where r = "2 * r + b - M"])
      (use that r b in \<open>simp_all add: m algebra_simps\<close>)
  then show "M \<le> 2 * (m mod M) + b \<Longrightarrow>
      (2 * m + b) mod M = 2 * (m mod M) + b - M \<and> (2 * m + b) div M = 2 * (m div M) + 1"
    by (simp add: q_def r_def)
qed

lemma uint_ge_tick: "r \<ge> TICK_NS \<longleftrightarrow> 10000000 \<le> uint r"
  by (simp add: TICK_NS_def word_le_def)

lemma uint_minus_tick: "r \<ge> TICK_NS \<Longrightarrow> uint (r - TICK_NS) = uint r - 10000000"
  by (simp add: uint_minus_simple_alt TICK_NS_def)

lemma tick_high_mod:
  assumes "uint rem = (uint hi div 2 ^ i) mod 10000000"
  shows "uint (tick_high i hi rem) = uint hi mod 10000000"
  using assms
proof (induction i arbitrary: rem)
  case 0
  then show ?case by simp
next
  case (Suc i)
  let ?r = "tick_rem hi i rem" and ?m = "uint hi div 2 ^ Suc i" and ?b = "uint hi div 2 ^ i mod 2"
  have r: "uint ?r = 2 * (?m mod 10000000) + ?b"
    by (rule tick_step [OF Suc.prems]) (simp add: pos_imp_zdiv_nonneg_iff)
  have b: "0 \<le> ?b" "?b \<le> 1"
    using pos_mod_bound [of 2 "uint hi div 2 ^ i"] by auto
  have n: "uint hi div 2 ^ i = 2 * ?m + ?b"
    by (rule bits_step)
  have "uint (if ?r \<ge> TICK_NS then ?r - TICK_NS else ?r) = (uint hi div 2 ^ i) mod 10000000"
    using mod_double [OF b, of 10000000 ?m] r n by (simp add: uint_ge_tick uint_minus_tick)
  from Suc.IH [OF this] show ?case
    by (simp add: Let_def)
qed


lemma odd_ticks: "push_bit 1 (t :: u32) OR 1 = push_bit 1 t + 1"
proof -
  have "\<not> bit (push_bit 1 t) n \<or> \<not> bit (1 :: u32) n" for n
    by (simp only: bit_push_bit_iff bit_1_iff) auto
  then show ?thesis
    by (simp add: disjunctive_add)
qed

lemma odd_double: "(t :: u32) * 2 OR 1 = 2 * t + 1"
  using odd_ticks [of t] by (simp add: push_bit_eq_mult mult.commute)

lemma tick_low_div:
  assumes "0 \<le> h" and "N = h * 2 ^ 32 + uint lo"
    and "uint rem = (N div 2 ^ i) mod 10000000" and "ticks * 2 ^ i = word_of_int (2 ^ i * (N div 2 ^ i div 10000000))"
    and "i \<le> 32"
  shows "tick_low i lo rem ticks = (word_of_int (N div 10000000), word_of_int (N mod 10000000))"
  using assms(3-5)
proof (induction i arbitrary: rem ticks)
  case 0
  then have "rem = word_of_int (N mod 10000000)"
    using word_of_int_uint [of rem] by simp
  with 0 show ?case by simp
next
  case (Suc i)
  let ?r = "tick_rem lo i rem" and ?m = "N div 2 ^ Suc i" and ?b = "uint lo div 2 ^ i mod 2"
  have N0: "0 \<le> N"
    using assms(1,2) by simp
  have "N div 2 ^ i mod 2 = ?b"
  proof -
    have "N = uint lo + 2 ^ i * (h * 2 ^ (32 - i))"
      using Suc.prems(3) by (simp add: assms(2) flip: power_add mult.assoc mult.commute)
    then have "N div 2 ^ i = h * 2 ^ (32 - i) + uint lo div 2 ^ i"
      by simp
    moreover have "even (h * 2 ^ (32 - i))"
      using Suc.prems(3) by simp
    ultimately show ?thesis
      by (metis add.commute even_add mod2_eq_if)
  qed
  then have n: "N div 2 ^ i = 2 * ?m + ?b"
    using bits_step [of N i] by simp
  have r: "uint ?r = 2 * (?m mod 10000000) + ?b"
    by (rule tick_step [OF Suc.prems(1)]) (use N0 in \<open>simp add: pos_imp_zdiv_nonneg_iff\<close>)
  have b: "0 \<le> ?b" "?b \<le> 1"
    using pos_mod_bound [of 2 "uint lo div 2 ^ i"] by auto
  have dbl: "2 * ticks * 2 ^ i = word_of_int (2 ^ i * (2 * (?m div 10000000)))"
    using Suc.prems(2) by (simp add: mult.assoc mult.left_commute)
  show ?case
  proof (cases "?r \<ge> TICK_NS")
    case True
    then have q: "(N div 2 ^ i) mod 10000000 = uint ?r - 10000000" "N div 2 ^ i div 10000000 = 2 * (?m div 10000000) + 1"
      using mod_double(2) [OF b, of 10000000 ?m] r n by (simp_all add: uint_ge_tick)
    have "(2 * ticks + 1) * 2 ^ i = word_of_int (2 ^ i * (N div 2 ^ i div 10000000))"
      unfolding q(2) using dbl by (simp add: distrib_right distrib_left)
    then have "tick_low i lo (?r - TICK_NS) (2 * ticks + 1) = (word_of_int (N div 10000000), word_of_int (N mod 10000000))"
      using Suc.prems(3) True q(1) by (intro Suc.IH) (simp_all add: uint_minus_tick)
    with True show ?thesis
      by (simp add: Let_def odd_double push_bit_eq_mult)
  next
    case False
    then have q: "(N div 2 ^ i) mod 10000000 = uint ?r" "N div 2 ^ i div 10000000 = 2 * (?m div 10000000)"
      using mod_double(1) [OF b, of 10000000 ?m] r n by (simp_all add: uint_ge_tick)
    have "2 * ticks * 2 ^ i = word_of_int (2 ^ i * (N div 2 ^ i div 10000000))"
      unfolding q(2) by (rule dbl)
    then have "tick_low i lo ?r (2 * ticks) = (word_of_int (N div 10000000), word_of_int (N mod 10000000))"
      using Suc.prems(3) q(1) by (intro Suc.IH) simp_all
    with False show ?thesis
      by (simp add: Let_def push_bit_eq_mult mult.commute)
  qed
qed

text \<open>The 64-bit time, and the time passed between two readings.\<close>

definition time64 :: "u32 \<Rightarrow> u32 \<Rightarrow> int" where
  "time64 high low = uint high * 2 ^ 32 + uint low"

definition time_passed :: "u32 \<Rightarrow> u32 \<Rightarrow> u32 \<Rightarrow> u32 \<Rightarrow> int" where
  "time_passed old_low old_high low high = (time64 high low - time64 old_high old_low) mod 2 ^ 64"

lemma time_passed_words:
  "time_passed ol oh l h = time64 (h - oh - (if l < ol then 1 else 0)) (l - ol)"
proof -
  let ?c = "if l < ol then 1 else 0 :: int"
  have lo: "uint (l - ol) = uint l - uint ol + ?c * 2 ^ 32"
    by (auto simp: uint_sub_if' word_less_def)
  have hi: "uint (h - oh - (if l < ol then 1 else 0)) = (uint h - uint oh - ?c) mod 2 ^ 32"
    by (simp add: uint_word_ariths mod_simps)
  have "(uint h - uint oh - ?c) mod 2 ^ 32 * 2 ^ 32 = ((uint h - uint oh - ?c) * 2 ^ 32) mod 2 ^ 64"
    by (simp add: mult_mod_left flip: power_add)
  then have "time64 (h - oh - (if l < ol then 1 else 0)) (l - ol) mod 2 ^ 64
      = ((uint h - uint oh - ?c) * 2 ^ 32 + (uint l - uint ol + ?c * 2 ^ 32)) mod 2 ^ 64"
    by (simp only: time64_def lo hi mod_add_left_eq)
  also have "\<dots> = time_passed ol oh l h"
    by (simp add: time_passed_def time64_def algebra_simps)
  finally have eq: "time64 (h - oh - (if l < ol then 1 else 0)) (l - ol) mod 2 ^ 64 = time_passed ol oh l h" .
  have "0 \<le> time64 a b \<and> time64 a b < 2 ^ 64" for a b
    using uint_lt2p [of a] uint_lt2p [of b] by (simp add: time64_def)
  then show ?thesis
    using eq by simp
qed


lemma tick_quotient:
  "(if hi = 0 then (lo div TICK_NS, lo mod TICK_NS) else tick_low 32 lo (tick_high 32 hi 0) 0)
     = (word_of_int (time64 hi lo div 10000000), word_of_int (time64 hi lo mod 10000000))"
proof (cases "hi = 0")
  case True
  have "uint (lo div TICK_NS) = uint lo div 10000000" "uint (lo mod TICK_NS) = uint lo mod 10000000"
    by (simp_all add: uint_div_distrib uint_mod_distrib TICK_NS_def)
  then have "lo div TICK_NS = word_of_int (uint lo div 10000000)" "lo mod TICK_NS = word_of_int (uint lo mod 10000000)"
    using word_of_int_uint [of "lo div TICK_NS"] word_of_int_uint [of "lo mod TICK_NS"] by simp_all
  with True show ?thesis
    by (simp add: time64_def)
next
  case False
  have "uint (tick_high 32 hi 0) = uint hi mod 10000000"
    by (rule tick_high_mod) (use uint_lt2p [of hi] in simp)
  moreover have "time64 hi lo div 2 ^ 32 = uint hi"
    using uint_lt2p [of lo] by (simp add: time64_def div_pos_pos_trivial)
  moreover have "uint hi mod 10000000 = (time64 hi lo div 2 ^ 32) mod 10000000"
    using calculation(2) by simp
  moreover have zero: "4294967296 * x = 0" for x :: u32
  proof -
    have "(4294967296 :: u32) = 0" by simp
    then show ?thesis by (metis mult_zero_left)
  qed
  ultimately have "tick_low 32 lo (tick_high 32 hi 0) 0
      = (word_of_int (time64 hi lo div 10000000), word_of_int (time64 hi lo mod 10000000))"
    using uint_lt2p [of hi] zero by (intro tick_low_div [of "uint hi"]) (simp_all add: time64_def)
  with False show ?thesis by simp
qed

text \<open>
  C32: \<^verbatim>\<open>sp_tick_elapsed\<close> divides the time passed, a 64-bit difference that may have wrapped
  around, plus the remainder kept from before, by ten million: it returns the quotient (cut to
  32 bits) and keeps the exact remainder, so no fraction of a tick is lost.
\<close>

theorem sp_tick_elapsed_exact:
  assumes "uint saved < 10000000"
  shows "sp_tick_elapsed ol oh l h saved =
    (word_of_int ((time_passed ol oh l h + uint saved) div 10000000),
     word_of_int ((time_passed ol oh l h + uint saved) mod 10000000))"
proof -
  let ?hi = "h - oh - (if l < ol then 1 else 0)" and ?lo = "l - ol"
  define q r where "q = time_passed ol oh l h div 10000000" and "r = time_passed ol oh l h mod 10000000"
  have T: "time64 ?hi ?lo = 10000000 * q + r"
    by (simp add: q_def r_def time_passed_words)
  have r: "0 \<le> r" "r < 10000000"
    by (simp_all add: r_def)
  have tq: "time64 ?hi ?lo div 10000000 = q" "time64 ?hi ?lo mod 10000000 = r"
    by (simp_all add: q_def r_def time_passed_words)
  have sum: "uint (word_of_int r + saved) = r + uint saved"
    using r assms uint_of_int32 [of r] by (simp add: uint_plus_if')
  have total: "time_passed ol oh l h + uint saved = 10000000 * q + (r + uint saved)"
    using T by (simp add: time_passed_words)
  show ?thesis
  proof (cases "word_of_int r + saved \<ge> TICK_NS")
    case True
    then have ge: "10000000 \<le> r + uint saved"
      using sum by (simp add: uint_ge_tick)
    have w: "word_of_int r + saved - TICK_NS = word_of_int (r + uint saved - 10000000)"
      using word_of_int_uint [of "word_of_int r + saved - TICK_NS"] uint_minus_tick [OF True] sum by simp
    have eqn: "time_passed ol oh l h + uint saved = 10000000 * (q + 1) + (r + uint saved - 10000000)"
      using total by simp
    moreover have "(time_passed ol oh l h + uint saved) div 10000000 = q + 1"
      by (rule int_div_pos_eq [OF eqn]) (use ge r assms in auto)
    moreover have "(time_passed ol oh l h + uint saved) mod 10000000 = r + uint saved - 10000000"
      by (rule int_mod_pos_eq [OF eqn]) (use ge r assms in auto)
    ultimately show ?thesis
      using True w by (simp add: sp_tick_elapsed_def Let_def tick_quotient tq)
  next
    case False
    then have lt: "r + uint saved < 10000000"
      using sum by (simp add: uint_ge_tick)
    have "word_of_int r + saved = word_of_int (r + uint saved)"
      using word_of_int_uint [of "word_of_int r + saved"] sum by simp
    moreover have "(time_passed ol oh l h + uint saved) div 10000000 = q"
      "(time_passed ol oh l h + uint saved) mod 10000000 = r + uint saved"
      using total lt r uint_ge_0 [of saved]
      by (auto intro!: int_div_pos_eq [where r = "r + uint saved"] int_mod_pos_eq [where q = q])
    ultimately show ?thesis
      using False by (simp add: sp_tick_elapsed_def Let_def tick_quotient tq)
  qed
qed

text \<open>One hour after 2^32 nanoseconds less five: 360000 ticks, five nanoseconds carried over.\<close>

theorem sp_tick_elapsed_exact_witness:
  "sp_tick_elapsed 0xFFFFFFFB 0 817405947 839 5 = (360000, 5)"
proof -
  have t: "time_passed 0xFFFFFFFB 0 817405947 839 = 3600000000000"
    by (simp add: time_passed_def time64_def)
  show ?thesis
    using sp_tick_elapsed_exact [of 5 "0xFFFFFFFB" 0 817405947 839] t by simp
qed

end
