(* ===== verification/Process.thy ===== *)
theory Process
  imports Runtime
begin

text \<open>
  The process layer of the kernel port, \<^verbatim>\<open>kernel/symplus/process.c\<close>: eight user slots that share
  one window of memory, with the images of the others in snapshots; the terminal's input
  ring; fork, exit, wait and the dispatcher of system calls.

  The static variables of the file are the record \<open>kern\<close>, with the whole memory as a function
  of the address. \<^verbatim>\<open>task[i]\<close> is \<^verbatim>\<open>&process[i]\<close> for every occupied slot and \<^verbatim>\<open>current\<close> is the active
  slot's, so both are indices here. The keyboard and clock readings of one poll are a \<open>poll\<close>,
  and the dispatcher's wait for input consumes a list of them. The file system below the
  calls of \<^verbatim>\<open>perform\<close> is the argument \<open>fs\<close>, a record of functions on a state of any type \<open>'v\<close>. Only
  the text that \<^verbatim>\<open>printk\<close> writes for call 100 is left out.
\<close>

section \<open>State\<close>

record proc =
  p_state :: int
  p_exit_code :: u32
  p_end_data :: u32
  p_brk :: u32
  p_start_stack :: u32
  p_pid :: int
  p_father :: int
  p_leader :: int
  p_signal :: u32
  p_alarm :: int
  p_pwd :: "nat option"
  p_root :: "nat option"
  p_executable :: "nat option"
  p_close_on_exec :: u32
  p_filp :: "nat \<Rightarrow> nat option"

record sp_context =
  c_regs :: "nat \<Rightarrow> u32"
  c_pc :: u32

type_synonym memory = "u32 \<Rightarrow> u8"

record 'v kern =
  process :: "nat \<Rightarrow> proc"
  contexts :: "nat \<Rightarrow> sp_context"
  occupied :: "nat \<Rightarrow> bool"
  pending :: "nat \<Rightarrow> u32"
  arg1 :: "nat \<Rightarrow> u32"
  arg2 :: "nat \<Rightarrow> u32"
  arg3 :: "nat \<Rightarrow> u32"
  active :: nat
  next_pid :: int
  tty_input :: "nat \<Rightarrow> u8"
  tty_head :: u32
  tty_tail :: u32
  shift_keys :: u32
  control_keys :: u32
  foreground_pid :: int
  foreground_owner :: int
  interrupted :: "nat \<Rightarrow> bool"
  deferred :: "nat \<Rightarrow> bool"
  cancel_read :: "nat \<Rightarrow> bool"
  last_low :: u32
  last_high :: u32
  tick_remainder :: u32
  clock_ready :: bool
  jiffies :: u32
  memory :: memory
  tty_output :: "u8 list"
  vfs :: 'v

text \<open>The file system: the calls below \<^verbatim>\<open>perform\<close>, by number, and the reference counts.\<close>

record 'v file_system =
  fs_sys :: "u32 \<Rightarrow> u32 \<Rightarrow> u32 \<Rightarrow> u32 \<Rightarrow> proc \<Rightarrow> memory \<Rightarrow> 'v \<Rightarrow> int \<times> proc \<times> memory \<times> 'v"
  fs_is_chr :: "nat \<Rightarrow> 'v \<Rightarrow> bool"
  fs_dup :: "nat \<Rightarrow> 'v \<Rightarrow> 'v"
  fs_iget :: "nat \<Rightarrow> 'v \<Rightarrow> 'v"
  fs_iput :: "nat option \<Rightarrow> 'v \<Rightarrow> 'v"
  fs_exec :: "u32 \<Rightarrow> u32 \<Rightarrow> u32 \<Rightarrow> sp_context \<Rightarrow> proc \<Rightarrow> memory \<Rightarrow> 'v
                \<Rightarrow> int \<times> sp_context \<times> proc \<times> memory \<times> 'v"

record poll =
  key_event :: u32
  time_low :: u32
  time_hi :: u32

definition TASK_RUNNING :: int where "TASK_RUNNING = 0"
definition TASK_INTERRUPTIBLE :: int where "TASK_INTERRUPTIBLE = 1"
definition TASK_ZOMBIE :: int where "TASK_ZOMBIE = 3"
definition NR_OPEN :: nat where "NR_OPEN = 20"
definition EINTR :: int where "EINTR = 4"
definition EBADF :: int where "EBADF = 9"
definition ECHILD :: int where "ECHILD = 10"
definition EAGAIN :: int where "EAGAIN = 11"
definition EFAULT :: int where "EFAULT = 14"
definition EINVAL :: int where "EINVAL = 22"
definition ENOSYS :: int where "ENOSYS = 38"
definition STAT_SIZE :: u32 where "STAT_SIZE = 32"

definition SP_USER_BASE :: u32 where "SP_USER_BASE = 0x200000"
definition SP_USER_SIZE :: u32 where "SP_USER_SIZE = 0x200000"
definition SP_SNAPSHOT_BASE :: u32 where "SP_SNAPSHOT_BASE = 0x1000000"
definition EXEC_OK :: int where "EXEC_OK = 0x70000000"

definition slots :: "nat list" where "slots = [1, 2, 3, 4, 5, 6, 7, 8]"

abbreviation current :: "'v kern \<Rightarrow> proc" where
  "current k \<equiv> process k (active k)"

definition set_proc :: "nat \<Rightarrow> proc \<Rightarrow> 'v kern \<Rightarrow> 'v kern" where
  "set_proc i p k = k\<lparr>process := (process k)(i := p)\<rparr>"


section \<open>User memory\<close>

definition sp_user_range :: "u32 \<Rightarrow> u32 \<Rightarrow> bool" where
  "sp_user_range addr len \<longleftrightarrow>
     addr \<ge> SP_USER_BASE \<and> addr \<le> SP_USER_BASE + SP_USER_SIZE \<and>
     len \<le> SP_USER_BASE + SP_USER_SIZE - addr"

fun user_string_from :: "nat \<Rightarrow> memory \<Rightarrow> u32 \<Rightarrow> bool" where
  "user_string_from 0 m s = False"
| "user_string_from (Suc n) m s =
     (if \<not> sp_user_range s 1 then False
      else if m s = 0 then True
      else user_string_from n m (s + 1))"

definition user_string :: "memory \<Rightarrow> u32 \<Rightarrow> bool" where
  "user_string m s = user_string_from 4096 m s"

definition sp_copy :: "u32 \<Rightarrow> u32 \<Rightarrow> u32 \<Rightarrow> memory \<Rightarrow> memory" where
  "sp_copy dst src count m = (\<lambda>a. if a - dst < count then m (src + (a - dst)) else m a)"

definition put32 :: "u32 \<Rightarrow> u32 \<Rightarrow> memory \<Rightarrow> memory" where
  "put32 p v m = m(p := ucast (drop_bit 24 v), p + 1 := ucast (drop_bit 16 v),
     p + 2 := ucast (drop_bit 8 v), p + 3 := ucast v)"

definition snapshot :: "nat \<Rightarrow> u32" where
  "snapshot slot = SP_SNAPSHOT_BASE + (of_nat slot - 1) * SP_USER_SIZE"

definition activate :: "nat \<Rightarrow> 'v kern \<Rightarrow> 'v kern" where
  "activate slot k =
     (if slot = active k then k
      else
        let m1 = (if active k > 0 \<and> occupied k (active k) \<and> p_state (current k) \<noteq> TASK_ZOMBIE
                  then sp_copy (snapshot (active k)) SP_USER_BASE SP_USER_SIZE (memory k)
                  else memory k);
            m2 = sp_copy SP_USER_BASE (snapshot slot) SP_USER_SIZE m1
        in k\<lparr>memory := m2, active := slot\<rparr>)"


section \<open>The terminal\<close>

definition slot_of_pid :: "int \<Rightarrow> 'v kern \<Rightarrow> nat option" where
  "slot_of_pid pid k = find (\<lambda>i. occupied k i \<and> p_pid (process k i) = pid) slots"

fun descend :: "nat \<Rightarrow> int \<Rightarrow> int \<Rightarrow> 'v kern \<Rightarrow> bool" where
  "descend 0 pid root k = False"
| "descend (Suc n) pid root k =
     (if pid > 1 then
        (if pid = root then True
         else
           (case slot_of_pid pid k of
              None \<Rightarrow> False
            | Some i \<Rightarrow> descend n (p_father (process k i)) root k))
      else False)"

definition descendant :: "nat \<Rightarrow> int \<Rightarrow> 'v kern \<Rightarrow> bool" where
  "descendant slot root k = descend 9 (p_pid (process k slot)) root k"

definition tty_write :: "u8 list \<Rightarrow> 'v kern \<Rightarrow> 'v kern" where
  "tty_write bs k = k\<lparr>tty_output := tty_output k @ bs\<rparr>"

definition interrupt_slot :: "nat \<Rightarrow> 'v kern \<Rightarrow> 'v kern" where
  "interrupt_slot i k =
     (if occupied k i then
        (if foreground_pid k \<noteq> 0 \<and> descendant i (foreground_pid k) k
         then k\<lparr>interrupted := (interrupted k)(i := True)\<rparr>
         else if foreground_pid k = 0 \<and> p_pid (process k i) = foreground_owner k
         then k\<lparr>cancel_read := (cancel_read k)(i := True)\<rparr>
         else k)
      else k)"

definition terminal_interrupt :: "'v kern \<Rightarrow> 'v kern" where
  "terminal_interrupt k =
     fold interrupt_slot slots (tty_write [94, 67, 10] (k\<lparr>tty_tail := tty_head k\<rparr>))"

text \<open>The keys that Shift changes, as the codes of the two strings of \<^verbatim>\<open>poll_io\<close>.\<close>

definition plain_keys :: "u32 list" where
  "plain_keys = [96, 49, 50, 51, 52, 53, 54, 55, 56, 57, 48, 45, 61, 91, 93, 92, 59, 39, 44, 46, 47]"

definition shifted_keys :: "u32 list" where
  "shifted_keys = [126, 33, 64, 35, 36, 37, 94, 38, 42, 40, 41, 95, 43, 123, 125, 124, 58, 34, 60, 62, 63]"

definition key_char :: "u32 \<Rightarrow> bool \<Rightarrow> u8" where
  "key_char key shifted =
     (if key = 13 then 8
      else if 65 \<le> key \<and> key \<le> 90 then ucast (if shifted then key else key + 32)
      else if 97 \<le> key \<and> key \<le> 122 then ucast (if shifted then key - 32 else key)
      else if shifted then
        (case map_of (zip plain_keys shifted_keys) key of Some c \<Rightarrow> ucast c | None \<Rightarrow> ucast key)
      else ucast key)"

text \<open>The ring index of a position: \<^verbatim>\<open>& 1023\<close>.\<close>

definition ring :: "u32 \<Rightarrow> nat" where "ring i = unat (i AND 1023)"

definition type_char :: "u8 \<Rightarrow> 'v kern \<Rightarrow> 'v kern" where
  "type_char c k =
     (if c = 8 \<or> c = 127 then
        (if tty_head k > tty_tail k \<and> tty_input k (ring (tty_head k - 1)) \<noteq> 10
         then tty_write [8, 32, 8] (k\<lparr>tty_head := tty_head k - 1\<rparr>)
         else k)
      else if c = 10 \<or> (32 \<le> c \<and> c < 127) then
        (if tty_head k - tty_tail k < 1022 \<or> (c = 10 \<and> tty_head k - tty_tail k < 1023)
         then tty_write [c] (k\<lparr>tty_input := (tty_input k)(ring (tty_head k) := c), tty_head := tty_head k + 1\<rparr>)
         else k)
      else k)"

definition poll_key :: "u32 \<Rightarrow> 'v kern \<Rightarrow> 'v kern" where
  "poll_key event k =
     (let key = event AND 255; down = (event AND 256 \<noteq> 0) in
      if key = 17 \<or> key = 21 then
        (let i = (if key = 17 then 1 else 2) in
         k\<lparr>control_keys := (if down then control_keys k OR i else control_keys k AND NOT i)\<rparr>)
      else if key = 16 \<or> key = 20 then
        (let i = (if key = 16 then 1 else 2) in
         k\<lparr>shift_keys := (if down then shift_keys k OR i else shift_keys k AND NOT i)\<rparr>)
      else if down \<and> (key = 3 \<or> (control_keys k \<noteq> 0 \<and> (key = 67 \<or> key = 99)))
      then terminal_interrupt k
      else if down \<and> control_keys k = 0 then type_char (key_char key (shift_keys k \<noteq> 0)) k
      else k)"

definition poll_clock :: "u32 \<Rightarrow> u32 \<Rightarrow> 'v kern \<Rightarrow> 'v kern" where
  "poll_clock low high k =
     (let k1 = (if clock_ready k then k
                else k\<lparr>last_low := low, last_high := high, clock_ready := True\<rparr>);
          (ticks, rem) = sp_tick_elapsed (last_low k1) (last_high k1) low high (tick_remainder k1)
      in k1\<lparr>jiffies := jiffies k1 + ticks, tick_remainder := rem, last_low := low, last_high := high\<rparr>)"

definition poll_io :: "poll \<Rightarrow> 'v kern \<Rightarrow> 'v kern" where
  "poll_io p k = poll_clock (time_low p) (time_hi p) (poll_key (key_event p) k)"

text \<open>\<^verbatim>\<open>line_ready\<close> over the \<open>n\<close> positions from \<open>i\<close>; the caller gives all that are filled.\<close>

fun line_from :: "nat \<Rightarrow> u32 \<Rightarrow> 'v kern \<Rightarrow> bool" where
  "line_from 0 i k = False"
| "line_from (Suc n) i k =
     (if i < tty_head k then (if tty_input k (ring i) = 10 then True else line_from n (i + 1) k)
      else False)"

definition line_ready :: "'v kern \<Rightarrow> bool" where
  "line_ready k = line_from (unat (tty_head k - tty_tail k)) (tty_tail k) k"

text \<open>The copying loop of \<^verbatim>\<open>tty_read_user\<close>; \<open>left\<close> is \<^verbatim>\<open>count - n\<close>.\<close>

fun tty_take :: "nat \<Rightarrow> u32 \<Rightarrow> u32 \<Rightarrow> 'v kern \<Rightarrow> u32 \<times> 'v kern" where
  "tty_take 0 buf n k = (n, k)"
| "tty_take (Suc left) buf n k =
     (if tty_tail k < tty_head k then
        (let c = tty_input k (ring (tty_tail k));
             k' = k\<lparr>tty_tail := tty_tail k + 1, memory := (memory k)(buf + n := c)\<rparr>
         in if c = 10 then (n + 1, k') else tty_take left buf (n + 1) k')
      else (n, k))"

definition tty_read_user :: "u32 \<Rightarrow> u32 \<Rightarrow> 'v kern \<Rightarrow> int \<times> 'v kern" where
  "tty_read_user buf count k =
     (if cancel_read k (active k) then
        (- EINTR, k\<lparr>cancel_read := (cancel_read k)(active k := False)\<rparr>)
      else if count = 0 then (0, k)
      else if \<not> line_ready k then (- EAGAIN, k)
      else (let (n, k') = tty_take (unat count) buf 0 k in (sint n, k')))"



section \<open>Fork, exit, wait\<close>

definition free_slot :: "'v kern \<Rightarrow> nat option" where
  "free_slot k = find (\<lambda>i. \<not> occupied k i) slots"

definition files_of :: "proc \<Rightarrow> nat list" where
  "files_of p = List.map_filter (p_filp p) [0 ..< NR_OPEN]"

definition fork_current :: "'v file_system \<Rightarrow> sp_context \<Rightarrow> 'v kern \<Rightarrow> int \<times> 'v kern" where
  "fork_current fs ctx k =
     (if deferred k (active k) \<and> interrupted k (active k) then (- EINTR, k)
      else
        (case free_slot k of
           None \<Rightarrow> (- EAGAIN, k)
         | Some slot \<Rightarrow>
             let pid = next_pid k + 1;
                 p = (current k)\<lparr>p_pid := pid, p_father := p_pid (current k), p_state := TASK_RUNNING,
                       p_signal := 0, p_alarm := 0, p_exit_code := 0, p_leader := 0\<rparr>;
                 v1 = fold (fs_dup fs) (files_of p) (vfs k);
                 v2 = fold (fs_iget fs) (List.map_filter id [p_pwd p, p_root p, p_executable p]) v1
             in (pid,
                 k\<lparr>process := (process k)(slot := p), next_pid := pid,
                   contexts := (contexts k)(slot := ctx\<lparr>c_regs := (c_regs ctx)(1 := 0)\<rparr>),
                   memory := sp_copy (snapshot slot) SP_USER_BASE SP_USER_SIZE (memory k), vfs := v2,
                   occupied := (occupied k)(slot := True), pending := (pending k)(slot := 0),
                   interrupted := (interrupted k)(slot := False),
                   deferred := (deferred k)(slot := False),
                   cancel_read := (cancel_read k)(slot := False)\<rparr>)))"

text \<open>A call of the file system by the active process.\<close>

definition call_fs :: "'v file_system \<Rightarrow> u32 \<Rightarrow> u32 \<Rightarrow> u32 \<Rightarrow> u32 \<Rightarrow> 'v kern \<Rightarrow> int \<times> 'v kern" where
  "call_fs fs nr a b c k =
     (let (r, p, m, v) = fs_sys fs nr a b c (current k) (memory k) (vfs k)
      in (r, (set_proc (active k) p k)\<lparr>memory := m, vfs := v\<rparr>))"

definition close_file :: "'v file_system \<Rightarrow> nat \<Rightarrow> 'v kern \<Rightarrow> 'v kern" where
  "close_file fs i k =
     (if p_filp (current k) i \<noteq> None then snd (call_fs fs 6 (of_nat i) 0 0 k) else k)"

definition reparent :: "'v kern \<Rightarrow> 'v kern" where
  "reparent k =
     k\<lparr>process := (\<lambda>i. if i \<in> set slots \<and> occupied k i \<and> p_father (process k i) = p_pid (current k)
                        then (process k i)\<lparr>p_father := 1\<rparr> else process k i)\<rparr>"

definition exit_current :: "'v file_system \<Rightarrow> u32 \<Rightarrow> 'v kern \<Rightarrow> 'v kern" where
  "exit_current fs code k =
     (let k1 = fold (close_file fs) [0 ..< NR_OPEN] k;
          p = current k1;
          v = fs_iput fs (p_executable p) (fs_iput fs (p_root p) (fs_iput fs (p_pwd p) (vfs k1)));
          p' = p\<lparr>p_pwd := None, p_root := None, p_executable := None,
                 p_exit_code := push_bit 8 (code AND 255), p_state := TASK_ZOMBIE\<rparr>
      in reparent ((set_proc (active k1) p' k1)\<lparr>vfs := v\<rparr>))"

text \<open>A child of the active process that a wait for \<open>pid\<close> may take; zombies are taken first.\<close>

definition wanted :: "int \<Rightarrow> 'v kern \<Rightarrow> nat \<Rightarrow> bool" where
  "wanted pid k i \<longleftrightarrow>
     occupied k i \<and> i \<noteq> active k \<and> p_father (process k i) = p_pid (current k) \<and>
     (pid = -1 \<or> pid = p_pid (process k i))"

definition wait_current :: "int \<Rightarrow> u32 \<Rightarrow> u32 \<Rightarrow> 'v kern \<Rightarrow> int \<times> 'v kern" where
  "wait_current pid status options k =
     (if pid \<noteq> -1 \<and> pid \<le> 0 then (- EINVAL, k)
      else if options AND NOT 1 \<noteq> 0 then (- EINVAL, k)
      else
        (case find (\<lambda>i. wanted pid k i \<and> p_state (process k i) = TASK_ZOMBIE) slots of
           Some i \<Rightarrow>
             (p_pid (process k i),
              k\<lparr>memory := (if status \<noteq> 0 then put32 status (p_exit_code (process k i)) (memory k) else memory k),
                occupied := (occupied k)(i := False), pending := (pending k)(i := 0)\<rparr>)
         | None \<Rightarrow>
             (if list_ex (wanted pid k) slots
              then (if options AND 1 \<noteq> 0 then 0 else - EAGAIN)
              else - ECHILD, k)))"

definition wait_ready :: "nat \<Rightarrow> 'v kern \<Rightarrow> bool" where
  "wait_ready slot k =
     (let pid = sint (arg1 k slot);
          child = (\<lambda>i. occupied k i \<and> p_father (process k i) = p_pid (process k slot) \<and>
                        (pid = -1 \<or> pid = p_pid (process k i)))
      in list_ex (\<lambda>i. child i \<and> p_state (process k i) = TASK_ZOMBIE) slots \<or> \<not> list_ex child slots)"


section \<open>System calls\<close>

text \<open>The processes that cancel when a foreground process is named after Ctrl+C arrived.\<close>

definition mark_descendants :: "int \<Rightarrow> 'v kern \<Rightarrow> 'v kern" where
  "mark_descendants pid k =
     k\<lparr>interrupted := (\<lambda>i. if i \<in> set slots \<and> occupied k i \<and> descendant i pid k then True
                            else interrupted k i)\<rparr>"

definition set_foreground :: "u32 \<Rightarrow> 'v kern \<Rightarrow> int \<times> 'v kern" where
  "set_foreground a k =
     (if a \<noteq> 0 \<and> \<not> list_ex (\<lambda>i. occupied k i \<and> p_pid (process k i) = uint a \<and>
            p_father (process k i) = p_pid (current k)) slots
      then (- ECHILD, k)
      else
        let k1 = k\<lparr>foreground_owner := p_pid (current k), foreground_pid := sint a\<rparr> in
        if a \<noteq> 0 \<and> cancel_read k1 (active k1) then
          (0, mark_descendants (sint a) (k1\<lparr>cancel_read := (cancel_read k1)(active k1 := False)\<rparr>))
        else (0, k1))"

definition sys_brk :: "u32 \<Rightarrow> 'v kern \<Rightarrow> int \<times> 'v kern" where
  "sys_brk a k =
     (let p = current k;
          p' = (if a \<ge> p_end_data p \<and> a \<le> p_start_stack p then p\<lparr>p_brk := a\<rparr> else p)
      in (sint (p_brk p'), set_proc (active k) p' k))"

definition path_call :: "'v file_system \<Rightarrow> u32 \<Rightarrow> u32 \<Rightarrow> u32 \<Rightarrow> u32 \<Rightarrow> 'v kern \<Rightarrow> int \<times> 'v kern" where
  "path_call fs nr a b c k =
     (if \<not> user_string (memory k) a then (- EFAULT, k) else call_fs fs nr a b c k)"

definition perform_read :: "'v file_system \<Rightarrow> u32 \<Rightarrow> u32 \<Rightarrow> u32 \<Rightarrow> 'v kern \<Rightarrow> int \<times> 'v kern" where
  "perform_read fs a b c k =
     (if \<not> sp_user_range b c then (- EFAULT, k)
      else if a \<ge> of_nat NR_OPEN then (- EBADF, k)
      else
        (case p_filp (current k) (unat a) of
           None \<Rightarrow> (- EBADF, k)
         | Some f \<Rightarrow>
             (if fs_is_chr fs f (vfs k) then tty_read_user b c k else call_fs fs 3 a b c k)))"

definition perform_exec :: "'v file_system \<Rightarrow> u32 \<Rightarrow> u32 \<Rightarrow> u32 \<Rightarrow> 'v kern \<Rightarrow> int \<times> 'v kern" where
  "perform_exec fs a b c k =
     (if \<not> user_string (memory k) a then (- EFAULT, k)
      else
        let (r, ctx, p, m, v) = fs_exec fs a b c (contexts k (active k)) (current k) (memory k) (vfs k)
        in (r, (set_proc (active k) p k)\<lparr>contexts := (contexts k)(active k := ctx), memory := m, vfs := v\<rparr>))"

text \<open>\<^verbatim>\<open>perform\<close> for the active process; its context is the one that \<^verbatim>\<open>fork\<close> and \<^verbatim>\<open>exec\<close> are given.\<close>

definition perform :: "'v file_system \<Rightarrow> u32 \<Rightarrow> u32 \<Rightarrow> u32 \<Rightarrow> u32 \<Rightarrow> 'v kern \<Rightarrow> int \<times> 'v kern" where
  "perform fs nr a b c k =
     (if nr = 1 then (0, exit_current fs a k)
      else if nr = 2 then fork_current fs (contexts k (active k)) k
      else if nr = 3 then perform_read fs a b c k
      else if nr = 4 then (if \<not> sp_user_range b c then (- EFAULT, k) else call_fs fs 4 a b c k)
      else if nr = 5 then path_call fs 5 a b c k
      else if nr = 6 then call_fs fs 6 a 0 0 k
      else if nr = 10 then path_call fs 10 a 0 0 k
      else if nr = 7 then
        (if b \<noteq> 0 \<and> \<not> sp_user_range b 4 then (- EFAULT, k) else wait_current (sint a) b c k)
      else if nr = 11 then perform_exec fs a b c k
      else if nr = 12 then path_call fs 12 a 0 0 k
      else if nr = 15 then path_call fs 15 a b 0 k
      else if nr = 18 then
        (if \<not> user_string (memory k) a \<or> \<not> sp_user_range b STAT_SIZE then (- EFAULT, k)
         else call_fs fs 18 a b 0 k)
      else if nr = 19 then call_fs fs 19 a b c k
      else if nr = 20 then (p_pid (current k), k)
      else if nr = 28 then
        (if \<not> sp_user_range b STAT_SIZE then (- EFAULT, k) else call_fs fs 28 a b 0 k)
      else if nr = 36 then call_fs fs 36 0 0 0 k
      else if nr = 38 then
        (if deferred k (active k) \<and> interrupted k (active k) then (- EINTR, k)
         else if \<not> user_string (memory k) a \<or> \<not> user_string (memory k) b then (- EFAULT, k)
         else call_fs fs 38 a b 0 k)
      else if nr = 39 then path_call fs 39 a b 0 k
      else if nr = 40 then path_call fs 40 a 0 0 k
      else if nr = 41 then call_fs fs 41 a 0 0 k
      else if nr = 45 then sys_brk a k
      else if nr = 63 then call_fs fs 63 a b 0 k
      else if nr = 64 then (p_father (current k), k)
      else if nr = 100 then (0, k)
      else if nr = 101 then (0, k)
      else if nr = 102 then (0, k)
      else if nr = 103 then set_foreground a k
      else if nr = 104 then
        (let k1 = (if a \<noteq> 0 then k\<lparr>deferred := (deferred k)(active k := True)\<rparr> else k)
         in (if interrupted k1 (active k1) then 1 else 0, k1))
      else if nr = 105 then
        (if cancel_read k (active k) then 1 else 0,
         k\<lparr>cancel_read := (cancel_read k)(active k := False)\<rparr>)
      else (- ENOSYS, k))"


section \<open>The dispatcher\<close>

definition set_state :: "int \<Rightarrow> 'v kern \<Rightarrow> 'v kern" where
  "set_state st k = set_proc (active k) ((current k)\<lparr>p_state := st\<rparr>) k"

definition set_result :: "int \<Rightarrow> 'v kern \<Rightarrow> 'v kern" where
  "set_result r k =
     k\<lparr>contexts := (contexts k)(active k := (contexts k (active k))
         \<lparr>c_regs := (c_regs (contexts k (active k)))(1 := of_int r)\<rparr>)\<rparr>"

text \<open>The end of a process that was interrupted: exit status 2.\<close>

definition kill_current :: "'v file_system \<Rightarrow> 'v kern \<Rightarrow> 'v kern" where
  "kill_current fs k =
     (let k1 = exit_current fs 0 k
      in set_proc (active k1) ((current k1)\<lparr>p_exit_code := 2\<rparr>) k1)"

definition kill_slot :: "'v file_system \<Rightarrow> nat \<Rightarrow> 'v kern \<Rightarrow> 'v kern" where
  "kill_slot fs slot k =
     (if occupied k slot \<and> interrupted k slot \<and> \<not> deferred k slot \<and> p_state (process k slot) \<noteq> TASK_ZOMBIE
      then
        let k1 = activate slot k
        in kill_current fs (k1\<lparr>pending := (pending k1)(slot := 0)\<rparr>)
      else k)"

definition retry_slot :: "'v file_system \<Rightarrow> nat \<Rightarrow> 'v kern \<Rightarrow> 'v kern" where
  "retry_slot fs slot k =
     (if occupied k slot \<and> pending k slot \<noteq> 0 then
        (if pending k slot = 3 \<and> \<not> line_ready k \<and> \<not> cancel_read k slot then k
         else if pending k slot = 7 \<and> \<not> wait_ready slot k then k
         else
           let k1 = activate slot k;
               (r, k2) = perform fs (pending k1 slot) (arg1 k1 slot) (arg2 k1 slot) (arg3 k1 slot) k1
           in if r \<noteq> - EAGAIN
              then set_state TASK_RUNNING ((set_result r k2)\<lparr>pending := (pending k2)(slot := 0)\<rparr>)
              else k2)
      else k)"

definition runnable :: "'v kern \<Rightarrow> nat \<Rightarrow> bool" where
  "runnable k i \<longleftrightarrow> occupied k i \<and> p_state (process k i) = TASK_RUNNING"

definition pick_slot :: "u32 \<Rightarrow> 'v kern \<Rightarrow> nat option" where
  "pick_slot nr k =
     (if nr \<noteq> 101 \<and> runnable k (active k) then Some (active k)
      else find (runnable k) (map (\<lambda>slot. (active k + slot - 1) mod 8 + 1) slots))"

definition dispatch_pass :: "'v file_system \<Rightarrow> 'v kern \<Rightarrow> 'v kern" where
  "dispatch_pass fs k = fold (retry_slot fs) slots (fold (kill_slot fs) slots k)"

text \<open>
  The endless loop of \<^verbatim>\<open>sp_dispatch\<close>, on the readings that the later polls deliver: \<open>None\<close> when
  they are used up and no process can run yet.
\<close>

fun dispatch_loop :: "'v file_system \<Rightarrow> u32 \<Rightarrow> poll list \<Rightarrow> 'v kern \<Rightarrow> 'v kern option" where
  "dispatch_loop fs nr polls k =
     (let k1 = dispatch_pass fs k in
      case pick_slot nr k1 of
        Some chosen \<Rightarrow> Some (activate chosen k1)
      | None \<Rightarrow>
          (case polls of
             [] \<Rightarrow> None
           | p # ps \<Rightarrow> dispatch_loop fs nr ps (poll_io p k1)))"

declare dispatch_loop.simps [simp del]

definition block_current :: "u32 \<Rightarrow> u32 \<Rightarrow> u32 \<Rightarrow> u32 \<Rightarrow> 'v kern \<Rightarrow> 'v kern" where
  "block_current nr a b c k =
     set_state TASK_INTERRUPTIBLE
       (k\<lparr>pending := (pending k)(active k := nr), arg1 := (arg1 k)(active k := a),
          arg2 := (arg2 k)(active k := b), arg3 := (arg3 k)(active k := c)\<rparr>)"

text \<open>The context that the gate resumes is that of the active slot in the result.\<close>

definition sp_dispatch :: "'v file_system \<Rightarrow> sp_context \<Rightarrow> poll \<Rightarrow> poll list \<Rightarrow> 'v kern \<Rightarrow> 'v kern option" where
  "sp_dispatch fs saved p polls k =
     (let nr = c_regs saved 1; a = c_regs saved 2; b = c_regs saved 3; c = c_regs saved 4;
          k1 = poll_io p (k\<lparr>contexts := (contexts k)(active k := saved)\<rparr>);
          (r, k2) = (if interrupted k1 (active k1) \<and> \<not> deferred k1 (active k1)
                     then (0, kill_current fs k1) else perform fs nr a b c k1);
          k3 = (if r = - EAGAIN \<and> (nr = 3 \<or> nr = 7) then block_current nr a b c k2
                else if r \<noteq> EXEC_OK then set_result r k2 else k2)
      in dispatch_loop fs nr polls k3)"

text \<open>The process table that \<^verbatim>\<open>sp_boot\<close> sets up, before \<^verbatim>\<open>/bin/init\<close> is loaded into it.\<close>

definition boot_table :: "'v kern \<Rightarrow> 'v kern" where
  "boot_table k =
     k\<lparr>process := (process k)(1 := (process k 1)\<lparr>p_pid := 1, p_father := 0, p_state := TASK_RUNNING\<rparr>),
       occupied := (occupied k)(1 := True), active := 1, next_pid := 1\<rparr>"

end
