(* ===== verification/Process_Memory.thy ===== *)
theory Process_Memory
  imports Process
begin

text \<open>
  The memory of the processes: the check of user addresses, and the images of the eight
  slots, of which the active one is in the user window and the others in their snapshots.
  Switching between slots keeps every image that matters, and a fork gives the child the
  parent's.
\<close>

section \<open>The user window\<close>

lemmas window_defs [kernel_simps] = SP_USER_BASE_def SP_USER_SIZE_def SP_SNAPSHOT_BASE_def

lemma window_numbers:
  "unat SP_USER_BASE = 0x200000" "unat SP_USER_SIZE = 0x200000" "unat (SP_USER_BASE + SP_USER_SIZE) = 0x400000"
  by (simp_all add: window_defs)

text \<open>
  \<^verbatim>\<open>sp_user_range\<close> accepts an address and a length exactly when every byte of the range lies
  in the user window, for all 32-bit values: no sum wraps around.
\<close>

theorem user_range_window:
  "sp_user_range addr len \<longleftrightarrow> 0x200000 \<le> unat addr \<and> unat addr + unat len \<le> 0x400000"
proof -
  have "unat (0x400000 - addr :: u32) = 0x400000 - unat addr" if "addr \<le> 0x400000"
    using that by (simp add: unat_sub word_le_nat_alt)
  then show ?thesis
    by (auto simp: sp_user_range_def window_defs word_le_nat_alt)
qed


section \<open>Images of the slots\<close>

text \<open>Byte \<open>off\<close> of the image of a slot.\<close>

definition image_at :: "'v kern \<Rightarrow> nat \<Rightarrow> u32 \<Rightarrow> u8" where
  "image_at k s off =
     (if s = active k then memory k (SP_USER_BASE + off) else memory k (snapshot s + off))"

definition slot_ok :: "nat \<Rightarrow> bool" where
  "slot_ok s \<longleftrightarrow> 1 \<le> s \<and> s \<le> 8"

lemma slot_ok_slots: "slot_ok s \<longleftrightarrow> s \<in> set slots"
  by (auto simp: slot_ok_def slots_def)

lemma unat_snapshot: "slot_ok s \<Longrightarrow> unat (snapshot s) = 0x1000000 + (s - 1) * 0x200000"
  unfolding slot_ok_slots slots_def by (auto simp: snapshot_def window_defs)

lemma unat_region:
  assumes "off < SP_USER_SIZE"
  shows "unat (SP_USER_BASE + off) = 0x200000 + unat off"
    and "slot_ok s \<Longrightarrow> unat (snapshot s + off) = 0x1000000 + (s - 1) * 0x200000 + unat off"
proof -
  have o: "unat off < 0x200000"
    using assms by (simp add: word_less_nat_alt window_defs)
  then show "unat (SP_USER_BASE + off) = 0x200000 + unat off"
    by (simp add: unat_word_ariths window_defs)
  assume s: "slot_ok s"
  then have "s - 1 \<le> 7"
    unfolding slot_ok_def by arith
  then have "(s - 1) * 0x200000 \<le> 7 * 0x200000"
    by (rule mult_le_mono1)
  then show "unat (snapshot s + off) = 0x1000000 + (s - 1) * 0x200000 + unat off"
    using o by (simp add: unat_word_ariths unat_snapshot [OF s])
qed

text \<open>A copy changes exactly the bytes of its target.\<close>

lemma sp_copy_in:
  "off < count \<Longrightarrow> sp_copy dst src count m (dst + off) = m (src + off)"
  by (simp add: sp_copy_def)

lemma sp_copy_out:
  assumes "unat a < unat dst \<or> unat dst + unat count \<le> unat a" and "unat dst + unat count \<le> 2 ^ 32"
  shows "sp_copy dst src count m a = m a"
proof -
  have "\<not> a - dst < count"
  proof (cases "unat a < unat dst")
    case True
    then have "unat (a - dst) = unat a + 2 ^ 32 - unat dst"
      by (simp add: unat_sub_if')
    then show ?thesis
      using assms(2) by (simp add: word_less_nat_alt)
  next
    case False
    then have "unat (a - dst) = unat a - unat dst"
      by (simp add: unat_sub word_le_nat_alt)
    with False assms show ?thesis
      by (simp add: word_less_nat_alt)
  qed
  then show ?thesis
    by (simp add: sp_copy_def)
qed


lemma copy_to_window:
  assumes "slot_ok s" and "off < SP_USER_SIZE"
  shows "sp_copy SP_USER_BASE src SP_USER_SIZE m (snapshot s + off) = m (snapshot s + off)"
  by (rule sp_copy_out) (use unat_region(2) [OF assms(2,1)] window_numbers in simp_all)

lemma copy_to_snapshot:
  assumes "slot_ok s" and "off < SP_USER_SIZE"
  shows "sp_copy (snapshot s) src SP_USER_SIZE m (SP_USER_BASE + off) = m (SP_USER_BASE + off)"
    and "slot_ok t \<Longrightarrow> t \<noteq> s \<Longrightarrow> sp_copy (snapshot s) src SP_USER_SIZE m (snapshot t + off) = m (snapshot t + off)"
proof -
  have o: "unat off < 0x200000"
    using assms(2) by (simp add: word_less_nat_alt window_defs)
  have s7: "s - 1 \<le> 7" and le: "(s - 1) * 0x200000 \<le> 7 * 0x200000"
    using assms(1) unfolding slot_ok_def by (arith, intro mult_le_mono1, arith)
  have fit: "unat (snapshot s) + unat SP_USER_SIZE \<le> 2 ^ 32"
    using le unat_snapshot [OF assms(1)] window_numbers by simp
  show "sp_copy (snapshot s) src SP_USER_SIZE m (SP_USER_BASE + off) = m (SP_USER_BASE + off)"
    by (rule sp_copy_out [OF _ fit]) (use o unat_region(1) [OF assms(2)] unat_snapshot [OF assms(1)] in simp)
  assume t: "slot_ok t" "t \<noteq> s"
  then have "t - 1 < s - 1 \<or> s - 1 < t - 1"
    using assms(1) unfolding slot_ok_def by arith
  then have "(t - 1) * 0x200000 + 0x200000 \<le> (s - 1) * 0x200000 \<or> (s - 1) * 0x200000 + 0x200000 \<le> (t - 1) * 0x200000"
    by auto
  then show "sp_copy (snapshot s) src SP_USER_SIZE m (snapshot t + off) = m (snapshot t + off)"
    by (intro sp_copy_out [OF _ fit])
      (use o unat_region(2) [OF assms(2) t(1)] unat_snapshot [OF assms(1)] window_numbers in linarith)
qed

text \<open>
  C11: switching the window to another slot keeps the image of every slot: the one that was
  active is saved unless it is free or a zombie, the others stay in their snapshots.
\<close>

theorem activate_keeps_images:
  assumes "slot_ok (active k)" and "slot_ok slot" and "slot_ok s" and "off < SP_USER_SIZE"
    and "s = active k \<Longrightarrow> occupied k s \<and> p_state (process k s) \<noteq> TASK_ZOMBIE"
  shows "image_at (activate slot k) s off = image_at k s off \<and> active (activate slot k) = slot"
proof (cases "slot = active k")
  case True
  then show ?thesis by (simp add: activate_def)
next
  case ne: False
  let ?m1 = "if active k > 0 \<and> occupied k (active k) \<and> p_state (current k) \<noteq> TASK_ZOMBIE
             then sp_copy (snapshot (active k)) SP_USER_BASE SP_USER_SIZE (memory k) else memory k"
  have act: "active (activate slot k) = slot"
    "memory (activate slot k) = sp_copy SP_USER_BASE (snapshot slot) SP_USER_SIZE ?m1"
    using ne by (simp_all add: activate_def Let_def)
  have m1: "?m1 (snapshot t + off) = memory k (snapshot t + off)" if "slot_ok t" "t \<noteq> active k" for t
    using copy_to_snapshot(2) [OF assms(1,4) that] by simp
  have m1a: "?m1 (snapshot s + off) = memory k (SP_USER_BASE + off)" if "s = active k"
    using assms(1,5) that sp_copy_in [OF assms(4)] by (simp add: slot_ok_def)
  show ?thesis
  proof (cases "s = slot")
    case True
    then show ?thesis
      using ne m1 [OF assms(2)] sp_copy_in [OF assms(4), of SP_USER_BASE "snapshot slot" ?m1]
      by (simp add: image_at_def act)
  next
    case False
    then show ?thesis
      using m1 [OF assms(3)] m1a copy_to_window [OF assms(3,4), of "snapshot slot" ?m1]
      by (simp add: image_at_def act)
  qed
qed

text \<open>
  C18: a fork that finds a free slot makes a child that is ready to run there with a fresh
  process number, the parent's number as its father, a copy of the parent's memory image and
  context but for a zero result, and no pending call or signal; the images of the other
  slots, the parent's among them, stay as they are.
\<close>

theorem fork_makes_child:
  assumes "slot_ok (active k)" and "occupied k (active k)" and "free_slot k = Some s"
    and "\<not> (deferred k (active k) \<and> interrupted k (active k))" and "off < SP_USER_SIZE"
  shows "fst (fork_current fs ctx k) = next_pid k + 1 \<and>
    (let k' = snd (fork_current fs ctx k) in
       \<not> occupied k s \<and> runnable k' s \<and> p_pid (process k' s) = next_pid k + 1 \<and>
       p_father (process k' s) = p_pid (current k) \<and> p_filp (process k' s) = p_filp (current k) \<and>
       c_regs (contexts k' s) 1 = 0 \<and> c_pc (contexts k' s) = c_pc ctx \<and>
       (\<forall>r. r \<noteq> 1 \<longrightarrow> c_regs (contexts k' s) r = c_regs ctx r) \<and>
       pending k' s = 0 \<and> \<not> interrupted k' s \<and> active k' = active k \<and>
       image_at k' s off = image_at k (active k) off \<and>
       (\<forall>t. slot_ok t \<longrightarrow> t \<noteq> s \<longrightarrow> image_at k' t off = image_at k t off \<and> process k' t = process k t))"
proof -
  from assms(3) have s: "slot_ok s" "\<not> occupied k s"
    unfolding slot_ok_slots free_slot_def find_Some_iff by auto
  then have ne: "s \<noteq> active k"
    using assms(2) by auto
  let ?k = "snd (fork_current fs ctx k)"
  have mem: "memory ?k = sp_copy (snapshot s) SP_USER_BASE SP_USER_SIZE (memory k)" "active ?k = active k"
    using assms(3,4) by (auto simp: fork_current_def Let_def)
  have "image_at ?k s off = image_at k (active k) off"
    using ne sp_copy_in [OF assms(5)] by (simp add: image_at_def mem)
  moreover have "image_at ?k t off = image_at k t off" if "slot_ok t" "t \<noteq> s" for t
    using copy_to_snapshot [OF s(1) assms(5)] that by (simp add: image_at_def mem)
  ultimately show ?thesis
    using assms(3,4) s
    by (auto simp: fork_current_def Let_def runnable_def TASK_RUNNING_def)
qed


section \<open>A concrete machine\<close>

text \<open>Two processes: 1, which is active, and its child 2; the window holds 7s, the rest 9s.\<close>

definition demo_proc :: "int \<Rightarrow> int \<Rightarrow> proc" where
  "demo_proc pid father =
     \<lparr>p_state = TASK_RUNNING, p_exit_code = 0, p_end_data = 0x210000, p_brk = 0x210000,
      p_start_stack = 0x3F0000, p_pid = pid, p_father = father, p_leader = 0, p_signal = 0,
      p_alarm = 0, p_pwd = None, p_root = None, p_executable = None, p_close_on_exec = 0,
      p_filp = (\<lambda>_. None)\<rparr>"

definition demo_context :: sp_context where
  "demo_context = \<lparr>c_regs = (\<lambda>_. 5), c_pc = 0x200100\<rparr>"

definition demo_kern :: "unit kern" where
  "demo_kern =
     \<lparr>process = (\<lambda>i. if i = 1 then demo_proc 1 0 else demo_proc 2 1),
      contexts = (\<lambda>_. demo_context), occupied = (\<lambda>i. i = 1 \<or> i = 2), pending = (\<lambda>_. 0),
      arg1 = (\<lambda>_. 0), arg2 = (\<lambda>_. 0), arg3 = (\<lambda>_. 0), active = 1, next_pid = 2,
      tty_input = (\<lambda>_. 0), tty_head = 0, tty_tail = 0, shift_keys = 0, control_keys = 0,
      foreground_pid = 0, foreground_owner = 0, interrupted = (\<lambda>_. False),
      deferred = (\<lambda>_. False), cancel_read = (\<lambda>_. False), last_low = 0, last_high = 0,
      tick_remainder = 0, clock_ready = False, jiffies = 0,
      memory = (\<lambda>a. if 0x200000 \<le> a \<and> a < 0x400000 then 7 else 9), tty_output = [], vfs = ()\<rparr>"

text \<open>A file system without files.\<close>

definition no_files :: "unit file_system" where
  "no_files =
     \<lparr>fs_sys = (\<lambda>nr a b c p m v. (- EBADF, p, m, v)), fs_is_chr = (\<lambda>_ _. False),
      fs_dup = (\<lambda>_ v. v), fs_iget = (\<lambda>_ v. v), fs_iput = (\<lambda>_ v. v),
      fs_exec = (\<lambda>a b c ctx p m v. (- EFAULT, ctx, p, m, v))\<rparr>"

theorem activate_keeps_images_witness:
  "image_at (activate 2 demo_kern) 1 16 = 7 \<and> image_at (activate 2 demo_kern) 2 16 = 9"
proof -
  have i: "image_at demo_kern 1 16 = 7" "image_at demo_kern 2 16 = 9"
    by (simp_all add: image_at_def demo_kern_def snapshot_def window_defs)
  have "image_at (activate 2 demo_kern) 1 16 = image_at demo_kern 1 16"
    using activate_keeps_images [of demo_kern 2 1 16]
    by (simp add: slot_ok_def demo_kern_def demo_proc_def window_defs TASK_RUNNING_def TASK_ZOMBIE_def)
  moreover have "image_at (activate 2 demo_kern) 2 16 = image_at demo_kern 2 16"
    using activate_keeps_images [of demo_kern 2 2 16]
    by (simp add: slot_ok_def demo_kern_def demo_proc_def window_defs TASK_RUNNING_def TASK_ZOMBIE_def)
  ultimately show ?thesis
    using i by simp
qed

theorem fork_makes_child_witness:
  "fst (fork_current no_files demo_context demo_kern) = 3 \<and>
   image_at (snd (fork_current no_files demo_context demo_kern)) 3 16 = 7"
proof -
  have f: "free_slot demo_kern = Some 3"
    by (simp add: free_slot_def slots_def demo_kern_def)
  have i: "image_at demo_kern 1 16 = 7"
    by (simp add: image_at_def demo_kern_def window_defs)
  have "slot_ok (active demo_kern)" "occupied demo_kern (active demo_kern)"
    "\<not> (deferred demo_kern (active demo_kern) \<and> interrupted demo_kern (active demo_kern))"
    "(16 :: u32) < SP_USER_SIZE" "active demo_kern = 1" "next_pid demo_kern = 2"
    by (simp_all add: slot_ok_def demo_kern_def window_defs)
  then show ?thesis
    using fork_makes_child [OF _ _ f, of 16 no_files demo_context] i by (simp add: Let_def)
qed

end
