(* ===== verification/Process_Table.thy ===== *)
theory Process_Table
  imports Process_Memory
begin

text \<open>
  The table of processes: process numbers stay distinct and below the last one given out, a
  wait takes one zombie child and nothing else, an exit leaves the children to process 1, and
  the dispatcher always resumes a process that can run, with the table still well formed.
\<close>

section \<open>The invariant\<close>

definition entry_ok :: "int \<Rightarrow> proc \<Rightarrow> bool" where
  "entry_ok n p \<longleftrightarrow>
     1 \<le> p_pid p \<and> p_pid p \<le> n \<and> 0 \<le> p_father p \<and> p_father p \<le> n \<and>
     p_state p \<in> {TASK_RUNNING, TASK_INTERRUPTIBLE, TASK_ZOMBIE}"

definition table_ok :: "'v kern \<Rightarrow> bool" where
  "table_ok k \<longleftrightarrow>
     slot_ok (active k) \<and> occupied k (active k) \<and>
     (\<forall>i. slot_ok i \<longrightarrow> occupied k i \<longrightarrow> entry_ok (next_pid k) (process k i)) \<and>
     (\<forall>i j. slot_ok i \<longrightarrow> slot_ok j \<longrightarrow> occupied k i \<longrightarrow> occupied k j \<longrightarrow>
        p_pid (process k i) = p_pid (process k j) \<longrightarrow> i = j)"

text \<open>What a call of the file system may not change of the process that makes it.\<close>

definition same_identity :: "proc \<Rightarrow> proc \<Rightarrow> bool" where
  "same_identity p p' \<longleftrightarrow> p_pid p' = p_pid p \<and> p_father p' = p_father p \<and> p_state p' = p_state p"

definition fs_ok :: "'v file_system \<Rightarrow> bool" where
  "fs_ok fs \<longleftrightarrow>
     (\<forall>nr a b c p m v. same_identity p (fst (snd (fs_sys fs nr a b c p m v)))) \<and>
     (\<forall>a b c ctx p m v. same_identity p (fst (snd (snd (fs_exec fs a b c ctx p m v)))))"

lemma same_identity_refl [simp]: "same_identity p p"
  by (simp add: same_identity_def)

lemma same_identity_trans: "same_identity p q \<Longrightarrow> same_identity q r \<Longrightarrow> same_identity p r"
  by (simp add: same_identity_def)

text \<open>The part of the state the invariant speaks of is unchanged.\<close>

definition same_table :: "'v kern \<Rightarrow> 'v kern \<Rightarrow> bool" where
  "same_table k k' \<longleftrightarrow>
     active k' = active k \<and> next_pid k' = next_pid k \<and> occupied k' = occupied k \<and>
     (\<forall>i. same_identity (process k i) (process k' i))"

lemma same_table_refl [simp]: "same_table k k"
  by (simp add: same_table_def)

lemma same_table_trans: "same_table k k' \<Longrightarrow> same_table k' k'' \<Longrightarrow> same_table k k''"
  by (auto simp: same_table_def intro: same_identity_trans)

lemma same_table_ok: "same_table k k' \<Longrightarrow> table_ok k' = table_ok k"
  by (simp add: same_table_def table_ok_def entry_ok_def same_identity_def)

lemma same_table_updates [simp]:
  "same_table k (k\<lparr>memory := m\<rparr>)" "same_table k (k\<lparr>vfs := v\<rparr>)" "same_table k (k\<lparr>tty_output := t\<rparr>)"
  "same_table k (k\<lparr>contexts := c\<rparr>)" "same_table k (k\<lparr>pending := p\<rparr>)"
  "same_table k (k\<lparr>cancel_read := b\<rparr>)" "same_table k (k\<lparr>interrupted := b\<rparr>)"
  "same_table k (k\<lparr>deferred := b\<rparr>)"
  by (simp_all add: same_table_def)

lemma same_table_fold: "(\<And>x k. same_table k (f x k)) \<Longrightarrow> same_table k (fold f xs k)"
  by (induction xs arbitrary: k) (auto intro: same_table_trans)

lemma table_ok_set_proc:
  assumes "table_ok k" and "p_pid p = p_pid (process k i)" and "entry_ok (next_pid k) p"
  shows "table_ok (set_proc i p k)"
proof -
  have pid: "p_pid (process (set_proc i p k) j) = p_pid (process k j)" for j
    using assms(2) by (simp add: set_proc_def)
  have "entry_ok (next_pid k) (process (set_proc i p k) j)" if "slot_ok j" "occupied k j" for j
    using assms(1,3) that by (simp add: set_proc_def table_ok_def)
  moreover have "active (set_proc i p k) = active k" "occupied (set_proc i p k) = occupied k"
    "next_pid (set_proc i p k) = next_pid k"
    by (simp_all add: set_proc_def)
  ultimately show ?thesis
    using assms(1) unfolding table_ok_def pid by simp
qed


section \<open>Operations that leave the table alone\<close>

lemma poll_io_table: "same_table k (poll_io p k)"
proof -
  have intr: "same_table k (interrupt_slot i k)" for i and k :: "'a kern"
    by (simp add: interrupt_slot_def same_table_def)
  have "same_table k (terminal_interrupt k)" for k :: "'a kern"
  proof -
    have "same_table k (tty_write [94, 67, 10] (k\<lparr>tty_tail := tty_head k\<rparr>))"
      by (simp add: tty_write_def same_table_def)
    then show ?thesis
      unfolding terminal_interrupt_def by (rule same_table_trans) (rule same_table_fold, rule intr)
  qed
  moreover have "same_table k (type_char c k)" for c and k :: "'a kern"
    by (simp add: type_char_def tty_write_def same_table_def)
  ultimately have "same_table k (poll_key e k)" for e and k :: "'a kern"
    by (auto simp: poll_key_def Let_def same_table_def)
  moreover have "same_table k (poll_clock l h k)" for l h and k :: "'a kern"
    by (simp add: poll_clock_def Let_def same_table_def split: prod.splits)
  ultimately show ?thesis
    unfolding poll_io_def by (blast intro: same_table_trans)
qed

lemma call_fs_table: "fs_ok fs \<Longrightarrow> same_table k (snd (call_fs fs nr a b c k))"
proof -
  assume "fs_ok fs"
  then have "same_identity (current k) (fst (snd (fs_sys fs nr a b c (current k) (memory k) (vfs k))))"
    unfolding fs_ok_def by blast
  then show ?thesis
    by (auto simp: call_fs_def Let_def set_proc_def same_table_def split: prod.splits)
qed

lemma perform_exec_table: "fs_ok fs \<Longrightarrow> same_table k (snd (perform_exec fs a b c k))"
proof -
  assume "fs_ok fs"
  then have "same_identity (current k)
      (fst (snd (snd (fs_exec fs a b c (contexts k (active k)) (current k) (memory k) (vfs k)))))"
    unfolding fs_ok_def by blast
  then show ?thesis
    by (auto simp: perform_exec_def Let_def set_proc_def same_table_def split: prod.splits)
qed

lemma tty_take_table: "same_table k (snd (tty_take left buf n k))"
  by (induction left buf n k rule: tty_take.induct) (auto simp: Let_def same_table_def)

lemma tty_read_table: "same_table k (snd (tty_read_user b c k))"
  using tty_take_table [of k "unat c" b 0]
  by (auto simp: tty_read_user_def Let_def split: prod.splits)

lemma perform_read_table: "fs_ok fs \<Longrightarrow> same_table k (snd (perform_read fs a b c k))"
  using tty_read_table call_fs_table by (auto simp: perform_read_def split: option.splits)

lemma foreground_table: "same_table k (snd (set_foreground a k))"
  by (auto simp: set_foreground_def mark_descendants_def Let_def same_table_def)

lemma brk_table: "same_table k (snd (sys_brk a k))"
  by (auto simp: sys_brk_def Let_def set_proc_def same_table_def same_identity_def)

lemma path_call_table: "fs_ok fs \<Longrightarrow> same_table k (snd (path_call fs nr a b c k))"
  by (simp add: path_call_def call_fs_table)

lemma close_files_table: "fs_ok fs \<Longrightarrow> same_table k (fold (close_file fs) xs k)"
  by (rule same_table_fold) (simp add: close_file_def call_fs_table)


section \<open>Exit\<close>

text \<open>The table after an exit: the active process is a zombie, its children are process 1's.\<close>

lemma exit_current_table:
  assumes "fs_ok fs"
  shows "active (exit_current fs code k) = active k" "occupied (exit_current fs code k) = occupied k"
    "next_pid (exit_current fs code k) = next_pid k"
    "p_pid (process (exit_current fs code k) i) = p_pid (process k i)"
    "p_state (process (exit_current fs code k) i) = (if i = active k then TASK_ZOMBIE else p_state (process k i))"
    "p_father (process (exit_current fs code k) i) =
       (if slot_ok i \<and> occupied k i \<and> p_father (process k i) = p_pid (current k) then 1
        else p_father (process k i))"
proof -
  let ?k1 = "fold (close_file fs) [0 ..< NR_OPEN] k"
  have st: "same_table k ?k1"
    by (rule close_files_table [OF assms])
  then have id: "p_pid (process ?k1 i) = p_pid (process k i)" "p_father (process ?k1 i) = p_father (process k i)"
    "p_state (process ?k1 i) = p_state (process k i)" for i
    by (auto simp: same_table_def same_identity_def)
  show "active (exit_current fs code k) = active k" "occupied (exit_current fs code k) = occupied k"
    "next_pid (exit_current fs code k) = next_pid k"
    "p_pid (process (exit_current fs code k) i) = p_pid (process k i)"
    "p_state (process (exit_current fs code k) i) = (if i = active k then TASK_ZOMBIE else p_state (process k i))"
    "p_father (process (exit_current fs code k) i) =
       (if slot_ok i \<and> occupied k i \<and> p_father (process k i) = p_pid (current k) then 1
        else p_father (process k i))"
    using st id by (auto simp: exit_current_def Let_def reparent_def set_proc_def slot_ok_slots same_table_def)
qed


lemma exit_table_ok:
  assumes "fs_ok fs" and "table_ok k"
  shows "table_ok (exit_current fs code k)"
  using assms(2) unfolding table_ok_def entry_ok_def exit_current_table [OF assms(1)]
  by (auto simp: slot_ok_def)


text \<open>Process 1 of the demonstration leaves with code 3; its child has it as father already.\<close>

lemma no_files_ok: "fs_ok no_files"
  by (simp add: fs_ok_def no_files_def)

lemma demo_table_ok: "table_ok demo_kern"
  by (auto simp: table_ok_def demo_kern_def demo_proc_def entry_ok_def slot_ok_def split: if_splits)



section \<open>Wait\<close>

lemma find_slots: "find P slots = Some i \<Longrightarrow> slot_ok i \<and> P i"
  unfolding slot_ok_slots find_Some_iff by auto

lemma table_ok_free:
  assumes "table_ok k" and "i \<noteq> active k"
  shows "table_ok (k\<lparr>memory := m, occupied := (occupied k)(i := False), pending := p\<rparr>)"
  using assms by (auto simp: table_ok_def)

text \<open>
  C34: a wait that succeeds takes one zombie child of the caller that the argument asks for,
  stores its exit status and frees its slot, and only that slot; it fails with \<open>ECHILD\<close>
  exactly when there is no such child at all.
\<close>

theorem wait_takes_one_zombie:
  assumes "table_ok k" and "wait_current pid status options k = (r, k')"
    and "pid = -1 \<or> 0 < pid" and "options AND NOT 1 = 0"
  shows "(r > 0 \<longrightarrow> (\<exists>i. slot_ok i \<and> wanted pid k i \<and> p_state (process k i) = TASK_ZOMBIE
            \<and> p_pid (process k i) = r \<and> occupied k' = (occupied k)(i := False)
            \<and> (status \<noteq> 0 \<longrightarrow> memory k' = put32 status (p_exit_code (process k i)) (memory k))))
    \<and> (r \<le> 0 \<longrightarrow> k' = k \<and> (\<forall>i. slot_ok i \<longrightarrow> wanted pid k i \<longrightarrow> p_state (process k i) \<noteq> TASK_ZOMBIE))
    \<and> (r = - ECHILD \<longleftrightarrow> \<not> (\<exists>i. slot_ok i \<and> wanted pid k i))
    \<and> table_ok k'"
proof (cases "find (\<lambda>i. wanted pid k i \<and> p_state (process k i) = TASK_ZOMBIE) slots")
  case None
  then have no: "\<not> (\<exists>i. slot_ok i \<and> wanted pid k i \<and> p_state (process k i) = TASK_ZOMBIE)"
    unfolding slot_ok_slots find_None_iff by blast
  have ex: "list_ex (wanted pid k) slots \<longleftrightarrow> (\<exists>i. slot_ok i \<and> wanted pid k i)"
    unfolding slot_ok_slots list_ex_iff by blast
  from None assms(2-4) have "r = (if \<exists>i. slot_ok i \<and> wanted pid k i then if options AND 1 \<noteq> 0 then 0 else - EAGAIN else - ECHILD)"
      "k' = k"
    by (auto simp: wait_current_def ex split: if_splits)
  with no assms(1) show ?thesis
    by (auto simp: EAGAIN_def ECHILD_def)
next
  case (Some i)
  from find_slots [OF Some] have i: "slot_ok i" "wanted pid k i" "p_state (process k i) = TASK_ZOMBIE"
    by auto
  from Some assms(2-4) have r: "r = p_pid (process k i)"
      "k' = k\<lparr>memory := (if status \<noteq> 0 then put32 status (p_exit_code (process k i)) (memory k) else memory k),
              occupied := (occupied k)(i := False), pending := (pending k)(i := 0)\<rparr>"
    by (auto simp: wait_current_def split: if_splits)
  have pos: "r > 0"
    using assms(1) i(1,2) r(1) by (auto simp: table_ok_def wanted_def entry_ok_def)
  have "table_ok k'"
    using table_ok_free [OF assms(1)] i(2) by (simp add: r(2) wanted_def)
  with i r pos show ?thesis
    by (auto simp: ECHILD_def)
qed

text \<open>Process 1 waits for a child that is still running: it would have to wait.\<close>

theorem wait_takes_one_zombie_witness:
  "fst (wait_current (-1) 0 0 demo_kern) = - EAGAIN \<and> table_ok (snd (wait_current (-1) 0 0 demo_kern))"
proof -
  have w: "wait_current (-1) 0 0 demo_kern = (- EAGAIN, demo_kern)"
    by (simp add: wait_current_def slots_def wanted_def demo_kern_def demo_proc_def
        TASK_RUNNING_def TASK_ZOMBIE_def)
  then show ?thesis
    using wait_takes_one_zombie [OF demo_table_ok w] by simp
qed

lemma wait_table:
  assumes "table_ok k"
  shows "table_ok (snd (wait_current pid status options k))"
proof (cases "find (\<lambda>i. wanted pid k i \<and> p_state (process k i) = TASK_ZOMBIE) slots")
  case None
  show ?thesis
    unfolding wait_current_def None option.case using assms by simp
next
  case (Some i)
  have "table_ok (k\<lparr>memory := m, occupied := (occupied k)(i := False), pending := p\<rparr>)" for m p
    using table_ok_free [OF assms] find_slots [OF Some] by (simp add: wanted_def)
  then show ?thesis
    unfolding wait_current_def Some option.case using assms by simp
qed


section \<open>Fork and the other calls\<close>

lemma fork_table:
  assumes "table_ok k"
  shows "table_ok (snd (fork_current fs ctx k))"
proof (cases "deferred k (active k) \<and> interrupted k (active k) \<or> free_slot k = None")
  case True
  with assms show ?thesis
    by (auto simp: fork_current_def)
next
  case False
  then obtain s where s: "free_slot k = Some s" "\<not> (deferred k (active k) \<and> interrupted k (active k))"
    by auto
  then have so: "slot_ok s" "\<not> occupied k s"
    using find_slots unfolding free_slot_def by auto
  let ?k = "snd (fork_current fs ctx k)"
  have f: "active ?k = active k" "occupied ?k = (occupied k)(s := True)" "next_pid ?k = next_pid k + 1"
    "\<And>i. i \<noteq> s \<Longrightarrow> process ?k i = process k i" "p_pid (process ?k s) = next_pid k + 1"
    "p_father (process ?k s) = p_pid (current k)" "p_state (process ?k s) = TASK_RUNNING"
    using s by (auto simp: fork_current_def Let_def)
  have cur: "entry_ok (next_pid k) (current k)"
    using assms by (simp add: table_ok_def)
  have new: "entry_ok (next_pid ?k) (process ?k s)"
    using cur f by (simp add: entry_ok_def)
  have old: "entry_ok (next_pid ?k) (process ?k i)" "p_pid (process ?k i) \<noteq> p_pid (process ?k s)"
    if "slot_ok i" "occupied k i" for i
  proof -
    have "i \<noteq> s" and "entry_ok (next_pid k) (process k i)"
      using assms so that by (auto simp: table_ok_def)
    then show "entry_ok (next_pid ?k) (process ?k i)" "p_pid (process ?k i) \<noteq> p_pid (process ?k s)"
      using f by (auto simp: entry_ok_def)
  qed
  have dist: "i = j" if "slot_ok i" "slot_ok j" "occupied k i" "occupied k j" "p_pid (process ?k i) = p_pid (process ?k j)" for i j
  proof -
    have "i \<noteq> s" "j \<noteq> s" using so that by auto
    with assms that f(4) show ?thesis by (simp add: table_ok_def)
  qed
  show ?thesis
    unfolding table_ok_def f(1,2)
    using assms new old dist by (auto simp: table_ok_def split: if_splits) (metis old(2))+
qed

text \<open>The result of a call, and the branches of \<^verbatim>\<open>perform\<close>.\<close>

definition ok_result :: "int \<times> 'v kern \<Rightarrow> bool" where
  "ok_result r \<longleftrightarrow> table_ok (snd r)"

lemma ok_if: "ok_result a \<Longrightarrow> ok_result b \<Longrightarrow> ok_result (if c then a else b)"
  by simp

lemma ok_pair: "table_ok k \<Longrightarrow> ok_result (r, k)"
  by (simp add: ok_result_def)

lemma ok_same: "table_ok k \<Longrightarrow> same_table k (snd r) \<Longrightarrow> ok_result r"
  using same_table_ok by (auto simp: ok_result_def)

lemma perform_table:
  assumes "fs_ok fs" and "table_ok k"
  shows "table_ok (snd (perform fs nr a b c k))"
proof -
  note same = ok_same [OF assms(2) call_fs_table [OF assms(1)]]
    ok_same [OF assms(2) perform_exec_table [OF assms(1)]]
    ok_same [OF assms(2) perform_read_table [OF assms(1)]] ok_same [OF assms(2) foreground_table]
    ok_same [OF assms(2) brk_table] ok_same [OF assms(2) path_call_table [OF assms(1)]]
  have fork: "ok_result (fork_current fs ctx k)" "ok_result (wait_current pid st opt k)" for ctx pid st opt
    using fork_table [OF assms(2)] wait_table [OF assms(2)] by (simp_all add: ok_result_def)
  have flags: "table_ok (k\<lparr>deferred := d\<rparr>)" "table_ok (k\<lparr>cancel_read := d\<rparr>)" for d
    using assms(2) same_table_ok [of k "k\<lparr>deferred := d\<rparr>"] same_table_ok [of k "k\<lparr>cancel_read := d\<rparr>"] by simp_all
  have dfr: "table_ok (if x then k\<lparr>deferred := d\<rparr> else k)" for x d
    using flags assms(2) by simp
  have "ok_result (perform fs nr a b c k)"
    unfolding perform_def Let_def
    by (intro ok_if same fork ok_pair flags dfr exit_table_ok assms)
  then show ?thesis
    by (simp add: ok_result_def)
qed


section \<open>The dispatcher\<close>

lemma activate_fields [simp]:
  "process (activate s k) = process k" "occupied (activate s k) = occupied k"
  "next_pid (activate s k) = next_pid k" "active (activate s k) = s"
  "interrupted (activate s k) = interrupted k" "deferred (activate s k) = deferred k"
  by (simp_all add: activate_def Let_def)

lemma activate_table: "table_ok k \<Longrightarrow> slot_ok s \<Longrightarrow> occupied k s \<Longrightarrow> table_ok (activate s k)"
  by (simp add: table_ok_def)

lemma set_state_table:
  "table_ok k \<Longrightarrow> st \<in> {TASK_RUNNING, TASK_INTERRUPTIBLE, TASK_ZOMBIE} \<Longrightarrow> table_ok (set_state st k)"
  unfolding set_state_def by (rule table_ok_set_proc) (auto simp: table_ok_def entry_ok_def)

lemma kill_current_table: "fs_ok fs \<Longrightarrow> table_ok k \<Longrightarrow> table_ok (kill_current fs k)"
  unfolding kill_current_def Let_def
  by (rule table_ok_set_proc) (auto simp: exit_table_ok dest!: exit_table_ok simp: table_ok_def entry_ok_def)

lemma kill_slot_table: "fs_ok fs \<Longrightarrow> slot_ok s \<Longrightarrow> table_ok k \<Longrightarrow> table_ok (kill_slot fs s k)"
proof -
  assume a: "fs_ok fs" "slot_ok s" "table_ok k"
  have "table_ok ((activate s k)\<lparr>pending := p\<rparr>)" if "occupied k s" for p
    using activate_table [OF a(3,2) that] same_table_ok [of "activate s k" "(activate s k)\<lparr>pending := p\<rparr>"] by simp
  then show ?thesis
    using a by (auto simp: kill_slot_def Let_def kill_current_table)
qed

lemma set_result_table: "table_ok (set_result r k) = table_ok k"
  by (rule same_table_ok) (simp add: set_result_def)

lemma retry_slot_table: "fs_ok fs \<Longrightarrow> slot_ok s \<Longrightarrow> table_ok k \<Longrightarrow> table_ok (retry_slot fs s k)"
proof -
  assume a: "fs_ok fs" "slot_ok s" "table_ok k"
  have "table_ok (snd (perform fs nr x y z (activate s k)))" if "occupied k s" for nr x y z
    using perform_table [OF a(1) activate_table [OF a(3,2) that]] .
  moreover have "table_ok ((set_result r k')\<lparr>pending := p\<rparr>)" if "table_ok k'" for r p and k' :: "'a kern"
    using that same_table_ok [of "set_result r k'" "(set_result r k')\<lparr>pending := p\<rparr>"] set_result_table by auto
  ultimately show ?thesis
    using a(3) by (auto simp: retry_slot_def Let_def intro!: set_state_table split: prod.splits) (metis snd_conv)+
qed

lemma fold_slots: "(\<And>s k. slot_ok s \<Longrightarrow> P k \<Longrightarrow> P (f s k)) \<Longrightarrow> P k \<Longrightarrow> P (fold f slots k)"
  by (simp add: slots_def slot_ok_def)

lemma dispatch_pass_table: "fs_ok fs \<Longrightarrow> table_ok k \<Longrightarrow> table_ok (dispatch_pass fs k)"
  unfolding dispatch_pass_def
  by (rule fold_slots [where P = table_ok], rule retry_slot_table, assumption+,
      rule fold_slots [where P = table_ok], rule kill_slot_table)

lemma pick_slot_runnable:
  assumes "table_ok k" and "pick_slot nr k = Some s"
  shows "slot_ok s \<and> runnable k s"
proof (cases "nr \<noteq> 101 \<and> runnable k (active k)")
  case True
  with assms show ?thesis
    by (auto simp: pick_slot_def table_ok_def)
next
  case False
  then have "s \<in> set (map (\<lambda>slot. (active k + slot - 1) mod 8 + 1) slots)" "runnable k s"
    using assms(2) unfolding pick_slot_def by (auto simp: find_Some_iff)
  then show ?thesis
    by (auto simp: slot_ok_def)
qed

lemma dispatch_loop_table:
  assumes "fs_ok fs"
  shows "table_ok k \<Longrightarrow> dispatch_loop fs nr polls k = Some k' \<Longrightarrow> table_ok k' \<and> runnable k' (active k')"
proof (induction polls arbitrary: k)
  case (Cons p ps)
  let ?k1 = "dispatch_pass fs k"
  have ok: "table_ok ?k1"
    by (rule dispatch_pass_table [OF assms Cons.prems(1)])
  show ?case
  proof (cases "pick_slot nr ?k1")
    case None
    then have "dispatch_loop fs nr ps (poll_io p ?k1) = Some k'"
      using Cons.prems(2) by (subst (asm) dispatch_loop.simps) (simp add: Let_def)
    moreover have "table_ok (poll_io p ?k1)"
      using ok same_table_ok [OF poll_io_table, of p ?k1] by simp
    ultimately show ?thesis
      using Cons.IH by blast
  next
    case (Some s)
    then have "k' = activate s ?k1"
      using Cons.prems(2) by (subst (asm) dispatch_loop.simps) (simp add: Let_def)
    with pick_slot_runnable [OF ok Some] ok show ?thesis
      by (auto simp: runnable_def intro: activate_table)
  qed
next
  case Nil
  let ?k1 = "dispatch_pass fs k"
  have ok: "table_ok ?k1"
    by (rule dispatch_pass_table [OF assms Nil.prems(1)])
  from Nil.prems(2) obtain s where "pick_slot nr ?k1 = Some s" "k' = activate s ?k1"
    by (subst (asm) dispatch_loop.simps) (auto simp: Let_def split: option.splits)
  with pick_slot_runnable [OF ok this(1)] ok show ?case
    by (auto simp: runnable_def intro: activate_table)
qed

text \<open>
  C7: whatever the system call and the input, when the dispatcher resumes a process, that
  process occupies its slot and can run, and the table is still well formed: numbers are
  distinct and below the last one given out, so that a later fork's are fresh.
\<close>

theorem dispatch_resumes_runnable:
  assumes "fs_ok fs" and "table_ok k" and "sp_dispatch fs saved p polls k = Some k'"
  shows "table_ok k' \<and> runnable k' (active k')"
proof -
  let ?k1 = "poll_io p (k\<lparr>contexts := (contexts k)(active k := saved)\<rparr>)"
  have k1: "table_ok ?k1"
    using assms(2) same_table_ok [OF poll_io_table, of p "k\<lparr>contexts := (contexts k)(active k := saved)\<rparr>"]
      same_table_ok [of k "k\<lparr>contexts := (contexts k)(active k := saved)\<rparr>"] by simp
  have block: "table_ok (block_current nr a b c k2)" if "table_ok k2" for nr a b c and k2 :: "'a kern"
    unfolding block_current_def
    by (rule set_state_table) (use that in \<open>auto simp: table_ok_def\<close>)
  obtain k3 where "table_ok k3" "dispatch_loop fs (c_regs saved 1) polls k3 = Some k'"
  proof (cases "interrupted ?k1 (active ?k1) \<and> \<not> deferred ?k1 (active ?k1)")
    case True
    have "table_ok (set_result 0 (kill_current fs ?k1))"
      using kill_current_table [OF assms(1) k1] by (simp add: set_result_table)
    with True show thesis
      using assms(3) by (intro that [of "set_result 0 (kill_current fs ?k1)"])
        (simp_all add: sp_dispatch_def Let_def EAGAIN_def EXEC_OK_def)
  next
    case False
    let ?nr = "c_regs saved 1" and ?a = "c_regs saved 2" and ?b = "c_regs saved 3" and ?c = "c_regs saved 4"
    obtain r k2 where r: "perform fs ?nr ?a ?b ?c ?k1 = (r, k2)"
      by (cases "perform fs ?nr ?a ?b ?c ?k1")
    let ?k3 = "if r = - EAGAIN \<and> (?nr = 3 \<or> ?nr = 7) then block_current ?nr ?a ?b ?c k2
               else if r \<noteq> EXEC_OK then set_result r k2 else k2"
    have "table_ok k2"
      using perform_table [OF assms(1) k1, of ?nr ?a ?b ?c] r by simp
    then have "table_ok ?k3"
      using block by (simp add: set_result_table)
    moreover have "dispatch_loop fs ?nr polls ?k3 = Some k'"
      using assms(3) False unfolding sp_dispatch_def Let_def r by (simp only: if_False prod.case simp_thms)
    ultimately show thesis
      by (rule that)
  qed
  then show ?thesis
    using dispatch_loop_table [OF assms(1)] by blast
qed


lemma dispatch_pass_idle:
  assumes "\<And>s. \<not> interrupted k s" and "\<And>s. pending k s = 0"
  shows "dispatch_pass fs k = k"
  using assms by (simp add: dispatch_pass_def slots_def kill_slot_def retry_slot_def)

text \<open>Process 1 yields: process 2 is resumed.\<close>

theorem dispatch_resumes_runnable_witness:
  "\<exists>k'. sp_dispatch no_files (demo_context\<lparr>c_regs := (\<lambda>_. 101)\<rparr>)
          \<lparr>key_event = 0, time_low = 0, time_hi = 0\<rparr> [] demo_kern = Some k' \<and> runnable k' (active k')"
proof -
  let ?saved = "demo_context\<lparr>c_regs := (\<lambda>_. 101)\<rparr>" and ?p = "\<lparr>key_event = 0, time_low = 0, time_hi = 0\<rparr>"
  let ?k1 = "poll_io ?p (demo_kern\<lparr>contexts := (contexts demo_kern)(active demo_kern := ?saved)\<rparr>)"
  let ?k2 = "set_result 0 ?k1"
  have k1: "\<not> interrupted ?k1 s" "pending ?k1 s = 0" "active ?k1 = 1" "occupied ?k1 = occupied demo_kern"
      "process ?k1 = process demo_kern" for s
    by (simp_all add: demo_kern_def poll_io_def poll_key_def poll_clock_def Let_def split: prod.splits)
  then have k2: "\<not> interrupted ?k2 s" "pending ?k2 s = 0" "active ?k2 = 1" "occupied ?k2 = occupied demo_kern"
      "process ?k2 = process demo_kern" for s
    by (simp_all add: set_result_def)
  have "pick_slot 101 ?k2 = Some 2"
    using k2(3-5) by (simp add: pick_slot_def slots_def runnable_def demo_kern_def demo_proc_def TASK_RUNNING_def)
  then have "dispatch_loop no_files 101 [] ?k2 \<noteq> None"
    using dispatch_pass_idle [OF k2(1,2)] by (subst dispatch_loop.simps) (simp add: Let_def)
  moreover have "sp_dispatch no_files ?saved ?p [] demo_kern = dispatch_loop no_files 101 [] ?k2"
    using k1(1) by (simp add: sp_dispatch_def Let_def perform_def EAGAIN_def EXEC_OK_def)
  ultimately show ?thesis
    using dispatch_resumes_runnable [OF no_files_ok demo_table_ok, of ?saved ?p "[]"] by (metis not_None_eq)
qed

end
