(* ===== verification/Process_Tty.thy ===== *)
theory Process_Tty
  imports Process_Table
begin

text \<open>
  The terminal input of \<^verbatim>\<open>process.c\<close> as a queue of bytes: the ring buffer of 1024 bytes with its
  two counters refines a list that the line editor appends to and erases from, and a read
  takes the next line of it. The contract of a line editor is the locale \<open>line_editor\<close>, in
  which the use of the terminal is proved once; the kernel's ring is its interpretation.
\<close>

section \<open>The abstract editor\<close>

text \<open>What a typed byte does to the bytes that wait to be read.\<close>

definition edit :: "u8 \<Rightarrow> u8 list \<Rightarrow> u8 list" where
  "edit c xs =
     (if c = 8 \<or> c = 127 then (if xs \<noteq> [] \<and> last xs \<noteq> 10 then butlast xs else xs)
      else if c = 10 \<or> (32 \<le> c \<and> c < 127) then
        (if length xs < 1022 \<or> (c = 10 \<and> length xs < 1023) then xs @ [c] else xs)
      else xs)"

fun take_line :: "nat \<Rightarrow> u8 list \<Rightarrow> u8 list" where
  "take_line 0 xs = []"
| "take_line (Suc n) [] = []"
| "take_line (Suc n) (x # xs) = x # (if x = 10 then [] else take_line n xs)"

definition printable :: "u8 \<Rightarrow> bool" where
  "printable c \<longleftrightarrow> 32 \<le> c \<and> c < 127"

lemma printable_ne [simp]: "printable c \<Longrightarrow> c \<noteq> 8 \<and> c \<noteq> 10 \<and> c \<noteq> 127"
  by (auto simp: printable_def)

lemma edit_printable: "printable c \<Longrightarrow> length xs < 1022 \<Longrightarrow> edit c xs = xs @ [c]"
  using printable_ne [of c] by (simp add: edit_def printable_def)

lemma edit_line:
  "list_all printable cs \<Longrightarrow> length xs + length cs \<le> 1022 \<Longrightarrow> fold edit cs xs = xs @ cs"
  by (induction cs arbitrary: xs) (simp_all add: edit_printable)

lemma take_line_whole:
  "list_all printable cs \<Longrightarrow> length cs < n \<Longrightarrow> take_line n (cs @ 10 # ys) = cs @ [10]"
proof (induction cs arbitrary: n)
  case Nil
  then show ?case by (cases n) auto
next
  case (Cons c cs)
  then show ?case by (cases n) auto
qed

lemma take_line_prefix: "take_line n xs = take (length (take_line n xs)) xs"
  by (induction n xs rule: take_line.induct) auto

lemma take_line_le: "length (take_line n xs) \<le> n" "length (take_line n xs) \<le> length xs"
  by (induction n xs rule: take_line.induct) auto

text \<open>
  A line editor with a budget of bytes that may still be typed: typing edits the pending
  bytes, and a read of \<open>n\<close> bytes when a line is pending returns it and removes it.
\<close>

locale line_editor =
  fixes pend :: "'s \<Rightarrow> u8 list"
    and press :: "u8 \<Rightarrow> 's \<Rightarrow> 's"
    and fetch :: "nat \<Rightarrow> 's \<Rightarrow> u8 list \<times> 's"
    and ready :: "nat \<Rightarrow> 's \<Rightarrow> bool"
  assumes press_pend: "ready (Suc b) s \<Longrightarrow> pend (press c s) = edit c (pend s)"
    and press_ready: "ready (Suc b) s \<Longrightarrow> ready b (press c s)"
    and fetch_line: "ready b s \<Longrightarrow> 10 \<in> set (pend s) \<Longrightarrow> 0 < n \<Longrightarrow> n < 2 ^ 31 \<Longrightarrow>
      fst (fetch n s) = take_line n (pend s) \<and>
      pend (snd (fetch n s)) = drop (length (take_line n (pend s))) (pend s) \<and> ready b (snd (fetch n s))"
begin

lemma press_all:
  "ready (length cs + b) s \<Longrightarrow> pend (fold press cs s) = fold edit cs (pend s) \<and> ready b (fold press cs s)"
proof (induction cs arbitrary: s)
  case (Cons c cs)
  have r: "ready (Suc (length cs + b)) s"
    using Cons.prems by simp
  show ?case
    using Cons.IH [OF press_ready [OF r]] by (simp add: press_pend [OF r])
qed simp

text \<open>A typed line is read back as it was typed, whatever the size of the reader's buffer above it.\<close>

lemma typed_line_is_read:
  assumes "ready (Suc (length cs) + b) s" and "pend s = []"
    and "list_all printable cs" and "length cs \<le> 1022" and "length cs < n" and "n < 2 ^ 31"
  shows "fst (fetch n (fold press (cs @ [10]) s)) = cs @ [10]
    \<and> pend (snd (fetch n (fold press (cs @ [10]) s))) = []"
proof -
  have r: "ready (length (cs @ [10]) + b) s"
    using assms(1) by simp
  have p: "pend (fold press (cs @ [10]) s) = cs @ [10]" "ready b (fold press (cs @ [10]) s)"
    using press_all [OF r] edit_line [OF assms(3), of "[]"] assms(2,4) by (simp_all add: edit_def)
  have t: "take_line n (cs @ [10]) = cs @ [10]"
    using take_line_whole [OF assms(3,5), of "[]"] by simp
  have "10 \<in> set (pend (fold press (cs @ [10]) s))" and n: "0 < n"
    using assms(5) by (simp_all only: p(1)) simp_all
  from fetch_line [OF p(2) this assms(6)] show ?thesis
    unfolding p(1) t by simp
qed

lemma erase_undoes:
  assumes "ready (Suc (Suc b)) s" and "printable c" and "length (pend s) < 1022"
  shows "pend (press 8 (press c s)) = pend s"
  using press_pend [OF assms(1)] press_pend [OF press_ready [OF assms(1)]] printable_ne [OF assms(2)]
    edit_printable [OF assms(2,3)] by (simp add: edit_def)

end


section \<open>The ring buffer\<close>

definition tty_pending :: "'v kern \<Rightarrow> u8 list" where
  "tty_pending k =
     map (\<lambda>j. tty_input k (ring (tty_tail k + of_nat j))) [0 ..< unat (tty_head k - tty_tail k)]"

text \<open>The counters: at most 1023 bytes wait, and \<open>b\<close> more can be typed before they wrap around.\<close>

definition tty_ok :: "nat \<Rightarrow> 'v kern \<Rightarrow> bool" where
  "tty_ok b k \<longleftrightarrow>
     tty_tail k \<le> tty_head k \<and> unat (tty_head k) - unat (tty_tail k) \<le> 1023 \<and> unat (tty_head k) + b < 2 ^ 32"

lemma ring_mod: "ring i = unat i mod 1024"
proof -
  have "i AND 1023 = take_bit 10 i"
    by (simp add: take_bit_eq_mask mask_eq_exp_minus_1)
  then show ?thesis
    by (simp add: ring_def take_bit_eq_mod unat_mod_distrib)
qed

lemma tty_length: "tty_ok b k \<Longrightarrow> length (tty_pending k) = unat (tty_head k) - unat (tty_tail k)"
  by (simp add: tty_pending_def tty_ok_def unat_sub)

lemma tty_pos:
  assumes "tty_ok b k" and "j \<le> length (tty_pending k)"
  shows "unat (tty_tail k + of_nat j) = unat (tty_tail k) + j"
proof -
  have "unat (tty_tail k) + j < 2 ^ 32"
    using assms tty_length [OF assms(1)] by (auto simp: tty_ok_def word_le_nat_alt)
  then show ?thesis
    by (simp add: unat_word_ariths unat_of_nat)
qed

lemma tty_nth:
  "j < length (tty_pending k) \<Longrightarrow> tty_pending k ! j = tty_input k (ring (tty_tail k + of_nat j))"
  by (simp add: tty_pending_def)

lemma tty_head_pos:
  assumes "tty_ok b k"
  shows "tty_head k = tty_tail k + of_nat (length (tty_pending k))"
  using tty_pos [OF assms, of "length (tty_pending k)"] tty_length [OF assms] assms
  by (simp add: tty_ok_def word_le_nat_alt word_unat_eq_iff)

lemma tty_empty: "tty_ok b k \<Longrightarrow> tty_pending k = [] \<longleftrightarrow> \<not> tty_tail k < tty_head k"
  using tty_length [of b k] by (auto simp: tty_ok_def word_less_nat_alt)

text \<open>Appending and erasing one byte.\<close>

lemma tty_append:
  assumes "tty_ok (Suc b) k" and "length (tty_pending k) \<le> 1022"
  shows "tty_pending (k\<lparr>tty_input := (tty_input k)(ring (tty_head k) := c), tty_head := tty_head k + 1\<rparr>)
      = tty_pending k @ [c]" (is "tty_pending ?k = _")
    and "tty_ok b (k\<lparr>tty_input := (tty_input k)(ring (tty_head k) := c), tty_head := tty_head k + 1\<rparr>)"
proof -
  have h1: "unat (tty_head k + 1) = unat (tty_head k) + 1"
    using assms(1) by (simp add: tty_ok_def unat_word_ariths)
  show ok: "tty_ok b ?k"
    using assms tty_length [OF assms(1)] h1 by (auto simp: tty_ok_def word_le_nat_alt)
  have len: "length (tty_pending ?k) = Suc (length (tty_pending k))"
    using tty_length [OF ok] tty_length [OF assms(1)] h1 assms(1)
    by (auto simp: tty_ok_def word_le_nat_alt)
  show "tty_pending ?k = tty_pending k @ [c]"
  proof (rule nth_equalityI)
    show "length (tty_pending ?k) = length (tty_pending k @ [c])"
      by (simp add: len)
    fix j
    assume j: "j < length (tty_pending ?k)"
    show "tty_pending ?k ! j = (tty_pending k @ [c]) ! j"
    proof (cases "j = length (tty_pending k)")
      case True
      then show ?thesis
        using tty_nth [OF j] tty_head_pos [OF assms(1)] by simp
    next
      case False
      with j len have jl: "j < length (tty_pending k)" by simp
      have "ring (tty_tail k + of_nat j) \<noteq> ring (tty_head k)"
      proof -
        have "unat (tty_head k) = unat (tty_tail k) + length (tty_pending k)"
          using tty_pos [OF assms(1) order_refl] tty_head_pos [OF assms(1)] by simp
        moreover have "(a + i) mod 1024 \<noteq> (a + n) mod 1024" if "i < n" "n \<le> 1022" for a i n :: nat
        proof
          assume "(a + i) mod 1024 = (a + n) mod 1024"
          then have "1024 dvd (a + n) - (a + i)"
            by (metis mod_eq_dvd_iff_nat nat_add_left_cancel_le less_imp_le_nat that(1))
          with that show False
            by (auto dest: dvd_imp_le)
        qed
        ultimately show ?thesis
          using tty_pos [OF assms(1), of j] jl assms(2) by (simp add: ring_mod)
      qed
      then show ?thesis
        using tty_nth [OF j] tty_nth [OF jl] jl by (simp add: nth_append)
    qed
  qed
qed

lemma tty_erase:
  assumes "tty_ok b k" and "tty_pending k \<noteq> []"
  shows "tty_pending (k\<lparr>tty_head := tty_head k - 1\<rparr>) = butlast (tty_pending k)"
    and "tty_ok b (k\<lparr>tty_head := tty_head k - 1\<rparr>)"
    and "last (tty_pending k) = tty_input k (ring (tty_head k - 1))"
proof -
  let ?k = "k\<lparr>tty_head := tty_head k - 1\<rparr>"
  have lt: "tty_tail k < tty_head k"
    using tty_empty [OF assms(1)] assms(2) by simp
  then have h1: "unat (tty_head k - 1) = unat (tty_head k) - 1"
    by (metis gr_implies_not_zero unat_minus_one word_less_nat_alt unat_0 word_not_simps(1))
  show ok: "tty_ok b ?k"
    using assms(1) lt h1 by (auto simp: tty_ok_def word_le_nat_alt word_less_nat_alt)
  have len: "length (tty_pending ?k) = length (tty_pending k) - 1"
    using tty_length [OF ok] tty_length [OF assms(1)] h1 by simp
  show "tty_pending ?k = butlast (tty_pending k)"
    by (rule nth_equalityI) (auto simp: len nth_butlast tty_nth)
  have "tty_head k - 1 = tty_tail k + of_nat (length (tty_pending k) - 1)"
    using tty_head_pos [OF assms(1)] assms(2) by (simp add: of_nat_diff Suc_le_eq)
  then show "last (tty_pending k) = tty_input k (ring (tty_head k - 1))"
    using assms(2) by (simp add: last_conv_nth tty_nth)
qed

lemma tty_write_ring [simp]:
  "tty_pending (tty_write bs k) = tty_pending k" "tty_ok b (tty_write bs k) = tty_ok b k"
  by (simp_all add: tty_write_def tty_pending_def tty_ok_def)

lemma tty_ok_less: "tty_ok (Suc b) k \<Longrightarrow> tty_ok b k"
  by (simp add: tty_ok_def)

lemma tty_waiting:
  assumes "tty_ok b k"
  shows "tty_head k - tty_tail k < n \<longleftrightarrow> length (tty_pending k) < unat n"
proof -
  have "unat (tty_head k - tty_tail k) = length (tty_pending k)"
    by (simp add: tty_pending_def)
  then show ?thesis by (simp add: word_less_nat_alt)
qed

lemma type_char_edit:
  assumes "tty_ok (Suc b) k"
  shows "tty_pending (type_char c k) = edit c (tty_pending k)" and "tty_ok b (type_char c k)"
proof -
  have e: "tty_head k > tty_tail k \<longleftrightarrow> tty_pending k \<noteq> []"
    using tty_empty [OF assms] by simp
  have w: "tty_head k - tty_tail k < 1022 \<longleftrightarrow> length (tty_pending k) < 1022"
    "tty_head k - tty_tail k < 1023 \<longleftrightarrow> length (tty_pending k) < 1023"
    using tty_waiting [OF assms, of 1022] tty_waiting [OF assms, of 1023] by simp_all
  note app = tty_append [OF assms] and er = tty_erase [OF assms] and less = tty_ok_less [OF assms]
  show "tty_pending (type_char c k) = edit c (tty_pending k)"
    using app(1) [of c] er(1,3) by (auto simp: type_char_def edit_def e w)
  show "tty_ok b (type_char c k)"
    using app(2) [of c] tty_ok_less [OF er(2)] less by (auto simp: type_char_def e w)
qed


section \<open>Reading\<close>

lemma tty_pop:
  assumes "tty_ok b k" and "tty_pending k \<noteq> []"
  shows "tty_pending (k\<lparr>tty_tail := tty_tail k + 1, memory := m\<rparr>) = tl (tty_pending k)" (is "tty_pending ?k = _")
    and "tty_ok b (k\<lparr>tty_tail := tty_tail k + 1, memory := m\<rparr>)"
    and "hd (tty_pending k) = tty_input k (ring (tty_tail k))"
proof -
  have lt: "tty_tail k < tty_head k"
    using tty_empty [OF assms(1)] assms(2) by simp
  then have t1: "unat (tty_tail k + 1) = unat (tty_tail k) + 1"
    using tty_pos [OF assms(1), of 1] assms(2) by (simp add: Suc_le_eq)
  show ok: "tty_ok b ?k"
    using assms(1) lt t1 by (auto simp: tty_ok_def word_le_nat_alt word_less_nat_alt)
  have len: "length (tty_pending ?k) = length (tty_pending k) - 1"
    using tty_length [OF ok] tty_length [OF assms(1)] t1 by simp
  show "tty_pending ?k = tl (tty_pending k)"
    by (rule nth_equalityI) (auto simp: len nth_tl tty_nth add.assoc)
  show "hd (tty_pending k) = tty_input k (ring (tty_tail k))"
    using assms(2) by (simp add: hd_conv_nth tty_nth)
qed

text \<open>A memory with a list of bytes stored at an address.\<close>

definition stored :: "u32 \<Rightarrow> u8 list \<Rightarrow> memory \<Rightarrow> memory" where
  "stored p l m = (\<lambda>a. if a - p < of_nat (length l) then l ! unat (a - p) else m a)"

lemma stored_Nil [simp]: "stored p [] m = m"
  by (simp add: stored_def)

lemma stored_Cons:
  assumes "length l < 2 ^ 32 - 1"
  shows "stored p (c # l) m = stored (p + 1) l (m(p := c))"
proof
  fix a
  show "stored p (c # l) m a = stored (p + 1) l (m(p := c)) a"
  proof (cases "a = p")
    case True
    have "\<not> (- 1 :: u32) < of_nat (length l)" "(0::u32) < of_nat (length (c # l))"
      using assms by (simp_all add: word_less_nat_alt unat_of_nat unsigned_minus_1_eq_mask
          mask_eq_exp_minus_1 del: of_nat_Suc)
    then show ?thesis
      using True by (simp add: stored_def del: of_nat_Suc)
  next
    case False
    have d: "unat (a - p) = Suc (unat (a - (p + 1)))"
      using False unat_minus_one [of "a - p"] unat_gt_0 [of "a - p"] by (simp add: diff_diff_eq)
    have "a - (p + 1) < of_nat (length l) \<longleftrightarrow> unat (a - (p + 1)) < length l"
      "a - p < of_nat (length (c # l)) \<longleftrightarrow> unat (a - p) < length (c # l)"
      using assms by (simp_all add: word_less_nat_alt unat_of_nat del: of_nat_Suc)
    then show ?thesis
      using False d by (simp add: stored_def del: of_nat_Suc)
  qed
qed

lemma stored_nth:
  "j < length l \<Longrightarrow> length l < 2 ^ 32 \<Longrightarrow> stored p l m (p + of_nat j) = l ! j"
  by (simp add: stored_def word_less_nat_alt unat_of_nat)

lemma tty_take_line:
  fixes buf :: u32
  assumes "tty_ok b k" and "unat n + left < 2 ^ 32 - 1"
  defines "l \<equiv> take_line left (tty_pending k)"
  defines "k' \<equiv> snd (tty_take left buf n k)"
  shows "fst (tty_take left buf n k) = n + of_nat (length l)
    \<and> tty_pending k' = drop (length l) (tty_pending k) \<and> tty_ok b k'
    \<and> cancel_read k' = cancel_read k \<and> active k' = active k
    \<and> memory k' = stored (buf + n) l (memory k)"
  using assms(1,2) unfolding l_def k'_def
proof (induction left arbitrary: n k)
  case 0
  then show ?case by simp
next
  case (Suc left)
  show ?case
  proof (cases "tty_pending k")
    case Nil
    then have "\<not> tty_tail k < tty_head k"
      using tty_empty [OF Suc.prems(1)] by simp
    with Nil show ?thesis
      using Suc.prems(1) by simp
  next
    case (Cons c xs)
    let ?k = "k\<lparr>tty_tail := tty_tail k + 1, memory := (memory k)(buf + n := c)\<rparr>"
    have ne: "tty_pending k \<noteq> []" and lt: "tty_tail k < tty_head k"
      using Cons tty_empty [OF Suc.prems(1)] by auto
    have c: "tty_input k (ring (tty_tail k)) = c" and xs: "tty_pending ?k = xs" and ok: "tty_ok b ?k"
      using tty_pop [OF Suc.prems(1) ne] Cons by simp_all
    have n1: "unat (n + 1) + left < 2 ^ 32 - 1"
      using Suc.prems(2) by (simp add: unat_word_ariths)
    have ll: "length (take_line left xs) < 2 ^ 32 - 1"
      using take_line_le(1) [of left xs] Suc.prems(2) by simp
    note IH = Suc.IH [OF ok n1, unfolded xs]
    have st: "stored (buf + n) (c # take_line left xs) (memory k)
        = stored (buf + (n + 1)) (take_line left xs) (memory ?k)"
      using stored_Cons [OF ll, of "buf + n" c "memory k"] by (simp add: add.assoc)
    have st1: "stored (buf + n) [c] (memory k) = memory ?k"
      using stored_Cons [of "[]" "buf + n" c "memory k"] by simp
    show ?thesis
    proof (cases "c = 10")
      case True
      then show ?thesis
        using xs ok lt c st1 by (simp add: Cons)
    next
      case False
      then have "tty_take (Suc left) buf n k = tty_take left buf (n + 1) ?k"
        using lt c by simp
      moreover have "take_line (Suc left) (tty_pending k) = c # take_line left xs"
        using False Cons by simp
      ultimately show ?thesis
        using IH by (simp add: st Cons add.assoc fun_upd_def)
    qed
  qed
qed

lemma line_from_pending:
  assumes "tty_ok b k" and "j + n = length (tty_pending k)"
  shows "line_from n (tty_tail k + of_nat j) k \<longleftrightarrow> 10 \<in> set (drop j (tty_pending k))"
  using assms(2)
proof (induction n arbitrary: j)
  case 0
  then show ?case by simp
next
  case (Suc n)
  have jl: "j < length (tty_pending k)" using Suc.prems by simp
  have lt: "tty_tail k + of_nat j < tty_head k"
    using tty_pos [OF assms(1), of j] tty_length [OF assms(1)] jl by (simp add: word_less_nat_alt)
  have d: "drop j (tty_pending k) = tty_pending k ! j # drop (Suc j) (tty_pending k)"
    using jl by (simp add: Cons_nth_drop_Suc)
  show ?case
    using Suc.IH [of "Suc j"] Suc.prems tty_nth [OF jl] lt
    by (auto simp: d add.assoc add.commute [of 1])
qed

lemma line_ready_pending:
  "tty_ok b k \<Longrightarrow> line_ready k \<longleftrightarrow> 10 \<in> set (tty_pending k)"
  using line_from_pending [of b k 0 "length (tty_pending k)"]
  by (simp add: line_ready_def tty_pending_def)


section \<open>The kernel's terminal is a line editor\<close>

definition editor_ready :: "nat \<Rightarrow> 'v kern \<Rightarrow> bool" where
  "editor_ready b k \<longleftrightarrow> tty_ok b k \<and> \<not> cancel_read k (active k)"

text \<open>A read of \<open>n\<close> bytes at \<open>buf\<close>, with what it left in the buffer.\<close>

definition read_bytes :: "u32 \<Rightarrow> nat \<Rightarrow> 'v kern \<Rightarrow> u8 list \<times> 'v kern" where
  "read_bytes buf n k =
     (let (r, k') = tty_read_user buf (of_nat n) k
      in (map (\<lambda>j. memory k' (buf + of_nat j)) [0 ..< nat r], k'))"

lemma tty_read_ready:
  assumes "editor_ready b k" and "10 \<in> set (tty_pending k)" and "0 < n" and "n < 2 ^ 31"
  defines "l \<equiv> take_line n (tty_pending k)"
  shows "fst (tty_read_user buf (of_nat n) k) = int (length l)
    \<and> memory (snd (tty_read_user buf (of_nat n) k)) = stored buf l (memory k)
    \<and> tty_pending (snd (tty_read_user buf (of_nat n) k)) = drop (length l) (tty_pending k)
    \<and> editor_ready b (snd (tty_read_user buf (of_nat n) k))"
proof -
  have ok: "tty_ok b k" and nc: "\<not> cancel_read k (active k)"
    using assms(1) by (simp_all add: editor_ready_def)
  have un: "unat (of_nat n :: u32) = n"
    using assms(4) by (simp add: unat_of_nat)
  then have n0: "(of_nat n :: u32) \<noteq> 0"
    using assms(3) by auto
  have r: "tty_read_user buf (of_nat n) k = (case tty_take n buf 0 k of (r, k') \<Rightarrow> (sint r, k'))"
    using nc n0 un line_ready_pending [OF ok] assms(2) by (simp add: tty_read_user_def)
  have t: "unat (0 :: u32) + n < 2 ^ 32 - 1"
    using assms(4) by simp
  have "length l < 2 ^ 31"
    using take_line_le(1) [of n "tty_pending k"] assms(4) by (simp add: l_def)
  then have "sint (of_nat (length l) :: u32) = int (length l)"
    by (simp add: sint_uint unsigned_of_nat signed_take_bit_int_eq_self take_bit_nat_eq_self of_nat_take_bit
        take_bit_int_eq_self)
  then show ?thesis
    using tty_take_line [OF ok t, of buf] nc
    by (simp add: r l_def split_beta editor_ready_def)
qed

lemma type_char_keeps [simp]:
  "cancel_read (type_char c k) = cancel_read k" "active (type_char c k) = active k"
  by (simp_all add: type_char_def tty_write_def Let_def)

interpretation ring_editor: line_editor tty_pending type_char "read_bytes buf" editor_ready for buf
proof
  fix b k c
  assume r: "editor_ready (Suc b) k"
  then show "tty_pending (type_char c k) = edit c (tty_pending k)"
    by (auto simp: editor_ready_def intro: type_char_edit(1))
  show "editor_ready b (type_char c k)"
    using r by (auto simp: editor_ready_def intro: type_char_edit(2))
next
  fix b k and n :: nat
  assume a: "editor_ready b k" "10 \<in> set (tty_pending k)" "0 < n" "n < 2 ^ 31"
  let ?l = "take_line n (tty_pending k)"
  have len: "length ?l < 2 ^ 32"
    using take_line_le(1) [of n "tty_pending k"] a(4) by simp
  have "map (\<lambda>j. stored buf ?l (memory k) (buf + of_nat j)) [0 ..< length ?l] = ?l"
    using len by (intro nth_equalityI) (simp_all add: stored_nth)
  then show "fst (read_bytes buf n k) = ?l \<and>
      tty_pending (snd (read_bytes buf n k)) = drop (length ?l) (tty_pending k) \<and>
      editor_ready b (snd (read_bytes buf n k))"
    using tty_read_ready [OF a, of buf] by (simp add: read_bytes_def split_beta)
qed


section \<open>Properties\<close>

text \<open>C23: typing refines the line editor. While fewer than 2 to the 32 bytes have been accepted, the ring
  holds exactly the bytes that the editor has: a printable byte or a newline is appended when there is
  room (the last place is kept for a newline), backspace and delete remove the last byte unless it ends
  a line, and every other byte leaves the pending input as it is.\<close>

theorem typing_edits_line:
  assumes "tty_ok (Suc b) k"
  shows "tty_pending (type_char c k) = edit c (tty_pending k) \<and> tty_ok b (type_char c k)"
  using type_char_edit [OF assms] by simp

text \<open>C36: a read of the terminal returns the next line. When a line is complete, a read of \<open>n\<close> bytes stores
  the bytes of the first line, through its newline and at most \<open>n\<close> of them, in the caller's buffer,
  changes no other byte of memory, returns their number and removes exactly them from the pending
  input; when no line is complete it returns \<open>-EAGAIN\<close> and changes nothing.\<close>

theorem read_takes_line:
  assumes "tty_ok b k" and "\<not> cancel_read k (active k)" and "0 < n" and "n < 2 ^ 31"
  shows "case tty_read_user buf (of_nat n) k of (r, k') \<Rightarrow>
    if 10 \<in> set (tty_pending k)
    then r = int (length (take_line n (tty_pending k)))
      \<and> memory k' = stored buf (take_line n (tty_pending k)) (memory k)
      \<and> take_line n (tty_pending k) @ tty_pending k' = tty_pending k
    else r = - EAGAIN \<and> k' = k"
proof (cases "10 \<in> set (tty_pending k)")
  case True
  have "editor_ready b k"
    using assms(1,2) by (simp add: editor_ready_def)
  note rd = tty_read_ready [OF this True assms(3,4), of buf]
  have "take_line n (tty_pending k) @ drop (length (take_line n (tty_pending k))) (tty_pending k) = tty_pending k"
    by (subst (1) take_line_prefix) (rule append_take_drop_id)
  with rd True show ?thesis
    by (simp add: split_beta)
next
  case False
  have "(of_nat n :: u32) \<noteq> 0"
    using assms(3,4) by (simp add: word_unat_eq_iff unat_of_nat)
  then show ?thesis
    using False assms(2) line_ready_pending [OF assms(1)] by (simp add: tty_read_user_def)
qed

text \<open>C14: what is typed is what is read. From an empty terminal, a line of at most 1022 printable bytes that
  is typed and ended with Enter is returned by one read with a larger buffer, byte for byte with its
  newline, and the terminal is empty again.\<close>

theorem typed_line_returned:
  assumes "tty_ok (Suc (length cs)) k" and "\<not> cancel_read k (active k)" and "tty_pending k = []"
    and "list_all printable cs" and "length cs \<le> 1022" and "length cs < n" and "n < 2 ^ 31"
  shows "fst (read_bytes buf n (fold type_char (cs @ [10]) k)) = cs @ [10]
    \<and> tty_pending (snd (read_bytes buf n (fold type_char (cs @ [10]) k))) = []"
  by (rule ring_editor.typed_line_is_read [of cs 0])
    (use assms in \<open>simp_all add: editor_ready_def\<close>)


section \<open>Witnesses\<close>

lemma demo_tty:
  "tty_pending demo_kern = []" "tty_ok 100 demo_kern" "cancel_read demo_kern i = False"
  by (simp_all add: tty_pending_def tty_ok_def demo_kern_def)

theorem typing_edits_line_witness:
  "tty_pending (type_char 65 demo_kern) = [65]"
  using typing_edits_line [of 99 demo_kern 65] demo_tty by (simp add: edit_def)

theorem read_takes_line_witness:
  "fst (tty_read_user 0x200000 5 (type_char 10 demo_kern)) = 1"
proof -
  have p: "tty_pending (type_char 10 demo_kern) = [10]" "tty_ok 99 (type_char 10 demo_kern)"
    using type_char_edit [of 99 demo_kern 10] demo_tty by (simp_all add: edit_def)
  have "take_line 5 [10 :: u8] = [10]"
    by (simp add: numeral_eq_Suc)
  then show ?thesis
    using read_takes_line [OF p(2), of 5 "0x200000"] demo_tty p(1) by (simp add: split_beta)
qed

theorem typed_line_returned_witness:
  "fst (read_bytes 0x200000 80 (fold type_char [108, 115, 10] demo_kern)) = [108, 115, 10]"
  using typed_line_returned [of "[108, 115]" demo_kern 80 "0x200000"] demo_tty
    tty_ok_less [of 3 demo_kern]
  by (simp add: printable_def tty_ok_def)

end
