(* ===== verification/Obj.thy ===== *)
theory Obj
  imports Cstd
begin

text \<open>
  The relocatable objects of \<^verbatim>\<open>symcc/src/obj.c\<close>: lines of text and data, bss declarations and
  exported symbols, the size and label of a line, and the text format in which objects are
  stored. The two linked lists have their newest element first, as the code prepends to
  them. A file is its text; writing and allocation succeed. \<^verbatim>\<open>len\<close> of a symbol is the length of
  its name, and \<^verbatim>\<open>long\<close> is an integer of 64 bits. The model is the host build, in which
  comments are kept.
\<close>

section \<open>Objects\<close>

record obj_symbol =
  sy_name :: string
  sy_is_data :: bool
  sy_segment :: int
  sy_offset :: int
  sy_size :: int

record obj =
  text_lines :: "string list"
  data_lines :: "string list"
  bss_decls :: "(string \<times> int) list"
  obj_syms :: "obj_symbol list"

definition obj_new :: obj where
  "obj_new = \<lparr>text_lines = [], data_lines = [], bss_decls = [], obj_syms = []\<rparr>"

definition obj_add_text :: "string \<Rightarrow> obj \<Rightarrow> obj" where
  "obj_add_text l ob = ob\<lparr>text_lines := text_lines ob @ [l]\<rparr>"

definition obj_add_data :: "string \<Rightarrow> obj \<Rightarrow> obj" where
  "obj_add_data l ob = ob\<lparr>data_lines := data_lines ob @ [l]\<rparr>"

definition obj_add_symbol :: "string \<Rightarrow> bool \<Rightarrow> int \<Rightarrow> int \<Rightarrow> int \<Rightarrow> obj \<Rightarrow> obj" where
  "obj_add_symbol nm is_data segment offset len ob =
     ob\<lparr>obj_syms := \<lparr>sy_name = nm, sy_is_data = is_data, sy_segment = segment,
                     sy_offset = offset, sy_size = len\<rparr> # obj_syms ob\<rparr>"

definition obj_add_bss :: "string \<Rightarrow> int \<Rightarrow> obj \<Rightarrow> obj" where
  "obj_add_bss nm len ob = ob\<lparr>bss_decls := (nm, len) # bss_decls ob\<rparr>"


section \<open>Lines\<close>

definition is_ident_char :: "char \<Rightarrow> bool" where
  "is_ident_char c \<longleftrightarrow> is_alnum c \<or> c = CHR ''_''"

definition is_eol :: "char \<Rightarrow> bool" where
  "is_eol c \<longleftrightarrow> c = newline \<or> c = carriage"

definition strip_eol :: "string \<Rightarrow> string" where
  "strip_eol l = rev (dropWhile is_eol (rev l))"

definition obj_label_name_len :: "string \<Rightarrow> nat" where
  "obj_label_name_len line =
     (let l = dropWhile is_eol (strip_eol line) in
      if length l < 2 \<or> last l \<noteq> CHR '':'' then 0
      else if hd l = CHR '' '' \<or> hd l = CHR '';'' \<or> hd l = dquote then 0
      else if \<not> list_all is_ident_char (butlast l) then 0
      else length l - 1)"

definition has_prefix :: "string \<Rightarrow> string \<Rightarrow> bool" where
  "has_prefix p s \<longleftrightarrow> take (length p) s = p"

text \<open>\<open>None\<close> when the program exits because a string is not closed.\<close>

definition obj_line_size :: "string \<Rightarrow> int option" where
  "obj_line_size line =
     (let s = dropWhile (\<lambda>c. c = CHR '' '') line in
      if s = [] \<or> hd s = CHR '';'' \<or> hd s = newline then Some 0
      else if obj_label_name_len line \<noteq> 0 then Some 0
      else if hd s = dquote then
        (let body = takeWhile (\<lambda>c. c \<noteq> dquote) (tl s) in
         if length body = length (tl s) then None else Some (int (length body)))
      else if has_prefix ''U8 '' s then Some 1
      else if has_prefix ''U16 '' s then Some 2
      else if has_prefix ''U32 '' s then Some 4
      else if has_prefix ''push '' s then Some 8
      else if has_prefix ''pop '' s then Some 8
      else if has_prefix ''call '' s then Some 20
      else if has_prefix ''ret'' s then Some 12
      else Some 4)"

lemma obj_line_size_nonneg: "obj_line_size l = Some n \<Longrightarrow> 0 \<le> n"
  by (auto simp: obj_line_size_def Let_def split: if_splits)


section \<open>The text format\<close>

definition bss_line :: "string \<times> int \<Rightarrow> string" where
  "bss_line b = ''.bss '' @ fst b @ '' '' @ show_int (snd b)"

definition sym_line :: "obj_symbol \<Rightarrow> string" where
  "sym_line s = ''.sym '' @ sy_name s @ '' '' @ (if sy_is_data s then ''D'' else ''T'') @ '' '' @
     (if sy_segment s \<noteq> 0 then ''data'' else ''text'') @ '' '' @ show_int (sy_offset s) @ '' '' @
     show_int (sy_size s)"

definition obj_write :: "obj \<Rightarrow> string" where
  "obj_write ob =
     concat (map (\<lambda>l. l @ [newline])
       ([''; symcc object v1'', ''.text''] @ text_lines ob @ [''.data''] @ data_lines ob
        @ map bss_line (bss_decls ob) @ map sym_line (obj_syms ob)))"

text \<open>The chunks that the \<^verbatim>\<open>fgetc\<close> loop delivers, each through its newline.\<close>

fun file_chunks :: "string \<Rightarrow> string \<Rightarrow> string list" where
  "file_chunks acc [] = (if acc = [] then [] else [acc])"
| "file_chunks acc (c # cs) =
     (if c = newline then (acc @ [c]) # file_chunks [] cs else file_chunks (acc @ [c]) cs)"

definition read_bss :: "string \<Rightarrow> obj \<Rightarrow> obj" where
  "read_bss s ob =
     (case scan_word 511 s of
        None \<Rightarrow> ob
      | Some (nm, r) \<Rightarrow>
          (case scan_long r of None \<Rightarrow> ob | Some (len, _) \<Rightarrow> obj_add_bss nm len ob))"

definition read_sym :: "string \<Rightarrow> obj \<Rightarrow> obj" where
  "read_sym s ob =
     (case scan_word 511 s of
        None \<Rightarrow> ob
      | Some (nm, r) \<Rightarrow>
     (case scan_word 7 r of
        None \<Rightarrow> ob
      | Some (kind, r) \<Rightarrow>
     (case scan_word 15 r of
        None \<Rightarrow> ob
      | Some (seg, r) \<Rightarrow>
     (case scan_long r of
        None \<Rightarrow> ob
      | Some (off, r) \<Rightarrow>
     (case scan_long r of
        None \<Rightarrow> ob
      | Some (len, _) \<Rightarrow>
          obj_add_symbol nm (hd kind = CHR ''D'') (if seg = ''data'' then 1 else 0) off len ob)))))"

definition read_line :: "string \<Rightarrow> nat \<times> obj \<Rightarrow> nat \<times> obj" where
  "read_line chunk so =
     (let (section, ob) = so; line = strip_eol chunk in
      if line = [] \<or> hd line = CHR '';'' then (section, ob)
      else if line = ''.text'' then (1, ob)
      else if line = ''.data'' then (2, ob)
      else if has_prefix ''.bss '' line then (section, read_bss (drop 5 line) ob)
      else if has_prefix ''.sym '' line then (section, read_sym (drop 5 line) ob)
      else if section = 1 then (section, obj_add_text line ob)
      else if section = 2 then (section, obj_add_data line ob)
      else (section, ob))"

definition obj_read :: "string \<Rightarrow> obj \<Rightarrow> obj" where
  "obj_read file ob = snd (fold read_line (file_chunks [] file) (0, ob))"


section \<open>Reading back what was written\<close>

text \<open>
  What the format can carry: lines that are not taken for a section, a declaration or a
  comment, and names without white space.
\<close>

definition line_ok :: "string \<Rightarrow> bool" where
  "line_ok l \<longleftrightarrow> l \<noteq> [] \<and> newline \<notin> set l \<and> last l \<noteq> carriage \<and> hd l \<noteq> CHR '';'' \<and>
     l \<noteq> ''.text'' \<and> l \<noteq> ''.data'' \<and> \<not> has_prefix ''.bss '' l \<and> \<not> has_prefix ''.sym '' l"

definition name_ok :: "string \<Rightarrow> bool" where
  "name_ok nm \<longleftrightarrow> nm \<noteq> [] \<and> length nm \<le> 511 \<and> list_all (\<lambda>c. \<not> is_space c) nm"

definition sym_ok :: "obj_symbol \<Rightarrow> bool" where
  "sym_ok s \<longleftrightarrow> name_ok (sy_name s) \<and> (sy_segment s = 0 \<or> sy_segment s = 1) \<and>
     in_long (sy_offset s) \<and> in_long (sy_size s)"

definition obj_ok :: "obj \<Rightarrow> bool" where
  "obj_ok ob \<longleftrightarrow> list_all line_ok (text_lines ob) \<and> list_all line_ok (data_lines ob) \<and>
     list_all (\<lambda>(nm, len). name_ok nm \<and> in_long len) (bss_decls ob) \<and> list_all sym_ok (obj_syms ob)"

lemma file_chunks_lines:
  "newline \<notin> set l \<Longrightarrow> file_chunks acc (l @ newline # rest) = (acc @ l @ [newline]) # file_chunks [] rest"
  by (induction l arbitrary: acc) auto

lemma file_chunks_concat:
  "list_all (\<lambda>l. newline \<notin> set l) ls \<Longrightarrow>
     file_chunks [] (concat (map (\<lambda>l. l @ [newline]) ls)) = map (\<lambda>l. l @ [newline]) ls"
  by (induction ls) (auto simp: file_chunks_lines)

lemma strip_eol_line:
  assumes "newline \<notin> set l" and "l \<noteq> []" and "last l \<noteq> carriage"
  shows "strip_eol (l @ [newline]) = l"
proof -
  from assms(2) obtain xs x where x: "l = xs @ [x]"
    by (cases l rule: rev_cases) auto
  then show ?thesis
    using assms by (auto simp: strip_eol_def is_eol_def)
qed

lemma read_text_lines:
  "list_all line_ok ls \<Longrightarrow>
   fold read_line (map (\<lambda>l. l @ [newline]) ls) (1, ob) = (1, ob\<lparr>text_lines := text_lines ob @ ls\<rparr>)"
  by (induction ls arbitrary: ob) (simp_all add: read_line_def line_ok_def strip_eol_line obj_add_text_def)

lemma read_data_lines:
  "list_all line_ok ls \<Longrightarrow>
   fold read_line (map (\<lambda>l. l @ [newline]) ls) (2, ob) = (2, ob\<lparr>data_lines := data_lines ob @ ls\<rparr>)"
  by (induction ls arbitrary: ob) (simp_all add: read_line_def line_ok_def strip_eol_line obj_add_data_def)

lemma shown_chars: "c \<in> set (show_int v) \<Longrightarrow> is_digit c \<or> c = CHR ''-''"
  using digit_of_shown by (auto simp: show_int_def split: if_splits)

lemma shown_last: "show_int v \<noteq> []" "last (show_int v) \<noteq> carriage" "newline \<notin> set (show_int v)"
proof -
  show n: "show_int v \<noteq> []" by (simp add: show_int_def)
  have "\<not> is_digit carriage" "carriage \<noteq> CHR ''-''" "\<not> is_digit newline" "newline \<noteq> CHR ''-''"
    by (simp_all add: is_digit_def code_of_def carriage_def newline_def)
  then show "last (show_int v) \<noteq> carriage" "newline \<notin> set (show_int v)"
    using shown_chars [OF last_in_set [OF n]] shown_chars [of newline v] by metis+
qed

lemma name_plain: "name_ok nm \<Longrightarrow> newline \<notin> set nm"
  by (auto simp: name_ok_def list_all_iff is_space_def newline_def code_of_def)

lemma space_char: "is_space (CHR '' '')" "\<not> is_digit (CHR '' '')"
  by (simp_all add: is_space_def is_digit_def code_of_def)

lemma read_bss_line:
  assumes "name_ok nm" and "in_long len"
  shows "read_line (bss_line (nm, len) @ [newline]) (sec, ob) = (sec, obj_add_bss nm len ob)"
    and "newline \<notin> set (bss_line (nm, len))"
proof -
  show nl: "newline \<notin> set (bss_line (nm, len))"
    using name_plain [OF assms(1)] shown_last(3) by (auto simp: bss_line_def newline_def)
  have s: "strip_eol (bss_line (nm, len) @ [newline]) = bss_line (nm, len)"
    by (rule strip_eol_line [OF nl]) (use shown_last in \<open>simp_all add: bss_line_def\<close>)
  have w: "scan_word 511 (nm @ CHR '' '' # show_int len) = Some (nm, CHR '' '' # show_int len)"
    by (rule scan_word_shown(2)) (use assms(1) space_char in \<open>auto simp: name_ok_def\<close>)
  have l: "scan_long (CHR '' '' # show_int len) = Some (len, [])"
    using scan_long_show [OF assms(2), of "[]"] by simp
  show "read_line (bss_line (nm, len) @ [newline]) (sec, ob) = (sec, obj_add_bss nm len ob)"
    unfolding read_line_def s by (simp add: bss_line_def has_prefix_def read_bss_def w l)
qed

lemma read_sym_line:
  assumes "sym_ok s"
  shows "read_line (sym_line s @ [newline]) (sec, ob) = (sec, ob\<lparr>obj_syms := s # obj_syms ob\<rparr>)"
    and "newline \<notin> set (sym_line s)"
proof -
  have ok: "name_ok (sy_name s)" "in_long (sy_offset s)" "in_long (sy_size s)"
    using assms by (simp_all add: sym_ok_def)
  show nl: "newline \<notin> set (sym_line s)"
    using name_plain [OF ok(1)] shown_last(3) by (auto simp: sym_line_def newline_def)
  have e: "strip_eol (sym_line s @ [newline]) = sym_line s"
    by (rule strip_eol_line [OF nl]) (use shown_last in \<open>simp_all add: sym_line_def\<close>)
  have w: "scan_word 511 (sy_name s @ CHR '' '' # r) = Some (sy_name s, CHR '' '' # r)" for r
    by (rule scan_word_shown(2)) (use ok(1) space_char in \<open>auto simp: name_ok_def\<close>)
  have k: "scan_word 7 (CHR '' '' # CHR ''D'' # CHR '' '' # r) = Some (''D'', CHR '' '' # r)"
      "scan_word 7 (CHR '' '' # CHR ''T'' # CHR '' '' # r) = Some (''T'', CHR '' '' # r)"
      "scan_word 15 (CHR '' '' # CHR ''d'' # CHR ''a'' # CHR ''t'' # CHR ''a'' # CHR '' '' # r) = Some (''data'', CHR '' '' # r)"
      "scan_word 15 (CHR '' '' # CHR ''t'' # CHR ''e'' # CHR ''x'' # CHR ''t'' # CHR '' '' # r) = Some (''text'', CHR '' '' # r)" for r
    using scan_word_shown(1) [of "''D''" 7 "CHR '' '' # r"] scan_word_shown(1) [of "''T''" 7 "CHR '' '' # r"]
      scan_word_shown(1) [of "''data''" 15 "CHR '' '' # r"] scan_word_shown(1) [of "''text''" 15 "CHR '' '' # r"]
    by (simp_all add: is_space_def code_of_def)
  have l: "scan_long (CHR '' '' # show_int (sy_offset s) @ CHR '' '' # r) = Some (sy_offset s, CHR '' '' # r)" for r
    using scan_long_show [OF ok(2)] space_char by simp
  have z: "scan_long (CHR '' '' # show_int (sy_size s)) = Some (sy_size s, [])"
    using scan_long_show [OF ok(3), of "[]"] by simp
  show "read_line (sym_line s @ [newline]) (sec, ob) = (sec, ob\<lparr>obj_syms := s # obj_syms ob\<rparr>)"
    using assms unfolding read_line_def e
    by (cases "sy_is_data s") (auto simp: sym_line_def has_prefix_def read_sym_def w k l z obj_add_symbol_def sym_ok_def)
qed

lemma read_bss_lines:
  "list_all (\<lambda>(nm, len). name_ok nm \<and> in_long len) bs \<Longrightarrow>
   fold read_line (map (\<lambda>l. l @ [newline]) (map bss_line bs)) (sec, ob)
     = (sec, ob\<lparr>bss_decls := rev bs @ bss_decls ob\<rparr>)"
  by (induction bs arbitrary: ob) (auto simp: read_bss_line obj_add_bss_def)

lemma read_sym_lines:
  "list_all sym_ok ss \<Longrightarrow>
   fold read_line (map (\<lambda>l. l @ [newline]) (map sym_line ss)) (sec, ob)
     = (sec, ob\<lparr>obj_syms := rev ss @ obj_syms ob\<rparr>)"
  by (induction ss arbitrary: ob) (auto simp: read_sym_line)

text \<open>
  C15: an object survives being written and read: the lines come back as they were, and so do
  the bss declarations and the symbols, in the opposite order.
\<close>

theorem obj_read_write:
  assumes "obj_ok ob"
  shows "obj_read (obj_write ob) obj_new =
    ob\<lparr>bss_decls := rev (bss_decls ob), obj_syms := rev (obj_syms ob)\<rparr>"
proof -
  let ?ls = "[''; symcc object v1'', ''.text''] @ text_lines ob @ [''.data''] @ data_lines ob
      @ map bss_line (bss_decls ob) @ map sym_line (obj_syms ob)"
  have "list_all (\<lambda>l. newline \<notin> set l) ?ls"
    using assms read_bss_line(2) read_sym_line(2)
    by (auto simp: obj_ok_def line_ok_def list_all_iff newline_def)
  then have "file_chunks [] (obj_write ob) = map (\<lambda>l. l @ [newline]) ?ls"
    unfolding obj_write_def by (rule file_chunks_concat)
  moreover have "read_line (''; symcc object v1'' @ [newline]) (0, obj_new) = (0, obj_new)"
      "read_line (''.text'' @ [newline]) (0, obj_new) = (1, obj_new)"
      "read_line (''.data'' @ [newline]) (1, o1) = (2, o1)" for o1
    by (simp_all add: read_line_def strip_eol_def is_eol_def newline_def carriage_def)
  ultimately show ?thesis
    using assms read_text_lines read_data_lines read_bss_lines read_sym_lines
    by (simp add: obj_read_def obj_ok_def obj_new_def)
qed

definition demo_obj :: obj where
  "demo_obj = \<lparr>text_lines = [''main:'', ''    ret''], data_lines = [''    U32 7''],
     bss_decls = [(''buf'', 64)], obj_syms = [\<lparr>sy_name = ''main'', sy_is_data = False, sy_segment = 0,
       sy_offset = 0, sy_size = - 4\<rparr>]\<rparr>"

theorem obj_read_write_witness: "obj_read (obj_write demo_obj) obj_new = demo_obj"
proof -
  have "obj_ok demo_obj"
    by (simp add: obj_ok_def demo_obj_def line_ok_def name_ok_def sym_ok_def in_long_def has_prefix_def
        is_space_def code_of_def newline_def carriage_def)
  from obj_read_write [OF this] show ?thesis
    by (simp add: demo_obj_def)
qed

end
