(* ===== verification/Link.thy ===== *)
theory Link
  imports Obj Asm
begin

text \<open>
  The linker for flat programs, \<^verbatim>\<open>symcc/src/link.c\<close>. Jumps have 16-bit immediates, so every
  conditional jump goes to a trampoline in low memory and every call or jump to a symbol loads
  its target from a pool of words there; the objects' text and data may lie above 64 KB.

  The context of the code is the record \<open>ctx\<close>; its linked lists have their newest element first.
  An error of \<^verbatim>\<open>set_err\<close> is a value of \<open>link_error\<close>, with two more for what ends the program:
  an unclosed string in a line, and the store to \<^verbatim>\<open>pt[-1]\<close>, which the code reaches for a call of
  a register name. Numbers are the \<^verbatim>\<open>long\<close> and \<^verbatim>\<open>int\<close> of the host and do not overflow for objects that
  fit in its memory. The files are their contents, and allocation succeeds; the debugging
  output of \<^verbatim>\<open>resolve_dref\<close> is left out.
\<close>

section \<open>Data\<close>

datatype link_error =
    Unclosed_string | Wild_store
  | Low_region_exceeds int | Duplicate_local_label string | Reserved_name string
  | Duplicate_symbol string | Missing_text_label string | Missing_definition string
  | Undefined_jump_target string | Undefined_symbol string | Missing_tramp string
  | Out_of_range string int | Assemble_failed "asm_error option"

record local_sym =
  ls_name :: string
  ls_obj :: nat
  ls_segment :: int
  ls_off :: int

record gsymbol =
  gs_name :: string
  gs_is_data :: bool
  gs_segment :: int
  gs_obj :: nat
  gs_off :: int
  gs_builtin :: bool

record tramp =
  tr_obj :: nat
  tr_name :: string
  tr_addr :: int
  tr_target :: int
  tr_pool_idx :: int

record pool_slot =
  sl_obj :: nat
  sl_name :: string
  sl_rslot :: int

record ctx =
  objs :: "obj list"
  data_base :: int
  data_size :: int
  text_size :: int
  bss_base :: int
  bss_total :: int
  text_off :: "int list"
  data_off :: "int list"
  halt_base :: int
  pool_base :: int
  tramp_base :: int
  tramps :: "tramp list"
  pool_refs :: "(nat \<times> string \<times> int) list"
  pool_slots :: "pool_slot list"
  n_slots :: int
  n_call :: int
  n_jmp :: int
  ci_idx :: "int list"
  ji_idx :: "int list"
  locals :: "local_sym list"
  globals :: "gsymbol list"

definition n_tramp :: "ctx \<Rightarrow> int" where "n_tramp c = int (length (tramps c))"

definition align4 :: "int \<Rightarrow> int" where "align4 x = (x + 3) div 4 * 4"

fun mapE :: "('a \<Rightarrow> 'e + 'b) \<Rightarrow> 'a list \<Rightarrow> 'e + 'b list" where
  "mapE f [] = Inr []"
| "mapE f (x # xs) =
     (case f x of Inl e \<Rightarrow> Inl e
      | Inr y \<Rightarrow> (case mapE f xs of Inl e \<Rightarrow> Inl e | Inr ys \<Rightarrow> Inr (y # ys)))"


section \<open>Jump lines\<close>

definition cond_jumps :: "string list" where
  "cond_jumps = [''je'', ''jne'', ''jb'', ''jae'', ''jbe'', ''ja'', ''jl'', ''jge'', ''jle'', ''jg'']"

definition is_cond_jump :: "string \<Rightarrow> bool" where
  "is_cond_jump w \<longleftrightarrow> w \<in> set cond_jumps"

text \<open>A number of more than ten digits overflows the \<^verbatim>\<open>int\<close> of the code; here it is just not a register.\<close>

definition is_reg_name :: "string \<Rightarrow> bool" where
  "is_reg_name w \<longleftrightarrow>
     (if w = ''zr'' \<or> w = ''sp'' \<or> w = ''flags'' then True
      else if length w \<ge> 2 \<and> hd w = CHR ''r'' \<and> is_digit (w ! 1) \<and> w ! 1 \<noteq> CHR ''0'' then
        list_all is_digit (tl w) \<and> fst (digits 10 0 (tl w)) \<ge> 1 \<and> fst (digits 10 0 (tl w)) \<le> 13
      else False)"

definition is_sym_ident :: "string \<Rightarrow> bool" where
  "is_sym_ident w \<longleftrightarrow> w \<noteq> [] \<and> (is_alpha (hd w) \<or> hd w = CHR ''_'') \<and> list_all is_ident_char (tl w)"

definition skip_spaces :: "string \<Rightarrow> string" where
  "skip_spaces s = dropWhile (\<lambda>c. c = CHR '' '') s"

definition jump_parts :: "string \<Rightarrow> string \<times> string" where
  "jump_parts line =
     (let p = skip_spaces line;
          opr = take 7 (takeWhile (\<lambda>c. c \<noteq> CHR '' '') p);
          q = skip_spaces (drop (length opr) p)
      in (opr, take 511 (takeWhile (\<lambda>c. c \<noteq> CHR '';'' \<and> c \<noteq> CHR '' '') q)))"

definition is_call :: "string \<Rightarrow> bool" where
  "is_call line \<longleftrightarrow> (let (opr, tgt) = jump_parts line in opr = ''call'' \<and> is_sym_ident tgt)"

definition is_jmp :: "string \<Rightarrow> bool" where
  "is_jmp line \<longleftrightarrow>
     (let (opr, tgt) = jump_parts line in opr = ''jmp'' \<and> is_sym_ident tgt \<and> \<not> is_reg_name tgt)"

definition line_size_after :: "string \<Rightarrow> int option" where
  "line_size_after l = (if is_call l then Some 24 else if is_jmp l then Some 8 else obj_line_size l)"

definition slot_of :: "pool_slot list \<Rightarrow> nat \<Rightarrow> string \<Rightarrow> pool_slot option" where
  "slot_of slots oi name = find (\<lambda>s. sl_obj s = oi \<and> sl_name s = name) slots"

definition collect_line :: "nat \<Rightarrow> string \<Rightarrow> ctx \<Rightarrow> ctx" where
  "collect_line oi l c =
     (let (opr, tgt) = jump_parts l in
      if is_cond_jump opr then
        (if list_ex (\<lambda>t. tr_obj t = oi \<and> tr_name t = tgt) (tramps c) then c
         else c\<lparr>tramps := \<lparr>tr_obj = oi, tr_name = tgt, tr_addr = 0, tr_target = 0, tr_pool_idx = 0\<rparr>
                            # tramps c\<rparr>)
      else if (opr = ''call'' \<or> opr = ''jmp'') \<and> is_sym_ident tgt \<and> \<not> is_reg_name tgt then
        (let c1 = (case slot_of (pool_slots c) oi tgt of
                     Some _ \<Rightarrow> c
                   | None \<Rightarrow> c\<lparr>pool_slots := \<lparr>sl_obj = oi, sl_name = tgt, sl_rslot = n_slots c\<rparr> # pool_slots c,
                               n_slots := n_slots c + 1\<rparr>);
             rs = (case slot_of (pool_slots c1) oi tgt of Some s \<Rightarrow> sl_rslot s | None \<Rightarrow> -1);
             c2 = c1\<lparr>pool_refs := (oi, tgt, rs) # pool_refs c1\<rparr>
         in if opr = ''call'' then c2\<lparr>n_call := n_call c2 + 1\<rparr> else c2\<lparr>n_jmp := n_jmp c2 + 1\<rparr>)
      else c)"

text \<open>The text lines of all objects in scan order, each with the number of its object.\<close>

definition scan_lines :: "ctx \<Rightarrow> (nat \<times> string) list" where
  "scan_lines c = concat (map (\<lambda>(oi, ob). map (Pair oi) (text_lines ob)) (List.enumerate 0 (objs c)))"

definition collect_jumps :: "ctx \<Rightarrow> ctx" where
  "collect_jumps c = fold (\<lambda>(oi, l). collect_line oi l) (scan_lines c) c"

definition slot_rslot_of :: "ctx \<Rightarrow> nat \<Rightarrow> string \<Rightarrow> int" where
  "slot_rslot_of c oi name = (case slot_of (pool_slots c) oi name of Some s \<Rightarrow> sl_rslot s | None \<Rightarrow> -1)"


section \<open>Symbols\<close>

definition find_local :: "local_sym list \<Rightarrow> nat \<Rightarrow> int \<Rightarrow> string \<Rightarrow> local_sym option" where
  "find_local ls oi segment name = find (\<lambda>l. ls_obj l = oi \<and> ls_segment l = segment \<and> ls_name l = name) ls"

definition find_local_any :: "local_sym list \<Rightarrow> nat \<Rightarrow> string \<Rightarrow> local_sym option" where
  "find_local_any ls oi name = find (\<lambda>l. ls_obj l = oi \<and> ls_name l = name) ls"

definition find_global :: "gsymbol list \<Rightarrow> string \<Rightarrow> gsymbol option" where
  "find_global gs name = find (\<lambda>g. gs_name g = name) gs"

definition local_addr :: "ctx \<Rightarrow> nat \<Rightarrow> local_sym \<Rightarrow> int" where
  "local_addr c oi l = (if ls_segment l = 0 then text_off c ! oi else data_off c ! oi) + ls_off l"

definition resolve_jtarget :: "ctx \<Rightarrow> nat \<Rightarrow> string \<Rightarrow> link_error + int" where
  "resolve_jtarget c oi name =
     (case find_global (globals c) name of
        Some g \<Rightarrow> Inr (gs_off g)
      | None \<Rightarrow>
          (case find_local_any (locals c) oi name of
             Some l \<Rightarrow> Inr (local_addr c oi l)
           | None \<Rightarrow> Inl (Undefined_jump_target name)))"

text \<open>The bss declarations of all objects in order, with their distance from the start.\<close>

fun bss_offsets :: "int \<Rightarrow> (nat \<times> string \<times> int) list \<Rightarrow> (nat \<times> string \<times> int) list" where
  "bss_offsets cum [] = []"
| "bss_offsets cum ((oi, name, len) # bs) = (oi, name, cum) # bss_offsets (cum + len) bs"

definition all_bss :: "ctx \<Rightarrow> (nat \<times> string \<times> int) list" where
  "all_bss c = concat (map (\<lambda>(oi, ob). map (Pair oi) (bss_decls ob)) (List.enumerate 0 (objs c)))"

definition find_bss_sym :: "ctx \<Rightarrow> nat \<Rightarrow> string \<Rightarrow> int option" where
  "find_bss_sym c oi name =
     map_option (\<lambda>(_, _, cum). bss_base c + cum)
       (find (\<lambda>(oj, nm, _). oj = oi \<and> nm = name) (bss_offsets 0 (all_bss c)))"

definition resolve_dref :: "ctx \<Rightarrow> nat \<Rightarrow> string \<Rightarrow> link_error + int" where
  "resolve_dref c oi name =
     (case find_global (globals c) name of
        Some g \<Rightarrow> Inr (gs_off g)
      | None \<Rightarrow>
          (case find_local_any (locals c) oi name of
             Some l \<Rightarrow> Inr (local_addr c oi l)
           | None \<Rightarrow>
               (case find_bss_sym c oi name of
                  Some v \<Rightarrow> Inr v
                | None \<Rightarrow> Inl (Undefined_symbol name))))"


section \<open>Layout\<close>

fun sum_sizes :: "(string \<Rightarrow> int option) \<Rightarrow> string list \<Rightarrow> int option" where
  "sum_sizes f [] = Some 0"
| "sum_sizes f (l # ls) =
     (case f l of None \<Rightarrow> None | Some n \<Rightarrow> (case sum_sizes f ls of None \<Rightarrow> None | Some m \<Rightarrow> Some (n + m)))"

text \<open>The start of every object's part of a segment, and the end of the segment.\<close>

fun seg_offsets :: "(string \<Rightarrow> int option) \<Rightarrow> string list list \<Rightarrow> int \<Rightarrow> (int list \<times> int) option" where
  "seg_offsets f [] off = Some ([], off)"
| "seg_offsets f (ls # lss) off =
     (case sum_sizes f ls of
        None \<Rightarrow> None
      | Some n \<Rightarrow>
          (case seg_offsets f lss (off + n) of
             None \<Rightarrow> None
           | Some (offs, e) \<Rightarrow> Some (off # offs, e)))"

definition low_layout :: "int \<Rightarrow> ctx \<Rightarrow> link_error + ctx" where
  "low_layout crt0_size c =
     (let hb = crt0_size + 4;
          pb = (let x = align4 (hb + 4) in if x < 0x3000 then 0x3000 else x);
          tb = align4 (pb + 4 * (n_tramp c + n_slots c));
          bb = align4 (tb + 8 * n_tramp c)
      in if bb + bss_total c > 0x10000 then Inl (Low_region_exceeds (bb + bss_total c))
         else Inr (c\<lparr>halt_base := hb, pool_base := pb, tramp_base := tb, bss_base := bb\<rparr>))"

definition high_layout :: "ctx \<Rightarrow> link_error + ctx" where
  "high_layout c =
     (case seg_offsets line_size_after (map text_lines (tl (objs c))) (align4 (bss_base c + bss_total c)) of
        None \<Rightarrow> Inl Unclosed_string
      | Some (toffs, toff) \<Rightarrow>
          (case seg_offsets obj_line_size (map data_lines (objs c)) (align4 toff) of
             None \<Rightarrow> Inl Unclosed_string
           | Some (doffs, doff) \<Rightarrow>
               Inr (c\<lparr>text_off := 0 # toffs, text_size := toff, data_base := align4 toff,
                      data_off := doffs, data_size := doff - align4 toff\<rparr>)))"

definition layout :: "ctx \<Rightarrow> link_error + ctx" where
  "layout c =
     (let c1 = collect_jumps (c\<lparr>bss_total := sum_list (map (\<lambda>(_, _, len). len) (all_bss c))\<rparr>) in
      case sum_sizes line_size_after (text_lines (hd (objs c1))) of
        None \<Rightarrow> Inl Unclosed_string
      | Some crt0_size \<Rightarrow>
          (case low_layout crt0_size c1 of
             Inl e \<Rightarrow> Inl e
           | Inr c2 \<Rightarrow> high_layout c2))"


section \<open>Symbol tables\<close>

text \<open>A label of 256 characters or more is not checked for duplicates.\<close>

fun local_table ::
    "nat \<Rightarrow> int \<Rightarrow> (string \<Rightarrow> int option) \<Rightarrow> string list \<Rightarrow> int \<Rightarrow> local_sym list \<Rightarrow> link_error + local_sym list" where
  "local_table oi segment f [] off ls = Inr ls"
| "local_table oi segment f (l # lines) off ls =
     (let n = obj_label_name_len l; name = take n l in
      if n \<noteq> 0 \<and> n < 256 \<and> find_local ls oi segment name \<noteq> None then Inl (Duplicate_local_label name)
      else
        let ls' = (if n \<noteq> 0 then \<lparr>ls_name = name, ls_obj = oi, ls_segment = segment, ls_off = off\<rparr> # ls else ls)
        in (case f l of
              None \<Rightarrow> Inl Unclosed_string
            | Some len \<Rightarrow> local_table oi segment f lines (off + len) ls'))"

definition reserved :: "string list" where
  "reserved = [''__bss_start'', ''__bss_end'', ''end'']"

fun global_table :: "nat \<Rightarrow> obj_symbol list \<Rightarrow> gsymbol list \<Rightarrow> link_error + gsymbol list" where
  "global_table oi [] gs = Inr gs"
| "global_table oi (s # ss) gs =
     (if sy_name s \<in> set reserved then Inl (Reserved_name (sy_name s))
      else if find_global gs (sy_name s) \<noteq> None then Inl (Duplicate_symbol (sy_name s))
      else global_table oi ss
        (\<lparr>gs_name = sy_name s, gs_is_data = sy_is_data s, gs_segment = sy_segment s, gs_obj = oi,
          gs_off = 0, gs_builtin = False\<rparr> # gs))"

fun symbol_tables ::
    "(nat \<times> obj) list \<Rightarrow> local_sym list \<Rightarrow> gsymbol list \<Rightarrow> link_error + local_sym list \<times> gsymbol list" where
  "symbol_tables [] ls gs = Inr (ls, gs)"
| "symbol_tables ((oi, ob) # obs) ls gs =
     (case local_table oi 0 line_size_after (text_lines ob) 0 ls of
        Inl e \<Rightarrow> Inl e
      | Inr ls1 \<Rightarrow>
     (case local_table oi 1 obj_line_size (data_lines ob) 0 ls1 of
        Inl e \<Rightarrow> Inl e
      | Inr ls2 \<Rightarrow>
     (case global_table oi (obj_syms ob) gs of
        Inl e \<Rightarrow> Inl e
      | Inr gs1 \<Rightarrow> symbol_tables obs ls2 gs1)))"

definition builtin :: "string \<Rightarrow> int \<Rightarrow> gsymbol" where
  "builtin name off =
     \<lparr>gs_name = name, gs_is_data = False, gs_segment = 0, gs_obj = 0, gs_off = off, gs_builtin = True\<rparr>"

definition bss_end :: "ctx \<Rightarrow> int" where
  "bss_end c = align4 (bss_base c + bss_total c)"

definition add_builtins :: "ctx \<Rightarrow> gsymbol list \<Rightarrow> gsymbol list" where
  "add_builtins c gs =
     builtin ''end'' (bss_end c) # builtin ''__bss_end'' (bss_end c) # builtin ''__bss_start'' (bss_base c) # gs"

definition place_global :: "ctx \<Rightarrow> gsymbol \<Rightarrow> link_error + gsymbol" where
  "place_global c g =
     (if gs_builtin g then Inr g
      else if gs_segment g = 0 then
        (case find_local (locals c) (gs_obj g) 0 (gs_name g) of
           None \<Rightarrow> Inl (Missing_text_label (gs_name g))
         | Some l \<Rightarrow> Inr (g\<lparr>gs_off := text_off c ! gs_obj g + ls_off l\<rparr>))
      else
        (case find_local (locals c) (gs_obj g) 1 (gs_name g) of
           Some l \<Rightarrow> Inr (g\<lparr>gs_off := data_off c ! gs_obj g + ls_off l\<rparr>)
         | None \<Rightarrow>
             (case find_bss_sym c (gs_obj g) (gs_name g) of
                Some v \<Rightarrow> Inr (g\<lparr>gs_off := v\<rparr>)
              | None \<Rightarrow> Inl (Missing_definition (gs_name g)))))"

definition symbols :: "ctx \<Rightarrow> link_error + ctx" where
  "symbols c =
     (case symbol_tables (List.enumerate 0 (objs c)) [] [] of
        Inl e \<Rightarrow> Inl e
      | Inr (ls, gs) \<Rightarrow>
          (case mapE (place_global (c\<lparr>locals := ls\<rparr>)) (add_builtins c gs) of
             Inl e \<Rightarrow> Inl e
           | Inr gs' \<Rightarrow> Inr (c\<lparr>locals := ls, globals := gs'\<rparr>)))"


section \<open>Trampolines and the pool\<close>

definition place_tramp :: "ctx \<Rightarrow> nat \<times> tramp \<Rightarrow> link_error + tramp" where
  "place_tramp c kt =
     (let (k, t) = kt in
      case resolve_jtarget c (tr_obj t) (tr_name t) of
        Inl e \<Rightarrow> Inl e
      | Inr v \<Rightarrow> Inr (t\<lparr>tr_target := v, tr_pool_idx := int k, tr_addr := tramp_base c + 8 * int k\<rparr>))"

definition place_tramps :: "ctx \<Rightarrow> link_error + ctx" where
  "place_tramps c =
     (case mapE (place_tramp c) (List.enumerate 0 (tramps c)) of
        Inl e \<Rightarrow> Inl e
      | Inr ts \<Rightarrow> Inr (c\<lparr>tramps := ts\<rparr>))"

text \<open>The pool values and the slots of the calls and jumps in scan order.\<close>

definition pool_use :: "ctx \<Rightarrow> nat \<Rightarrow> string \<Rightarrow> int list \<Rightarrow> link_error + int \<times> int list" where
  "pool_use c oi tgt pt =
     (case resolve_jtarget c oi tgt of
        Inl e \<Rightarrow> Inl e
      | Inr v \<Rightarrow>
          (let rs = slot_rslot_of c oi tgt in
           if rs < 0 then Inl Wild_store else Inr (rs, pt[nat rs := v])))"

fun pool_values ::
    "ctx \<Rightarrow> (nat \<times> string) list \<Rightarrow> int list \<Rightarrow> int list \<Rightarrow> int list \<Rightarrow> link_error + int list \<times> int list \<times> int list" where
  "pool_values c [] pt ci ji = Inr (pt, ci, ji)"
| "pool_values c ((oi, l) # ls) pt ci ji =
     (if is_call l then
        (case pool_use c oi (snd (jump_parts l)) pt of
           Inl e \<Rightarrow> Inl e
         | Inr (rs, pt') \<Rightarrow> pool_values c ls pt' (ci @ [rs]) ji)
      else if is_jmp l then
        (case pool_use c oi (snd (jump_parts l)) pt of
           Inl e \<Rightarrow> Inl e
         | Inr (rs, pt') \<Rightarrow> pool_values c ls pt' ci (ji @ [rs]))
      else pool_values c ls pt ci ji)"


section \<open>Rewriting a line\<close>

definition addend :: "string \<Rightarrow> int \<times> string" where
  "addend rest =
     (let np = skip_spaces rest in
      if np \<noteq> [] \<and> hd np = CHR ''+'' then
        (case strtol0 (skip_spaces (tl np)) of
           Some (a, e) \<Rightarrow> if e = [] \<or> hd e = CHR '' '' \<or> hd e = CHR '';'' then (a, e) else (0, rest)
         | None \<Rightarrow> (0, rest))
      else (0, rest))"

text \<open>A word of a line and the text after it; a reference is replaced by its number.\<close>

definition emit_word :: "ctx \<Rightarrow> nat \<Rightarrow> string \<Rightarrow> string \<Rightarrow> link_error + string \<times> string" where
  "emit_word c oi w rest =
     (if w = [] \<or> hd w \<noteq> CHR ''@'' then Inr (w, rest)
      else if has_prefix ''@hi:'' w then
        (case resolve_dref c oi (drop 4 w) of
           Inl e \<Rightarrow> Inl e | Inr v \<Rightarrow> Inr (''0x'' @ show_hex_pad 4 (v div 65536 mod 65536), rest))
      else if has_prefix ''@lo:'' w then
        (case resolve_dref c oi (drop 4 w) of
           Inl e \<Rightarrow> Inl e | Inr v \<Rightarrow> Inr (''0x'' @ show_hex_pad 4 (v mod 65536), rest))
      else if has_prefix ''@32:'' w then
        (case resolve_dref c oi (drop 4 w) of
           Inl e \<Rightarrow> Inl e
         | Inr v \<Rightarrow> (let (a, rest') = addend rest in Inr (''0x'' @ show_hex_pad 8 (v + a), rest')))
      else
        (case resolve_dref c oi (tl w) of
           Inl e \<Rightarrow> Inl e
         | Inr v \<Rightarrow>
             (let (a, rest') = addend rest in
              if v + a > 0xFFFF then Inl (Out_of_range (tl w) (v + a))
              else Inr (''0x'' @ show_hex (v + a), rest'))))"

lemma digits_shorter: "length (snd (digits b acc s)) \<le> length s"
  by (induction b acc s rule: digits.induct) auto

lemma strtol0_shorter: "strtol0 s = Some (v, e) \<Longrightarrow> length e \<le> length s"
proof -
  assume "strtol0 s = Some (v, e)"
  then obtain b k where e: "e = snd (digits b 0 (drop k (snd (take_sign (dropWhile is_space s)))))"
    by (auto simp: strtol0_def Let_def split: prod.splits if_splits)
      (metis drop_0 snd_conv | metis snd_conv)+
  have "length (snd (take_sign (dropWhile is_space s))) \<le> length s"
    using length_dropWhile_le [of is_space s] by (auto simp: take_sign_def)
  then show ?thesis
    using digits_shorter [of b 0 "drop k (snd (take_sign (dropWhile is_space s)))"] e by simp
qed

lemma skip_spaces_shorter: "length (skip_spaces s) \<le> length s"
  by (simp add: skip_spaces_def length_dropWhile_le)

lemma addend_shorter: "addend rest = (a, rest') \<Longrightarrow> length rest' \<le> length rest"
proof -
  assume a: "addend rest = (a, rest')"
  have "length e \<le> length rest" if "strtol0 (skip_spaces (tl (skip_spaces rest))) = Some (v, e)" for v e
    using strtol0_shorter [OF that] skip_spaces_shorter [of "tl (skip_spaces rest)"] skip_spaces_shorter [of rest]
    by simp
  then show ?thesis
    using a by (auto simp: addend_def Let_def split: if_splits option.splits prod.splits)
qed

lemma emit_word_shorter: "emit_word c oi w rest = Inr (out, rest') \<Longrightarrow> length rest' \<le> length rest"
  using addend_shorter
  by (auto simp: emit_word_def split: if_splits sum.splits prod.splits)

definition word_end :: "char \<Rightarrow> bool" where "word_end c \<longleftrightarrow> c = CHR '' '' \<or> c = CHR '';''"

function emit_words :: "ctx \<Rightarrow> nat \<Rightarrow> string \<Rightarrow> link_error + string" where
  "emit_words c oi rest =
     (if rest = [] then Inr []
      else
        let sp = takeWhile (\<lambda>c. c = CHR '' '') rest; r1 = skip_spaces rest in
        if r1 \<noteq> [] \<and> hd r1 = CHR '';'' then Inr (sp @ r1)
        else
          (case emit_word c oi (take 511 (takeWhile (\<lambda>x. \<not> word_end x) r1)) (dropWhile (\<lambda>x. \<not> word_end x) r1) of
             Inl e \<Rightarrow> Inl e
           | Inr (out, r2) \<Rightarrow>
               (case emit_words c oi r2 of Inl e \<Rightarrow> Inl e | Inr out' \<Rightarrow> Inr (sp @ out @ out'))))"
  by auto
termination
proof (relation "measure (\<lambda>(c, oi, rest). length rest)")
  fix c :: ctx and oi :: nat and rest sp r1 out r2 :: string and x
  assume a: "rest \<noteq> []" "sp = takeWhile (\<lambda>c. c = CHR '' '') rest" "r1 = skip_spaces rest"
    "\<not> (r1 \<noteq> [] \<and> hd r1 = CHR '';'')"
    "emit_word c oi (take 511 (takeWhile (\<lambda>x. \<not> word_end x) r1)) (dropWhile (\<lambda>x. \<not> word_end x) r1) = Inr x"
    "(out, r2) = x"
  have "length (dropWhile (\<lambda>x. \<not> word_end x) r1) < length rest"
  proof (cases "hd rest = CHR '' ''")
    case True
    with a(1,3) have "length r1 < length rest"
      by (cases rest) (auto simp: skip_spaces_def intro: le_imp_less_Suc length_dropWhile_le)
    then show ?thesis
      using length_dropWhile_le [of "\<lambda>x. \<not> word_end x" r1] by simp
  next
    case False
    with a(1,3,4) obtain d ds where "rest = d # ds" "r1 = d # ds" "\<not> word_end d"
      by (cases rest) (auto simp: skip_spaces_def word_end_def)
    then show ?thesis
      using length_dropWhile_le [of "\<lambda>x. \<not> word_end x" ds] by simp
  qed
  with a(5,6) show "((c, oi, r2), (c, oi, rest)) \<in> measure (\<lambda>(c, oi, rest). length rest)"
    using emit_word_shorter by fastforce
qed simp

declare emit_words.simps [simp del]

definition call_stub :: "string \<Rightarrow> int \<Rightarrow> string list" where
  "call_stub tgt pa =
     [''    counter flags         ; call '' @ tgt,
      ''    add flags, flags, 24 ; '' @ 
        [CHR 0xE8, CHR 0xBF, CHR 0x94, CHR 0xE5, CHR 0x9B, CHR 0x9E, CHR 0xE5, CHR 0x9C, CHR 0xB0, CHR 0xE5, CHR 0x9D, CHR 0x80,
         CHR 0x20, CHR 0x3D, CHR 0x20, CHR 0xE6, CHR 0xA1, CHR 0xA9, CHR 0xE9, CHR 0xA6, CHR 0x96, CHR 0x20, CHR 0x2B, CHR 0x20, CHR 0x32, CHR 0x34],
      ''    sub sp, sp, 4'', ''    store_32 [sp], flags'',
      ''    load_32 r13, [0x'' @ show_hex pa @ '']'', ''    jmp r13'']"

definition jmp_stub :: "int \<Rightarrow> string list" where
  "jmp_stub pa = [''    load_32 r13, [0x'' @ show_hex pa @ '']'', ''    jmp r13'']"

definition slot_addr :: "ctx \<Rightarrow> int \<Rightarrow> int" where
  "slot_addr c rs = pool_base c + 4 * (n_tramp c + rs)"

text \<open>The lines written for a line, and how many calls and jumps have been written.\<close>

definition emit_line :: "ctx \<Rightarrow> nat \<Rightarrow> string \<Rightarrow> nat \<Rightarrow> nat \<Rightarrow> link_error + string list \<times> nat \<times> nat" where
  "emit_line c oi line calls jmps =
     (let n = obj_label_name_len line; p = skip_spaces line; (opr, tgt) = jump_parts line in
      if n \<noteq> 0 then
        (case find_global (globals c) (take n line) of
           Some g \<Rightarrow>
             if \<not> gs_is_data g \<and> gs_segment g = 0 then Inr ([take n line @ '':''], calls, jmps)
             else Inr ([], calls, jmps)
         | None \<Rightarrow> Inr ([], calls, jmps))
      else if p = [] \<or> hd p = CHR '';'' \<or> hd p = dquote then Inr ([line], calls, jmps)
      else if is_cond_jump opr then
        (case find (\<lambda>t. tr_obj t = oi \<and> tr_name t = tgt) (tramps c) of
           None \<Rightarrow> Inl (Missing_tramp tgt)
         | Some t \<Rightarrow> Inr ([''    '' @ opr @ '' 0x'' @ show_hex (tr_addr t)], calls, jmps))
      else if is_call line then
        Inr (call_stub tgt (slot_addr c (ci_idx c ! calls)), Suc calls, jmps)
      else if is_jmp line then
        Inr (jmp_stub (slot_addr c (ji_idx c ! jmps)), calls, Suc jmps)
      else
        (case emit_words c oi line of Inl e \<Rightarrow> Inl e | Inr out \<Rightarrow> Inr ([out], calls, jmps)))"

fun emit_lines :: "ctx \<Rightarrow> (nat \<times> string) list \<Rightarrow> nat \<Rightarrow> nat \<Rightarrow> link_error + string list \<times> nat \<times> nat" where
  "emit_lines c [] calls jmps = Inr ([], calls, jmps)"
| "emit_lines c ((oi, l) # ls) calls jmps =
     (case emit_line c oi l calls jmps of
        Inl e \<Rightarrow> Inl e
      | Inr (out, calls1, jmps1) \<Rightarrow>
          (case emit_lines c ls calls1 jmps1 of
             Inl e \<Rightarrow> Inl e
           | Inr (outs, calls2, jmps2) \<Rightarrow> Inr (out @ outs, calls2, jmps2)))"


section \<open>The image\<close>

definition pool_lines :: "ctx \<Rightarrow> int list \<Rightarrow> string list" where
  "pool_lines c pt =
     replicate (nat ((pool_base c - (halt_base c + 4) + 3) div 4)) ''    U32 0''
     @ [''; jump target pool ('' @ show_int (n_tramp c + n_slots c) @ '' entries)'']
     @ map (\<lambda>t. ''    U32 0x'' @ show_hex_pad 8 (tr_target t)) (tramps c)
     @ map (\<lambda>v. ''    U32 0x'' @ show_hex_pad 8 v) pt"

definition tramp_lines :: "ctx \<Rightarrow> string list" where
  "tramp_lines c =
     [''; trampolines ('' @ show_int (n_tramp c) @ '')'']
     @ concat (map (\<lambda>t. jmp_stub (pool_base c + 4 * tr_pool_idx t)) (tramps c))"

definition bss_lines :: "ctx \<Rightarrow> string list" where
  "bss_lines c = replicate (nat ((bss_end c - bss_base c) div 4)) ''    U32 0x00000000''"

definition object_lines :: "(obj \<Rightarrow> string list) \<Rightarrow> nat \<Rightarrow> obj list \<Rightarrow> (nat \<times> string) list" where
  "object_lines f k obs = concat (map (\<lambda>(oi, ob). map (Pair oi) (f ob)) (List.enumerate k obs))"

definition link_output :: "ctx \<Rightarrow> int list \<Rightarrow> link_error + string list" where
  "link_output c pt =
     (case emit_lines c (object_lines text_lines 0 (take 1 (objs c))) 0 0 of
        Inl e \<Rightarrow> Inl e
      | Inr (crt0, calls, jmps) \<Rightarrow>
     (case emit_lines c (object_lines text_lines 1 (tl (objs c))) calls jmps of
        Inl e \<Rightarrow> Inl e
      | Inr (text, calls, jmps) \<Rightarrow>
     (case emit_lines c (object_lines data_lines 0 (objs c)) calls jmps of
        Inl e \<Rightarrow> Inl e
      | Inr (data, calls, jmps) \<Rightarrow>
          Inr (crt0 @ [''    jmp halt'', ''halt:'', ''    jmp halt''] @ pool_lines c pt @ tramp_lines c
               @ bss_lines c @ text @ data))))"

definition empty_ctx :: "obj list \<Rightarrow> ctx" where
  "empty_ctx obs =
     \<lparr>objs = obs, data_base = 0, data_size = 0, text_size = 0, bss_base = 0, bss_total = 0,
      text_off = [], data_off = [], halt_base = 0, pool_base = 0, tramp_base = 0, tramps = [],
      pool_refs = [], pool_slots = [], n_slots = 0, n_call = 0, n_jmp = 0, ci_idx = [], ji_idx = [],
      locals = [], globals = []\<rparr>"

text \<open>The context with everything resolved, and the pool.\<close>

definition resolve_all :: "obj list \<Rightarrow> link_error + ctx \<times> int list" where
  "resolve_all obs =
     (case layout (empty_ctx obs) of
        Inl e \<Rightarrow> Inl e
      | Inr c1 \<Rightarrow>
     (case symbols c1 of
        Inl e \<Rightarrow> Inl e
      | Inr c2 \<Rightarrow>
     (case place_tramps c2 of
        Inl e \<Rightarrow> Inl e
      | Inr c3 \<Rightarrow>
     (case pool_values c3 (scan_lines c3) (replicate (nat (n_slots c3)) 0) [] [] of
        Inl e \<Rightarrow> Inl e
      | Inr (pt, ci, ji) \<Rightarrow> Inr (c3\<lparr>ci_idx := ci, ji_idx := ji\<rparr>, pt)))))"

text \<open>The start-up file: lines of at most 1023 characters, with the frame buffer's address put in.\<close>

fun fgets_chunks :: "string \<Rightarrow> string \<Rightarrow> string list" where
  "fgets_chunks acc [] = (if acc = [] then [] else [acc])"
| "fgets_chunks acc (c # cs) =
     (if c = newline \<or> length acc + 1 = 1023 then (acc @ [c]) # fgets_chunks [] cs
      else fgets_chunks (acc @ [c]) cs)"

definition strstr :: "string \<Rightarrow> string \<Rightarrow> nat option" where
  "strstr s ph = find (\<lambda>i. has_prefix ph (drop i s)) [0 ..< length s]"

function put_framebuf :: "string \<Rightarrow> string" where
  "put_framebuf line =
     (case strstr line ''FRAMEBUF_BASE'' of
        None \<Rightarrow> line
      | Some i \<Rightarrow> put_framebuf (take 1023 (take i line @ ''0x2000'' @ drop (i + 13) line)))"
  by auto
termination
proof (relation "measure length")
  fix line i
  assume "strstr line ''FRAMEBUF_BASE'' = Some i"
  then have "has_prefix ''FRAMEBUF_BASE'' (drop i line)"
    by (auto simp: strstr_def find_Some_iff)
  then have "take (length ''FRAMEBUF_BASE'') (drop i line) = ''FRAMEBUF_BASE''"
    unfolding has_prefix_def .
  then have "min (length (drop i line)) (length ''FRAMEBUF_BASE'') = length ''FRAMEBUF_BASE''"
    by (metis length_take)
  then show "(take 1023 (take i line @ ''0x2000'' @ drop (i + 13) line), line) \<in> measure length"
    by simp
qed simp

declare put_framebuf.simps [simp del]

definition crt0_obj :: "string \<Rightarrow> obj" where
  "crt0_obj crt0 = obj_new\<lparr>text_lines := map (\<lambda>l. put_framebuf (strip_eol l)) (fgets_chunks [] crt0)\<rparr>"

definition symld_link :: "obj list \<Rightarrow> string \<Rightarrow> link_error + string list" where
  "symld_link objs_in crt0 =
     (case resolve_all (crt0_obj crt0 # objs_in) of
        Inl e \<Rightarrow> Inl e
      | Inr (c, pt) \<Rightarrow> link_output c pt)"

definition text_of :: "string list \<Rightarrow> string" where
  "text_of ls = concat (map (\<lambda>l. l @ [newline]) ls)"

definition symld_link_bin :: "obj list \<Rightarrow> string \<Rightarrow> link_error + u8 list" where
  "symld_link_bin objs_in crt0 =
     (case symld_link objs_in crt0 of
        Inl e \<Rightarrow> Inl e
      | Inr ls \<Rightarrow>
          (case asm_assemble (text_of ls) (length (text_of ls) * 2 + 64) of
             Inl e \<Rightarrow> Inl (Assemble_failed e)
           | Inr (n, bs) \<Rightarrow> if n < 0 then Inl (Assemble_failed None) else Inr (take (nat n) bs)))"

end
