(* ===== verification/Sdk_Image.thy ===== *)
theory Sdk_Image
  imports Link
begin

text \<open>
  The linker for kernel and user images, \<^verbatim>\<open>symcc/src/link_image.c\<close>. Conditional jumps load their
  target into register 13 and jump to a gateway in low memory, calls and jumps to symbols load
  it and jump, so that an image may lie anywhere in its window. Images of C code for user space
  get a check at every \<^verbatim>\<open>__sp_poll_L\<close> label.

  \<^verbatim>\<open>unsigned\<close> has 32 bits and wraps. \<^verbatim>\<open>fail\<close> writes the message and sets \<^verbatim>\<open>failed\<close>, and the code often
  goes on, so the state holds the last error. \<open>None\<close> is the exit of the program, which an unclosed
  string in a line causes. \<^verbatim>\<open>emit\<close> appends its lines. Files are their contents and allocation
  succeeds; the build is that of the host.
\<close>

section \<open>State\<close>

datatype image_error =
    Bad_exit | Exceeds_window | Line_too_long | Duplicate_image_symbol string
  | Undefined_image_symbol string | Invalid_overlap | Label_too_long | D16_reference string
  | Invalid_window | Exceeds_address_window | Image_asm "asm_error option" | Legacy link_error

record image_sym =
  is_name :: string
  is_addr :: u32
  is_owner :: int
  is_exported :: bool

record img =
  im_syms :: "image_sym list"
  im_out :: "string list"
  im_failed :: "image_error option"
  im_poll :: bool

datatype image_kind = SP_IMAGE_LEGACY | SP_IMAGE_KERNEL | SP_IMAGE_USER

record link_options =
  lo_base :: u32
  lo_limit :: u32
  lo_branch_gate :: u32
  lo_syscall_gate :: u32
  lo_kind :: image_kind

definition POLL_BYTES :: u32 where "POLL_BYTES = 60"

definition a4 :: "u32 \<Rightarrow> u32" where "a4 x = (x + 3) AND (NOT 3)"

definition fail :: "image_error \<Rightarrow> img \<Rightarrow> img" where
  "fail e im = im\<lparr>im_failed := Some e\<rparr>"


section \<open>Addresses\<close>

definition advance :: "u32 \<Rightarrow> int \<Rightarrow> u32 \<Rightarrow> img \<Rightarrow> u32 \<times> img" where
  "advance pos bytes limit im =
     (if bytes < 0 \<or> pos > limit \<or> bytes > uint (limit - pos) then (pos, fail Exceeds_window im)
      else (pos + of_int bytes, im))"

definition align_image :: "u32 \<Rightarrow> u32 \<Rightarrow> img \<Rightarrow> u32 \<times> img" where
  "align_image pos limit im = advance pos (uint ((4 - (pos AND 3)) AND 3)) limit im"

definition emit :: "string list \<Rightarrow> img \<Rightarrow> img" where
  "emit ls im =
     (if length (text_of ls) \<ge> 4096 then fail Line_too_long im else im\<lparr>im_out := im_out im @ ls\<rparr>)"

definition add :: "string \<Rightarrow> u32 \<Rightarrow> int \<Rightarrow> bool \<Rightarrow> img \<Rightarrow> img" where
  "add name addr owner exp im =
     (if list_ex (\<lambda>s. is_name s = name \<and> (is_owner s = owner \<or> exp \<and> is_exported s)) (im_syms im)
      then fail (Duplicate_image_symbol name) im
      else im\<lparr>im_syms := im_syms im @ [\<lparr>is_name = name, is_addr = addr, is_owner = owner, is_exported = exp\<rparr>]\<rparr>)"

definition numeral_name :: "string \<Rightarrow> u32 option" where
  "numeral_name name =
     (case strtoull0 name of (v, e, _) \<Rightarrow> if name \<noteq> [] \<and> e = Some [] then Some (of_nat v) else None)"

definition find_sym :: "image_sym list \<Rightarrow> string \<Rightarrow> int \<Rightarrow> image_sym option" where
  "find_sym syms name owner =
     (case find (\<lambda>s. is_owner s = owner \<and> is_name s = name) syms of
        Some s \<Rightarrow> Some s
      | None \<Rightarrow> find (\<lambda>s. is_exported s \<and> is_name s = name) syms)"

definition resolve :: "string \<Rightarrow> int \<Rightarrow> img \<Rightarrow> u32 \<times> img" where
  "resolve name owner im =
     (case numeral_name name of
        Some v \<Rightarrow> (v, im)
      | None \<Rightarrow>
          (case find_sym (im_syms im) name owner of
             Some s \<Rightarrow> (is_addr s, im)
           | None \<Rightarrow> (0, fail (Undefined_image_symbol name) im)))"


section \<open>Lines\<close>

definition arg_stop :: "char \<Rightarrow> bool" where
  "arg_stop c \<longleftrightarrow> c = CHR '' '' \<or> c = CHR '';'' \<or> c = tab \<or> c = carriage \<or> c = newline"

definition parts :: "string \<Rightarrow> string \<times> string" where
  "parts s =
     (case scan_word 31 s of
        None \<Rightarrow> ([], [])
      | Some (opr, r) \<Rightarrow> (opr, take 511 (takeWhile (\<lambda>c. \<not> arg_stop c) (dropWhile is_space r))))"

definition is_poll :: "string \<Rightarrow> bool" where "is_poll opr \<longleftrightarrow> has_prefix ''__sp_poll_L'' opr"

definition is_reg :: "string \<Rightarrow> bool" where "is_reg s \<longleftrightarrow> isa_reg_index s \<ge> 0"

definition line_size :: "string \<Rightarrow> bool \<Rightarrow> u32 option" where
  "line_size s polling =
     (let (opr, arg) = parts s in
      if is_poll opr then Some (if polling then POLL_BYTES else 0)
      else if is_cond_jump opr then Some 16
      else if opr = ''call'' then Some 32
      else if opr = ''jmp'' \<and> \<not> is_reg arg then Some 16
      else map_option of_int (obj_line_size s))"

text \<open>
  Zeros up to an address. For an end in the last four bytes of the address space the first loop
  can wrap around and runs out of memory, which is an exit.
\<close>

definition pad :: "u32 \<Rightarrow> u32 \<Rightarrow> img \<Rightarrow> img option" where
  "pad start finish im =
     (if finish < start then Some (fail Invalid_overlap im)
      else
        let n = (unat finish - unat start) div 4 in
        if unat start + 4 * n \<ge> 2 ^ 32 - 4 then None
        else
          Some (fold (\<lambda>_. emit [''    U8 0'']) [0 ..< (unat finish - unat start) mod 4]
                 (fold (\<lambda>_. emit [''    U32 0'']) [0 ..< n] im)))"

definition exported :: "obj \<Rightarrow> string \<Rightarrow> bool" where
  "exported ob name \<longleftrightarrow> list_ex (\<lambda>s. sy_name s = name) (obj_syms ob)"

text \<open>The labels of an object's segment that starts at \<open>base\<close>.\<close>

fun labels :: "obj \<Rightarrow> int \<Rightarrow> string list \<Rightarrow> u32 \<Rightarrow> bool \<Rightarrow> img \<Rightarrow> img option" where
  "labels ob owner [] base in_text im = Some im"
| "labels ob owner (l # ls) base in_text im =
     (let n = obj_label_name_len l; name = take n l in
      if n \<noteq> 0 then
        (if n \<ge> 512 then Some (fail Label_too_long im)
         else labels ob owner ls (if in_text \<and> im_poll im \<and> is_poll name then base + POLL_BYTES else base) in_text
                (add name base owner (exported ob name) im))
      else
        (case (if in_text then line_size l (im_poll im) else map_option of_int (obj_line_size l)) of
           None \<Rightarrow> None
         | Some len \<Rightarrow> labels ob owner ls (base + len) in_text im))"

definition load_target :: "u32 \<Rightarrow> string list" where
  "load_target addr =
     [''    mov r13, 0x'' @ show_hex (uint (drop_bit 16 addr)), ''    lsl r13, r13, 16'',
      ''    or r13, r13, 0x'' @ show_hex (uint (addr AND 65535))]"

definition call_intro :: "string list" where
  "call_intro =
     [''    counter flags'', ''    add flags, flags, 32'', ''    sub sp, sp, 4'', ''    store_32 [sp], flags'']"


section \<open>Rewriting a line\<close>

text \<open>The text after \<^verbatim>\<open>@\<close>: the mode, the name, and what follows the name.\<close>

definition ref_mode :: "string \<Rightarrow> nat \<times> string" where
  "ref_mode s =
     (if has_prefix ''hi:'' s then (1, drop 3 s)
      else if has_prefix ''lo:'' s then (2, drop 3 s)
      else if has_prefix ''32:'' s then (3, drop 3 s) else (0, s))"

definition ref_name :: "string \<Rightarrow> string \<times> string" where
  "ref_name s = (let nm = take 511 (takeWhile is_ident_char s) in (nm, drop (length nm) s))"

definition ref_addend :: "string \<Rightarrow> u32 \<times> string" where
  "ref_addend s =
     (let p = skip_spaces s in
      if p \<noteq> [] \<and> hd p = CHR ''+'' then
        (case strtoull0 (tl p) of (v, Some e, _) \<Rightarrow> (of_nat v, e) | _ \<Rightarrow> (0, s))
      else (0, s))"

definition ref_value :: "nat \<Rightarrow> u32 \<Rightarrow> u32" where
  "ref_value mode v = (if mode = 1 then drop_bit 16 v else if mode = 2 then v AND 65535 else v)"

text \<open>
  One reference: its text, what follows it, and the new state; no text when it is out of the
  range of 16 bits.
\<close>

definition reference :: "string \<Rightarrow> int \<Rightarrow> img \<Rightarrow> string option \<times> string \<times> img" where
  "reference s owner im =
     (let (mode, s1) = ref_mode s; (name, s2) = ref_name s1; (v0, im1) = resolve name owner im;
          (a, s3) = ref_addend s2; v = ref_value mode (v0 + a)
      in if mode = 0 \<and> v > 65535 then (None, s3, fail (D16_reference name) im1)
         else (Some (''0x'' @ show_hex (uint v)), s3, im1))"

lemma strtoull0_shorter:
  assumes "strtoull0 s = (v, Some e, r)"
  shows "length e \<le> length s"
proof -
  define s1 where "s1 = dropWhile is_space s"
  define s2 where "s2 = (if s1 \<noteq> [] \<and> (hd s1 = CHR ''-'' \<or> hd s1 = CHR ''+'') then tl s1 else s1)"
  define s3 where "s3 = (if hex_prefix s2 then drop 2 s2 else s2)"
  define base :: nat where
    "base = (if hex_prefix s2 then 16 else if s2 \<noteq> [] \<and> hd s2 = CHR ''0'' then 8 else 10)"
  have "e = snd (digits base 0 s3)"
    using assms unfolding strtoull0_def Let_def s1_def [symmetric] s2_def [symmetric] s3_def [symmetric]
      base_def [symmetric]
    by (cases "digits base 0 s3") (simp split: if_splits)
  then have "length e \<le> length s3"
    using digits_shorter by simp
  also have "\<dots> \<le> length s1"
    by (auto simp: s3_def s2_def)
  also have "\<dots> \<le> length s"
    by (simp add: s1_def length_dropWhile_le)
  finally show ?thesis .
qed

lemma ref_addend_shorter: "ref_addend s = (a, r) \<Longrightarrow> length r \<le> length s"
proof -
  assume a: "ref_addend s = (a, r)"
  have "length e \<le> length s" if "strtoull0 (tl (skip_spaces s)) = (v, Some e, x)" for v e x
    using strtoull0_shorter [OF that] skip_spaces_shorter [of s] by simp
  then show ?thesis
    using a by (auto simp: ref_addend_def Let_def split: if_splits prod.splits option.splits)
qed

lemma reference_shorter: "reference s owner im = (out, r, im') \<Longrightarrow> length r \<le> length s"
proof -
  assume a: "reference s owner im = (out, r, im')"
  obtain mode s1 where m: "ref_mode s = (mode, s1)" by (cases "ref_mode s")
  obtain name s2 where n: "ref_name s1 = (name, s2)" by (cases "ref_name s1")
  obtain d s3 where d: "ref_addend s2 = (d, s3)" by (cases "ref_addend s2")
  have "length s1 \<le> length s" "length s2 \<le> length s1"
    using m n by (auto simp: ref_mode_def ref_name_def Let_def split: if_splits)
  moreover have "r = s3"
    using a by (auto simp: reference_def m n d Let_def split: prod.splits if_splits)
  ultimately show ?thesis
    using ref_addend_shorter [OF d] by simp
qed

text \<open>The text of a line with its references replaced; at 4032 characters the rest is dropped.\<close>

function rewrite :: "string \<Rightarrow> string \<Rightarrow> int \<Rightarrow> img \<Rightarrow> string option \<times> img" where
  "rewrite out s owner im =
     (if s = [] \<or> length out + 64 \<ge> 4096 \<or> hd s = CHR '';'' then (Some out, im)
      else if hd s \<noteq> CHR ''@'' then rewrite (out @ [hd s]) (tl s) owner im
      else
        (case reference (tl s) owner im of
           (None, _, im1) \<Rightarrow> (None, im1)
         | (Some x, r, im1) \<Rightarrow> rewrite (out @ x) r owner im1))"
  by auto
termination
proof (relation "measure (\<lambda>(out, s, owner, im). length s)", goal_cases)
  case (2 out s owner im)
  then show ?case by (cases s) auto
next
  case (3 out s owner im x z y r im1)
  then have "length r \<le> length (tl s)" "s \<noteq> []"
    using reference_shorter [of "tl s" owner im "Some y" r im1] by auto
  then show ?case
    by (cases s) auto
qed simp

declare rewrite.simps [simp del]

definition skip_blank_chars :: "string \<Rightarrow> string" where
  "skip_blank_chars s = dropWhile (\<lambda>c. c = CHR '' '' \<or> c = tab) s"

text \<open>A line that is not a label; \<open>opr\<close> and \<open>arg\<close> are its first two words.\<close>

definition code_line :: "string \<Rightarrow> string \<Rightarrow> string \<Rightarrow> int \<Rightarrow> link_options \<Rightarrow> img \<Rightarrow> img" where
  "code_line opr arg s owner opt im =
     (if is_cond_jump opr then
        (let (v, im1) = resolve arg owner im in
         emit [''    '' @ opr @ '' 0x'' @ show_hex (uint (lo_branch_gate opt))] (emit (load_target v) im1))
      else if opr = ''call'' then
        (let (v, im2) = resolve arg owner (emit call_intro im) in
         emit [''    jmp r13''] (emit (load_target v) im2))
      else if opr = ''jmp'' \<and> \<not> is_reg arg then
        (let (v, im1) = resolve arg owner im in
         emit [''    jmp r13''] (emit (load_target v) im1))
      else
        let d = skip_blank_chars s in
        if d = [] \<or> hd d = CHR '';'' \<or> hd d = dquote then emit [s] im
        else
          (case rewrite [] s owner im of
             (None, im1) \<Rightarrow> im1
           | (Some out, im1) \<Rightarrow> emit [out] im1))"

text \<open>The check at a poll label: every 4096th passage calls \<^verbatim>\<open>__sp_poll\<close>.\<close>

definition poll_check :: "string \<Rightarrow> int \<Rightarrow> link_options \<Rightarrow> img \<Rightarrow> img" where
  "poll_check opr owner opt im =
     (let (v, im1) = resolve (butlast opr) owner im;
          im2 = emit [''    add r12, r12, 1'', ''    and r12, r12, 4095'', ''    cmp r12, 0''] im1
      in emit [''    jne 0x'' @ show_hex (uint (lo_branch_gate opt))] (emit (load_target (v + POLL_BYTES)) im2))"

definition image_line :: "string \<Rightarrow> int \<Rightarrow> link_options \<Rightarrow> img \<Rightarrow> img" where
  "image_line s owner opt im =
     (let (opr, arg) = parts s in
      if obj_label_name_len s \<noteq> 0 then
        (if im_poll im \<and> is_poll opr then
           code_line ''call'' ''__sp_poll'' s owner opt (poll_check opr owner opt im)
         else if opr = ''main:'' then emit [''main:''] im else im)
      else code_line opr arg s owner opt im)"


section \<open>Layout\<close>

text \<open>
  How a phase of the link ends: the program exits, the code goes to \<^verbatim>\<open>done\<close> with an error in the
  state, or it goes on.
\<close>

datatype 'a flow = Exit | Done img | Go 'a

fun flow_bind :: "'a flow \<Rightarrow> ('a \<Rightarrow> 'b flow) \<Rightarrow> 'b flow" where
  "flow_bind Exit f = Exit"
| "flow_bind (Done im) f = Done im"
| "flow_bind (Go x) f = f x"

definition exit_or :: "'a option \<Rightarrow> 'a flow" where
  "exit_or r = (case r of None \<Rightarrow> Exit | Some x \<Rightarrow> Go x)"

text \<open>\<^verbatim>\<open>if(im.failed)goto done\<close>\<close>

definition check :: "u32 \<times> img \<Rightarrow> (u32 \<times> img) flow" where
  "check r = (if im_failed (snd r) \<noteq> None then Done (snd r) else Go r)"

text \<open>The position after the lines; the lines after an error are still counted.\<close>

fun advance_lines :: "(string \<Rightarrow> int option) \<Rightarrow> string list \<Rightarrow> u32 \<Rightarrow> u32 \<Rightarrow> img \<Rightarrow> (u32 \<times> img) option" where
  "advance_lines f [] pos limit im = Some (pos, im)"
| "advance_lines f (l # ls) pos limit im =
     (case f l of
        None \<Rightarrow> None
      | Some n \<Rightarrow> (let (pos1, im1) = advance pos n limit im in advance_lines f ls pos1 limit im1))"

definition size_in :: "bool \<Rightarrow> bool \<Rightarrow> string \<Rightarrow> int option" where
  "size_in in_text polling l = (if in_text then map_option uint (line_size l polling) else obj_line_size l)"

definition segment_lines :: "bool \<Rightarrow> obj \<Rightarrow> string list" where
  "segment_lines in_text ob = (if in_text then text_lines ob else data_lines ob)"

text \<open>One segment of the objects from number \<open>i\<close> on.\<close>

fun place_segment :: "bool \<Rightarrow> int \<Rightarrow> obj list \<Rightarrow> u32 \<Rightarrow> u32 \<Rightarrow> img \<Rightarrow> (u32 \<times> img) flow" where
  "place_segment in_text i [] pos limit im = Go (pos, im)"
| "place_segment in_text i (ob # obs) pos limit im =
     flow_bind (exit_or (advance_lines (size_in in_text (im_poll im)) (segment_lines in_text ob) pos limit im))
       (\<lambda>r. flow_bind (check r)
       (\<lambda>(pos1, im1). flow_bind (exit_or (labels ob i (segment_lines in_text ob) pos in_text im1))
       (\<lambda>im2. place_segment in_text (i + 1) obs pos1 limit im2)))"

fun place_decls :: "obj \<Rightarrow> int \<Rightarrow> (string \<times> int) list \<Rightarrow> u32 \<Rightarrow> u32 \<Rightarrow> img \<Rightarrow> (u32 \<times> img) flow" where
  "place_decls ob i [] pos limit im = Go (pos, im)"
| "place_decls ob i ((name, len) # bs) pos limit im =
     (let (p1, im1) = advance pos len limit im in
      flow_bind (check (align_image p1 limit im1))
        (\<lambda>(p2, im2). place_decls ob i bs p2 limit (add name pos i (exported ob name) im2)))"

fun place_bss :: "int \<Rightarrow> obj list \<Rightarrow> u32 \<Rightarrow> u32 \<Rightarrow> img \<Rightarrow> (u32 \<times> img) flow" where
  "place_bss i [] pos limit im = Go (pos, im)"
| "place_bss i (ob # obs) pos limit im =
     flow_bind (place_decls ob i (bss_decls ob) pos limit im)
       (\<lambda>(pos1, im1). place_bss (i + 1) obs pos1 limit im1)"

definition base_of :: "link_options \<Rightarrow> u32" where
  "base_of opt = (if lo_kind opt = SP_IMAGE_USER then lo_base opt else 0x3000)"

definition builtins :: "link_options \<Rightarrow> u32 \<Rightarrow> u32 \<Rightarrow> img \<Rightarrow> img" where
  "builtins opt bss bssend im =
     add ''__syscall_gate'' (lo_syscall_gate opt) (-1) True (add ''end'' bssend (-1) True
       (add ''__bss_end'' bssend (-1) True (add ''__bss_start'' bss (-1) True im)))"

text \<open>Where the loaded part, the bss and the image end.\<close>

record placed =
  pl_loaded :: u32
  pl_bss :: u32
  pl_end :: u32

definition place_image :: "obj list \<Rightarrow> link_options \<Rightarrow> img \<Rightarrow> (placed \<times> img) flow" where
  "place_image all opt im =
     flow_bind (place_segment True 0 all (base_of opt) (lo_limit opt) im)
       (\<lambda>(p1, im1). let (p2, im2) = align_image p1 (lo_limit opt) im1 in
      flow_bind (place_segment False 0 all p2 (lo_limit opt) im2)
       (\<lambda>(loaded, im3). let (bss, im4) = align_image loaded (lo_limit opt) im3 in
      flow_bind (place_bss 0 all bss (lo_limit opt) im4)
       (\<lambda>(bssend, im5). let im6 = builtins opt bss bssend im5 in
        if bssend > lo_limit opt \<or> base_of opt \<ge> lo_limit opt then Done (fail Exceeds_address_window im6)
        else Go (\<lparr>pl_loaded = loaded, pl_bss = bss, pl_end = bssend\<rparr>, im6))))"


section \<open>Writing the image\<close>

text \<open>The low memory of the kernel image: entry, gateways and stop.\<close>

definition kernel_entry :: "img \<Rightarrow> u32" where
  "kernel_entry im =
     fold (\<lambda>s e. if is_exported s \<and> is_name s = ''sp_syscall_entry'' then is_addr s else e) (im_syms im) 0x140"

definition kernel_low :: "link_options \<Rightarrow> img \<Rightarrow> img option" where
  "kernel_low opt im =
     (case pad 4 (lo_branch_gate opt) (emit [''    jmp 0x3000''] im) of
        None \<Rightarrow> None
      | Some im1 \<Rightarrow>
          (let im2 = emit [''    jmp r13''] im1;
               im3 = emit [''    jmp r13''] (emit (load_target (kernel_entry im2)) im2)
           in case pad (lo_syscall_gate opt + 16) 0x140 im3 of
                None \<Rightarrow> None
              | Some im4 \<Rightarrow> pad 0x144 (base_of opt) (emit [''halt:'', ''    jmp 0x140''] im4)))"

fun write_lines :: "bool \<Rightarrow> (nat \<times> string) list \<Rightarrow> link_options \<Rightarrow> u32 \<Rightarrow> img \<Rightarrow> (u32 \<times> img) option" where
  "write_lines in_text [] opt pos im = Some (pos, im)"
| "write_lines in_text ((i, l) # ls) opt pos im =
     (let im1 = image_line l (int i) opt im in
      case size_in in_text (im_poll im1) l of
        None \<Rightarrow> None
      | Some n \<Rightarrow> write_lines in_text ls opt (pos + of_int n) im1)"

definition write_image :: "obj list \<Rightarrow> link_options \<Rightarrow> placed \<Rightarrow> img \<Rightarrow> img flow" where
  "write_image all opt pl im =
     flow_bind (if lo_kind opt = SP_IMAGE_KERNEL then exit_or (kernel_low opt im) else Go im)
       (\<lambda>im1. flow_bind (exit_or (write_lines True (object_lines text_lines 0 all) opt (base_of opt) im1))
       (\<lambda>(pos, im2). flow_bind (exit_or (pad pos (a4 pos) im2))
       (\<lambda>im3. flow_bind (exit_or (write_lines False (object_lines data_lines 0 all) opt (a4 pos) im3))
       (\<lambda>(pos', im4). if lo_kind opt = SP_IMAGE_KERNEL then exit_or (pad pos' (pl_end pl) im4) else Go im4))))"

definition SP_EXEC_MAGIC :: u32 where "SP_EXEC_MAGIC = 0x53505831"

text \<open>The header of a user image, and the assembled code.\<close>

definition user_header :: "link_options \<Rightarrow> placed \<Rightarrow> u32 \<Rightarrow> u8 list" where
  "user_header opt pl entry_addr =
     concat (map be_bytes32
       [SP_EXEC_MAGIC, 1, entry_addr - base_of opt, pl_loaded pl - base_of opt, pl_end pl - pl_loaded pl, 65536, 0])"

definition assemble_image :: "link_options \<Rightarrow> placed \<Rightarrow> img \<Rightarrow> image_error + u8 list" where
  "assemble_image opt pl im =
     (let cap = (if lo_kind opt = SP_IMAGE_KERNEL then unat (pl_end pl) else unat (pl_loaded pl - base_of opt)) in
      case asm_assemble (text_of (im_out im)) cap of
        Inl e \<Rightarrow> Inl (Image_asm e)
      | Inr (len, bs) \<Rightarrow>
          (if len < 0 then Inl (Image_asm None)
           else if lo_kind opt = SP_IMAGE_USER then
             (let (start, im1) = resolve ''_start'' 0 im in
              case im_failed im1 of
                Some e \<Rightarrow> Inl e
              | None \<Rightarrow> Inr (user_header opt pl start @ take (nat len) bs))
           else Inr (take (nat len) bs)))"

text \<open>The start-up file: lines of at most 1023 characters without those that start with a dot.\<close>

definition start_line :: "string \<Rightarrow> string" where
  "start_line s =
     (case strstr s ''FRAMEBUF_BASE'' of
        None \<Rightarrow> s
      | Some i \<Rightarrow> take 1023 (take i s @ ''0x2000'' @ drop (i + 13) s))"

definition start_obj :: "string option \<Rightarrow> obj" where
  "start_obj crt0 =
     (case crt0 of
        None \<Rightarrow> obj_new
      | Some f \<Rightarrow>
          obj_new\<lparr>text_lines :=
            map start_line (filter (\<lambda>s. s = [] \<or> hd s \<noteq> CHR ''.'')
              (map (takeWhile (\<lambda>c. \<not> is_eol c)) (fgets_chunks [] f)))\<rparr>)"

definition start_img :: "obj list \<Rightarrow> link_options \<Rightarrow> img" where
  "start_img all opt =
     \<lparr>im_syms = [], im_out = [], im_failed = None,
      im_poll = (lo_kind opt = SP_IMAGE_USER \<and> list_ex (\<lambda>ob. exported ob ''__sp_poll'') all)\<rparr>"

definition link_image :: "obj list \<Rightarrow> link_options \<Rightarrow> (placed \<times> img) flow" where
  "link_image all opt =
     (if base_of opt \<ge> lo_limit opt then Done (fail Invalid_window (start_img all opt))
      else
        flow_bind (place_image all opt (start_img all opt))
          (\<lambda>(pl, im). flow_bind (write_image all opt pl im)
          (\<lambda>im1. if im_failed im1 \<noteq> None then Done im1 else Go (pl, im1))))"

definition legacy_link :: "obj list \<Rightarrow> string option \<Rightarrow> image_error + string list \<times> u8 list" where
  "legacy_link obs crt0 =
     (case crt0 of
        None \<Rightarrow> Inl Bad_exit
      | Some f \<Rightarrow>
          (case symld_link obs f of
             Inl e \<Rightarrow> Inl (Legacy e)
           | Inr ls \<Rightarrow> (case symld_link_bin obs f of Inl e \<Rightarrow> Inl (Legacy e) | Inr bs \<Rightarrow> Inr (ls, bs))))"

definition symld_link_ex ::
    "obj list \<Rightarrow> string option \<Rightarrow> link_options option \<Rightarrow> image_error + string list \<times> u8 list" where
  "symld_link_ex obs crt0 opt =
     (case opt of
        Some op \<Rightarrow>
          (if lo_kind op = SP_IMAGE_LEGACY then legacy_link obs crt0
           else
             (case link_image (start_obj crt0 # obs) op of
                Exit \<Rightarrow> Inl Bad_exit
              | Done im \<Rightarrow> Inl (case im_failed im of Some e \<Rightarrow> e | None \<Rightarrow> Bad_exit)
              | Go (pl, im) \<Rightarrow>
                  (case assemble_image op pl im of Inl e \<Rightarrow> Inl e | Inr bs \<Rightarrow> Inr (im_out im, bs))))
      | None \<Rightarrow> legacy_link obs crt0)"

end
