(* ===== verification/Link_Layout.thy ===== *)
theory Link_Layout
  imports Link
begin

text \<open>
  What the linker of \<^verbatim>\<open>symcc/src/link.c\<close> computes: the regions of the image and their bounds,
  the addresses of labels, and the slots of the pool that calls and jumps load.
\<close>

section \<open>Collecting the jump targets\<close>

text \<open>The slots are numbered from 0 and no two have the same object and name.\<close>

definition slots_ok :: "ctx \<Rightarrow> bool" where
  "slots_ok c \<longleftrightarrow>
     map sl_rslot (rev (pool_slots c)) = map int [0 ..< length (pool_slots c)] \<and>
     n_slots c = int (length (pool_slots c))"

lemma slots_range: "slots_ok c \<Longrightarrow> s \<in> set (pool_slots c) \<Longrightarrow> 0 \<le> sl_rslot s \<and> sl_rslot s < n_slots c"
proof -
  assume a: "slots_ok c" "s \<in> set (pool_slots c)"
  then have "sl_rslot s \<in> set (map sl_rslot (rev (pool_slots c)))"
    by simp
  also have "\<dots> = int ` {0 ..< length (pool_slots c)}"
    using a(1) by (simp add: slots_ok_def)
  finally show ?thesis
    using a(1) by (auto simp: slots_ok_def)
qed

lemma collect_line_keeps [simp]:
  "objs (collect_line oi l c) = objs c" "bss_total (collect_line oi l c) = bss_total c"
  by (simp_all add: collect_line_def Let_def split: prod.split option.split)

lemma collect_line_slots: "slots_ok c \<Longrightarrow> slots_ok (collect_line oi l c)"
  by (auto simp: collect_line_def slots_ok_def Let_def split: prod.split option.split)

lemma collect_fold_keeps:
  "objs (fold (\<lambda>(oi, l). collect_line oi l) ls c) = objs c \<and>
   bss_total (fold (\<lambda>(oi, l). collect_line oi l) ls c) = bss_total c \<and>
   (slots_ok c \<longrightarrow> slots_ok (fold (\<lambda>(oi, l). collect_line oi l) ls c))"
  by (induction ls arbitrary: c) (auto simp: collect_line_slots)

lemma collect_jumps_keeps [simp]:
  "objs (collect_jumps c) = objs c" "bss_total (collect_jumps c) = bss_total c"
  using collect_fold_keeps [of _ c] by (simp_all add: collect_jumps_def)

lemma collect_jumps_slots: "slots_ok c \<Longrightarrow> slots_ok (collect_jumps c)"
  using collect_fold_keeps [of _ c] by (simp add: collect_jumps_def)


section \<open>Regions\<close>

lemma align4_bounds: "x \<le> align4 x" "align4 x \<le> x + 3" "align4 x mod 4 = 0"
  unfolding align4_def by presburger+

lemma align4_aligned: "x mod 4 = 0 \<Longrightarrow> align4 x = x"
  unfolding align4_def by presburger

lemma sum_sizes_nonneg:
  "(\<And>l n. f l = Some n \<Longrightarrow> 0 \<le> n) \<Longrightarrow> sum_sizes f ls = Some m \<Longrightarrow> 0 \<le> m"
  by (induction ls arbitrary: m) (fastforce split: option.splits)+

lemma line_size_after_nonneg: "line_size_after l = Some n \<Longrightarrow> 0 \<le> n"
  using obj_line_size_nonneg by (auto simp: line_size_after_def split: if_splits)

text \<open>
  The regions of the low memory in their order: the start-up code, the two jumps to
  \<^verbatim>\<open>halt\<close>, the pool (above the frame buffer), the trampolines, the bss, all below 64 KB.
\<close>

definition regions_ok :: "ctx \<Rightarrow> bool" where
  "regions_ok c \<longleftrightarrow>
     4 \<le> halt_base c \<and> halt_base c + 4 \<le> pool_base c \<and> 0x3000 \<le> pool_base c \<and> pool_base c mod 4 = 0 \<and>
     tramp_base c = pool_base c + 4 * (n_tramp c + n_slots c) \<and>
     bss_base c = tramp_base c + 8 * n_tramp c \<and> bss_base c mod 4 = 0 \<and>
     bss_base c + bss_total c \<le> 0x10000"

lemma low_layout_regions:
  assumes "low_layout n c = Inr c'" and "0 \<le> n"
  shows "regions_ok c'" and "halt_base c' = n + 4"
    and "c' = c\<lparr>halt_base := halt_base c', pool_base := pool_base c', tramp_base := tramp_base c', bss_base := bss_base c'\<rparr>"
proof -
  define pb where "pb = (let x = align4 (n + 4 + 4) in if x < 0x3000 then 0x3000 else x)"
  have m: "pb mod 4 = 0" "n + 8 \<le> pb" "0x3000 \<le> pb"
    using align4_bounds [of "n + 4 + 4"] by (auto simp: pb_def Let_def)
  have t3: "(pb + 4 * k) mod 4 = 0" "(pb + 4 * k + 8 * j) mod 4 = 0" for k j
    using m(1) by presburger+
  have t: "align4 (pb + 4 * k) = pb + 4 * k" "align4 (pb + 4 * k + 8 * j) = pb + 4 * k + 8 * j" for k j
    by (rule align4_aligned, rule t3)+
  have "low_layout n c =
     (let tb = align4 (pb + 4 * (n_tramp c + n_slots c)); bb = align4 (tb + 8 * n_tramp c)
      in if bb + bss_total c > 0x10000 then Inl (Low_region_exceeds (bb + bss_total c))
         else Inr (c\<lparr>halt_base := n + 4, pool_base := pb, tramp_base := tb, bss_base := bb\<rparr>))"
    by (simp only: low_layout_def pb_def Let_def)
  with assms(1) have c': "c' = c\<lparr>halt_base := n + 4, pool_base := pb, tramp_base := pb + 4 * (n_tramp c + n_slots c),
      bss_base := pb + 4 * (n_tramp c + n_slots c) + 8 * n_tramp c\<rparr>"
      and fit: "pb + 4 * (n_tramp c + n_slots c) + 8 * n_tramp c + bss_total c \<le> 0x10000"
    by (simp_all only: Let_def t split: if_splits) simp_all
  show "halt_base c' = n + 4"
    by (simp add: c')
  show "regions_ok c'"
    unfolding regions_ok_def c' using m assms(2) fit t3(2) [of "n_tramp c + n_slots c" "n_tramp c"]
    by (simp add: n_tramp_def)
  show "c' = c\<lparr>halt_base := halt_base c', pool_base := pool_base c', tramp_base := tramp_base c', bss_base := bss_base c'\<rparr>"
    by (simp add: c')
qed


lemma mapE_Inr: "mapE f xs = Inr ys \<longleftrightarrow> list_all2 (\<lambda>x y. f x = Inr y) xs ys"
proof (induction xs arbitrary: ys)
  case (Cons x xs)
  show ?case
    by (cases ys) (auto simp: Cons.IH [symmetric] split: sum.splits)
qed auto

lemma seg_offsets_nth:
  assumes "seg_offsets f lss off = Some (offs, e)"
  shows "length offs = length lss \<and>
    (\<forall>i < length lss. \<exists>m n. sum_sizes f (concat (take i lss)) = Some m \<and> offs ! i = off + m \<and>
       sum_sizes f (lss ! i) = Some n) \<and>
    (\<exists>m. sum_sizes f (concat lss) = Some m \<and> e = off + m)"
proof -
  have app: "sum_sizes f (xs @ ys) = (case sum_sizes f xs of None \<Rightarrow> None
      | Some n \<Rightarrow> (case sum_sizes f ys of None \<Rightarrow> None | Some m \<Rightarrow> Some (n + m)))" for xs ys
    by (induction xs) (auto split: option.splits)
  show ?thesis
    using assms
  proof (induction lss arbitrary: off offs e)
    case Nil
    then show ?case by simp
  next
    case (Cons ls lss)
    from Cons.prems obtain n offs' where n: "sum_sizes f ls = Some n" "seg_offsets f lss (off + n) = Some (offs', e)"
        "offs = off # offs'"
      by (auto split: option.splits prod.splits)
    note IH = Cons.IH [OF n(2)]
    have "\<exists>m k. sum_sizes f (concat (take i (ls # lss))) = Some m \<and> offs ! i = off + m \<and>
        sum_sizes f ((ls # lss) ! i) = Some k" if "i < length (ls # lss)" for i
    proof (cases i)
      case 0
      with n show ?thesis by simp
    next
      case (Suc j)
      with that IH obtain m k where "sum_sizes f (concat (take j lss)) = Some m" "offs' ! j = off + n + m"
          "sum_sizes f (lss ! j) = Some k"
        by auto
      with n Suc show ?thesis by (simp add: app)
    qed
    moreover have "\<exists>m. sum_sizes f (concat (ls # lss)) = Some m \<and> e = off + m"
      using IH n by (auto simp: app)
    ultimately show ?case
      using IH n(3) by auto
  qed
qed

lemma sum_sizes_append:
  "sum_sizes f (xs @ ys) = (case sum_sizes f xs of None \<Rightarrow> None
      | Some n \<Rightarrow> (case sum_sizes f ys of None \<Rightarrow> None | Some m \<Rightarrow> Some (n + m)))"
  by (induction xs) (auto split: option.splits)


section \<open>The stages\<close>

text \<open>What the stages leave in the context.\<close>

lemma layout_facts:
  assumes "layout (empty_ctx obs) = Inr c"
  shows "regions_ok c \<and> slots_ok c \<and> objs c = obs \<and> locals c = [] \<and>
    (\<exists>n. sum_sizes line_size_after (text_lines (hd obs)) = Some n \<and> halt_base c = n + 4) \<and>
    (\<exists>offs. text_off c = 0 # offs \<and>
       seg_offsets line_size_after (map text_lines (tl obs)) (bss_end c) = Some (offs, text_size c)) \<and>
    seg_offsets obj_line_size (map data_lines obs) (data_base c) = Some (data_off c, data_base c + data_size c) \<and>
    data_base c = align4 (text_size c)"
proof -
  let ?c0 = "(empty_ctx obs)\<lparr>bss_total := sum_list (map (\<lambda>(_, _, len). len) (all_bss (empty_ctx obs)))\<rparr>"
  let ?c1 = "collect_jumps ?c0"
  have o: "objs ?c1 = obs" by (simp add: empty_ctx_def)
  have s0: "slots_ok ?c0" by (simp add: slots_ok_def empty_ctx_def)
  have l0: "locals ?c1 = []"
  proof -
    have "locals (collect_line oi l k) = locals k" for oi l k
      by (simp add: collect_line_def Let_def split: prod.split option.split)
    then have "locals (fold (\<lambda>(oi, l). collect_line oi l) ls k) = locals k" for ls k
      by (induction ls arbitrary: k) auto
    then show ?thesis by (simp add: collect_jumps_def empty_ctx_def)
  qed
  from assms obtain n c2 where n: "sum_sizes line_size_after (text_lines (hd obs)) = Some n"
      "low_layout n ?c1 = Inr c2" "high_layout c2 = Inr c"
    unfolding layout_def Let_def o by (auto split: option.splits sum.splits)
  have n0: "0 \<le> n"
    using sum_sizes_nonneg [OF line_size_after_nonneg n(1)] by simp
  note low = low_layout_regions [OF n(2) n0]
  have k: "objs c2 = obs" "slots_ok c2" "locals c2 = []"
    by (subst low(3), use o collect_jumps_slots [OF s0] l0 in \<open>simp add: slots_ok_def\<close>)+
  from n(3) obtain offs e doffs d where h: "seg_offsets line_size_after (map text_lines (tl (objs c2)))
        (align4 (bss_base c2 + bss_total c2)) = Some (offs, e)"
      "seg_offsets obj_line_size (map data_lines (objs c2)) (align4 e) = Some (doffs, d)"
      "c = c2\<lparr>text_off := 0 # offs, text_size := e, data_base := align4 e, data_off := doffs, data_size := d - align4 e\<rparr>"
    unfolding high_layout_def by (auto split: option.splits)
  have e: "regions_ok c = regions_ok c2" "slots_ok c = slots_ok c2" "bss_end c = bss_end c2"
    by (simp_all add: h(3) regions_ok_def slots_ok_def bss_end_def n_tramp_def)
  have f: "text_off c = 0 # offs" "text_size c = e" "data_base c = align4 e" "data_off c = doffs"
      "data_size c = d - align4 e" "objs c = objs c2" "locals c = locals c2" "halt_base c = halt_base c2"
    by (simp_all add: h(3))
  show ?thesis
    unfolding e f using h(1,2) k low(1,2) n(1) by (simp add: bss_end_def)
qed

lemma symbols_facts:
  assumes "symbols c = Inr c'"
  shows "\<exists>gs. symbol_tables (List.enumerate 0 (objs c)) [] [] = Inr (locals c', gs) \<and>
     list_all2 (\<lambda>g g'. place_global (c\<lparr>locals := locals c'\<rparr>) g = Inr g') (add_builtins c gs) (globals c') \<and>
     c' = c\<lparr>locals := locals c', globals := globals c'\<rparr>"
  using assms by (auto simp: symbols_def mapE_Inr split: sum.splits)

lemma place_tramps_facts:
  assumes "place_tramps c = Inr c'"
  shows "list_all2 (\<lambda>kt t. place_tramp c kt = Inr t) (List.enumerate 0 (tramps c)) (tramps c') \<and>
     c' = c\<lparr>tramps := tramps c'\<rparr>"
  using assms by (auto simp: place_tramps_def mapE_Inr split: sum.splits)

lemma tramps_length: "place_tramps c = Inr c' \<Longrightarrow> n_tramp c' = n_tramp c"
  using place_tramps_facts [of c c'] by (auto simp: n_tramp_def dest: list_all2_lengthD)



section \<open>The pool\<close>

lemma jump_kinds: "\<not> (is_call l \<and> is_jmp l)"
  by (auto simp: is_call_def is_jmp_def split: prod.splits)

abbreviation use_slot :: "ctx \<Rightarrow> nat \<times> string \<Rightarrow> int" where
  "use_slot c x \<equiv> slot_rslot_of c (fst x) (snd (jump_parts (snd x)))"

lemma slot_rslot_of_range:
  assumes "slots_ok c" and "0 \<le> slot_rslot_of c oi tgt"
  obtains s where "s \<in> set (pool_slots c)" "sl_obj s = oi" "sl_name s = tgt" "sl_rslot s = slot_rslot_of c oi tgt"
    "slot_rslot_of c oi tgt < n_slots c"
proof -
  from assms(2) obtain s where "slot_of (pool_slots c) oi tgt = Some s" "slot_rslot_of c oi tgt = sl_rslot s"
    by (auto simp: slot_rslot_of_def split: option.splits)
  moreover from this(1) have "s \<in> set (pool_slots c)" "sl_obj s = oi" "sl_name s = tgt"
    by (auto simp: slot_of_def find_Some_iff)
  ultimately show thesis
    using that slots_range [OF assms(1)] by metis
qed

lemma slot_rslot_of_inj:
  assumes "slots_ok c" and "0 \<le> slot_rslot_of c oi tgt" and "slot_rslot_of c oi tgt = slot_rslot_of c oj tgu"
  shows "oi = oj \<and> tgt = tgu"
proof -
  obtain s where s: "s \<in> set (pool_slots c)" "sl_obj s = oi" "sl_name s = tgt" "sl_rslot s = slot_rslot_of c oi tgt"
    using slot_rslot_of_range [OF assms(1,2)] by metis
  obtain t where t: "t \<in> set (pool_slots c)" "sl_obj t = oj" "sl_name t = tgu" "sl_rslot t = slot_rslot_of c oj tgu"
    using slot_rslot_of_range [OF assms(1)] assms(2,3) by metis
  have "distinct (map sl_rslot (rev (pool_slots c)))"
    using assms(1) by (simp add: slots_ok_def distinct_map)
  then have "inj_on sl_rslot (set (pool_slots c))"
    by (simp add: distinct_map)
  then have "s = t"
    by (rule inj_onD) (use s t assms(3) in simp_all)
  with s t show ?thesis by simp
qed

text \<open>The pool holds the target of every use, and the slots are recorded in scan order.\<close>

definition pool_has :: "ctx \<Rightarrow> int list \<Rightarrow> nat \<times> string \<Rightarrow> bool" where
  "pool_has c pt x \<longleftrightarrow>
     0 \<le> use_slot c x \<and> use_slot c x < n_slots c \<and>
     resolve_jtarget c (fst x) (snd (jump_parts (snd x))) = Inr (pt ! nat (use_slot c x))"

lemma pool_use_has:
  assumes "pool_use c (fst x) (snd (jump_parts (snd x))) pt = Inr (rs, pt')" and "slots_ok c" and "length pt = nat (n_slots c)"
  shows "rs = use_slot c x \<and> length pt' = length pt \<and> pool_has c pt' x \<and>
    (\<forall>y. pool_has c pt y \<longrightarrow> pool_has c pt' y)"
proof -
  from assms(1) obtain v where v: "resolve_jtarget c (fst x) (snd (jump_parts (snd x))) = Inr v"
      "0 \<le> use_slot c x" "rs = use_slot c x" "pt' = pt[nat (use_slot c x) := v]"
    by (auto simp: pool_use_def Let_def split: sum.splits if_splits)
  have lt: "use_slot c x < n_slots c"
    using slot_rslot_of_range [OF assms(2) v(2)] by metis
  have "pool_has c pt' x"
    using v lt assms(3) by (simp add: pool_has_def)
  moreover have "pool_has c pt' y" if "pool_has c pt y" for y
  proof (cases "use_slot c x = use_slot c y")
    case True
    then have "fst x = fst y \<and> snd (jump_parts (snd x)) = snd (jump_parts (snd y))"
      using slot_rslot_of_inj [OF assms(2) v(2)] by simp
    with v lt assms(3) that show ?thesis by (simp add: pool_has_def)
  next
    case False
    with that v show ?thesis
      by (simp add: pool_has_def nth_list_update nat_eq_iff)
  qed
  ultimately show ?thesis
    using v by simp
qed

lemma pool_values_has:
  assumes "slots_ok c"
  shows "pool_values c ls pt ci ji = Inr (pt', ci', ji') \<Longrightarrow> length pt = nat (n_slots c) \<Longrightarrow>
    length pt' = length pt \<and>
    ci' = ci @ map (use_slot c) (filter (\<lambda>x. is_call (snd x)) ls) \<and>
    ji' = ji @ map (use_slot c) (filter (\<lambda>x. is_jmp (snd x)) ls) \<and>
    (\<forall>x \<in> set ls. is_call (snd x) \<or> is_jmp (snd x) \<longrightarrow> pool_has c pt' x) \<and>
    (\<forall>y. pool_has c pt y \<longrightarrow> pool_has c pt' y)"
proof (induction ls arbitrary: pt ci ji)
  case Nil
  then show ?case by simp
next
  case (Cons x ls)
  obtain oi l where x: "x = (oi, l)" by (cases x)
  show ?case
  proof (cases "is_call l \<or> is_jmp l")
    case False
    with Cons x show ?thesis by simp
  next
    case True
    let ?ci = "if is_call l then ci @ [use_slot c x] else ci"
    let ?ji = "if is_call l then ji else ji @ [use_slot c x]"
    from True Cons.prems(1) x obtain rs p1 where "pool_use c oi (snd (jump_parts l)) pt = Inr (rs, p1)"
        "pool_values c ls p1 (if is_call l then ci @ [rs] else ci) (if is_call l then ji else ji @ [rs]) = Inr (pt', ci', ji')"
      by (auto split: sum.splits if_splits)
    moreover from this(1) have p: "rs = use_slot c x" "length p1 = length pt" "pool_has c p1 x"
        "\<forall>y. pool_has c pt y \<longrightarrow> pool_has c p1 y"
      using pool_use_has [of c x pt rs p1] assms Cons.prems(2) by (auto simp: x)
    ultimately have q: "pool_values c ls p1 ?ci ?ji = Inr (pt', ci', ji')" by (simp cong: if_cong)
    have "length p1 = nat (n_slots c)"
      using p(2) Cons.prems(2) by simp
    note IH = Cons.IH [OF q this]
    show ?thesis
      using IH p True jump_kinds [of l] by (auto simp: x)
  qed
qed



section \<open>Emission follows the scan order\<close>

lemma in_dropWhile: "x \<in> set l \<Longrightarrow> \<not> P x \<Longrightarrow> x \<in> set (dropWhile P l)"
  by (induction l) auto

lemma space_no_label: "CHR '' '' \<in> set l \<Longrightarrow> obj_label_name_len l = 0"
proof -
  assume s: "CHR '' '' \<in> set l"
  let ?L = "dropWhile is_eol (strip_eol l)"
  have e: "\<not> is_eol (CHR '' '')" "\<not> is_ident_char (CHR '' '')"
    by (simp_all add: is_eol_def newline_def carriage_def is_ident_char_def is_alnum_def is_alpha_def
        is_lower_def is_upper_def is_digit_def code_of_def)
  have "CHR '' '' \<in> set ?L"
    using s e by (simp add: strip_eol_def in_dropWhile)
  then have "CHR '' '' \<in> set (butlast ?L) \<or> last ?L = CHR '' ''"
    by (metis append_butlast_last_id in_set_conv_decomp_last list.distinct(1) list.set_cases rotate1.simps(2)
        set_ConsD set_rotate1 empty_iff list.set(1))
  then show ?thesis
    using e by (auto simp: obj_label_name_len_def Let_def list_all_iff)
qed

lemma jump_line_shape:
  assumes "jump_parts l = (opr, tgt)" and "length opr < 7" and "tgt \<noteq> []"
  obtains q where "skip_spaces l = opr @ CHR '' '' # q" and "CHR '' '' \<in> set l"
proof -
  let ?p = "skip_spaces l"
  have o: "opr = take 7 (takeWhile (\<lambda>c. c \<noteq> CHR '' '') ?p)"
    using assms(1) by (simp add: jump_parts_def Let_def)
  with assms(2) have tw: "takeWhile (\<lambda>c. c \<noteq> CHR '' '') ?p = opr" by auto
  then have p: "?p = opr @ dropWhile (\<lambda>c. c \<noteq> CHR '' '') ?p"
    using takeWhile_dropWhile_id by metis
  then have "drop (length opr) ?p = dropWhile (\<lambda>c. c \<noteq> CHR '' '') ?p"
    by (metis append_eq_conv_conj)
  moreover have "tgt = take 511 (takeWhile (\<lambda>c. c \<noteq> CHR '';'' \<and> c \<noteq> CHR '' '') (skip_spaces (drop (length opr) ?p)))"
    using assms(1) by (auto simp: jump_parts_def Let_def)
  ultimately have "dropWhile (\<lambda>c. c \<noteq> CHR '' '') ?p \<noteq> []"
    using assms(3) by (metis dropWhile.simps(1) skip_spaces_def takeWhile.simps(1) take_Nil)
  then obtain q where q: "dropWhile (\<lambda>c. c \<noteq> CHR '' '') ?p = CHR '' '' # q"
    using hd_dropWhile [of "\<lambda>c. c \<noteq> CHR '' ''" ?p] by (cases "dropWhile (\<lambda>c. c \<noteq> CHR '' '') ?p") auto
  with p have "?p = opr @ CHR '' '' # q" by simp
  moreover from this have "CHR '' '' \<in> set l"
    using set_dropWhileD [of "CHR '' ''" "\<lambda>c. c = CHR '' ''" l] by (simp add: skip_spaces_def)
  ultimately show thesis using that by blast
qed

lemma jump_line_emitted:
  assumes "is_call l \<or> is_jmp l"
  shows "obj_label_name_len l = 0" and "skip_spaces l \<noteq> []" and "hd (skip_spaces l) \<noteq> CHR '';''"
    and "hd (skip_spaces l) \<noteq> dquote" and "\<not> is_cond_jump (fst (jump_parts l))"
proof -
  obtain opr tgt where j: "jump_parts l = (opr, tgt)" by (cases "jump_parts l")
  with assms have o: "opr = ''call'' \<or> opr = ''jmp''" "tgt \<noteq> []" "length opr < 7"
    by (auto simp: is_call_def is_jmp_def is_sym_ident_def)
  obtain q where q: "skip_spaces l = opr @ CHR '' '' # q" "CHR '' '' \<in> set l"
    using jump_line_shape [OF j o(3,2)] .
  show "obj_label_name_len l = 0" by (rule space_no_label [OF q(2)])
  show "skip_spaces l \<noteq> []" "hd (skip_spaces l) \<noteq> CHR '';''" "hd (skip_spaces l) \<noteq> dquote"
    using q(1) o(1) by (auto simp: dquote_def)
  show "\<not> is_cond_jump (fst (jump_parts l))"
    using o(1) by (auto simp: j is_cond_jump_def cond_jumps_def)
qed

lemma emit_line_counts:
  assumes "emit_line c oi l calls jmps = Inr (out, calls', jmps')"
  shows "calls' = calls + (if is_call l then 1 else 0) \<and> jmps' = jmps + (if is_jmp l then 1 else 0)"
proof (cases "is_call l \<or> is_jmp l")
  case True
  then show ?thesis
    using assms jump_line_emitted [OF True] jump_kinds [of l]
    by (auto simp: emit_line_def Let_def split: prod.splits if_splits)
next
  case False
  then show ?thesis
    using assms by (auto simp: emit_line_def Let_def split: prod.splits if_splits option.splits sum.splits)
qed

lemma emit_lines_counts:
  "emit_lines c ls calls jmps = Inr (out, calls', jmps') \<Longrightarrow>
     calls' = calls + length (filter (\<lambda>x. is_call (snd x)) ls) \<and>
     jmps' = jmps + length (filter (\<lambda>x. is_jmp (snd x)) ls)"
proof (induction ls arbitrary: calls jmps out)
  case Nil
  then show ?case by simp
next
  case (Cons x ls)
  obtain oi l where x: "x = (oi, l)" by (cases x)
  with Cons.prems obtain o1 c1 j1 o2 where e: "emit_line c oi l calls jmps = Inr (o1, c1, j1)"
      "emit_lines c ls c1 j1 = Inr (o2, calls', jmps')"
    by (auto split: sum.splits prod.splits)
  show ?case
    using emit_line_counts [OF e(1)] Cons.IH [OF e(2)] by (simp add: x)
qed

lemma emit_lines_append:
  "emit_lines c (xs @ ys) calls jmps =
     (case emit_lines c xs calls jmps of
        Inl e \<Rightarrow> Inl e
      | Inr (o1, c1, j1) \<Rightarrow>
          (case emit_lines c ys c1 j1 of Inl e \<Rightarrow> Inl e | Inr (o2, c2, j2) \<Rightarrow> Inr (o1 @ o2, c2, j2)))"
  by (induction xs arbitrary: calls jmps) (auto split: sum.splits prod.splits)

text \<open>Everything a successful link knows about its pool.\<close>

lemma resolve_all_pool:
  assumes "resolve_all obs = Inr (c, pt)"
  shows "regions_ok c \<and> objs c = obs \<and> length pt = nat (n_slots c) \<and> 0 \<le> n_slots c \<and>
    ci_idx c = map (use_slot c) (filter (\<lambda>x. is_call (snd x)) (scan_lines c)) \<and>
    ji_idx c = map (use_slot c) (filter (\<lambda>x. is_jmp (snd x)) (scan_lines c)) \<and>
    (\<forall>x \<in> set (scan_lines c). is_call (snd x) \<or> is_jmp (snd x) \<longrightarrow> pool_has c pt x)"
proof -
  from assms obtain c1 c2 c3 ci ji where st: "layout (empty_ctx obs) = Inr c1" "symbols c1 = Inr c2"
      "place_tramps c2 = Inr c3" "pool_values c3 (scan_lines c3) (replicate (nat (n_slots c3)) 0) [] [] = Inr (pt, ci, ji)"
      "c = c3\<lparr>ci_idx := ci, ji_idx := ji\<rparr>"
    by (auto simp: resolve_all_def split: sum.splits)
  note L = layout_facts [OF st(1)]
  have e2: "c2 = c1\<lparr>locals := locals c2, globals := globals c2\<rparr>"
    using symbols_facts [OF st(2)] by blast
  have e3: "c3 = c2\<lparr>tramps := tramps c3\<rparr>"
    using place_tramps_facts [OF st(3)] by blast
  note get2 = arg_cong [OF e2] and get3 = arg_cong [OF e3]
  have f: "objs c3 = objs c1" "pool_slots c3 = pool_slots c1" "n_slots c3 = n_slots c1" "halt_base c3 = halt_base c1"
      "pool_base c3 = pool_base c1" "tramp_base c3 = tramp_base c1" "bss_base c3 = bss_base c1"
      "bss_total c3 = bss_total c1"
    using get2 [of objs] get3 [of objs] get2 [of pool_slots] get3 [of pool_slots] get2 [of n_slots] get3 [of n_slots]
      get2 [of halt_base] get3 [of halt_base] get2 [of pool_base] get3 [of pool_base] get2 [of tramp_base]
      get3 [of tramp_base] get2 [of bss_base] get3 [of bss_base] get2 [of bss_total] get3 [of bss_total]
    by simp_all
  have n3: "n_tramp c3 = n_tramp c1"
    using tramps_length [OF st(3)] get2 [of n_tramp] by (simp add: n_tramp_def)
  have s3: "slots_ok c3" "objs c3 = obs"
    using L by (simp_all add: slots_ok_def f)
  have "regions_ok c3 = regions_ok c1"
    by (simp add: regions_ok_def n3 f)
  with L have r3: "regions_ok c3" by simp
  note P = pool_values_has [OF s3(1) st(4)]
  have la: "local_addr c = local_addr c3" "globals c = globals c3" "locals c = locals c3" "slot_rslot_of c = slot_rslot_of c3"
    by (simp_all add: st(5) fun_eq_iff local_addr_def slot_rslot_of_def)
  then have rj: "resolve_jtarget c = resolve_jtarget c3"
    by (intro ext) (simp add: resolve_jtarget_def split: option.split)
  have cc: "regions_ok c = regions_ok c3" "objs c = objs c3" "n_slots c = n_slots c3" "scan_lines c = scan_lines c3"
      "ci_idx c = ci" "ji_idx c = ji"
    by (simp_all add: st(5) regions_ok_def n_tramp_def scan_lines_def)
  have ph: "pool_has c = pool_has c3"
    by (intro ext) (simp add: pool_has_def la rj cc)
  have "0 \<le> n_slots c3"
    using s3(1) by (simp add: slots_ok_def)
  then show ?thesis
    unfolding cc ph la using P r3 s3 by auto
qed



section \<open>Trampolines\<close>

definition has_tramp :: "ctx \<Rightarrow> nat \<times> string \<Rightarrow> bool" where
  "has_tramp c x \<longleftrightarrow> (\<exists>t \<in> set (tramps c). tr_obj t = fst x \<and> tr_name t = snd (jump_parts (snd x)))"

lemma collect_line_tramp:
  "has_tramp c x \<Longrightarrow> has_tramp (collect_line oi l c) x"
  "is_cond_jump (fst (jump_parts l)) \<Longrightarrow> has_tramp (collect_line oi l c) (oi, l)"
  by (auto simp: has_tramp_def collect_line_def Let_def list_ex_iff split: prod.splits option.splits)

lemma collect_fold_tramp:
  "has_tramp c x \<or> (x \<in> set ls \<and> is_cond_jump (fst (jump_parts (snd x)))) \<Longrightarrow>
     has_tramp (fold (\<lambda>(oi, l). collect_line oi l) ls c) x"
  by (induction ls arbitrary: c) (auto simp: collect_line_tramp)

lemma layout_tramps:
  assumes "layout (empty_ctx obs) = Inr c" and "x \<in> set (scan_lines c)" and "is_cond_jump (fst (jump_parts (snd x)))"
  shows "has_tramp c x"
proof -
  let ?c0 = "(empty_ctx obs)\<lparr>bss_total := sum_list (map (\<lambda>(_, _, len). len) (all_bss (empty_ctx obs)))\<rparr>"
  have "objs c = obs"
    using layout_facts [OF assms(1)] by simp
  then have "scan_lines c = scan_lines ?c0"
    by (simp add: scan_lines_def empty_ctx_def)
  with assms(2,3) have h: "has_tramp (collect_jumps ?c0) x"
    unfolding collect_jumps_def by (intro collect_fold_tramp) simp
  from assms(1) have "tramps c = tramps (collect_jumps ?c0)"
    by (auto simp: layout_def Let_def high_layout_def low_layout_def split: option.splits sum.splits if_splits)
  with h show ?thesis by (simp add: has_tramp_def)
qed

lemma enumerate_nth: "k < length xs \<Longrightarrow> List.enumerate n xs ! k = (n + k, xs ! k)"
  by (simp add: nth_enumerate_eq)

text \<open>Every conditional jump has a trampoline, which is where it should be and holds its target.\<close>

lemma resolve_all_tramps:
  assumes "resolve_all obs = Inr (c, pt)"
  shows "(\<forall>k < length (tramps c). let t = tramps c ! k in
      tr_addr t = tramp_base c + 8 * int k \<and> tr_pool_idx t = int k \<and>
      resolve_jtarget c (tr_obj t) (tr_name t) = Inr (tr_target t)) \<and>
    (\<forall>x \<in> set (scan_lines c). is_cond_jump (fst (jump_parts (snd x))) \<longrightarrow> has_tramp c x)"
proof -
  from assms obtain c1 c2 c3 ci ji where st: "layout (empty_ctx obs) = Inr c1" "symbols c1 = Inr c2"
      "place_tramps c2 = Inr c3" "c = c3\<lparr>ci_idx := ci, ji_idx := ji\<rparr>"
    by (auto simp: resolve_all_def split: sum.splits)
  have e2: "c2 = c1\<lparr>locals := locals c2, globals := globals c2\<rparr>"
    using symbols_facts [OF st(2)] by blast
  have e3: "c3 = c2\<lparr>tramps := tramps c3\<rparr>" and
    l3: "list_all2 (\<lambda>kt t. place_tramp c2 kt = Inr t) (List.enumerate 0 (tramps c2)) (tramps c3)"
    using place_tramps_facts [OF st(3)] by blast+
  note get2 = arg_cong [OF e2] and get3 = arg_cong [OF e3]
  have f: "globals c = globals c2" "locals c = locals c2" "text_off c = text_off c2" "data_off c = data_off c2"
      "tramp_base c = tramp_base c2" "tramps c = tramps c3" "objs c = objs c2"
    using get3 [of globals] get3 [of locals] get3 [of text_off] get3 [of data_off] get3 [of tramp_base] get3 [of objs]
    by (simp_all add: st(4))
  have "local_addr c = local_addr c2"
    by (simp add: fun_eq_iff local_addr_def f)
  then have rj: "resolve_jtarget c = resolve_jtarget c2"
    by (intro ext) (simp add: resolve_jtarget_def f split: option.split)
  have p: "tr_addr t = tramp_base c + 8 * int k \<and> tr_pool_idx t = int k \<and>
      resolve_jtarget c (tr_obj t) (tr_name t) = Inr (tr_target t) \<and> tr_obj t = tr_obj (tramps c2 ! k) \<and>
      tr_name t = tr_name (tramps c2 ! k)" if "k < length (tramps c)" "t = tramps c ! k" for k t
  proof -
    have "place_tramp c2 (k, tramps c2 ! k) = Inr t"
      using l3 that by (auto simp: f list_all2_conv_all_nth enumerate_nth)
    then show ?thesis
      by (auto simp: place_tramp_def rj f split: sum.splits)
  qed
  have len: "length (tramps c) = length (tramps c2)"
    using list_all2_lengthD [OF l3] by (simp add: f)
  have "has_tramp c x" if "x \<in> set (scan_lines c)" "is_cond_jump (fst (jump_parts (snd x)))" for x
  proof -
    have "scan_lines c = scan_lines c1"
      using get2 [of objs] by (simp add: scan_lines_def f)
    with that layout_tramps [OF st(1)] have "has_tramp c1 x" by simp
    then have "has_tramp c2 x"
      using get2 [of tramps] by (simp add: has_tramp_def)
    then obtain k where "k < length (tramps c2)" "tr_obj (tramps c2 ! k) = fst x" "tr_name (tramps c2 ! k) = snd (jump_parts (snd x))"
      by (auto simp: has_tramp_def in_set_conv_nth)
    moreover from this have "k < length (tramps c)" by (simp only: len)
    ultimately have "tramps c ! k \<in> set (tramps c)" "tr_obj (tramps c ! k) = fst x"
        "tr_name (tramps c ! k) = snd (jump_parts (snd x))"
      using p [OF _ refl, of k] by (simp_all only: nth_mem)
    then show ?thesis
      unfolding has_tramp_def by blast
  qed
  moreover have "let t = tramps c ! k in tr_addr t = tramp_base c + 8 * int k \<and> tr_pool_idx t = int k \<and>
      resolve_jtarget c (tr_obj t) (tr_name t) = Inr (tr_target t)" if "k < length (tramps c)" for k
    using p [OF that refl] unfolding Let_def by blast
  ultimately show ?thesis by blast
qed


section \<open>Properties\<close>





section \<open>Witnesses\<close>

definition demo_objs :: "obj list" where
  "demo_objs =
     [obj_new\<lparr>text_lines := [''_start:'', ''    call main'', ''L0:'', ''    jmp L0'']\<rparr>,
      \<lparr>text_lines = [''main:'', ''    je L1'', ''    mov r1, @buf'', ''L1:'', ''    ret''],
       data_lines = [''    U32 7''], bss_decls = [(''buf'', 64)],
       obj_syms = [\<lparr>sy_name = ''main'', sy_is_data = False, sy_segment = 0, sy_offset = 0, sy_size = 0\<rparr>]\<rparr>]"

lemma demo_linked:
  "case resolve_all demo_objs of
     Inl _ \<Rightarrow> False
   | Inr (c, pt) \<Rightarrow>
       pt = [12372, 24] \<and> bss_total c = 64 \<and> n_slots c = 2 \<and>
       scan_lines c = (0, ''_start:'') # (0, ''    call main'') # map (Pair 0) [''L0:'', ''    jmp L0'']
         @ map (Pair 1) [''main:'', ''    je L1'', ''    mov r1, @buf'', ''L1:'', ''    ret''] \<and>
       emit_lines c [(0, ''_start:'')] 0 0 = Inr ([], 0, 0)"
  by code_simp

lemma demo_lines:
  "is_call ''    call main'' \<and> snd (jump_parts ''    call main'') = ''main'' \<and>
   is_cond_jump (fst (jump_parts ''    je L1'')) \<and> snd (jump_parts ''    je L1'') = ''L1''"
  by code_simp



end
