(* ===== verification/Link_Image.thy ===== *)
theory Link_Image
  imports Link_Layout
begin

text \<open>
  The addresses that the linker of \<^verbatim>\<open>symcc/src/link.c\<close> computes are those at which its assembler
  places the lines: the sizes of the code it writes for jumps and calls are those it counted,
  so that, if the other lines have the size that \<^verbatim>\<open>obj_line_size\<close> says, every label of an
  object's text stands where \<^verbatim>\<open>resolve_jtarget\<close> says.
\<close>

section \<open>The table of labels\<close>

definition entry :: "nat \<Rightarrow> int \<Rightarrow> string \<Rightarrow> int \<Rightarrow> local_sym" where
  "entry oi seg nm off = \<lparr>ls_name = nm, ls_obj = oi, ls_segment = seg, ls_off = off\<rparr>"

text \<open>No two entries of a segment have the same short name.\<close>

definition unique_names :: "local_sym list \<Rightarrow> bool" where
  "unique_names ls \<longleftrightarrow>
     (\<forall>e \<in> set ls. \<forall>e' \<in> set ls. ls_obj e = ls_obj e' \<and> ls_segment e = ls_segment e' \<and> ls_name e = ls_name e'
        \<and> length (ls_name e) < 256 \<longrightarrow> e = e')"

lemma label_len: "obj_label_name_len l \<le> length l"
proof -
  have "length (dropWhile is_eol (strip_eol l)) \<le> length l"
    using length_dropWhile_le [of is_eol "strip_eol l"] length_dropWhile_le [of is_eol "rev l"]
    by (simp add: strip_eol_def)
  then show ?thesis
    by (auto simp: obj_label_name_len_def Let_def)
qed

lemma find_local_unique:
  assumes "unique_names ls" and "e \<in> set ls" and "length (ls_name e) < 256"
  shows "find_local ls (ls_obj e) (ls_segment e) (ls_name e) = Some e"
proof -
  obtain e' where e': "find_local ls (ls_obj e) (ls_segment e) (ls_name e) = Some e'"
    using assms(2) by (cases "find_local ls (ls_obj e) (ls_segment e) (ls_name e)")
      (auto simp: find_local_def find_None_iff)
  then have "e' \<in> set ls" "ls_obj e' = ls_obj e" "ls_segment e' = ls_segment e" "ls_name e' = ls_name e"
    by (auto simp: find_local_def find_Some_iff)
  with assms e' show ?thesis
    unfolding unique_names_def by metis
qed

lemma unique_names_Cons:
  assumes "unique_names ls"
    and "\<And>e. e \<in> set ls \<Longrightarrow> length (ls_name x) < 256 \<Longrightarrow>
      \<not> (ls_obj e = ls_obj x \<and> ls_segment e = ls_segment x \<and> ls_name e = ls_name x)"
  shows "unique_names (x # ls)"
  using assms unfolding unique_names_def by (metis set_ConsD)

lemma local_table_entries:
  "local_table oi seg f lines off ls = Inr tbl \<Longrightarrow> unique_names ls \<Longrightarrow>
     unique_names tbl \<and> set ls \<subseteq> set tbl \<and>
     (\<forall>pre l post. lines = pre @ l # post \<longrightarrow> obj_label_name_len l \<noteq> 0 \<longrightarrow>
        (\<exists>m. sum_sizes f pre = Some m \<and> entry oi seg (take (obj_label_name_len l) l) (off + m) \<in> set tbl))"
proof (induction lines arbitrary: off ls)
  case Nil
  then show ?case by simp
next
  case (Cons l lines)
  let ?n = "obj_label_name_len l"
  let ?e = "entry oi seg (take ?n l) off"
  let ?ls = "if ?n \<noteq> 0 then ?e # ls else ls"
  from Cons.prems(1) obtain len where t: "\<not> (?n \<noteq> 0 \<and> ?n < 256 \<and> find_local ls oi seg (take ?n l) \<noteq> None)"
      "f l = Some len" "local_table oi seg f lines (off + len) ?ls = Inr tbl"
    by (auto simp: Let_def entry_def split: option.splits if_splits)
  have "unique_names ?ls"
  proof (cases "?n = 0")
    case False
    have "unique_names (?e # ls)"
    proof (rule unique_names_Cons [OF Cons.prems(2)])
      fix e
      assume e: "e \<in> set ls" "length (ls_name ?e) < 256"
      then have "?n < 256"
        using label_len [of l] by (simp add: entry_def)
      then show "\<not> (ls_obj e = ls_obj ?e \<and> ls_segment e = ls_segment ?e \<and> ls_name e = ls_name ?e)"
        using t(1) False e(1) by (auto simp: find_local_def find_None_iff entry_def)
    qed
    with False show ?thesis by simp
  qed (use Cons.prems(2) in simp)
  note IH = Cons.IH [OF t(3) this]
  have "\<exists>m. sum_sizes f pre = Some m \<and> entry oi seg (take (obj_label_name_len l') l') (off + m) \<in> set tbl"
    if "l # lines = pre @ l' # post" "obj_label_name_len l' \<noteq> 0" for pre l' post
  proof (cases pre)
    case Nil
    with that IH have "?e \<in> set tbl" by auto
    with Nil that show ?thesis by simp
  next
    case (Cons x pre')
    with that have "lines = pre' @ l' # post" "x = l" by simp_all
    with IH that(2) obtain m where "sum_sizes f pre' = Some m" "entry oi seg (take (obj_label_name_len l') l') (off + len + m) \<in> set tbl"
      by blast
    with Cons t(2) \<open>x = l\<close> show ?thesis
      by (intro exI [of _ "len + m"]) (simp add: add.assoc)
  qed
  with IH show ?case
    by (auto split: if_splits)
qed

lemma symbol_tables_entries:
  "symbol_tables obs ls gs = Inr (tbl, gs') \<Longrightarrow> unique_names ls \<Longrightarrow>
     unique_names tbl \<and> set ls \<subseteq> set tbl \<and>
     (\<forall>oi ob pre l post. (oi, ob) \<in> set obs \<longrightarrow> text_lines ob = pre @ l # post \<longrightarrow> obj_label_name_len l \<noteq> 0 \<longrightarrow>
        (\<exists>m. sum_sizes line_size_after pre = Some m \<and> entry oi 0 (take (obj_label_name_len l) l) m \<in> set tbl))"
proof (induction obs arbitrary: ls gs)
  case Nil
  then show ?case by simp
next
  case (Cons x obs)
  obtain oi ob where x: "x = (oi, ob)" by (cases x)
  from Cons.prems(1) obtain l1 l2 g1 where t: "local_table oi 0 line_size_after (text_lines ob) 0 ls = Inr l1"
      "local_table oi 1 obj_line_size (data_lines ob) 0 l1 = Inr l2" "symbol_tables obs l2 g1 = Inr (tbl, gs')"
    by (auto simp: x split: sum.splits)
  note a = local_table_entries [OF t(1) Cons.prems(2)]
  have u1: "unique_names l1" using a by blast
  note b = local_table_entries [OF t(2) u1]
  have u2: "unique_names l2" using b by blast
  note IH = Cons.IH [OF t(3) u2]
  have "set l1 \<subseteq> set tbl"
    using b IH by blast
  have "\<exists>m. sum_sizes line_size_after pre = Some m \<and> entry oj 0 (take (obj_label_name_len l) l) m \<in> set tbl"
    if "(oj, oc) \<in> set (x # obs)" "text_lines oc = pre @ l # post" "obj_label_name_len l \<noteq> 0" for oj oc pre l post
  proof (cases "(oj, oc) = x")
    case True
    with that a x obtain m where "sum_sizes line_size_after pre = Some m"
        "entry oi 0 (take (obj_label_name_len l) l) (0 + m) \<in> set l1"
      by blast
    with True x \<open>set l1 \<subseteq> set tbl\<close> show ?thesis by auto
  next
    case False
    with that have "(oj, oc) \<in> set obs" by auto
    with IH that(2,3) show ?thesis by blast
  qed
  with a IH \<open>set l1 \<subseteq> set tbl\<close> show ?case
    by blast
qed

text \<open>A label of an object's text is at the distance of the lines before it.\<close>

lemma label_entry:
  assumes "resolve_all obs = Inr (c, pt)" and "oi < length obs" and "text_lines (obs ! oi) = pre @ l # post"
    and "obj_label_name_len l \<noteq> 0" and "obj_label_name_len l < 256"
  shows "\<exists>m. sum_sizes line_size_after pre = Some m \<and>
    find_local (locals c) oi 0 (take (obj_label_name_len l) l) = Some (entry oi 0 (take (obj_label_name_len l) l) m)"
proof -
  from assms(1) obtain c1 c2 c3 ci ji where st: "layout (empty_ctx obs) = Inr c1" "symbols c1 = Inr c2"
      "place_tramps c2 = Inr c3" "c = c3\<lparr>ci_idx := ci, ji_idx := ji\<rparr>"
    by (auto simp: resolve_all_def split: sum.splits)
  have "c3 = c2\<lparr>tramps := tramps c3\<rparr>"
    using place_tramps_facts [OF st(3)] by blast
  from arg_cong [OF this, of locals] have lc: "locals c = locals c2"
    by (simp add: st(4))
  obtain gs where "symbol_tables (List.enumerate 0 (objs c1)) [] [] = Inr (locals c2, gs)"
    using symbols_facts [OF st(2)] by blast
  from symbol_tables_entries [OF this] have T: "unique_names (locals c2)"
      "\<And>oi ob pre l post. (oi, ob) \<in> set (List.enumerate 0 (objs c1)) \<Longrightarrow> text_lines ob = pre @ l # post \<Longrightarrow>
        obj_label_name_len l \<noteq> 0 \<Longrightarrow>
        \<exists>m. sum_sizes line_size_after pre = Some m \<and> entry oi 0 (take (obj_label_name_len l) l) m \<in> set (locals c2)"
    by (auto simp: unique_names_def)
  have "objs c1 = obs"
    using layout_facts [OF st(1)] by simp
  with assms(2) have "(oi, obs ! oi) \<in> set (List.enumerate 0 (objs c1))"
    by (auto simp: in_set_conv_nth enumerate_nth intro!: exI [of _ oi])
  from T(2) [OF this assms(3,4)] obtain m where m: "sum_sizes line_size_after pre = Some m"
      "entry oi 0 (take (obj_label_name_len l) l) m \<in> set (locals c2)"
    by blast
  have "length (ls_name (entry oi 0 (take (obj_label_name_len l) l) m)) < 256"
    using assms(5) by (simp add: entry_def)
  from find_local_unique [OF T(1) m(2) this] m(1) show ?thesis
    by (simp add: lc entry_def)
qed



section \<open>How the assembler measures a line\<close>

definition asm_line :: "string \<Rightarrow> string" where
  "asm_line l = fst (scan_line False [] l)"

lemma drop_to_newline: "newline \<notin> set l \<Longrightarrow> dropWhile (\<lambda>c. c \<noteq> newline) (l @ newline # rest) = newline # rest"
  by (induction l) auto

lemma scan_line_newline:
  "newline \<notin> set l \<Longrightarrow> scan_line q b (l @ newline # rest) = (fst (scan_line q b l), rest)"
proof (induction l arbitrary: q b)
  case Nil
  then show ?case by simp
next
  case (Cons c cs)
  have a: "after_newline (c # cs @ newline # rest) = rest"
    using Cons.prems drop_to_newline [of "c # cs" rest] by (simp add: after_newline_def)
  have h: "(hd (cs @ newline # rest) = CHR ''/'') = (cs \<noteq> [] \<and> hd cs = CHR ''/'')"
    by (cases cs) (auto simp: newline_def)
  have n: "c \<noteq> newline" "newline \<notin> set cs" using Cons.prems by auto
  show ?case
    using Cons.IH [OF n(2)] n(1) a by (simp add: Let_def h)
qed

lemma lines_of_text:
  "list_all (\<lambda>l. newline \<notin> set l) ls \<Longrightarrow> lines_of (text_of ls) = map asm_line ls"
proof (induction ls)
  case Nil
  then show ?case by (subst lines_of.simps) (simp add: text_of_def next_line_def)
next
  case (Cons l ls)
  have "text_of (l # ls) = l @ newline # text_of ls"
    by (simp add: text_of_def)
  with Cons show ?case
    by (subst lines_of.simps) (simp add: next_line_def scan_line_newline asm_line_def)
qed

text \<open>The line advances the first pass by \<open>n\<close> bytes, wherever it stands, if it is accepted.\<close>

definition advances :: "string \<Rightarrow> int \<Rightarrow> bool" where
  "advances l n \<longleftrightarrow> newline \<notin> set l \<and>
     (\<forall>off cap lineno labels m bs labels'.
        process_line (asm_line l) False off cap lineno labels = Inr (m, bs, labels') \<longrightarrow> m = n)"

definition measured :: "string list \<Rightarrow> int \<Rightarrow> bool" where
  "measured ls n \<longleftrightarrow> (\<exists>ns. list_all2 advances ls ns \<and> sum_list ns = n)"

lemma measured_Nil [simp]: "measured [] 0"
  by (auto simp: measured_def)

lemma measured_append: "measured xs n \<Longrightarrow> measured ys m \<Longrightarrow> measured (xs @ ys) (n + m)"
  unfolding measured_def by (metis list_all2_appendI sum_list.append)

lemma measured_one: "advances l n \<Longrightarrow> measured [l] n"
  unfolding measured_def by (intro exI [of _ "[n]"]) simp

lemma measured_Cons: "advances l n \<Longrightarrow> measured ls m \<Longrightarrow> measured (l # ls) (n + m)"
  using measured_append [OF measured_one] by fastforce

lemma measured_concat: "(\<And>x. x \<in> set xs \<Longrightarrow> measured (f x) k) \<Longrightarrow> measured (concat (map f xs)) (k * int (length xs))"
proof (induction xs)
  case (Cons x xs)
  then show ?case
    using measured_append [of "f x" k "concat (map f xs)" "k * int (length xs)"] by (simp add: algebra_simps)
qed simp

lemma measured_clean: "measured ls n \<Longrightarrow> list_all (\<lambda>l. newline \<notin> set l) ls"
  by (auto simp: measured_def list_all_length list_all2_conv_all_nth advances_def)

lemma measured_pass:
  assumes "measured ls n" and "asm_pass False cap (lines_of (text_of ls)) lineno off labels = Inr (off', bs, labels')"
  shows "off' = off + of_int n"
proof -
  have "off' = off + of_int (sum_list ns)"
    if "list_all2 advances ls ns" "asm_pass False cap (map asm_line ls) lineno off labels = Inr (off', bs, labels')" for ns
    using that
  proof (induction ls arbitrary: ns lineno off labels bs)
    case Nil
    then show ?case by simp
  next
    case (Cons l ls)
    from Cons.prems(1) obtain k ks where k: "ns = k # ks" "advances l k" "list_all2 advances ls ks"
      by (auto simp: list_all2_Cons1)
    from Cons.prems(2) obtain m b l2 b2 where p: "process_line (asm_line l) False off cap (Suc lineno) labels = Inr (m, b, l2)"
        "asm_pass False cap (map asm_line ls) (Suc lineno) (off + of_int m) l2 = Inr (off', b2, labels')"
      by (auto split: sum.splits prod.splits if_splits)
    have "m = k"
      using k(2) p(1) unfolding advances_def by blast
    with Cons.IH [OF k(3) p(2)] k(1) show ?case by (simp add: add.assoc)
  qed
  with assms lines_of_text [OF measured_clean [OF assms(1)]] show ?thesis
    by (auto simp: measured_def)
qed


section \<open>The sizes of what the linker writes\<close>

definition plain_char :: "char \<Rightarrow> bool" where
  "plain_char c \<longleftrightarrow> c \<noteq> newline \<and> c \<noteq> carriage \<and> c \<noteq> dquote \<and> c \<noteq> CHR '';'' \<and> c \<noteq> CHR ''/'' \<and> c \<noteq> CHR '':''"

lemma scan_plain:
  "list_all plain_char l \<Longrightarrow> length b + length l < MAX_LINE \<Longrightarrow>
     scan_line False b l = (b @ l, []) \<and> fst (scan_line False b (l @ CHR '';'' # x)) = b @ l"
  by (induction l arbitrary: b)
    (simp_all add: plain_char_def newline_def carriage_def dquote_def Let_def)

lemma emit_insn_words:
  assumes "emit_insn w ops False off cap lineno labels = Inr (m, bs)"
    and "list_all (\<lambda>i. in_name i = w \<longrightarrow> in_nwords i = k) isa_table"
  shows "m = 4 * int k"
proof -
  have "m = 4 * int k"
    if "emit_rows rows w ops False off cap lineno labels = Inr (m, bs)"
      "list_all (\<lambda>i. in_name i = w \<longrightarrow> in_nwords i = k) rows" for rows
    using that by (induction rows) (auto simp: Let_def split: if_splits parsed.splits)
  with assms show ?thesis by (auto simp: emit_insn_def)
qed

text \<open>An instruction of \<open>k\<close> words, indented, with plain operands.\<close>

lemma insn_advances:
  assumes "list_all (\<lambda>i. in_name i = w \<longrightarrow> in_nwords i = k) isa_table"
    and "w \<noteq> []" and "is_alpha (hd w)" and "list_all is_word w" and "length w < 64"
    and "data_width (w @ CHR '' '' # ops) = None"
    and "list_all plain_char (w @ CHR '' '' # ops)" and "length w + length ops < 4000"
    and "ops \<noteq> []" and "\<not> is_blank (last ops)"
  shows "advances (''    '' @ w @ CHR '' '' # ops) (4 * int k)"
  unfolding advances_def
proof (intro conjI allI impI)
  let ?l = "''    '' @ w @ CHR '' '' # ops"
  have pl: "list_all plain_char ?l"
    using assms(7) by (simp add: plain_char_def newline_def carriage_def dquote_def)
  then show "newline \<notin> set ?l"
    unfolding list_all_iff plain_char_def by blast
  have a: "asm_line ?l = ?l"
    using scan_plain [OF pl, of "[]"] assms(8) by (simp add: asm_line_def MAX_LINE_def)
  have hw: "\<not> is_blank (hd w)"
    using assms(3) by (auto simp: is_alpha_def is_lower_def is_upper_def is_blank_def tab_def code_of_def)
  have "drop_blanks ?l = w @ CHR '' '' # ops"
    using hw assms(2) by (cases w) (auto simp: drop_blanks_def is_blank_def)
  moreover have "rtrim (w @ CHR '' '' # ops) = w @ CHR '' '' # ops"
    using assms(9,10) by (cases ops rule: rev_cases) (auto simp: rtrim_def)
  ultimately have t: "trim ?l = w @ CHR '' '' # ops"
    by (simp add: trim_def)
  have nc: "CHR '':'' \<notin> set (w @ CHR '' '' # ops)"
    using assms(7) by (auto simp: list_all_iff plain_char_def)
  have hd: "hd (w @ CHR '' '' # ops) \<noteq> CHR ''@''" "hd (w @ CHR '' '' # ops) \<noteq> dquote" "is_alpha (hd (w @ CHR '' '' # ops))"
    using assms(2,3) by (auto simp: is_alpha_def is_lower_def is_upper_def code_of_def dquote_def)
  have sp: "\<not> is_word (CHR '' '')"
    by (simp add: is_word_def is_alnum_def is_alpha_def is_lower_def is_upper_def is_digit_def code_of_def)
  have tw: "takeWhile is_word (w @ CHR '' '' # ops) = w"
    using assms(4) sp by (subst takeWhile_append2) (auto simp: list_all_iff)
  fix off cap lineno labels m bs labels'
  assume "process_line (asm_line ?l) False off cap lineno labels = Inr (m, bs, labels')"
  moreover have "take_label (trim (asm_line ?l)) False off lineno labels = Inr (w @ CHR '' '' # ops, labels)"
    unfolding a t by (simp add: take_label_def nc [simplified])
  ultimately have "emit_rest (w @ CHR '' '' # ops) False off cap lineno labels = Inr (m, bs)"
    unfolding process_line_def by (auto split: sum.splits)
  then have "emit_insn w (trim (dropWhile is_word (w @ CHR '' '' # ops))) False off cap lineno labels = Inr (m, bs)"
    using assms(2,5) hd by (simp add: emit_rest_def emit_data_def assms(6) tw del: hd_append2)
  from emit_insn_words [OF this assms(1)] show "m = 4 * int k" .
qed

lemma hex_plain:
  "list_all (\<lambda>c. plain_char c \<and> \<not> is_blank c) (show_hex v)" "length (show_hex v) \<le> 16"
proof -
  have "plain_char (digit_char d) \<and> \<not> is_blank (digit_char d)" if "d < 16" for d
  proof -
    from that have "d \<in> set [0 ..< 16]" by simp
    then show ?thesis
      by (simp add: digit_char_def upt_rec plain_char_def newline_def carriage_def dquote_def is_blank_def tab_def)
        (elim disjE; simp)
  qed
  then have "list_all (\<lambda>c. plain_char c \<and> \<not> is_blank c) (show_base 16 n)" for n
  proof (induction n rule: less_induct)
    case (less n)
    then show ?case
      by (subst show_base.simps) auto
  qed
  then show "list_all (\<lambda>c. plain_char c \<and> \<not> is_blank c) (show_hex v)"
    by (simp add: show_hex_def)
  have "length (show_base 16 n) \<le> k" if "n < 16 ^ k" "0 < k" for n k :: nat
    using that
  proof (induction k arbitrary: n)
    case (Suc k)
    show ?case
    proof (cases "n < 16")
      case True
      then show ?thesis by (subst show_base.simps) simp
    next
      case False
      with Suc.prems have "n div 16 < 16 ^ k" "0 < k"
        by (auto simp: less_mult_imp_div_less mult.commute intro!: gr0I)
      from Suc.IH [OF this] False show ?thesis
        by (subst show_base.simps) simp
    qed
  qed simp
  from this [of "nat (v mod 2 ^ 64)" 16] show "length (show_hex v) \<le> 16"
    by (simp add: show_hex_def nat_less_iff)
qed


text \<open>Only the trimmed line without its comment counts.\<close>

lemma advances_trim:
  assumes "advances l' n" and "trim (asm_line l) = trim (asm_line l')" and "newline \<notin> set l"
  shows "advances l n"
  using assms by (auto simp: advances_def process_line_def)

lemma asm_line_comment: "list_all plain_char l \<Longrightarrow> length l < MAX_LINE \<Longrightarrow> asm_line (l @ CHR '';'' # x) = l"
  using scan_plain [of l "[]" x] by (simp add: asm_line_def)

lemma empty_advances: "trim (asm_line l) = [] \<Longrightarrow> newline \<notin> set l \<Longrightarrow> advances l 0"
  by (auto simp: advances_def process_line_def take_label_def emit_rest_def)

lemma word_rows:
  "list_all (\<lambda>w. list_all (\<lambda>i. in_name i = w \<longrightarrow> in_nwords i = 1) isa_table)
     (cond_jumps @ [''jmp'', ''load_32'', ''counter'', ''add'', ''sub'', ''store_32'', ''mov'', ''lsl'', ''or'', ''and'', ''cmp''])"
  by code_simp

lemmas plain_eval = plain_char_def newline_def carriage_def dquote_def is_blank_def tab_def

lemma one_word_advances:
  assumes "w \<in> set (cond_jumps @ [''jmp'', ''load_32'', ''counter'', ''add'', ''sub'', ''store_32'', ''mov'', ''lsl'', ''or'', ''and'', ''cmp''])"
    and "list_all plain_char ops" and "length ops < 3900" and "ops \<noteq> []" and "\<not> is_blank (last ops)"
  shows "advances (''    '' @ w @ CHR '' '' # ops) 4"
proof -
  have "list_all (\<lambda>w. w \<noteq> [] \<and> is_alpha (hd w) \<and> list_all is_word w \<and> length w < 64 \<and> list_all plain_char w)
      (cond_jumps @ [''jmp'', ''load_32'', ''counter'', ''add'', ''sub'', ''store_32'', ''mov'', ''lsl'', ''or'', ''and'', ''cmp''])"
    by code_simp
  with assms(1) have w: "w \<noteq> []" "is_alpha (hd w)" "list_all is_word w" "length w < 64" "list_all plain_char w"
    by (simp_all only: list_all_iff) blast+
  have u: "hd w \<noteq> CHR ''U''"
    using assms(1) by (auto simp: cond_jumps_def)
  have d: "data_width (w @ CHR '' '' # ops) = None"
    using w(1) u by (cases w) (auto simp: data_width_def datas_def)
  have r: "list_all (\<lambda>i. in_name i = w \<longrightarrow> in_nwords i = 1) isa_table"
    using word_rows assms(1) by (simp only: list_all_iff) blast
  have p: "list_all plain_char (w @ CHR '' '' # ops)"
    using w(5) assms(2) by (simp add: plain_eval)
  have "length w + length ops < 4000"
    using w(4) assms(3) by simp
  from insn_advances [OF r w(1-4) d p this assms(4,5)] show ?thesis by simp
qed

lemma data_advances:
  assumes "list_all plain_char ops" and "length ops < 3900" and "ops \<noteq> []" and "\<not> is_blank (last ops)"
  shows "advances (''    U32 '' @ ops) 4"
  unfolding advances_def
proof (intro conjI allI impI)
  let ?l = "''    U32 '' @ ops"
  have pl: "list_all plain_char ?l"
    using assms(1) by (simp add: plain_eval)
  then show "newline \<notin> set ?l"
    unfolding list_all_iff plain_char_def by blast
  have a: "asm_line ?l = ?l"
    using scan_plain [OF pl, of "[]"] assms(2) by (simp add: asm_line_def MAX_LINE_def)
  have t: "trim ?l = ''U32 '' @ ops"
    using assms(3,4) by (cases ops rule: rev_cases) (auto simp: trim_def drop_blanks_def rtrim_def is_blank_def tab_def)
  have nc: "CHR '':'' \<notin> set (''U32 '' @ ops)"
    using assms(1) by (auto simp: list_all_iff plain_char_def)
  fix off cap lineno labels m bs labels'
  assume "process_line (asm_line ?l) False off cap lineno labels = Inr (m, bs, labels')"
  moreover have "take_label (trim (asm_line ?l)) False off lineno labels = Inr (''U32 '' @ ops, labels)"
    unfolding a t take_label_def using nc by simp
  ultimately have "emit_rest (''U32 '' @ ops) False off cap lineno labels = Inr (m, bs)"
    unfolding process_line_def by (auto split: sum.splits)
  moreover have "data_width (''U32 '' @ ops) = Some (4, drop_blanks ops)"
    by (simp add: data_width_def datas_def is_blank_def drop_blanks_def)
  ultimately show "m = 4"
    by (auto simp: emit_rest_def emit_data_def dquote_def is_alpha_def is_upper_def code_of_def
        split: option.splits if_splits)
qed

lemma hex_ops: "list_all plain_char (show_hex v)" "show_hex v \<noteq> []" "\<not> is_blank (last (show_hex v))"
proof -
  show n: "show_hex v \<noteq> []" by (simp add: show_hex_def)
  show "list_all plain_char (show_hex v)"
    using hex_plain(1) [of v] by (auto simp: list_all_iff)
  show "\<not> is_blank (last (show_hex v))"
    using hex_plain(1) [of v] last_in_set [OF n] by (auto simp: list_all_iff)
qed

lemma hex_pad_ops:
  "list_all plain_char (show_hex_pad 8 v)" "show_hex_pad 8 v \<noteq> []" "\<not> is_blank (last (show_hex_pad 8 v))"
  "length (show_hex_pad 8 v) \<le> 24"
proof -
  have z: "plain_char (CHR ''0'')" by (simp add: plain_eval)
  show "list_all plain_char (show_hex_pad 8 v)"
    using hex_ops(1) [of v] z by (auto simp: show_hex_pad_def list_all_iff)
  show "show_hex_pad 8 v \<noteq> []" "\<not> is_blank (last (show_hex_pad 8 v))"
    using hex_ops(2,3) [of v] by (simp_all add: show_hex_pad_def)
  show "length (show_hex_pad 8 v) \<le> 24"
    using hex_plain(2) [of v] by (simp add: show_hex_pad_def)
qed

lemma load_advances: "advances (''    load_32 r13, [0x'' @ show_hex v @ '']'') 4"
  using one_word_advances [of "''load_32''" "''r13, [0x'' @ show_hex v @ '']''"] hex_ops(1) [of v] hex_plain(2) [of v]
  by (simp add: plain_eval)

lemma jmp_r13_advances: "advances ''    jmp r13'' 4"
  using one_word_advances [of "''jmp''" "''r13''"] by (simp add: plain_eval)

lemma jmp_stub_measured: "measured (jmp_stub pa) 8"
  unfolding jmp_stub_def using measured_Cons [OF load_advances measured_one [OF jmp_r13_advances]] by simp

lemma cond_advances: "w \<in> set cond_jumps \<Longrightarrow> advances (''    '' @ w @ '' 0x'' @ show_hex v) 4"
  using one_word_advances [of w "''0x'' @ show_hex v"] hex_ops [of v] hex_plain(2) [of v]
  by (simp add: plain_eval)

lemma comment_advances:
  assumes "advances l n" and "list_all plain_char (l @ sp)" and "list_all is_blank sp" and "length (l @ sp) < MAX_LINE"
    and "newline \<notin> set x"
  shows "advances (l @ sp @ CHR '';'' # x) n"
proof (rule advances_trim [OF assms(1)])
  have rt: "rtrim (l @ sp) = rtrim l"
    using assms(3) by (simp add: rtrim_def dropWhile_append3 list_all_iff dropWhile_append)
  have db: "rtrim (drop_blanks (l @ sp)) = rtrim (drop_blanks l)"
  proof (cases "list_all is_blank l")
    case True
    then have "drop_blanks (l @ sp) = []" "drop_blanks l = []"
      using assms(3) by (auto simp: drop_blanks_def list_all_iff dropWhile_eq_Nil_conv)
    then show ?thesis by simp
  next
    case False
    then have "drop_blanks (l @ sp) = drop_blanks l @ sp"
      unfolding drop_blanks_def by (induction l) auto
    then show ?thesis
      using assms(3) by (simp add: rtrim_def dropWhile_append3 list_all_iff dropWhile_append)
  qed
  have "asm_line (l @ sp @ CHR '';'' # x) = l @ sp"
    using asm_line_comment [OF assms(2,4), of x] by simp
  moreover have "asm_line l = l"
    using scan_plain [of l "[]"] assms(2,4) by (simp add: asm_line_def)
  ultimately show "trim (asm_line (l @ sp @ CHR '';'' # x)) = trim (asm_line l)"
    using db by (simp add: trim_def)
  show "newline \<notin> set (l @ sp @ CHR '';'' # x)"
    using assms(2,5) by (auto simp: list_all_iff plain_char_def newline_def)
qed



section \<open>The lines of an object\<close>

lemma call_stub_measured:
  assumes "is_sym_ident tgt"
  shows "measured (call_stub tgt pa) 24"
proof -
  have nl: "newline \<notin> set tgt"
    using assms by (cases tgt) (auto simp: is_sym_ident_def list_all_iff is_ident_char_def is_alnum_def is_alpha_def
        is_lower_def is_upper_def is_digit_def newline_def code_of_def)
  let ?t = "[CHR 0xE8, CHR 0xBF, CHR 0x94, CHR 0xE5, CHR 0x9B, CHR 0x9E, CHR 0xE5, CHR 0x9C, CHR 0xB0, CHR 0xE5, CHR 0x9D, CHR 0x80, CHR 0x20, CHR 0x3D, CHR 0x20, CHR 0xE6, CHR 0xA1, CHR 0xA9, CHR 0xE9, CHR 0xA6, CHR 0x96, CHR 0x20, CHR 0x2B, CHR 0x20, CHR 0x32, CHR 0x34]"
  have c1: "advances (''    counter flags'' @ ''         '' @ CHR '';'' # ('' call '' @ tgt)) 4"
    by (rule comment_advances) (use one_word_advances [of "''counter''" "''flags''"] nl in \<open>simp_all add: plain_eval MAX_LINE_def\<close>)
  have "newline \<notin> set ?t"
    by code_simp
  then have c2: "advances (''    add flags, flags, 24'' @ '' '' @ CHR '';'' # ('' '' @ ?t)) 4"
    by (intro comment_advances) (use one_word_advances [of "''add''" "''flags, flags, 24''"] in \<open>simp_all add: plain_eval MAX_LINE_def\<close>)
  have c3: "advances ''    sub sp, sp, 4'' 4" "advances ''    store_32 [sp], flags'' 4"
    using one_word_advances [of "''sub''" "''sp, sp, 4''"] one_word_advances [of "''store_32''" "''[sp], flags''"]
    by (simp_all add: plain_eval)
  have "measured (call_stub tgt pa) (4 + (4 + (4 + (4 + (4 + 4)))))"
    unfolding call_stub_def
    by (intro measured_Cons measured_one load_advances jmp_r13_advances c3)
      (use c1 c2 in \<open>simp_all only: append.simps append_assoc append_Cons append_Nil\<close>)
  then show ?thesis by simp
qed

lemma cond_size:
  assumes "jump_parts l = (w, tgt)" and "w \<in> set cond_jumps" and "tgt \<noteq> []"
  shows "line_size_after l = Some 4"
proof -
  have len: "list_all (\<lambda>w. length w < 7) cond_jumps"
    by code_simp
  then have "length w < 7"
    using assms(2) by (auto simp: list_all_iff)
  then obtain q where q: "skip_spaces l = w @ CHR '' '' # q" "CHR '' '' \<in> set l"
    using jump_line_shape [OF assms(1) _ assms(3)] by blast
  have "\<not> is_call l" "\<not> is_jmp l"
    using assms(2) by (auto simp: is_call_def is_jmp_def assms(1) cond_jumps_def)
  moreover have "obj_line_size l = Some 4"
  proof -
    have "list_all (\<lambda>w. w \<noteq> [] \<and> hd w = CHR ''j'') cond_jumps"
      by code_simp
    then obtain w' where "w = CHR ''j'' # w'"
      using assms(2) by (cases w) (auto simp: list_all_iff)
    with q(1) have "dropWhile (\<lambda>c. c = CHR '' '') l = CHR ''j'' # w' @ CHR '' '' # q"
      by (simp add: skip_spaces_def)
    then show ?thesis
      using space_no_label [OF q(2)] by (simp add: obj_line_size_def has_prefix_def newline_def dquote_def)
  qed
  ultimately show ?thesis by (simp add: line_size_after_def)
qed

text \<open>
  The remaining lines: what they become is measured by the assembler as \<^verbatim>\<open>obj_line_size\<close> measures
  the line itself.
\<close>

definition well_sized :: "ctx \<Rightarrow> nat \<times> string \<Rightarrow> bool" where
  "well_sized c x \<longleftrightarrow>
     newline \<notin> set (snd x) \<and> carriage \<notin> set (snd x) \<and> obj_label_name_len (snd x) < 4000 \<and>
     (obj_label_name_len (snd x) = 0 \<and> snd x \<noteq> [] \<and> \<not> is_call (snd x) \<and> \<not> is_jmp (snd x) \<and>
      \<not> is_cond_jump (fst (jump_parts (snd x))) \<longrightarrow>
        (\<forall>outs calls jmps calls' jmps' n. emit_line c (fst x) (snd x) calls jmps = Inr (outs, calls', jmps') \<longrightarrow>
           obj_line_size (snd x) = Some n \<longrightarrow> measured outs n)) \<and>
     (is_cond_jump (fst (jump_parts (snd x))) \<longrightarrow> snd (jump_parts (snd x)) \<noteq> [])"

lemma label_size: "obj_label_name_len l \<noteq> 0 \<Longrightarrow> obj_line_size l = Some 0"
  by (auto simp: obj_line_size_def Let_def)

lemma label_line:
  assumes "obj_label_name_len l \<noteq> 0" and "newline \<notin> set l" and "carriage \<notin> set l"
  obtains nm where "l = nm @ '':''" "take (obj_label_name_len l) l = nm" "nm \<noteq> []" "list_all is_ident_char nm"
proof -
  have e: "\<not> is_eol c" if "c \<in> set l" for c
    using that assms(2,3) by (auto simp: is_eol_def)
  have d: "dropWhile is_eol xs = xs" if "\<forall>c \<in> set xs. \<not> is_eol c" for xs
    using that by (cases xs) auto
  have s: "dropWhile is_eol (strip_eol l) = l"
    using e by (simp add: strip_eol_def d)
  have L: "\<not> length l < 2" "last l = CHR '':''" "list_all is_ident_char (butlast l)" "obj_label_name_len l = length l - 1"
    using assms(1) by (simp_all add: obj_label_name_len_def s Let_def split: if_splits)
  obtain nm x where n: "l = nm @ [x]"
    using L(1) by (cases l rule: rev_cases) auto
  with L that [of nm] show thesis by auto
qed

lemma label_line_advances:
  assumes "nm \<noteq> []" and "list_all is_ident_char nm" and "length nm < 4000"
  shows "advances (nm @ '':'') 0"
  unfolding advances_def
proof (intro conjI allI impI)
  have id: "plain_char c \<and> \<not> is_blank c \<and> is_word c" if "is_ident_char c" for c
    using that by (auto simp: is_ident_char_def is_alnum_def is_alpha_def is_lower_def is_upper_def is_digit_def
        is_word_def plain_eval code_of_def)
  have pl: "list_all plain_char nm" and nb: "\<forall>c \<in> set nm. \<not> is_blank c" and w: "list_all is_ident_char nm"
    using assms(2) id by (auto simp: list_all_iff)
  then have nc: "CHR '':'' \<notin> set nm" and nl: "newline \<notin> set nm"
    by (auto simp: list_all_iff plain_char_def)
  then show "newline \<notin> set (nm @ '':'')"
    by (simp add: newline_def)
  have "asm_line (nm @ [c]) = nm @ [c]" if "c = CHR '':''" for c
  proof -
    have "scan_line False b (nm @ [c]) = (b @ nm @ [c], [])" if "length b + length nm < 4000" for b
      using pl that
    proof (induction nm arbitrary: b)
      case Nil
      then show ?case by (simp add: \<open>c = CHR '':''\<close> newline_def carriage_def dquote_def MAX_LINE_def Let_def)
    next
      case (Cons x xs)
      then show ?case by (simp add: plain_char_def MAX_LINE_def Let_def)
    qed
    then show ?thesis using assms(3) by (simp add: asm_line_def)
  qed
  then have a: "asm_line (nm @ '':'') = nm @ '':''" by simp
  have t: "trim (nm @ '':'') = nm @ '':''" "trim nm = nm" "rtrim nm = nm"
    using nb trim_no_blanks [of "nm @ '':''"] trim_no_blanks [of nm]
    by (simp_all add: is_blank_def tab_def rtrim_def) (cases nm rule: rev_cases; auto simp: is_blank_def tab_def)
  have tk: "takeWhile (\<lambda>c. c \<noteq> CHR '':'') (nm @ '':'') = nm"
    using nc by (subst takeWhile_append2) auto
  fix off cap lineno labels m bs labels'
  assume p: "process_line (asm_line (nm @ '':'')) False off cap lineno labels = Inr (m, bs, labels')"
  show "m = 0"
  proof (cases "is_ident nm")
    case True
    then have "take_label (nm @ '':'') False off lineno labels \<in> {Inl e | e. True} \<union> {Inr ([], l) | l. True}"
      using trim_no_blanks [of "[]"] by (auto simp: take_label_def tk t Let_def split: sum.splits)
    with p show ?thesis
      unfolding process_line_def a t by (auto simp: emit_rest_def split: sum.splits)
  next
    case False
    have "take_label (nm @ '':'') False off lineno labels = Inr (nm @ '':'', labels)"
      using False by (simp add: take_label_def tk t Let_def)
    with p have "emit_rest (nm @ '':'') False off cap lineno labels = Inr (m, bs)"
      unfolding process_line_def a t by (auto split: sum.splits)
    moreover obtain x xs where x: "nm = x # xs"
      using assms(1) by (cases nm) auto
    moreover have "\<not> is_alpha x" "x \<noteq> CHR ''@''" "x \<noteq> dquote"
    proof -
      have i: "is_ident_char x" "\<forall>y \<in> set xs. is_ident_char y"
        using w by (auto simp: x list_all_iff)
      then show "\<not> is_alpha x"
        using False by (auto simp: x is_ident_def is_ident_char_def list_all_iff)
      show "x \<noteq> CHR ''@''" "x \<noteq> dquote"
      proof -
        have "\<not> is_ident_char (CHR ''@'')" "\<not> is_ident_char dquote"
          by code_simp+
        with i(1) show "x \<noteq> CHR ''@''" "x \<noteq> dquote" by blast+
      qed
    qed
    ultimately show ?thesis
      by (simp add: emit_rest_def)
  qed
qed


lemma emit_line_measured:
  assumes "well_sized c (oi, l)" and "emit_line c oi l calls jmps = Inr (out, calls', jmps')"
    and "line_size_after l = Some n"
  shows "measured out n"
proof -
  have nl: "newline \<notin> set l" "carriage \<notin> set l" "obj_label_name_len l < 4000"
    using assms(1) by (simp_all add: well_sized_def)
  obtain w tgt where j: "jump_parts l = (w, tgt)" by (cases "jump_parts l")
  consider (jump) "is_call l \<or> is_jmp l" | (label) "obj_label_name_len l \<noteq> 0"
    | (cond) "\<not> (is_call l \<or> is_jmp l)" "obj_label_name_len l = 0" "is_cond_jump w"
    | (empty) "l = []"
    | (plain) "\<not> is_call l" "\<not> is_jmp l" "obj_label_name_len l = 0" "\<not> is_cond_jump w" "l \<noteq> []"
    by blast
  then show ?thesis
  proof cases
    case jump
    have sym: "is_sym_ident tgt"
      using jump by (auto simp: is_call_def is_jmp_def j)
    show ?thesis
      using jump_line_emitted [OF jump] assms(2,3) jump jump_kinds [of l] call_stub_measured [OF sym] jmp_stub_measured
      by (auto simp: emit_line_def Let_def j line_size_after_def split: if_splits)
  next
    case label
    obtain nm where nm: "l = nm @ '':''" "take (obj_label_name_len l) l = nm" "nm \<noteq> []" "list_all is_ident_char nm"
      using label_line [OF label nl(1,2)] .
    have "length nm < 4000"
      using nl(3) nm(2) by (metis label_len length_take min.absorb2)
    from label_line_advances [OF nm(3,4) this] have "measured [nm @ '':''] 0"
      by (rule measured_one)
    moreover have "n = 0"
      using assms(3) label label_size [OF label] jump_line_emitted(1) [of l] by (auto simp: line_size_after_def split: if_splits)
    ultimately show ?thesis
      using assms(2) label nm(2) by (auto simp: emit_line_def Let_def j split: option.splits if_splits)
  next
    case cond
    then have t: "tgt \<noteq> []" "w \<in> set cond_jumps"
      using assms(1) by (auto simp: well_sized_def j is_cond_jump_def)
    have "n = 4"
      using cond_size [OF j t(2,1)] assms(3) by simp
    have len: "list_all (\<lambda>w. length w < 7 \<and> w \<noteq> [] \<and> hd w = CHR ''j'') cond_jumps"
      by code_simp
    then have w: "length w < 7" "w \<noteq> []" "hd w = CHR ''j''"
      using t(2) by (auto simp: list_all_iff)
    obtain q where q: "skip_spaces l = w @ CHR '' '' # q"
      using jump_line_shape [OF j w(1) t(1)] .
    have "hd (skip_spaces l) = CHR ''j''" "skip_spaces l \<noteq> []"
      using q w(2,3) by simp_all
    with assms(2) cond have "\<exists>v. out = [''    '' @ w @ '' 0x'' @ show_hex v]"
      by (auto simp: emit_line_def Let_def j dquote_def split: option.splits)
    with measured_one [OF cond_advances [OF t(2)]] \<open>n = 4\<close> show ?thesis by auto
  next
    case empty
    then show ?thesis
      using assms(2,3) measured_one [OF empty_advances [of "[]"]] trim_no_blanks [of "[]"]
      by (auto simp: emit_line_def Let_def j skip_spaces_def line_size_after_def is_call_def is_jmp_def
          obj_line_size_def obj_label_name_len_def strip_eol_def asm_line_def is_sym_ident_def jump_parts_def
          split: if_splits)
  next
    case plain
    have "\<And>outs ca ja ca' ja' n. emit_line c oi l ca ja = Inr (outs, ca', ja') \<Longrightarrow> obj_line_size l = Some n \<Longrightarrow> measured outs n"
      using assms(1) plain unfolding well_sized_def by (simp add: j) blast
    from this [OF assms(2)] assms(3) plain show ?thesis
      by (simp add: line_size_after_def)
  qed
qed

lemma emit_lines_measured:
  "emit_lines c ls calls jmps = Inr (out, calls', jmps') \<Longrightarrow> \<forall>x \<in> set ls. well_sized c x \<Longrightarrow>
     sum_sizes line_size_after (map snd ls) = Some n \<Longrightarrow> measured out n"
proof (induction ls arbitrary: calls jmps out n)
  case Nil
  then show ?case by simp
next
  case (Cons x ls)
  obtain oi l where x: "x = (oi, l)" by (cases x)
  from Cons.prems(1) x obtain o1 c1 j1 o2 where e: "emit_line c oi l calls jmps = Inr (o1, c1, j1)"
      "emit_lines c ls c1 j1 = Inr (o2, calls', jmps')" "out = o1 @ o2"
    by (auto split: sum.splits prod.splits)
  from Cons.prems(3) x obtain k m where k: "line_size_after l = Some k" "sum_sizes line_size_after (map snd ls) = Some m"
      "n = k + m"
    by (auto split: option.splits)
  show ?case
    unfolding e(3) k(3)
    by (rule measured_append [OF emit_line_measured [OF _ e(1) k(1)] Cons.IH [OF e(2) _ k(2)]])
      (use Cons.prems(2) x in auto)
qed


section \<open>The low memory\<close>

lemma replicate_measured: "advances l 4 \<Longrightarrow> measured (replicate k l) (4 * int k)"
  using measured_concat [of "replicate k l" "\<lambda>x. [x]" 4] measured_one by (fastforce simp: concat_map_singleton)

lemma comment_line: "newline \<notin> set x \<Longrightarrow> advances (CHR '';'' # x) 0"
proof -
  assume "newline \<notin> set x"
  moreover have "asm_line ([] @ CHR '';'' # x) = []"
    by (rule asm_line_comment) (simp_all add: MAX_LINE_def)
  ultimately show ?thesis
    using trim_no_blanks [of "[]"] by (intro empty_advances) (simp_all add: newline_def)
qed

lemma zero_word: "advances ''    U32 0'' 4" "advances ''    U32 0x00000000'' 4"
  using data_advances [of "''0''"] data_advances [of "''0x00000000''"] by (simp_all add: plain_eval)

lemma pool_lines_measured:
  assumes "regions_ok c" and "(halt_base c + 4) mod 4 = 0" and "length pt = nat (n_slots c)" and "0 \<le> n_slots c"
  shows "measured (pool_lines c pt) (tramp_base c - (halt_base c + 4))"
proof -
  have w: "advances (''    U32 0x'' @ show_hex_pad 8 v) 4" for v
    using data_advances [of "''0x'' @ show_hex_pad 8 v"] hex_pad_ops [of v] by (simp add: plain_eval)
  have "newline \<notin> set (show_int v)" for v
    by (rule shown_last(3))
  then have c: "advances (''; jump target pool ('' @ show_int v @ '' entries)'') 0" for v
    using comment_line [of "'' jump target pool ('' @ show_int v @ '' entries)''"] by (simp add: newline_def)
  let ?k = "nat ((pool_base c - (halt_base c + 4) + 3) div 4)"
  have k: "4 * int ?k = pool_base c - (halt_base c + 4)"
    using assms(1,2) unfolding regions_ok_def by simp presburger
  have "measured (map (\<lambda>t. ''    U32 0x'' @ show_hex_pad 8 (tr_target t)) (tramps c)) (4 * n_tramp c)"
    using measured_concat [of "tramps c" "\<lambda>t. [''    U32 0x'' @ show_hex_pad 8 (tr_target t)]" 4] measured_one [OF w]
    by (simp add: n_tramp_def)
  moreover have "measured (map (\<lambda>v. ''    U32 0x'' @ show_hex_pad 8 v) pt) (4 * n_slots c)"
    using measured_concat [of pt "\<lambda>v. [''    U32 0x'' @ show_hex_pad 8 v]" 4] measured_one [OF w] assms(3,4)
    by simp
  ultimately have "measured (pool_lines c pt) (4 * int ?k + (0 + (4 * n_tramp c + 4 * n_slots c)))"
    unfolding pool_lines_def by (intro measured_append replicate_measured zero_word measured_one c)
  moreover have "4 * int ?k + (0 + (4 * n_tramp c + 4 * n_slots c)) = tramp_base c - (halt_base c + 4)"
    using assms(1) unfolding k regions_ok_def by (auto simp: algebra_simps)
  ultimately show ?thesis by (simp only:)
qed

lemma tramp_lines_measured:
  assumes "regions_ok c"
  shows "measured (tramp_lines c) (bss_base c - tramp_base c)"
proof -
  have c: "advances (''; trampolines ('' @ show_int v @ '')'') 0" for v
    using comment_line [of "'' trampolines ('' @ show_int v @ '')''"] shown_last(3) by (simp add: newline_def)
  have "measured (concat (map (\<lambda>t. jmp_stub (pool_base c + 4 * tr_pool_idx t)) (tramps c))) (8 * n_tramp c)"
    unfolding n_tramp_def by (rule measured_concat) (rule jmp_stub_measured)
  then have "measured (tramp_lines c) (0 + 8 * n_tramp c)"
    unfolding tramp_lines_def by (intro measured_append measured_one c)
  then show ?thesis
    using assms by (simp add: regions_ok_def)
qed

lemma bss_lines_measured:
  assumes "regions_ok c" and "0 \<le> bss_total c"
  shows "measured (bss_lines c) (bss_end c - bss_base c)"
proof -
  have "bss_end c mod 4 = 0" "bss_base c \<le> bss_end c" "bss_base c mod 4 = 0"
    using align4_bounds [of "bss_base c + bss_total c"] assms by (auto simp: bss_end_def regions_ok_def)
  then have "4 * int (nat ((bss_end c - bss_base c) div 4)) = bss_end c - bss_base c"
    by simp presburger
  then show ?thesis
    unfolding bss_lines_def using replicate_measured [OF zero_word(2)] by metis
qed



section \<open>Labels stand where they were resolved\<close>

lemma lines_of_text_append:
  "list_all (\<lambda>l. newline \<notin> set l) ls \<Longrightarrow> lines_of (text_of ls @ x) = map asm_line ls @ lines_of x"
proof (induction ls)
  case Nil
  then show ?case by (simp add: text_of_def)
next
  case (Cons l ls)
  have "text_of (l # ls) @ x = l @ newline # text_of ls @ x"
    by (simp add: text_of_def)
  with Cons show ?case
    by (subst lines_of.simps) (simp add: next_line_def scan_line_newline asm_line_def)
qed

lemma text_of_append: "text_of (xs @ ys) = text_of xs @ text_of ys"
  by (simp add: text_of_def)

lemma map_snd_object_lines: "map snd (object_lines f k obs) = concat (map f obs)"
proof -
  have "map snd (concat (map (\<lambda>(oi, ob). map (Pair oi) (f ob)) xs)) = concat (map (f \<circ> snd) xs)" for xs :: "(nat \<times> obj) list"
    by (induction xs) (auto simp: comp_def)
  then show ?thesis
    by (simp add: object_lines_def flip: map_map)
qed

lemma object_lines_append:
  "object_lines f k (xs @ ys) = object_lines f k xs @ object_lines f (k + length xs) ys"
  by (simp add: object_lines_def enumerate_append_eq)

lemma object_lines_Cons: "object_lines f k (ob # obs) = map (Pair k) (f ob) @ object_lines f (Suc k) obs"
  by (simp add: object_lines_def)

text \<open>Where the text of the objects starts and what the lines before an object's label take.\<close>

lemma low_measured:
  assumes "resolve_all obs = Inr (c, pt)"
    and "emit_lines c (object_lines text_lines 0 (take 1 obs)) 0 0 = Inr (crt0, calls, jmps)"
    and "\<forall>x \<in> set (object_lines text_lines 0 (take 1 obs)). well_sized c x"
    and "sum_sizes line_size_after (text_lines (hd obs)) = Some n" and "n mod 4 = 0" and "0 \<le> bss_total c"
    and "obs \<noteq> []" and "halt_base c = n + 4"
  shows "measured (crt0 @ [''    jmp halt'', ''halt:'', ''    jmp halt''] @ pool_lines c pt @ tramp_lines c @ bss_lines c) (bss_end c)"
proof -
  note R = resolve_all_pool [OF assms(1)]
  have "sum_sizes line_size_after (map snd (object_lines text_lines 0 (take 1 obs))) = Some n"
    using assms(4,7) by (cases obs) (simp_all add: map_snd_object_lines)
  note m1 = emit_lines_measured [OF assms(2,3) this]
  have h: "advances ''    jmp halt'' 4" "advances (''halt'' @ '':'') 0"
    using one_word_advances [of "''jmp''" "''halt''"] label_line_advances [of "''halt''"]
    by (simp_all add: plain_eval is_ident_char_def is_alnum_def is_alpha_def is_lower_def code_of_def)
  have m2: "measured [''    jmp halt'', ''halt:'', ''    jmp halt''] (4 + (0 + 4))"
    using measured_Cons [OF h(1) measured_Cons [OF h(2) measured_one [OF h(1)]]] by simp
  have hb: "(halt_base c + 4) mod 4 = 0"
    using assms(5,8) by presburger
  have "measured (crt0 @ [''    jmp halt'', ''halt:'', ''    jmp halt''] @ pool_lines c pt @ tramp_lines c @ bss_lines c)
      (n + ((4 + (0 + 4)) + ((tramp_base c - (halt_base c + 4)) + ((bss_base c - tramp_base c) + (bss_end c - bss_base c)))))"
    using R assms(6) hb
    by (intro measured_append m1 m2 pool_lines_measured tramp_lines_measured bss_lines_measured) auto
  then show ?thesis
    using assms(8) by simp
qed

lemma symbols_place_keep:
  assumes "resolve_all obs = Inr (c, pt)"
  shows "(\<exists>n. sum_sizes line_size_after (text_lines (hd obs)) = Some n \<and> halt_base c = n + 4) \<and>
    (\<exists>offs e. text_off c = 0 # offs \<and> seg_offsets line_size_after (map text_lines (tl obs)) (bss_end c) = Some (offs, e))"
proof -
  from assms obtain c1 c2 c3 ci ji where st: "layout (empty_ctx obs) = Inr c1" "symbols c1 = Inr c2"
      "place_tramps c2 = Inr c3" "c = c3\<lparr>ci_idx := ci, ji_idx := ji\<rparr>"
    by (auto simp: resolve_all_def split: sum.splits)
  have e2: "c2 = c1\<lparr>locals := locals c2, globals := globals c2\<rparr>"
    using symbols_facts [OF st(2)] by blast
  have e3: "c3 = c2\<lparr>tramps := tramps c3\<rparr>"
    using place_tramps_facts [OF st(3)] by blast
  note get2 = arg_cong [OF e2] and get3 = arg_cong [OF e3]
  have "halt_base c = halt_base c1" "text_off c = text_off c1" "bss_end c = bss_end c1"
    using get2 [of halt_base] get3 [of halt_base] get2 [of text_off] get3 [of text_off] get2 [of bss_end] get3 [of bss_end]
    by (simp_all add: st(4) bss_end_def)
  then show ?thesis
    using layout_facts [OF st(1)] by metis
qed

text \<open>What stands before the rest is read up to its measured size.\<close>

lemma measured_prefix:
  assumes before: "measured before n" and "asm_pass False cap (lines_of (text_of (before @ after))) 0 0 [] = Inr r"
  shows "\<exists>b lb. asm_pass False cap (lines_of (text_of before)) 0 0 [] = Inr (of_int n, b, lb)"
proof -
  have lo: "lines_of (text_of (before @ after)) = map asm_line before @ lines_of (text_of after)"
      "lines_of (text_of before) = map asm_line before"
    using lines_of_text_append [OF measured_clean [OF before]] lines_of_text [OF measured_clean [OF before]]
    unfolding text_of_append by simp_all
  show ?thesis
  proof (cases "asm_pass False cap (map asm_line before) 0 0 []")
    case (Inl a)
    then have "asm_pass False cap (lines_of (text_of (before @ after))) 0 0 [] = Inl a"
      unfolding lo(1) asm_pass_append by (simp only: sum.case)
    with assms(2) show ?thesis by simp
  next
    case (Inr x)
    then obtain o1 b lb where pass: "asm_pass False cap (lines_of (text_of before)) 0 0 [] = Inr (o1, b, lb)"
      unfolding lo(2) by (cases x) metis
    with measured_pass [OF before pass] show ?thesis by simp
  qed
qed



section \<open>Witness\<close>

text \<open>Two objects of labels and jumps; most of the image is the filler before the pool.\<close>

definition jump_objs :: "obj list" where
  "jump_objs =
     [obj_new\<lparr>text_lines := [''_start:'', ''    call main'', ''L0:'', ''    jmp L0'']\<rparr>,
      \<lparr>text_lines = [''main:'', ''    je L1'', ''L1:'', ''    jmp main''], data_lines = [], bss_decls = [],
       obj_syms = [\<lparr>sy_name = ''main'', sy_is_data = False, sy_segment = 0, sy_offset = 0, sy_size = 0\<rparr>]\<rparr>]"

definition jump_ctx :: ctx where
  "jump_ctx = \<lparr>objs = jump_objs, data_base = 12324, data_size = 0, text_size = 12324, bss_base = 12312, bss_total = 0,
     text_off = [0, 12312], data_off = [12324, 12324], halt_base = 36, pool_base = 12288, tramp_base = 12304,
     tramps = [\<lparr>tr_obj = 1, tr_name = ''L1'', tr_addr = 12304, tr_target = 12316, tr_pool_idx = 0\<rparr>],
     pool_refs = [(1, ''main'', 2), (0, ''L0'', 1), (0, ''main'', 0)],
     pool_slots = [\<lparr>sl_obj = 1, sl_name = ''main'', sl_rslot = 2\<rparr>, \<lparr>sl_obj = 0, sl_name = ''L0'', sl_rslot = 1\<rparr>,
       \<lparr>sl_obj = 0, sl_name = ''main'', sl_rslot = 0\<rparr>],
     n_slots = 3, n_call = 1, n_jmp = 2, ci_idx = [0], ji_idx = [1, 2],
     locals = [entry 1 0 ''L1'' 4, entry 1 0 ''main'' 0, entry 0 0 ''L0'' 24, entry 0 0 ''_start'' 0],
     globals = [builtin ''end'' 12312, builtin ''__bss_end'' 12312, builtin ''__bss_start'' 12312,
       \<lparr>gs_name = ''main'', gs_is_data = False, gs_segment = 0, gs_obj = 1, gs_off = 12312, gs_builtin = False\<rparr>]\<rparr>"

lemma jump_objs_resolved: "resolve_all jump_objs = Inr (jump_ctx, [12312, 24, 12312])"
  by code_simp

lemma jump_line_facts:
  "map (\<lambda>l. (obj_label_name_len l, is_call l, is_jmp l, jump_parts l))
     [''_start:'', ''    call main'', ''L0:'', ''    jmp L0'', ''main:'', ''    je L1'', ''L1:'', ''    jmp main'']
   = [(6, False, False, ''_start:'', []), (0, True, False, ''call'', ''main''), (2, False, False, ''L0:'', []),
      (0, False, True, ''jmp'', ''L0''), (4, False, False, ''main:'', []), (0, False, False, ''je'', ''L1''),
      (2, False, False, ''L1:'', []), (0, False, True, ''jmp'', ''main'')]"
  by code_simp

lemmas jump_lines = jump_line_facts [simplified]

lemma jump_emitted:
  "emit_lines jump_ctx (object_lines text_lines 0 (take 1 jump_objs)) 0 0 =
     Inr (call_stub ''main'' 12292 @ jmp_stub 12296, 1, 1)"
  "emit_lines jump_ctx (object_lines text_lines 1 (tl jump_objs)) 1 1 =
     Inr ([''main:'', ''    je 0x'' @ show_hex 12304] @ jmp_stub 12300, 1, 2)"
  "object_lines data_lines 0 jump_objs = []"
  by (simp_all add: object_lines_def jump_objs_def obj_new_def emit_line_def jump_lines jump_ctx_def find_global_def builtin_def
      skip_spaces_def is_cond_jump_def cond_jumps_def slot_addr_def n_tramp_def dquote_def)

definition jump_image :: "string list" where
  "jump_image =
     (call_stub ''main'' 12292 @ jmp_stub 12296 @ [''    jmp halt'', ''halt:'', ''    jmp halt''])
     @ replicate 3062 ''    U32 0''
     @ [''; jump target pool (4 entries)'', ''    U32 0x0000301c'', ''    U32 0x00003018'', ''    U32 0x00000018'',
        ''    U32 0x00003018'', ''; trampolines (1)''] @ jmp_stub 12288
     @ [''main:'', ''    je 0x3010''] @ jmp_stub 12300"

lemma four_six: "replicate 4 x = [x, x, x, x]" "replicate 6 x = [x, x, x, x, x, x]"
  by (simp_all add: numeral_eq_Suc)

lemma shown_numbers:
  "show_hex 12304 = ''3010''" "show_hex_pad 8 12316 = ''0000301c''" "show_hex_pad 8 12312 = ''00003018''"
  "show_hex_pad 8 24 = ''00000018''" "show_int 4 = ''4''" "show_int 1 = ''1''"
  "show_hex 12292 = ''3004''" "show_hex 12296 = ''3008''" "show_hex 12288 = ''3000''" "show_hex 12300 = ''300c''"
  using four_six by (simp_all add: show_hex_pad_def show_hex_def show_int_def show_base.simps digit_char_def)

lemma jump_output: "link_output jump_ctx [12312, 24, 12312] = Inr jump_image"
proof -
  have o: "objs jump_ctx = jump_objs" by (simp add: jump_ctx_def)
  have p: "pool_lines jump_ctx [12312, 24, 12312] = replicate 3062 ''    U32 0''
     @ [''; jump target pool (4 entries)'', ''    U32 0x0000301c'', ''    U32 0x00003018'', ''    U32 0x00000018'', ''    U32 0x00003018'']"
    by (simp add: pool_lines_def jump_ctx_def n_tramp_def shown_numbers)
  have t: "tramp_lines jump_ctx = ''; trampolines (1)'' # jmp_stub 12288"
    by (simp add: tramp_lines_def jump_ctx_def n_tramp_def shown_numbers)
  have b: "bss_lines jump_ctx = []"
    by (simp add: bss_lines_def bss_end_def jump_ctx_def align4_def)
  show ?thesis
    unfolding link_output_def o
    by (simp only: jump_emitted sum.case prod.case p t b emit_lines.simps jump_image_def append_assoc append.simps
        append_Nil2 shown_numbers)
qed

text \<open>The assembler accepts it: a line of the given size, whatever the labels.\<close>

definition accepted :: "nat \<Rightarrow> string list \<Rightarrow> bool" where
  "accepted k ls \<longleftrightarrow>
     (\<forall>cap lineno off labels. length labels + k \<le> 4096 \<longrightarrow>
        (\<exists>off' labels'. asm_pass False cap (map asm_line ls) lineno off labels = Inr (off', [], labels') \<and>
           length labels' \<le> length labels + k))"

lemma accepted_append: "accepted i xs \<Longrightarrow> accepted k ys \<Longrightarrow> accepted (i + k) (xs @ ys)"
  unfolding accepted_def
proof (intro allI impI)
  fix cap lineno off and labels :: labels
  assume a: "\<forall>cap lineno off labels. length labels + i \<le> 4096 \<longrightarrow>
      (\<exists>off' labels'. asm_pass False cap (map asm_line xs) lineno off labels = Inr (off', [], labels') \<and> length labels' \<le> length labels + i)"
    and b: "\<forall>cap lineno off labels. length labels + k \<le> 4096 \<longrightarrow>
      (\<exists>off' labels'. asm_pass False cap (map asm_line ys) lineno off labels = Inr (off', [], labels') \<and> length labels' \<le> length labels + k)"
    and n: "length labels + (i + k) \<le> 4096"
  have "length labels + i \<le> 4096" using n by simp
  with a obtain o1 l1 where 1: "asm_pass False cap (map asm_line xs) lineno off labels = Inr (o1, [], l1)" "length l1 \<le> length labels + i"
    by blast
  then have "length l1 + k \<le> 4096" using n by simp
  with b obtain o2 l2 where 2: "asm_pass False cap (map asm_line ys) (lineno + length xs) o1 l1 = Inr (o2, [], l2)" "length l2 \<le> length l1 + k"
    by blast
  have "asm_pass False cap (map asm_line (xs @ ys)) lineno off labels = Inr (o2, [], l2)"
    using 1(1) 2(1) by (simp add: asm_pass_append)
  moreover have "length l2 \<le> length labels + (i + k)"
    using 1(2) 2(2) by simp
  ultimately show "\<exists>off' labels'. asm_pass False cap (map asm_line (xs @ ys)) lineno off labels = Inr (off', [], labels')
      \<and> length labels' \<le> length labels + (i + k)"
    by blast
qed

lemma accepted_one:
  assumes "\<And>off cap lineno labels. process_line (asm_line l) False off cap lineno labels = Inr (n, [], labels)" and "0 \<le> n"
  shows "accepted 0 [l]"
  using assms by (simp add: accepted_def)

lemma accepted_replicate: "accepted 0 [l] \<Longrightarrow> accepted 0 (replicate k l)"
proof (induction k)
  case 0
  then show ?case by (simp add: accepted_def)
next
  case (Suc k)
  then show ?case
    using accepted_append [of 0 "[l]" 0 "replicate k l"] by simp
qed

lemma accepted_label:
  assumes "process_line (asm_line l) False = (\<lambda>off cap lineno labels.
     case add_label nm off lineno labels of Inl e \<Rightarrow> Inl e | Inr labels' \<Rightarrow> Inr (0, [], labels'))"
    and "is_ident nm" and "isa_reg_index nm < 0"
  shows "accepted 1 [l]"
  using assms by (auto simp: accepted_def add_label_def MAX_LABELS_def)

lemmas line_eval = asm_line_def MAX_LINE_def newline_def carriage_def dquote_def process_line_def take_label_def
  emit_rest_def emit_data_def data_width_def datas_def is_word_def asm_eval after_newline_def

lemma accepted_insns:
  "accepted 0 [''    load_32 r13, [0x3004]'']" "accepted 0 [''    load_32 r13, [0x3008]'']"
  "accepted 0 [''    load_32 r13, [0x3000]'']" "accepted 0 [''    load_32 r13, [0x300c]'']"
  "accepted 0 [''    jmp r13'']" "accepted 0 [''    jmp halt'']" "accepted 0 [''    U32 0'']"
  "accepted 0 [''    U32 0x0000301c'']" "accepted 0 [''    U32 0x00003018'']" "accepted 0 [''    U32 0x00000018'']"
  "accepted 0 [''    je 0x3010'']" "accepted 0 [''    sub sp, sp, 4'']" "accepted 0 [''    store_32 [sp], flags'']"
  by (rule accepted_one [where n = 4], simp add: line_eval is_ident_def, simp)+

lemma accepted_comments:
  "accepted 0 [''; jump target pool (4 entries)'']" "accepted 0 [''; trampolines (1)'']"
  by (rule accepted_one [where n = 0], simp add: line_eval, simp)+

lemma accepted_labels: "accepted 1 [''halt:'']" "accepted 1 [''main:'']"
proof -
  show "accepted 1 [''halt:'']"
    by (rule accepted_label [where nm = "''halt''"], intro ext, simp add: line_eval is_ident_def split: sum.split, code_simp, code_simp)
  show "accepted 1 [''main:'']"
    by (rule accepted_label [where nm = "''main''"], intro ext, simp add: line_eval is_ident_def split: sum.split, code_simp, code_simp)
qed

lemma accepted_Cons: "accepted i [l] \<Longrightarrow> accepted k ls \<Longrightarrow> accepted (i + k) (l # ls)"
  using accepted_append [of i "[l]" k ls] by simp

lemma accepted_Nil: "accepted 0 []"
  by (simp add: accepted_def)

lemma accepted_stubs:
  "accepted 0 (jmp_stub 12288)" "accepted 0 (jmp_stub 12296)" "accepted 0 (jmp_stub 12300)" "accepted 0 (call_stub ''main'' 12292)"
proof -
  show "accepted 0 (jmp_stub 12288)" "accepted 0 (jmp_stub 12296)" "accepted 0 (jmp_stub 12300)"
    using accepted_Cons [OF _ accepted_insns(5), of 0] accepted_insns(2-4)
    by (simp_all add: jmp_stub_def shown_numbers)
  have c1: "accepted 0 [''    counter flags         ; call '' @ ''main'']"
    by (rule accepted_one [where n = 4], simp add: line_eval, simp)
  have c2: "accepted 0 [''    add flags, flags, 24 ; '' @ 
        [CHR 0xE8, CHR 0xBF, CHR 0x94, CHR 0xE5, CHR 0x9B, CHR 0x9E, CHR 0xE5, CHR 0x9C, CHR 0xB0, CHR 0xE5, CHR 0x9D, CHR 0x80,
         CHR 0x20, CHR 0x3D, CHR 0x20, CHR 0xE6, CHR 0xA1, CHR 0xA9, CHR 0xE9, CHR 0xA6, CHR 0x96, CHR 0x20, CHR 0x2B, CHR 0x20, CHR 0x32, CHR 0x34]]"
    by (rule accepted_one [where n = 4], simp add: line_eval, simp)
  have "accepted (0 + (0 + (0 + (0 + (0 + 0))))) (call_stub ''main'' 12292)"
    unfolding call_stub_def
    by (intro accepted_Cons) (use c1 c2 accepted_insns in \<open>simp_all add: shown_numbers\<close>)
  then show "accepted 0 (call_stub ''main'' 12292)" by simp
qed

lemma jump_image_accepted: "\<exists>r. asm_pass False 0 (lines_of (text_of jump_image)) 0 0 [] = Inr r"
proof -
  have a: "accepted (0 + (0 + (0 + (1 + 0)))) (call_stub ''main'' 12292 @ jmp_stub 12296 @ [''    jmp halt'', ''halt:'', ''    jmp halt''])"
    by (intro accepted_append accepted_Cons accepted_stubs accepted_insns accepted_labels)
  have b: "accepted (0 + (0 + (0 + (0 + (0 + 0)))))
      [''; jump target pool (4 entries)'', ''    U32 0x0000301c'', ''    U32 0x00003018'', ''    U32 0x00000018'',
        ''    U32 0x00003018'', ''; trampolines (1)'']"
    by (intro accepted_Cons accepted_insns accepted_comments)
  have c: "accepted (1 + 0) [''main:'', ''    je 0x3010'']"
    by (intro accepted_Cons accepted_insns accepted_labels)
  have "accepted (0 + (0 + (0 + (1 + 0))) + (0 + (0 + (0 + (0 + (0 + (0 + 0)))) + (0 + (1 + 0 + 0))))) jump_image"
    unfolding jump_image_def
    by (intro accepted_append a b c accepted_stubs accepted_replicate accepted_insns)
  then have "\<exists>off' labels'. asm_pass False 0 (map asm_line jump_image) 0 0 [] = Inr (off', [], labels')"
    by (simp add: accepted_def) (metis list.size(3) zero_le)
  moreover have "list_all (\<lambda>l. newline \<notin> set l) jump_image"
    by (simp add: jump_image_def call_stub_def jmp_stub_def newline_def shown_numbers list_all_iff)
  ultimately show ?thesis
    using lines_of_text by fastforce
qed


end
