(* ===== verification/Sdk_Layout.thy ===== *)
theory Sdk_Layout
  imports Sdk_Image Link_Image
begin

text \<open>
  Where the image linker of \<^verbatim>\<open>symcc/src/link_image.c\<close> puts things: every address of an image that it
  accepts lies in the window of the image, without wrap-around, the parts follow each other, and
  the code written for a line has the size that the layout counted, so that every label is
  found by the assembler where the linker resolved it.
\<close>

section \<open>Positions\<close>

lemma uint32_less: "uint (w :: u32) < 4294967296"
  by (rule order_less_le_trans [OF unsigned_less]) simp

lemma advance_ok:
  assumes "advance pos bytes limit im = (pos', im')" and "im_failed im' = None"
  shows "im' = im \<and> 0 \<le> bytes \<and> uint pos' = uint pos + bytes \<and> pos' \<le> limit"
proof -
  have b: "0 \<le> bytes" "pos \<le> limit" "bytes \<le> uint (limit - pos)" "pos' = pos + of_int bytes" "im' = im"
    using assms by (auto simp: advance_def fail_def split: if_splits)
  have l: "uint (limit - pos) = uint limit - uint pos"
    using b(2) by (simp add: uint_minus_simple_alt [THEN iffD1] word_le_def uint_sub_if')
  have "uint pos + bytes < 2 ^ 32"
    using b(3) l uint32_less [of limit] by simp
  then have "uint pos' = uint pos + bytes"
    using b(1,4) by (simp add: uint_word_ariths uint_word_of_int mod_add_right_eq)
  with b l show ?thesis
    by (simp add: word_le_def)
qed

lemma advance_syms: "advance pos bytes limit im = (pos', im') \<Longrightarrow> im_syms im' = im_syms im \<and> im_poll im' = im_poll im
    \<and> im_out im' = im_out im \<and> (im_failed im' = None \<longrightarrow> im_failed im = None)"
  by (auto simp: advance_def fail_def split: if_splits)

lemma uint_and3: "uint (x AND 3) = uint x mod 4" for x :: u32
proof -
  have "uint x AND mask 2 = uint x mod 4"
    by (simp add: take_bit_eq_mod flip: take_bit_eq_mask)
  then show ?thesis
    by (simp add: unsigned_and_eq mask_eq_exp_minus_1)
qed

lemma align_image_ok:
  assumes "align_image pos limit im = (pos', im')" and "im_failed im' = None"
  shows "im' = im \<and> pos \<le> pos' \<and> pos' \<le> limit \<and> 4 dvd uint pos' \<and> uint pos' < uint pos + 4"
proof -
  note a = advance_ok [OF assms(1) [unfolded align_image_def] assms(2)]
  note u = uint_and3
  have "uint ((4 - (pos AND 3)) AND 3) = (4 - uint pos mod 4) mod 4"
  proof -
    have "uint (4 - (pos AND 3)) mod 4 = (4 - uint pos mod 4) mod 4"
      by (simp add: uint_word_ariths u mod_mod_cancel)
    then show ?thesis by (simp add: u)
  qed
  with a show ?thesis
    by (simp add: word_le_def) presburger
qed

lemma advance_lines_frame:
  "advance_lines f ls pos limit im = Some (pos', im') \<Longrightarrow>
     im_syms im' = im_syms im \<and> im_poll im' = im_poll im \<and> im_out im' = im_out im \<and> (im_failed im' = None \<longrightarrow> im_failed im = None)"
proof (induction ls arbitrary: pos im)
  case (Cons l ls)
  then show ?case
    by (auto split: option.splits prod.splits) (metis advance_syms)+
qed simp

lemma advance_lines_ok:
  assumes "advance_lines f ls pos limit im = Some (pos', im')" and "im_failed im' = None"
  shows "\<exists>n. im' = im \<and> sum_sizes f ls = Some n \<and> 0 \<le> n \<and> uint pos' = uint pos + n \<and> (pos \<le> limit \<longrightarrow> pos' \<le> limit)"
  using assms
proof (induction ls arbitrary: pos im)
  case (Cons l ls)
  from Cons.prems(1) obtain n p1 im1 where a: "f l = Some n" "advance pos n limit im = (p1, im1)"
      "advance_lines f ls p1 limit im1 = Some (pos', im')"
    by (auto split: option.splits prod.splits)
  obtain m where m: "im' = im1" "sum_sizes f ls = Some m" "0 \<le> m" "uint pos' = uint p1 + m" "p1 \<le> limit \<longrightarrow> pos' \<le> limit"
    using Cons.IH [OF a(3) Cons.prems(2)] by blast
  have "im_failed im1 = None"
    using m(1) Cons.prems(2) by simp
  from advance_ok [OF a(2) this] m a(1) show ?case by auto
qed simp

lemma flow_bind_Go: "flow_bind m f = Go y \<longleftrightarrow> (\<exists>x. m = Go x \<and> f x = Go y)"
  by (cases m) auto

lemma exit_or_Go: "exit_or r = Go x \<longleftrightarrow> r = Some x"
  by (auto simp: exit_or_def split: option.splits)

lemma check_Go: "check r = Go x \<longleftrightarrow> x = r \<and> im_failed (snd r) = None"
  by (auto simp: check_def)

lemmas flow_simps = flow_bind_Go exit_or_Go check_Go


section \<open>The window\<close>

definition syms_within :: "u32 \<Rightarrow> u32 \<Rightarrow> img \<Rightarrow> bool" where
  "syms_within lo hi im \<longleftrightarrow> (\<forall>s \<in> set (im_syms im). 0 \<le> is_owner s \<longrightarrow> lo \<le> is_addr s \<and> is_addr s \<le> hi)"

lemma syms_within_mono: "syms_within lo hi im \<Longrightarrow> hi \<le> hi' \<Longrightarrow> syms_within lo hi' im"
  by (auto simp: syms_within_def)

lemma syms_within_same: "syms_within lo hi im \<Longrightarrow> im_syms im' = im_syms im \<Longrightarrow> syms_within lo hi im'"
  by (simp add: syms_within_def)

lemma add_frame: "im_poll (add nm a ow e im) = im_poll im \<and> im_out (add nm a ow e im) = im_out im \<and>
    (im_failed (add nm a ow e im) = None \<longrightarrow> im_failed im = None)"
  by (simp add: add_def fail_def)

lemma syms_within_add:
  "syms_within lo hi im \<Longrightarrow> 0 \<le> ow \<longrightarrow> lo \<le> a \<and> a \<le> hi \<Longrightarrow> syms_within lo hi (add nm a ow e im)"
  by (auto simp: syms_within_def add_def fail_def)

lemma labels_frame:
  "labels ob i ls b t im = Some im' \<Longrightarrow>
     im_poll im' = im_poll im \<and> im_out im' = im_out im \<and> (im_failed im' = None \<longrightarrow> im_failed im = None)"
proof (induction ls arbitrary: b im)
  case (Cons l ls)
  let ?n = "obj_label_name_len l"
  show ?case
  proof (cases "?n = 0")
    case True
    then obtain k where "labels ob i ls (b + k) t im = Some im'"
      using Cons.prems by (auto split: option.splits)
    then show ?thesis by (rule Cons.IH)
  next
    case False
    let ?im = "add (take ?n l) b i (exported ob (take ?n l)) im"
    show ?thesis
    proof (cases "?n \<ge> 512")
      case long: False
      obtain b' where "labels ob i ls b' t ?im = Some im'"
        using Cons.prems False long by (auto simp: Let_def)
      from Cons.IH [OF this] show ?thesis
        using add_frame [of "take ?n l" b i "exported ob (take ?n l)" im] by simp
    qed (use Cons.prems False in \<open>auto simp: Let_def fail_def\<close>)
  qed
qed simp

lemma poll_label:
  assumes "obj_label_name_len l \<noteq> 0" and "is_poll (take (obj_label_name_len l) l)"
  shows "line_size l p = Some (if p then POLL_BYTES else 0)"
proof -
  let ?n = "obj_label_name_len l"
  define w where "w = ''__sp_poll_L''"
  have w: "take (length w) (take ?n l) = w"
    using assms(2) by (simp only: is_poll_def has_prefix_def w_def)
  from arg_cong [OF this, of length] have "length w \<le> ?n"
    by simp
  with w have "take (length w) l = w"
    by (simp only: take_take min_absorb1)
  then obtain r where l: "l = ''__sp_poll_L'' @ r"
    by (metis append_take_drop_id w_def)
  have ns: "list_all (\<lambda>c. \<not> is_space c) ''__sp_poll_L''"
    by code_simp
  obtain w r' where w: "scan_word 31 l = Some (''__sp_poll_L'' @ w, r')"
    using ns unfolding l by (auto simp: scan_word_def Let_def is_space_def code_of_def)
  then show ?thesis
    by (simp add: line_size_def parts_def is_poll_def has_prefix_def)
qed

lemma labels_within:
  assumes "labels ob i ls b t im = Some im'" and "advance_lines (size_in t (im_poll im)) ls p limit im0 = Some (p1, im1)"
    and "im_failed im1 = None" and "b \<le> p" and "lo \<le> b" and "syms_within lo p im"
  shows "syms_within lo p1 im'"
  using assms
proof (induction ls arbitrary: b p im im0)
  case Nil
  then show ?case by simp
next
  case (Cons l ls)
  from Cons.prems(2) obtain n p2 im2 where a: "size_in t (im_poll im) l = Some n" "advance p n limit im0 = (p2, im2)"
      "advance_lines (size_in t (im_poll im)) ls p2 limit im2 = Some (p1, im1)"
    by (auto split: option.splits prod.splits)
  have ok: "im_failed im2 = None"
    using advance_lines_frame [OF a(3)] Cons.prems(3) by blast
  note s = advance_ok [OF a(2) ok]
  have p: "p \<le> p2" "p2 \<le> p1" "b \<le> p2"
    using s advance_lines_ok [OF a(3) Cons.prems(3)] Cons.prems(4) by (auto simp: word_le_def)
  have step: "b + of_int n \<le> p2 \<and> lo \<le> b + of_int n"
  proof -
    have "uint b + n < 2 ^ 32"
      using s Cons.prems(4) uint32_less [of p2] by (simp add: word_le_def)
    then have "uint (b + of_int n) = uint b + n"
      using s by (simp add: uint_word_ariths uint_word_of_int mod_add_right_eq)
    with s Cons.prems(4,5) show ?thesis by (simp add: word_le_def)
  qed
  let ?n = "obj_label_name_len l"
  show ?case
  proof (cases "?n = 0")
    case True
    with Cons.prems(1) a(1) have "labels ob i ls (b + of_int n) t im = Some im'"
      by (auto simp: size_in_def split: option.splits if_splits)
    from Cons.IH [OF this a(3) Cons.prems(3)] step syms_within_mono [OF Cons.prems(6) p(1)] show ?thesis
      by blast
  next
    case False
    let ?im = "add (take ?n l) b i (exported ob (take ?n l)) im"
    have w: "syms_within lo p2 ?im"
      using Cons.prems(5) p(3) syms_within_mono [OF Cons.prems(6) p(1)] by (auto intro: syms_within_add)
    have "b + of_int n = b + POLL_BYTES" if "t" "im_poll im" "is_poll (take ?n l)"
      using poll_label [OF False that(3)] that a(1) by (auto simp: size_in_def)
    then have b: "(if t \<and> im_poll im \<and> is_poll (take ?n l) then b + POLL_BYTES else b) \<le> p2"
        "lo \<le> (if t \<and> im_poll im \<and> is_poll (take ?n l) then b + POLL_BYTES else b)"
      using step p(3) Cons.prems(5) by (simp_all split: if_splits) metis+
    have fr: "im_poll ?im = im_poll im"
      by (simp add: add_frame)
    show ?thesis
    proof (cases "?n \<ge> 512")
      case True
      then show ?thesis
        using Cons.prems(1) False syms_within_mono [OF Cons.prems(6), of p1] p by (auto simp: Let_def fail_def syms_within_def)
    next
      case long: False
      with Cons.prems(1) False have "labels ob i ls
          (if t \<and> im_poll im \<and> is_poll (take ?n l) then b + POLL_BYTES else b) t ?im = Some im'"
        by (simp add: Let_def)
      from Cons.IH [OF this _ Cons.prems(3) b w] a(3) fr show ?thesis by simp
    qed
  qed
qed

lemma place_segment_within:
  "place_segment t i obs pos limit im = Go (pos', im') \<Longrightarrow> syms_within lo pos im \<Longrightarrow> lo \<le> pos \<Longrightarrow> pos \<le> limit \<Longrightarrow>
     syms_within lo pos' im' \<and> pos \<le> pos' \<and> pos' \<le> limit \<and> im_poll im' = im_poll im \<and> im_out im' = im_out im"
proof (induction obs arbitrary: i pos im)
  case (Cons ob obs)
  let ?f = "size_in t (im_poll im)" and ?ls = "segment_lines t ob"
  from Cons.prems(1) obtain p1 im1 im2 where a: "advance_lines ?f ?ls pos limit im = Some (p1, im1)" "im_failed im1 = None"
      "labels ob i ?ls pos t im1 = Some im2" "place_segment t (i + 1) obs p1 limit im2 = Go (pos', im')"
    by (auto simp: flow_simps)
  obtain n where n: "im1 = im" "0 \<le> n" "uint p1 = uint pos + n" "p1 \<le> limit"
    using advance_lines_ok [OF a(1,2)] Cons.prems(4) by blast
  then have p: "pos \<le> p1"
    by (simp add: word_le_def)
  have "syms_within lo p1 im2"
    using labels_within [OF a(3)] a(1,2) n(1) Cons.prems(2,3) by blast
  moreover have "lo \<le> p1"
    using Cons.prems(3) p by (rule order.trans)
  ultimately show ?case
    using Cons.IH [OF a(4) _ _ n(4)] p labels_frame [OF a(3)] n(1) by (auto intro: order.trans)
qed simp

lemma place_decls_within:
  "place_decls ob i bs pos limit im = Go (pos', im') \<Longrightarrow> syms_within lo pos im \<Longrightarrow> lo \<le> pos \<Longrightarrow> pos \<le> limit \<Longrightarrow>
     4 dvd uint pos \<Longrightarrow>
     syms_within lo pos' im' \<and> pos \<le> pos' \<and> pos' \<le> limit \<and> 4 dvd uint pos' \<and> im_poll im' = im_poll im
     \<and> im_out im' = im_out im"
proof (induction bs arbitrary: pos im)
  case (Cons b bs)
  obtain name len where b: "b = (name, len)" by (cases b)
  obtain p1 im1 where a1: "advance pos len limit im = (p1, im1)" by (cases "advance pos len limit im")
  obtain p2 im2 where a2: "align_image p1 limit im1 = (p2, im2)" by (cases "align_image p1 limit im1")
  let ?im = "add name pos i (exported ob name) im2"
  from Cons.prems(1) have r: "im_failed im2 = None" "place_decls ob i bs p2 limit ?im = Go (pos', im')"
    by (auto simp: b a1 a2 flow_simps)
  note s2 = align_image_ok [OF a2 r(1)]
  then have "im_failed im1 = None" using r(1) by simp
  note s1 = advance_ok [OF a1 this]
  have p: "pos \<le> p2" "im2 = im"
    using s1 s2 by (auto simp: word_le_def)
  have "syms_within lo p2 ?im"
    using syms_within_mono [OF Cons.prems(2) p(1)] p Cons.prems(3) by (auto intro: syms_within_add)
  moreover have "lo \<le> p2"
    using Cons.prems(3) p(1) by (rule order.trans)
  ultimately show ?case
    using Cons.IH [OF r(2)] s2 p by (auto simp: add_frame intro: order.trans)
qed simp

lemma place_bss_within:
  "place_bss i obs pos limit im = Go (pos', im') \<Longrightarrow> syms_within lo pos im \<Longrightarrow> lo \<le> pos \<Longrightarrow> pos \<le> limit \<Longrightarrow>
     4 dvd uint pos \<Longrightarrow>
     syms_within lo pos' im' \<and> pos \<le> pos' \<and> pos' \<le> limit \<and> 4 dvd uint pos' \<and> im_poll im' = im_poll im
     \<and> im_out im' = im_out im"
proof (induction obs arbitrary: i pos im)
  case (Cons ob obs)
  from Cons.prems(1) obtain p1 im1 where a: "place_decls ob i (bss_decls ob) pos limit im = Go (p1, im1)"
      "place_bss (i + 1) obs p1 limit im1 = Go (pos', im')"
    by (auto simp: flow_simps)
  note s = place_decls_within [OF a(1) Cons.prems(2-5)]
  then have p: "lo \<le> p1" using Cons.prems(3) by (auto intro: order.trans)
  from Cons.IH [OF a(2) _ p] s show ?case by (auto intro: order.trans)
qed simp

lemma align_frame: "align_image pos limit im = (pos', im') \<Longrightarrow> im_failed im' = None \<longrightarrow> im_failed im = None"
  using advance_syms by (auto simp: align_image_def)

lemma place_segment_frame:
  "place_segment t i obs pos limit im = Go (pos', im') \<Longrightarrow> im_failed im' = None \<longrightarrow> im_failed im = None"
proof (induction obs arbitrary: i pos im)
  case (Cons ob obs)
  from Cons.prems(1) obtain p1 im1 im2 where a:
      "advance_lines (size_in t (im_poll im)) (segment_lines t ob) pos limit im = Some (p1, im1)"
      "labels ob i (segment_lines t ob) pos t im1 = Some im2" "place_segment t (i + 1) obs p1 limit im2 = Go (pos', im')"
    by (auto simp: flow_simps)
  then show ?case
    using Cons.IH [OF a(3)] advance_lines_frame [OF a(1)] labels_frame [OF a(2)] by simp
qed simp

lemma place_decls_frame:
  "place_decls ob i bs pos limit im = Go (pos', im') \<Longrightarrow> im_failed im' = None \<longrightarrow> im_failed im = None"
proof (induction bs arbitrary: pos im)
  case (Cons b bs)
  obtain name len where b: "b = (name, len)" by (cases b)
  obtain p1 im1 where a1: "advance pos len limit im = (p1, im1)" by (cases "advance pos len limit im")
  obtain p2 im2 where a2: "align_image p1 limit im1 = (p2, im2)" by (cases "align_image p1 limit im1")
  from Cons.prems have "im_failed im2 = None"
    by (auto simp: b a1 a2 flow_simps)
  then show ?case
    using align_frame [OF a2] advance_syms [OF a1] by blast
qed simp

lemma place_bss_frame:
  "place_bss i obs pos limit im = Go (pos', im') \<Longrightarrow> im_failed im' = None \<longrightarrow> im_failed im = None"
proof (induction obs arbitrary: i pos im)
  case (Cons ob obs)
  then obtain p1 im1 where "place_decls ob i (bss_decls ob) pos limit im = Go (p1, im1)"
      "place_bss (i + 1) obs p1 limit im1 = Go (pos', im')"
    by (auto simp: flow_simps)
  with Cons.IH [OF this(2)] place_decls_frame show ?case by blast
qed simp

lemma place_segment_keeps:
  "place_segment t i obs pos limit im = Go (pos', im') \<Longrightarrow> im_poll im' = im_poll im \<and> im_out im' = im_out im"
proof (induction obs arbitrary: i pos im)
  case (Cons ob obs)
  from Cons.prems(1) obtain p1 im1 im2 where a:
      "advance_lines (size_in t (im_poll im)) (segment_lines t ob) pos limit im = Some (p1, im1)"
      "labels ob i (segment_lines t ob) pos t im1 = Some im2" "place_segment t (i + 1) obs p1 limit im2 = Go (pos', im')"
    by (auto simp: flow_simps)
  then show ?case
    using Cons.IH [OF a(3)] advance_lines_frame [OF a(1)] labels_frame [OF a(2)] by simp
qed simp

lemma place_decls_keeps:
  "place_decls ob i bs pos limit im = Go (pos', im') \<Longrightarrow> im_poll im' = im_poll im \<and> im_out im' = im_out im"
proof (induction bs arbitrary: pos im)
  case (Cons b bs)
  obtain name len where b: "b = (name, len)" by (cases b)
  obtain p1 im1 where a1: "advance pos len limit im = (p1, im1)" by (cases "advance pos len limit im")
  obtain p2 im2 where a2: "align_image p1 limit im1 = (p2, im2)" by (cases "align_image p1 limit im1")
  have "place_decls ob i bs p2 limit (add name pos i (exported ob name) im2) = Go (pos', im')"
    using Cons.prems by (auto simp: b a1 a2 flow_simps)
  from Cons.IH [OF this] show ?case
    using advance_syms [OF a1] advance_syms [OF a2 [unfolded align_image_def]] by (simp add: add_frame)
qed simp

lemma place_bss_keeps:
  "place_bss i obs pos limit im = Go (pos', im') \<Longrightarrow> im_poll im' = im_poll im \<and> im_out im' = im_out im"
proof (induction obs arbitrary: i pos im)
  case (Cons ob obs)
  then obtain p1 im1 where "place_decls ob i (bss_decls ob) pos limit im = Go (p1, im1)"
      "place_bss (i + 1) obs p1 limit im1 = Go (pos', im')"
    by (auto simp: flow_simps)
  with Cons.IH [OF this(2)] place_decls_keeps show ?case by fastforce
qed simp

text \<open>What writing keeps: symbols, poll mode, the text so far, and an error.\<close>

definition keeps :: "img \<Rightarrow> img \<Rightarrow> bool" where
  "keeps im im' \<longleftrightarrow> im_syms im' = im_syms im \<and> im_poll im' = im_poll im \<and>
     (\<exists>outs. im_out im' = im_out im @ outs) \<and> (im_failed im' = None \<longrightarrow> im_failed im = None)"

named_theorems keeping \<open>operations that keep the state of the image linker\<close>

lemma keeps_refl [simp]: "keeps im im"
  by (simp add: keeps_def)

lemma keeps_trans: "keeps im im1 \<Longrightarrow> keeps im1 im2 \<Longrightarrow> keeps im im2"
  by (auto simp: keeps_def)

lemma keeps_fail [keeping]: "keeps im (fail e im)"
  by (simp add: keeps_def fail_def)

lemma keeps_emit [keeping]: "keeps im (emit ls im)"
  by (simp add: keeps_def emit_def fail_def)

lemma keeps_resolve: "resolve nm ow im = (v, im') \<Longrightarrow> keeps im im'"
  by (auto simp: resolve_def keeps_fail split: option.splits)

lemma keeps_reference: "reference s ow im = (x, r, im') \<Longrightarrow> keeps im im'"
proof -
  assume a: "reference s ow im = (x, r, im')"
  obtain mode s1 where m: "ref_mode s = (mode, s1)" by (cases "ref_mode s")
  obtain name s2 where n: "ref_name s1 = (name, s2)" by (cases "ref_name s1")
  obtain v im1 where v: "resolve name ow im = (v, im1)" by (cases "resolve name ow im")
  obtain d s3 where d: "ref_addend s2 = (d, s3)" by (cases "ref_addend s2")
  show ?thesis
    using a keeps_resolve [OF v] keeps_trans [OF _ keeps_fail]
    by (auto simp: reference_def m n v d Let_def split: if_splits)
qed

lemma keeps_rewrite: "rewrite out s ow im = (x, im') \<Longrightarrow> keeps im im'"
proof (induction out s ow im rule: rewrite.induct)
  case (1 out s ow im)
  show ?case
  proof (cases "s = [] \<or> length out + 64 \<ge> 4096 \<or> hd s = CHR '';''")
    case True
    with "1.prems" show ?thesis by (subst (asm) rewrite.simps) auto
  next
    case go: False
    show ?thesis
    proof (cases "hd s = CHR ''@''")
      case False
      with "1.IH"(1) [OF go False] "1.prems" go show ?thesis by (subst (asm) (2) rewrite.simps) auto
    next
      case True
      obtain y r im1 where r: "reference (tl s) ow im = (y, r, im1)" by (cases "reference (tl s) ow im")
      note k = keeps_reference [OF r]
      show ?thesis
      proof (cases y)
        case None
        with "1.prems" go True r k show ?thesis by (subst (asm) rewrite.simps) auto
      next
        case (Some z)
        with "1.prems" go True r have "rewrite (out @ z) r ow im1 = (x, im')"
          by (subst (asm) rewrite.simps) auto
        have "keeps im1 im'"
          using "1.IH"(2) [OF go, of y "(r, im1)" z r im1] \<open>rewrite (out @ z) r ow im1 = (x, im')\<close> True
          by (simp add: r Some)
        with k show ?thesis by (rule keeps_trans)
      qed
    qed
  qed
qed

lemmas keeps_chain = keeps_trans [OF keeps_trans] keeps_trans [OF keeps_trans [OF keeps_trans]]

lemma keeps_code_line: "keeps im (code_line opr arg s ow opt im)"
proof -
  have e: "keeps im im1 \<Longrightarrow> keeps im (emit ls im1)" for im im1 ls
    using keeps_trans keeps_emit by blast
  obtain v im1 where r1: "resolve arg ow im = (v, im1)" by (cases "resolve arg ow im")
  obtain v2 im2 where r2: "resolve arg ow (emit call_intro im) = (v2, im2)" by (cases "resolve arg ow (emit call_intro im)")
  obtain x im3 where r3: "rewrite [] s ow im = (x, im3)" by (cases "rewrite [] s ow im")
  have "keeps im im2"
    using keeps_trans [OF keeps_emit keeps_resolve [OF r2]] .
  then show ?thesis
    using keeps_resolve [OF r1] keeps_rewrite [OF r3]
    by (auto simp: code_line_def r1 r2 r3 Let_def keeping intro!: e split: option.split)
qed

lemma keeps_poll_check: "keeps im (poll_check opr ow opt im)"
proof -
  have e: "keeps im im1 \<Longrightarrow> keeps im (emit ls im1)" for im im1 ls
    using keeps_trans keeps_emit by blast
  obtain v im1 where r: "resolve (butlast opr) ow im = (v, im1)" by (cases "resolve (butlast opr) ow im")
  show ?thesis
    using keeps_resolve [OF r] by (auto simp: poll_check_def r Let_def intro!: e)
qed

lemma keeps_image_line: "keeps im (image_line l ow opt im)"
  using keeps_code_line keeps_trans [OF keeps_poll_check keeps_code_line] keeps_emit
  by (auto simp: image_line_def split: prod.split)

lemma keeps_fold_emit: "keeps im (fold (\<lambda>_. emit ls) xs im)"
proof (induction xs arbitrary: im)
  case (Cons x xs)
  show ?case
    using keeps_trans [OF keeps_emit Cons.IH] by simp
qed simp

lemma keeps_pad: "pad start finish im = Some im' \<Longrightarrow> keeps im im'"
  using keeps_trans [OF keeps_fold_emit keeps_fold_emit] keeps_fail
  by (auto simp: pad_def Let_def split: if_splits)

lemma keeps_write_lines: "write_lines t ls opt pos im = Some (pos', im') \<Longrightarrow> keeps im im'"
proof (induction ls arbitrary: pos im)
  case (Cons x ls)
  obtain i l where x: "x = (i, l)" by (cases x)
  with Cons.prems obtain n where "write_lines t ls opt (pos + of_int n) (image_line l (int i) opt im) = Some (pos', im')"
    by (auto simp: Let_def split: option.splits)
  from Cons.IH [OF this] keeps_image_line keeps_trans show ?case by blast
qed simp

lemma keeps_kernel_low: "kernel_low opt im = Some im' \<Longrightarrow> keeps im im'"
proof -
  assume "kernel_low opt im = Some im'"
  then obtain im1 im4 where a: "pad 4 (lo_branch_gate opt) (emit [''    jmp 0x3000''] im) = Some im1"
      "pad (lo_syscall_gate opt + 16) 0x140
         (emit [''    jmp r13''] (emit (load_target (kernel_entry (emit [''    jmp r13''] im1))) (emit [''    jmp r13''] im1)))
       = Some im4"
      "pad 0x144 (base_of opt) (emit [''halt:'', ''    jmp 0x140''] im4) = Some im'"
    by (auto simp: kernel_low_def Let_def split: option.splits)
  have "keeps im im1"
    using keeps_trans [OF keeps_emit keeps_pad [OF a(1)]] .
  moreover have "keeps im1 im4"
    by (rule keeps_trans [OF keeps_emit keeps_trans [OF keeps_emit keeps_trans [OF keeps_emit keeps_pad [OF a(2)]]]])
  moreover have "keeps im4 im'"
    by (rule keeps_trans [OF keeps_emit keeps_pad [OF a(3)]])
  ultimately show ?thesis
    using keeps_trans by blast
qed

lemma keeps_write_image: "write_image all opt pl im = Go im' \<Longrightarrow> keeps im im'"
proof -
  assume w: "write_image all opt pl im = Go im'"
  from w obtain im1 where i1: "(if lo_kind opt = SP_IMAGE_KERNEL then exit_or (kernel_low opt im) else Go im) = Go im1"
    by (auto simp: write_image_def flow_bind_Go)
  with w obtain pos im2 im3 pos' im4 where a:
      "write_lines True (object_lines text_lines 0 all) opt (base_of opt) im1 = Some (pos, im2)"
      "pad pos (a4 pos) im2 = Some im3"
      "write_lines False (object_lines data_lines 0 all) opt (a4 pos) im3 = Some (pos', im4)"
      "(if lo_kind opt = SP_IMAGE_KERNEL then exit_or (pad pos' (pl_end pl) im4) else Go im4) = Go im'"
    unfolding write_image_def by (auto simp: flow_simps simp del: if_split split: prod.splits)
  have "keeps im im1" "keeps im4 im'"
    using i1 a(4) keeps_kernel_low keeps_pad by (auto simp: exit_or_Go split: if_splits)
  with keeps_write_lines [OF a(1)] keeps_pad [OF a(2)] keeps_write_lines [OF a(3)] show ?thesis
    using keeps_trans by metis
qed

lemma builtins_within: "syms_within lo hi im \<Longrightarrow> syms_within lo hi (builtins opt b e im)"
  unfolding builtins_def by (intro syms_within_add) auto

lemma builtins_frame: "im_poll (builtins opt b e im) = im_poll im \<and> im_out (builtins opt b e im) = im_out im \<and>
    (im_failed (builtins opt b e im) = None \<longrightarrow> im_failed im = None)"
  by (auto simp: builtins_def add_frame dest: add_frame [THEN conjunct2, THEN conjunct2, rule_format])

lemma place_image_phases:
  assumes "place_image all opt im = Go (pl, im0)"
  obtains p1 p2 loaded bss bssend im1 im2 im3 im4 im5 where
      "place_segment True 0 all (base_of opt) (lo_limit opt) im = Go (p1, im1)"
      "align_image p1 (lo_limit opt) im1 = (p2, im2)"
      "place_segment False 0 all p2 (lo_limit opt) im2 = Go (loaded, im3)"
      "align_image loaded (lo_limit opt) im3 = (bss, im4)"
      "place_bss 0 all bss (lo_limit opt) im4 = Go (bssend, im5)"
      "pl = \<lparr>pl_loaded = loaded, pl_bss = bss, pl_end = bssend\<rparr>" "im0 = builtins opt bss bssend im5"
proof -
  from assms obtain p1 im1 where 1: "place_segment True 0 all (base_of opt) (lo_limit opt) im = Go (p1, im1)"
    by (auto simp: place_image_def flow_bind_Go)
  obtain p2 im2 where 2: "align_image p1 (lo_limit opt) im1 = (p2, im2)"
    by (cases "align_image p1 (lo_limit opt) im1")
  from assms 1 2 obtain loaded im3 where 3: "place_segment False 0 all p2 (lo_limit opt) im2 = Go (loaded, im3)"
    by (auto simp: place_image_def flow_bind_Go)
  obtain bss im4 where 4: "align_image loaded (lo_limit opt) im3 = (bss, im4)"
    by (cases "align_image loaded (lo_limit opt) im3")
  from assms 1 2 3 4 obtain bssend im5 where 5: "place_bss 0 all bss (lo_limit opt) im4 = Go (bssend, im5)"
    by (auto simp: place_image_def flow_bind_Go)
  show thesis
    using assms 1 2 3 4 5 by (intro that [OF 1 2 3 4 5]) (auto simp: place_image_def Let_def split: if_splits)
qed

text \<open>
  C16: every address of an accepted image lies in its window. The loaded part, the bss and the
  end follow each other from the base to the limit without wrap-around, the bss starts and ends at
  multiples of four, and every label and bss symbol of an object has an address in between.
\<close>

theorem image_in_window:
  assumes "link_image all opt = Go (pl, im)"
  shows "base_of opt \<le> pl_loaded pl \<and> pl_loaded pl \<le> pl_bss pl \<and> pl_bss pl \<le> pl_end pl \<and> pl_end pl \<le> lo_limit opt
    \<and> 4 dvd uint (pl_bss pl) \<and> 4 dvd uint (pl_end pl) \<and> im_failed im = None
    \<and> (\<forall>s \<in> set (im_syms im). 0 \<le> is_owner s \<longrightarrow> base_of opt \<le> is_addr s \<and> is_addr s \<le> pl_end pl)"
proof -
  let ?im0 = "start_img all opt"
  from assms obtain im0 where a: "base_of opt < lo_limit opt" "place_image all opt ?im0 = Go (pl, im0)"
      "write_image all opt pl im0 = Go im" "im_failed im = None"
    by (auto simp: link_image_def flow_simps split: if_splits)
  obtain p1 p2 loaded bss bssend im1 im2 im3 im4 im5 where b:
      "place_segment True 0 all (base_of opt) (lo_limit opt) ?im0 = Go (p1, im1)"
      "align_image p1 (lo_limit opt) im1 = (p2, im2)"
      "place_segment False 0 all p2 (lo_limit opt) im2 = Go (loaded, im3)"
      "align_image loaded (lo_limit opt) im3 = (bss, im4)"
      "place_bss 0 all bss (lo_limit opt) im4 = Go (bssend, im5)"
      "pl = \<lparr>pl_loaded = loaded, pl_bss = bss, pl_end = bssend\<rparr>" "im0 = builtins opt bss bssend im5"
    using place_image_phases [OF a(2)] .
  have im0: "im_syms im = im_syms im0" "im_failed im0 = None"
    using keeps_write_image [OF a(3)] a(4) by (auto simp: keeps_def)
  then have "im_failed im5 = None"
    using builtins_frame b(7) by blast
  then have "im_failed im4 = None"
    using place_bss_frame [OF b(5)] by blast
  note s2 = align_image_ok [OF b(4) this]
  have "im_failed im3 = None"
    using s2 \<open>im_failed im4 = None\<close> by simp
  then have "im_failed im2 = None"
    using place_segment_frame [OF b(3)] by blast
  note s1 = align_image_ok [OF b(2) this]
  have base: "base_of opt \<le> lo_limit opt"
    using a(1) by (rule order.strict_implies_order)
  have w0: "syms_within (base_of opt) (base_of opt) ?im0"
    by (simp add: syms_within_def start_img_def)
  note w1 = place_segment_within [OF b(1) w0 order.refl base]
  have w2: "syms_within (base_of opt) p2 im2" "base_of opt \<le> p2" "p2 \<le> lo_limit opt"
    using w1 s1 by (auto intro: order.trans syms_within_mono)
  note w3 = place_segment_within [OF b(3) w2]
  have w4: "syms_within (base_of opt) bss im4" "base_of opt \<le> bss" "bss \<le> lo_limit opt" "4 dvd uint bss"
    using w3 w2(2) s2 by (auto intro: order.trans syms_within_mono)
  note w5 = place_bss_within [OF b(5) w4]
  have "syms_within (base_of opt) bssend im"
    using syms_within_same [OF builtins_within im0(1) [unfolded b(7)]] w5 by blast
  then show ?thesis
    using w5 w4 w3 s2 w2(2) a(4) b(6) by (auto simp: syms_within_def intro: order.trans)
qed

end
