(* ===== verification/Sdk_Address.thy ===== *)
theory Sdk_Address
  imports Sdk_Layout
begin

text \<open>
  The labels of an image of \<^verbatim>\<open>symcc/src/link_image.c\<close> stand where the linker resolves them: the
  code written for jumps, calls and poll labels has the size that the layout counted, so the
  assembler's offset of every label is its address.
\<close>

section \<open>What a line adds to the image\<close>

definition grows :: "img \<Rightarrow> img \<Rightarrow> int \<Rightarrow> bool" where
  "grows im im' n \<longleftrightarrow>
     (im_failed im' = None \<longrightarrow> (\<exists>outs. im' = im\<lparr>im_out := im_out im @ outs\<rparr> \<and> measured outs n))"

definition quiet :: "img \<Rightarrow> img \<Rightarrow> bool" where
  "quiet im im' \<longleftrightarrow> (im_failed im' = None \<longrightarrow> im' = im)"

lemma quiet_refl [simp]: "quiet im im"
  by (simp add: quiet_def)

lemma quiet_trans: "quiet im im1 \<Longrightarrow> quiet im1 im2 \<Longrightarrow> quiet im im2"
  by (auto simp: quiet_def)

lemma quiet_fail [simp]: "quiet im (fail e im1)"
  by (simp add: quiet_def fail_def)

lemma grows_quiet: "quiet im im' \<Longrightarrow> grows im im' 0"
  by (auto simp: quiet_def grows_def intro!: exI [of _ "[]"])

lemma grows_trans: "grows im im1 n \<Longrightarrow> grows im1 im2 m \<Longrightarrow> grows im im2 (n + m)"
  unfolding grows_def by (auto intro: measured_append)

lemma grows_emit: "measured ls n \<Longrightarrow> grows im (emit ls im) n"
  by (auto simp: grows_def emit_def fail_def)

lemma quiet_resolve: "resolve nm ow im = (v, im') \<Longrightarrow> quiet im im'"
  by (auto simp: resolve_def split: option.splits)

lemma quiet_reference: "reference s ow im = (x, r, im') \<Longrightarrow> quiet im im'"
proof -
  assume a: "reference s ow im = (x, r, im')"
  obtain mode s1 where m: "ref_mode s = (mode, s1)" by (cases "ref_mode s")
  obtain name s2 where n: "ref_name s1 = (name, s2)" by (cases "ref_name s1")
  obtain v im1 where v: "resolve name ow im = (v, im1)" by (cases "resolve name ow im")
  obtain d s3 where d: "ref_addend s2 = (d, s3)" by (cases "ref_addend s2")
  show ?thesis
    using a quiet_resolve [OF v] by (auto simp: reference_def m n v d Let_def split: if_splits)
qed


section \<open>The sizes of the code\<close>

lemma small_hex: "list_all plain_char (''r13, 0x'' @ show_hex v)" "length (show_hex v) \<le> 16"
  using hex_ops(1) [of v] hex_plain(2) [of v] by (simp_all add: plain_eval)

lemma load_target_measured: "measured (load_target v) 12"
proof -
  have "advances (''    mov r13, 0x'' @ show_hex x) 4" for x
    using one_word_advances [of "''mov''" "''r13, 0x'' @ show_hex x"] hex_ops [of x] hex_plain(2) [of x]
    by (simp add: plain_eval)
  moreover have "advances ''    lsl r13, r13, 16'' 4"
    using one_word_advances [of "''lsl''" "''r13, r13, 16''"] by (simp add: plain_eval)
  moreover have "advances (''    or r13, r13, 0x'' @ show_hex x) 4" for x
    using one_word_advances [of "''or''" "''r13, r13, 0x'' @ show_hex x"] hex_ops [of x] hex_plain(2) [of x]
    by (simp add: plain_eval)
  ultimately have "measured (load_target v) (4 + (4 + 4))"
    unfolding load_target_def by (intro measured_Cons measured_one)
  then show ?thesis by simp
qed

lemma call_intro_measured: "measured call_intro 16"
proof -
  have "advances ''    counter flags'' 4" "advances ''    add flags, flags, 32'' 4"
      "advances ''    sub sp, sp, 4'' 4" "advances ''    store_32 [sp], flags'' 4"
    using one_word_advances [of "''counter''" "''flags''"] one_word_advances [of "''add''" "''flags, flags, 32''"]
      one_word_advances [of "''sub''" "''sp, sp, 4''"] one_word_advances [of "''store_32''" "''[sp], flags''"]
    by (simp_all add: plain_eval)
  then have "measured call_intro (4 + (4 + (4 + 4)))"
    unfolding call_intro_def by (intro measured_Cons measured_one)
  then show ?thesis by simp
qed

lemma poll_intro_measured: "measured [''    add r12, r12, 1'', ''    and r12, r12, 4095'', ''    cmp r12, 0''] 12"
proof -
  have "advances ''    add r12, r12, 1'' 4" "advances ''    and r12, r12, 4095'' 4" "advances ''    cmp r12, 0'' 4"
    using one_word_advances [of "''add''" "''r12, r12, 1''"] one_word_advances [of "''and''" "''r12, r12, 4095''"]
      one_word_advances [of "''cmp''" "''r12, 0''"]
    by (simp_all add: plain_eval)
  then have "measured [''    add r12, r12, 1'', ''    and r12, r12, 4095'', ''    cmp r12, 0''] (4 + (4 + 4))"
    by (intro measured_Cons measured_one)
  then show ?thesis by simp
qed

lemma gate_measured: "w \<in> set cond_jumps \<Longrightarrow> measured [''    '' @ w @ '' 0x'' @ show_hex v] 4"
  by (rule measured_one [OF cond_advances])

lemma grows_jump:
  assumes "resolve arg ow im = (v, im1)" and "measured ls 4"
  shows "grows im (emit ls (emit (load_target (v + d)) im1)) 16"
  using grows_trans [OF grows_trans [OF grows_quiet [OF quiet_resolve [OF assms(1)]]
      grows_emit [OF load_target_measured]] grows_emit [OF assms(2)]]
  by simp

lemma code_line_grows:
  "is_cond_jump opr \<Longrightarrow> grows im (code_line opr arg s ow opt im) 16"
  "grows im (code_line ''call'' arg s ow opt im) 32"
  "\<not> is_reg arg \<Longrightarrow> grows im (code_line ''jmp'' arg s ow opt im) 16"
proof -
  have nc: "\<not> is_cond_jump ''call''" "\<not> is_cond_jump ''jmp''"
    by (simp_all add: is_cond_jump_def cond_jumps_def)
  obtain v im1 where r: "resolve arg ow im = (v, im1)" by (cases "resolve arg ow im")
  obtain v2 im2 where r2: "resolve arg ow (emit call_intro im) = (v2, im2)" by (cases "resolve arg ow (emit call_intro im)")
  show "grows im (code_line opr arg s ow opt im) 16" if "is_cond_jump opr"
    using grows_jump [OF r gate_measured [of opr "uint (lo_branch_gate opt)"], where d = 0] that by (simp add: code_line_def r is_cond_jump_def)
  have j: "measured [''    jmp r13''] 4"
    by (rule measured_one [OF jmp_r13_advances])
  show "grows im (code_line ''call'' arg s ow opt im) 32"
    using grows_trans [OF grows_emit [OF call_intro_measured] grows_jump [OF r2 j, of 0]] nc
    by (simp add: code_line_def r2)
  show "grows im (code_line ''jmp'' arg s ow opt im) 16" if "\<not> is_reg arg"
    using grows_jump [OF r j, of 0] that nc by (simp add: code_line_def r)
qed

lemma poll_check_grows: "grows im (poll_check opr ow opt im) 28"
proof -
  obtain v im1 where r: "resolve (butlast opr) ow im = (v, im1)" by (cases "resolve (butlast opr) ow im")
  have "''jne'' \<in> set cond_jumps" by (simp add: cond_jumps_def)
  from gate_measured [OF this] have j: "measured [''    jne 0x'' @ show_hex x] 4" for x by simp
  show ?thesis
    using grows_trans [OF grows_trans [OF grows_trans [OF grows_quiet [OF quiet_resolve [OF r]] grows_emit [OF poll_intro_measured]]
      grows_emit [OF load_target_measured]] grows_emit [OF j]]
    by (simp add: poll_check_def r)
qed


section \<open>Labels\<close>

lemma not_eol: "newline \<notin> set l \<Longrightarrow> carriage \<notin> set l \<Longrightarrow> c \<in> set l \<Longrightarrow> \<not> is_eol c"
  by (auto simp: is_eol_def)

lemma ident_char_plain: "is_ident_char c \<Longrightarrow> \<not> is_space c \<and> c \<noteq> CHR '':''"
  by (auto simp: is_ident_char_def is_alnum_def is_alpha_def is_lower_def is_upper_def is_digit_def is_space_def code_of_def)

text \<open>A label line is one word; its first 31 characters are the operation that \<^verbatim>\<open>parts\<close> delivers.\<close>

lemma label_parts:
  assumes "obj_label_name_len l \<noteq> 0" and "newline \<notin> set l" and "carriage \<notin> set l"
  shows "fst (parts l) = take 31 l"
    and "\<not> is_cond_jump (take 31 l)" and "take 31 l \<noteq> ''call''" and "take 31 l \<noteq> ''jmp''"
    and "is_poll (take 31 l) \<longleftrightarrow> is_poll (take (obj_label_name_len l) l)"
proof -
  obtain nm where nm: "l = nm @ '':''" "take (obj_label_name_len l) l = nm" "nm \<noteq> []" "list_all is_ident_char nm"
    by (rule label_line [OF assms])
  have ns: "\<forall>c \<in> set l. \<not> is_space c"
    using nm(1,4) ident_char_plain by (auto simp: list_all_iff is_space_def code_of_def)
  then have "takeWhile (\<lambda>c. \<not> is_space c) l = l" "dropWhile is_space l = l"
    using nm(1,3) by (auto simp: takeWhile_eq_all_conv) (cases nm; auto)
  then have "scan_word 31 l = Some (take 31 l, drop (length (take 31 l)) l)"
    using nm(1) by (simp add: scan_word_def Let_def)
  then show "fst (parts l) = take 31 l"
    by (simp add: parts_def)
  have long: "take 31 l \<noteq> w" if "length w < 31" "CHR '':'' \<notin> set w" for w
  proof
    assume w: "take 31 l = w"
    then have "length l < 31"
      using that(1) by (auto simp: min_def split: if_splits)
    with w nm(1) that(2) show False by auto
  qed
  have "list_all (\<lambda>w. length w < 31 \<and> CHR '':'' \<notin> set w) (''call'' # ''jmp'' # cond_jumps)"
    by code_simp
  with long show "\<not> is_cond_jump (take 31 l)" "take 31 l \<noteq> ''call''" "take 31 l \<noteq> ''jmp''"
    by (auto simp: list_all_iff is_cond_jump_def)
  define w where "w = ''__sp_poll_L''"
  have w: "length w \<le> 31" "CHR '':'' \<notin> set w"
    by (simp_all add: w_def)
  have "take (length w) (take 31 l) = w \<longleftrightarrow> take (length w) nm = w"
  proof (cases "length w \<le> length nm")
    case True
    with w(1) show ?thesis by (simp only: nm(1) take_append take_take min_absorb1) simp
  next
    case False
    then have "take (length w) nm \<noteq> w"
      using arg_cong [of "take (length w) nm" w length] by auto
    moreover have "take (length w) (take 31 l) \<noteq> w"
    proof
      assume "take (length w) (take 31 l) = w"
      with w(1) have e: "take (length w) l = w" by (simp only: take_take min_absorb1)
      have "length l \<le> length w"
        using False nm(1) by simp
      with e have "w = l" by simp
      with nm(1) w(2) show False by simp
    qed
    ultimately show ?thesis by blast
  qed
  then show "is_poll (take 31 l) \<longleftrightarrow> is_poll (take (obj_label_name_len l) l)"
    unfolding is_poll_def has_prefix_def nm(2) w_def .
qed


section \<open>Lines\<close>

text \<open>The lines of the text whose code the linker makes up.\<close>

definition made_up :: "string \<Rightarrow> bool" where
  "made_up l \<longleftrightarrow> obj_label_name_len l \<noteq> 0 \<or>
     \<not> is_poll (fst (parts l)) \<and>
     (is_cond_jump (fst (parts l)) \<or> fst (parts l) = ''call'' \<or> fst (parts l) = ''jmp'' \<and> \<not> is_reg (snd (parts l)))"

text \<open>The other lines: what they become is measured by the assembler as the linker measures the line.\<close>

definition image_sized :: "bool \<Rightarrow> link_options \<Rightarrow> nat \<times> string \<Rightarrow> bool" where
  "image_sized t opt x \<longleftrightarrow>
     newline \<notin> set (snd x) \<and> carriage \<notin> set (snd x) \<and>
     (\<not> (t \<and> made_up (snd x)) \<longrightarrow>
        (\<forall>im n. size_in t (im_poll im) (snd x) = Some n \<longrightarrow> grows im (image_line (snd x) (int (fst x)) opt im) n))"

lemma main_label: "measured [''main:''] 0"
  using measured_one [OF label_line_advances [of "''main''"]]
  by (simp add: is_ident_char_def is_alnum_def is_alpha_def is_lower_def code_of_def)

lemma label_line_grows:
  assumes n: "obj_label_name_len l \<noteq> 0" and nl: "newline \<notin> set l" "carriage \<notin> set l"
    and s: "line_size l (im_poll im) = Some n"
  shows "grows im (image_line l ow opt im) (uint n)"
proof -
  obtain opr arg where p: "parts l = (opr, arg)" by (cases "parts l")
  note f = label_parts [OF n nl, unfolded p fst_conv]
  show ?thesis
  proof (cases "is_poll opr")
    case True
    then have "n = (if im_poll im then POLL_BYTES else 0)"
      using s by (simp add: line_size_def p)
    moreover have "opr \<noteq> ''main:''"
      using True by (auto simp: is_poll_def has_prefix_def)
    moreover have "grows im (code_line ''call'' ''__sp_poll'' l ow opt (poll_check opr ow opt im)) 60"
      using grows_trans [OF poll_check_grows code_line_grows(2)] by simp
    ultimately show ?thesis
      using n True grows_quiet [OF quiet_refl] by (simp add: image_line_def p POLL_BYTES_def)
  next
    case False
    then have "n = 0"
      using s label_size [OF n] f by (simp add: line_size_def p)
    moreover have "grows im (emit [''main:''] im) 0"
      using grows_emit [OF main_label] .
    ultimately show ?thesis
      using n False grows_quiet [OF quiet_refl] by (simp add: image_line_def p)
  qed
qed

lemma image_line_grows:
  assumes "image_sized t opt (i, l)" and s: "size_in t (im_poll im) l = Some n"
  shows "grows im (image_line l (int i) opt im) n"
proof (cases "t \<and> made_up l")
  case True
  obtain opr arg where p: "parts l = (opr, arg)" by (cases "parts l")
  obtain w where w: "line_size l (im_poll im) = Some w" "n = uint w"
    using s True by (auto simp: size_in_def)
  have nl: "newline \<notin> set l" "carriage \<notin> set l"
    using assms(1) by (simp_all add: image_sized_def)
  show ?thesis
  proof (cases "obj_label_name_len l = 0")
    case False
    then show ?thesis
      using label_line_grows [OF False nl w(1)] w(2) by simp
  next
    case nolab: True
    then have k: "\<not> is_poll opr" "is_cond_jump opr \<or> opr = ''call'' \<or> opr = ''jmp'' \<and> \<not> is_reg arg"
      using True by (simp_all add: made_up_def p)
    have ne: "\<not> is_cond_jump ''call''" "\<not> is_cond_jump ''jmp''"
      by (simp_all add: is_cond_jump_def cond_jumps_def)
    from k(2) show ?thesis
    proof (elim disjE conjE)
      assume c: "is_cond_jump opr"
      with w k(1) have "n = 16" by (auto simp: line_size_def p)
      with code_line_grows(1) [OF c] nolab show ?thesis
        by (simp add: image_line_def p)
    next
      assume c: "opr = ''call''"
      with w k(1) ne have "n = 32" by (auto simp: line_size_def p)
      with code_line_grows(2) nolab show ?thesis
        by (simp add: image_line_def p c)
    next
      assume c: "opr = ''jmp''" "\<not> is_reg arg"
      with w k(1) ne have "n = 16" by (auto simp: line_size_def p)
      with code_line_grows(3) [OF c(2)] nolab show ?thesis
        by (simp add: image_line_def p c)
    qed
  qed
next
  case False
  with assms show ?thesis
    by (simp add: image_sized_def)
qed

lemma write_lines_append:
  "write_lines t (xs @ ys) opt pos im =
     (case write_lines t xs opt pos im of None \<Rightarrow> None | Some (p, im1) \<Rightarrow> write_lines t ys opt p im1)"
  by (induction t xs opt pos im rule: write_lines.induct) (auto simp: Let_def split: option.splits)

lemma write_lines_grows:
  "write_lines t ls opt pos im = Some (pos', im') \<Longrightarrow> \<forall>x \<in> set ls. image_sized t opt x \<Longrightarrow>
     \<exists>n. sum_sizes (size_in t (im_poll im)) (map snd ls) = Some n \<and> pos' = pos + of_int n \<and> grows im im' n"
proof (induction ls arbitrary: pos im)
  case Nil
  then show ?case
    by (auto intro: grows_quiet)
next
  case (Cons x ls)
  obtain i l where x: "x = (i, l)" by (cases x)
  let ?im = "image_line l (int i) opt im"
  have pl: "im_poll ?im = im_poll im"
    using keeps_image_line [of im l "int i" opt] by (simp add: keeps_def)
  from Cons.prems(1) obtain n where n: "size_in t (im_poll im) l = Some n"
      "write_lines t ls opt (pos + of_int n) ?im = Some (pos', im')"
    by (auto simp: x Let_def pl split: option.splits)
  have g: "grows im ?im n"
    using image_line_grows [OF _ n(1)] Cons.prems(2) x by simp
  from Cons.IH [OF n(2)] Cons.prems(2) obtain m where
      "sum_sizes (size_in t (im_poll im)) (map snd ls) = Some m" "pos' = pos + of_int n + of_int m" "grows ?im im' m"
    by (auto simp: pl)
  with n(1) grows_trans [OF g] show ?case
    by (auto simp: x)
qed


section \<open>Padding\<close>

lemma zero_byte: "advances ''    U8 0'' 1"
  unfolding advances_def
proof (intro conjI allI impI)
  have pl: "list_all plain_char ''    U8 0''"
    by (simp add: plain_eval)
  then show "newline \<notin> set ''    U8 0''"
    unfolding list_all_iff plain_char_def by blast
  have a: "asm_line ''    U8 0'' = ''    U8 0''"
    using scan_plain [OF pl, of "[]"] by (simp add: asm_line_def MAX_LINE_def)
  have t: "trim ''    U8 0'' = ''U8 0''"
    by (simp add: trim_def drop_blanks_def rtrim_def is_blank_def tab_def)
  fix off cap lineno labels m bs labels'
  assume "process_line (asm_line ''    U8 0'') False off cap lineno labels = Inr (m, bs, labels')"
  then have "emit_rest ''U8 0'' False off cap lineno labels = Inr (m, bs)"
    by (auto simp: process_line_def a t take_label_def split: sum.splits)
  moreover have "data_width ''U8 0'' = Some (1, ''0'')"
    by (simp add: data_width_def datas_def is_blank_def drop_blanks_def tab_def)
  ultimately show "m = 1"
    by (auto simp: emit_rest_def emit_data_def dquote_def is_alpha_def is_upper_def code_of_def
        split: option.splits if_splits)
qed

lemma fold_emit_grows: "advances l k \<Longrightarrow> grows im (fold (\<lambda>_. emit [l]) xs im) (k * int (length xs))"
proof (induction xs arbitrary: im)
  case Nil
  then show ?case by (simp add: grows_quiet)
next
  case (Cons x xs)
  from grows_trans [OF grows_emit [OF measured_one [OF Cons.prems]] Cons.IH [OF Cons.prems]] show ?case
    by (simp add: algebra_simps)
qed

lemma pad_grows: "pad start finish im = Some im' \<Longrightarrow> grows im im' (uint finish - uint start)"
proof (cases "finish < start")
  case True
  assume "pad start finish im = Some im'"
  with True show ?thesis
    by (simp add: pad_def grows_def) (auto simp: fail_def)
next
  case False
  assume p: "pad start finish im = Some im'"
  let ?d = "unat finish - unat start"
  have im': "im' = fold (\<lambda>_. emit [''    U8 0'']) [0 ..< ?d mod 4] (fold (\<lambda>_. emit [''    U32 0'']) [0 ..< ?d div 4] im)"
    using p False by (simp add: pad_def Let_def split: if_splits)
  have "grows im im' (4 * int (?d div 4) + 1 * int (?d mod 4))"
    unfolding im' using grows_trans [OF fold_emit_grows [OF zero_word(1), of im "[0 ..< ?d div 4]"]
      fold_emit_grows [OF zero_byte, of _ "[0 ..< ?d mod 4]"]] by simp
  moreover have "4 * int (?d div 4) + 1 * int (?d mod 4) = int ?d"
    using arg_cong [OF mult_div_mod_eq [of 4 ?d], of int] by (simp only: of_nat_add of_nat_mult of_nat_numeral mult_1)
  moreover have "unat start \<le> unat finish"
    using False by (simp add: word_less_nat_alt)
  then have "int ?d = uint finish - uint start"
    by (simp add: of_nat_diff)
  ultimately show ?thesis by simp
qed

lemma a4_align:
  assumes "uint p \<le> uint q" and "4 dvd uint q" and "uint q < uint p + 4"
  shows "a4 p = q"
proof -
  have "uint p + 3 < 2 ^ 32"
    using assms uint32_less [of q] by simp presburger
  then have u: "uint (p + 3) = uint p + 3"
    by (simp add: uint_word_ariths)
  have "uint (x AND NOT 3) = uint x - uint x mod 4" for x :: u32
  proof -
    have "uint (x AND NOT 3) = uint (x AND NOT (mask 2))"
      by (simp add: mask_eq_exp_minus_1)
    also have "x AND NOT (mask 2) = x - (x AND mask 2)"
    proof -
      have "x - (x AND mask 2) = x AND NOT (x AND mask 2)"
        by (rule disjunctive_diff) (simp add: bit_and_iff)
      also have "\<dots> = x AND NOT (mask 2)"
        by (rule bit_word_eqI) (auto simp: bit_simps)
      finally show ?thesis by (rule sym)
    qed
    also have "uint (x - (x AND mask 2)) = uint x - uint (x AND mask 2)"
      by (metis uint_minus_simple_alt word_and_le2)
    also have "uint (x AND mask 2) = uint x mod 4"
      using uint_and3 [of x] by (simp add: mask_eq_exp_minus_1)
    finally show ?thesis .
  qed
  then have "uint (a4 p) = uint p + 3 - (uint p + 3) mod 4"
    by (simp add: a4_def u)
  also have "\<dots> = uint q"
    using assms by presburger
  finally show ?thesis
    by (rule word_uint_eqI)
qed

text \<open>The low memory of a kernel image fills the memory below its base.\<close>

lemma kernel_low_grows:
  assumes "kernel_low opt im = Some im'" and "lo_syscall_gate opt = lo_branch_gate opt + 4"
    and "uint (lo_branch_gate opt) + 20 < 2 ^ 32"
  shows "grows im im' (uint (base_of opt))"
proof -
  from assms(1) obtain im1 im4 where a: "pad 4 (lo_branch_gate opt) (emit [''    jmp 0x3000''] im) = Some im1"
      "pad (lo_syscall_gate opt + 16) 0x140
         (emit [''    jmp r13''] (emit (load_target (kernel_entry (emit [''    jmp r13''] im1))) (emit [''    jmp r13''] im1)))
       = Some im4"
      "pad 0x144 (base_of opt) (emit [''halt:'', ''    jmp 0x140''] im4) = Some im'"
    by (auto simp: kernel_low_def Let_def split: option.splits)
  have j: "measured [''    jmp 0x3000''] 4" "measured [''    jmp r13''] 4" "measured [''halt:'', ''    jmp 0x140''] 4"
  proof -
    show "measured [''    jmp 0x3000''] 4" "measured [''    jmp r13''] 4"
      using measured_one [OF one_word_advances [of "''jmp''" "''0x3000''"]] measured_one [OF jmp_r13_advances]
      by (simp_all add: plain_eval)
    have "advances ''    jmp 0x140'' 4"
      using one_word_advances [of "''jmp''" "''0x140''"] by (simp add: plain_eval)
    moreover have "advances ''halt:'' 0"
      using label_line_advances [of "''halt''"]
      by (simp add: is_ident_char_def is_alnum_def is_alpha_def is_lower_def code_of_def)
    ultimately show "measured [''halt:'', ''    jmp 0x140''] 4"
      using measured_Cons [OF _ measured_one] by fastforce
  qed
  have u: "uint (lo_syscall_gate opt + 16) = uint (lo_branch_gate opt) + 20"
    using assms(3) by (simp add: assms(2) add.assoc uint_word_ariths)
  have "grows im im1 (4 + (uint (lo_branch_gate opt) - 4))"
    using grows_trans [OF grows_emit [OF j(1)] pad_grows [OF a(1)]] by simp
  moreover have "grows im1 im4 (4 + (12 + (4 + (0x140 - (uint (lo_branch_gate opt) + 20)))))"
    using grows_trans [OF grows_emit [OF j(2)] grows_trans [OF grows_emit [OF load_target_measured]
      grows_trans [OF grows_emit [OF j(2)] pad_grows [OF a(2)]]]] by (simp add: u)
  moreover have "grows im4 im' (4 + (uint (base_of opt) - 0x144))"
    using grows_trans [OF grows_emit [OF j(3)] pad_grows [OF a(3)]] by simp
  ultimately have "grows im im' (4 + (uint (lo_branch_gate opt) - 4) + (4 + (12 + (4 + (0x140 - (uint (lo_branch_gate opt) + 20)))))
      + (4 + (uint (base_of opt) - 0x144)))"
    using grows_trans by blast
  then show ?thesis by simp
qed


section \<open>The symbol table\<close>

definition image_entry :: "string \<Rightarrow> u32 \<Rightarrow> int \<Rightarrow> bool \<Rightarrow> image_sym" where
  "image_entry nm a ow e = \<lparr>is_name = nm, is_addr = a, is_owner = ow, is_exported = e\<rparr>"

text \<open>A name has one entry for each owner.\<close>

definition unique_syms :: "img \<Rightarrow> bool" where
  "unique_syms im \<longleftrightarrow> (\<forall>s \<in> set (im_syms im). \<forall>s' \<in> set (im_syms im).
     is_owner s = is_owner s' \<and> is_name s = is_name s' \<longrightarrow> s = s')"

definition adds :: "img \<Rightarrow> img \<Rightarrow> bool" where
  "adds im im' \<longleftrightarrow> (im_failed im' = None \<longrightarrow>
     im_failed im = None \<and> set (im_syms im) \<subseteq> set (im_syms im') \<and> (unique_syms im \<longrightarrow> unique_syms im'))"

lemma adds_refl [simp]: "adds im im"
  by (simp add: adds_def)

lemma adds_trans: "adds im im1 \<Longrightarrow> adds im1 im2 \<Longrightarrow> adds im im2"
  by (auto simp: adds_def)

lemma adds_same: "im_syms im' = im_syms im \<Longrightarrow> (im_failed im' = None \<longrightarrow> im_failed im = None) \<Longrightarrow> adds im im'"
  by (simp add: adds_def unique_syms_def)

lemma adds_add: "adds im (add nm a ow e im)"
  by (auto simp: adds_def add_def fail_def unique_syms_def list_ex_iff)

lemma add_entry: "im_failed (add nm a ow e im) = None \<Longrightarrow> image_entry nm a ow e \<in> set (im_syms (add nm a ow e im))"
  by (auto simp: add_def fail_def image_entry_def split: if_splits)

lemma label_size_in:
  assumes "obj_label_name_len l \<noteq> 0" and "newline \<notin> set l" and "carriage \<notin> set l"
  shows "size_in t p l = Some (if t \<and> p \<and> is_poll (take (obj_label_name_len l) l) then 60 else 0)"
  using label_parts [OF assms] label_size [OF assms(1)] poll_label [OF assms(1)]
  by (cases "parts l") (auto simp: size_in_def line_size_def POLL_BYTES_def)

definition clean_lines :: "string list \<Rightarrow> bool" where
  "clean_lines ls \<longleftrightarrow> list_all (\<lambda>l. newline \<notin> set l \<and> carriage \<notin> set l) ls"

lemma labels_entries:
  "labels ob i ls b t im = Some im' \<Longrightarrow> clean_lines ls \<Longrightarrow>
     adds im im' \<and>
     (im_failed im' = None \<longrightarrow> (\<forall>pre l post. ls = pre @ l # post \<longrightarrow> obj_label_name_len l \<noteq> 0 \<longrightarrow>
        (\<exists>m. sum_sizes (size_in t (im_poll im)) pre = Some m \<and>
           image_entry (take (obj_label_name_len l) l) (b + of_int m) i (exported ob (take (obj_label_name_len l) l))
             \<in> set (im_syms im'))))"
proof (induction ls arbitrary: b im)
  case Nil
  then show ?case by simp
next
  case (Cons l ls)
  let ?n = "obj_label_name_len l" and ?f = "size_in t (im_poll im)"
  have cl: "clean_lines ls" "newline \<notin> set l" "carriage \<notin> set l"
    using Cons.prems(2) by (simp_all add: clean_lines_def)
  define im1 where "im1 = (if ?n = 0 then im else add (take ?n l) b i (exported ob (take ?n l)) im)"
  have pl: "im_poll im1 = im_poll im" and ad: "adds im im1"
    using adds_add by (auto simp: im1_def add_frame)
  show ?case
  proof (cases "?n \<ge> 512")
    case True
    with Cons.prems(1) show ?thesis
      by (auto simp: adds_def fail_def)
  next
    case short: False
    obtain k where k: "?f l = Some k" "labels ob i ls (b + of_int k) t im1 = Some im'"
    proof (cases "?n = 0")
      case True
      with Cons.prems(1) that show thesis
        by (auto simp: size_in_def im1_def split: option.splits if_splits)
    next
      case False
      with Cons.prems(1) short that label_size_in [OF False cl(2,3), of t "im_poll im"] show thesis
        by (auto simp: Let_def im1_def POLL_BYTES_def split: if_splits)
    qed
    note IH = Cons.IH [OF k(2) cl(1), unfolded pl]
    have "adds im im'"
      using adds_trans [OF ad] IH by blast
    moreover have "\<exists>m. sum_sizes ?f pre = Some m \<and>
        image_entry (take (obj_label_name_len l') l') (b + of_int m) i (exported ob (take (obj_label_name_len l') l'))
          \<in> set (im_syms im')"
      if ok: "im_failed im' = None" and sp: "l # ls = pre @ l' # post" and nz: "obj_label_name_len l' \<noteq> 0" for pre l' post
    proof (cases pre)
      case Nil
      with sp nz have e: "l' = l" "im1 = add (take ?n l) b i (exported ob (take ?n l)) im"
        by (simp_all add: im1_def)
      have "im_failed im1 = None" "set (im_syms im1) \<subseteq> set (im_syms im')"
        using IH ok by (auto simp: adds_def)
      with add_entry [of "take ?n l" b i "exported ob (take ?n l)" im] Nil e show ?thesis
        by auto
    next
      case (Cons x pre')
      with sp have "x = l" "ls = pre' @ l' # post" by simp_all
      with IH ok nz obtain m where "sum_sizes ?f pre' = Some m"
          "image_entry (take (obj_label_name_len l') l') (b + of_int k + of_int m) i (exported ob (take (obj_label_name_len l') l'))
             \<in> set (im_syms im')"
        by blast
      with Cons k(1) \<open>x = l\<close> show ?thesis
        by (intro exI [of _ "k + m"]) (simp add: add.assoc)
    qed
    ultimately show ?thesis by blast
  qed
qed

lemma adds_advance: "advance pos len limit im = (p1, im1) \<Longrightarrow> adds im im1"
  using advance_syms [of pos len limit im p1 im1] by (intro adds_same) auto

lemma adds_align: "align_image pos limit im = (p1, im1) \<Longrightarrow> adds im im1"
  using adds_advance by (auto simp: align_image_def)

lemma place_segment_entries:
  "place_segment t i obs pos limit im = Go (pos', im') \<Longrightarrow> list_all (\<lambda>ob. clean_lines (segment_lines t ob)) obs \<Longrightarrow>
   im_failed im' = None \<Longrightarrow>
     adds im im' \<and> (\<exists>n. sum_sizes (size_in t (im_poll im)) (concat (map (segment_lines t) obs)) = Some n \<and> uint pos' = uint pos + n) \<and>
     (\<forall>j pre l post. j < length obs \<longrightarrow> segment_lines t (obs ! j) = pre @ l # post \<longrightarrow> obj_label_name_len l \<noteq> 0 \<longrightarrow>
        (\<exists>m. sum_sizes (size_in t (im_poll im)) (concat (map (segment_lines t) (take j obs)) @ pre) = Some m \<and>
           image_entry (take (obj_label_name_len l) l) (pos + of_int m) (i + int j)
             (exported (obs ! j) (take (obj_label_name_len l) l)) \<in> set (im_syms im')))"
proof (induction obs arbitrary: i pos im)
  case Nil
  then show ?case by simp
next
  case (Cons ob obs)
  let ?f = "size_in t (im_poll im)" and ?ls = "segment_lines t ob"
  from Cons.prems(1) obtain p1 im1 im2 where a: "advance_lines ?f ?ls pos limit im = Some (p1, im1)" "im_failed im1 = None"
      "labels ob i ?ls pos t im1 = Some im2" "place_segment t (i + 1) obs p1 limit im2 = Go (pos', im')"
    by (auto simp: flow_simps)
  obtain n where n: "im1 = im" "sum_sizes ?f ?ls = Some n" "uint p1 = uint pos + n"
    using advance_lines_ok [OF a(1,2)] by blast
  have cl: "clean_lines ?ls" "list_all (\<lambda>ob. clean_lines (segment_lines t ob)) obs"
    using Cons.prems(2) by simp_all
  have pl: "im_poll im2 = im_poll im"
    using labels_frame [OF a(3)] n(1) by simp
  note IH = Cons.IH [OF a(4) cl(2) Cons.prems(3), unfolded pl]
  note L = labels_entries [OF a(3) cl(1), unfolded n(1)]
  have ok: "im_failed im2 = None" "set (im_syms im2) \<subseteq> set (im_syms im')"
    using IH Cons.prems(3) by (auto simp: adds_def)
  have p1: "p1 = pos + of_int n"
  proof -
    have "p1 = of_int (uint p1)" by simp
    also have "\<dots> = of_int (uint pos) + of_int n"
      by (simp only: n(3) of_int_add)
    finally show ?thesis by simp
  qed
  obtain N where N: "sum_sizes ?f (concat (map (segment_lines t) obs)) = Some N" "uint pos' = uint p1 + N"
    using IH by blast
  have "adds im im'"
    using adds_trans L IH by blast
  moreover have "\<exists>n. sum_sizes ?f (concat (map (segment_lines t) (ob # obs))) = Some n \<and> uint pos' = uint pos + n"
    using n N by (simp add: sum_sizes_append)
  moreover have "\<exists>m. sum_sizes ?f (concat (map (segment_lines t) (take j (ob # obs))) @ pre) = Some m \<and>
      image_entry (take (obj_label_name_len l) l) (pos + of_int m) (i + int j)
        (exported ((ob # obs) ! j) (take (obj_label_name_len l) l)) \<in> set (im_syms im')"
    if j: "j < length (ob # obs)" "segment_lines t ((ob # obs) ! j) = pre @ l # post" "obj_label_name_len l \<noteq> 0" for j pre l post
  proof (cases j)
    case 0
    with j have "?ls = pre @ l # post" by simp
    with L ok(1) j(3) obtain m where "sum_sizes ?f pre = Some m"
        "image_entry (take (obj_label_name_len l) l) (pos + of_int m) i (exported ob (take (obj_label_name_len l) l))
           \<in> set (im_syms im2)"
      by blast
    with ok(2) 0 show ?thesis
      by auto
  next
    case (Suc k)
    with j have k: "k < length obs" "segment_lines t (obs ! k) = pre @ l # post"
      by simp_all
    with IH j(3) obtain m where "sum_sizes ?f (concat (map (segment_lines t) (take k obs)) @ pre) = Some m"
        "image_entry (take (obj_label_name_len l) l) (p1 + of_int m) (i + 1 + int k)
           (exported (obs ! k) (take (obj_label_name_len l) l)) \<in> set (im_syms im')"
      by blast
    with Suc n(2) p1 show ?thesis
      by (intro exI [of _ "n + m"]) (simp add: sum_sizes_append add.assoc)
  qed
  ultimately show ?case by blast
qed


lemma adds_place_decls: "place_decls ob i bs pos limit im = Go (pos', im') \<Longrightarrow> adds im im'"
proof (induction bs arbitrary: pos im)
  case (Cons b bs)
  obtain name len where b: "b = (name, len)" by (cases b)
  obtain p1 im1 where a1: "advance pos len limit im = (p1, im1)" by (cases "advance pos len limit im")
  obtain p2 im2 where a2: "align_image p1 limit im1 = (p2, im2)" by (cases "align_image p1 limit im1")
  have "adds im im2"
    using adds_trans [OF adds_advance [OF a1] adds_align [OF a2]] .
  moreover have "adds (add name pos i (exported ob name) im2) im'"
    using Cons by (auto simp: b a1 a2 flow_simps)
  ultimately show ?case
    using adds_trans adds_add by blast
qed simp

lemma adds_place_bss: "place_bss i obs pos limit im = Go (pos', im') \<Longrightarrow> adds im im'"
proof (induction obs arbitrary: i pos im)
  case (Cons ob obs)
  then obtain p1 im1 where "place_decls ob i (bss_decls ob) pos limit im = Go (p1, im1)"
      "place_bss (i + 1) obs p1 limit im1 = Go (pos', im')"
    by (auto simp: flow_simps)
  with Cons.IH [OF this(2)] adds_place_decls adds_trans show ?case by blast
qed simp

lemma adds_builtins: "adds im (builtins opt b e im)"
  unfolding builtins_def by (rule adds_trans [OF _ adds_add])+ (rule adds_refl)

text \<open>An entry of an owner is what its name resolves to.\<close>

lemma resolve_entry:
  assumes "unique_syms im" and "image_entry nm a ow e \<in> set (im_syms im)" and "numeral_name nm = None"
  shows "resolve nm ow im = (a, im)"
proof -
  let ?P = "\<lambda>s. is_owner s = ow \<and> is_name s = nm"
  obtain s where s: "find ?P (im_syms im) = Some s"
  proof (cases "find ?P (im_syms im)")
    case None
    have "?P (image_entry nm a ow e)"
      by (simp add: image_entry_def)
    with None assms(2) show thesis
      unfolding find_None_iff by blast
  qed blast
  then have "s \<in> set (im_syms im)" "is_owner s = ow" "is_name s = nm"
    by (auto simp: find_Some_iff)
  then have "s = image_entry nm a ow e"
    using assms(1,2) unfolding unique_syms_def by (auto simp: image_entry_def)
  with s assms(3) show ?thesis
    by (simp add: resolve_def find_sym_def image_entry_def)
qed


section \<open>Addresses of labels\<close>

text \<open>Where the assembler's offset 0 lies: kernel images start at 0, user images at their base.\<close>

definition origin :: "link_options \<Rightarrow> u32" where
  "origin opt = (if lo_kind opt = SP_IMAGE_KERNEL then 0 else base_of opt)"

text \<open>The lines of one segment, with a line of object \<open>i\<close> in the middle.\<close>

lemma object_lines_split:
  assumes "i < length obs" and "f (obs ! i) = pre @ l # post"
  shows "\<exists>rest. object_lines f 0 obs = (object_lines f 0 (take i obs) @ map (Pair i) pre) @ map (Pair i) (l # post) @ rest
    \<and> map snd (object_lines f 0 (take i obs) @ map (Pair i) pre) = concat (map f (take i obs)) @ pre"
proof -
  have "obs = take i obs @ obs ! i # drop (Suc i) obs"
    by (rule id_take_nth_drop [OF assms(1)])
  then have "object_lines f 0 obs = object_lines f 0 (take i obs) @ map (Pair i) (f (obs ! i))
      @ object_lines f (Suc i) (drop (Suc i) obs)"
    using assms(1) by (metis object_lines_append object_lines_Cons add_0 length_take min.absorb2 order_less_imp_le)
  with assms(2) show ?thesis
    by (auto simp: map_snd_object_lines comp_def)
qed

text \<open>Writing up to a line: the sizes before it, and the text so far.\<close>

lemma write_up_to:
  assumes w: "write_lines t (object_lines f 0 obs) opt pos im = Some (pos', im')" and ok: "im_failed im' = None"
    and sized: "\<forall>x \<in> set (object_lines f 0 obs). image_sized t opt x"
    and i: "i < length obs" "f (obs ! i) = pre @ l # post"
    and m: "sum_sizes (size_in t (im_poll im)) (concat (map f (take i obs)) @ pre) = Some m"
  shows "\<exists>im1 im2 p2 rest. grows im im1 m \<and> im_failed im1 = None \<and>
    write_lines t (map (Pair i) (l # post)) opt (pos + of_int m) im1 = Some (p2, im2) \<and> im_out im' = im_out im2 @ rest
    \<and> (\<exists>r. im_out im2 = im_out im1 @ r)"
proof -
  let ?A = "object_lines f 0 (take i obs) @ map (Pair i) pre"
  obtain B where sp: "object_lines f 0 obs = ?A @ map (Pair i) (l # post) @ B"
      "map snd ?A = concat (map f (take i obs)) @ pre"
    using object_lines_split [where f = f, OF i] by blast
  from w obtain p1 im1 p2 im2 where a: "write_lines t ?A opt pos im = Some (p1, im1)"
      "write_lines t (map (Pair i) (l # post)) opt p1 im1 = Some (p2, im2)"
      "write_lines t B opt p2 im2 = Some (pos', im')"
    unfolding sp(1) write_lines_append by (auto simp del: write_lines.simps list.map split: option.splits prod.splits)
  have k: "keeps im1 im2" "keeps im2 im'"
    using keeps_write_lines [OF a(2)] keeps_write_lines [OF a(3)] .
  have "\<forall>x \<in> set ?A. image_sized t opt x"
    using sized unfolding sp(1) by auto
  from write_lines_grows [OF a(1) this] m sp(2) have "p1 = pos + of_int m" "grows im im1 m"
    by auto
  moreover obtain r rest where "im_out im2 = im_out im1 @ r" "im_out im' = im_out im2 @ rest"
    using k by (auto simp: keeps_def)
  moreover have "im_failed im1 = None"
    using k ok by (simp add: keeps_def)
  ultimately show ?thesis
    using a(2) by blast
qed

text \<open>The phases of writing, and how much each adds.\<close>

lemma write_image_phases:
  assumes "write_image all opt pl im = Go im'" and ok: "im_failed im' = None"
    and gates: "lo_kind opt = SP_IMAGE_KERNEL \<longrightarrow>
      lo_syscall_gate opt = lo_branch_gate opt + 4 \<and> uint (lo_branch_gate opt) + 20 < 2 ^ 32"
  obtains im1 pos im2 im3 pos' im4 where
    "write_lines True (object_lines text_lines 0 all) opt (base_of opt) im1 = Some (pos, im2)"
    "pad pos (a4 pos) im2 = Some im3"
    "write_lines False (object_lines data_lines 0 all) opt (a4 pos) im3 = Some (pos', im4)"
    "grows im im1 (uint (base_of opt - origin opt))" "keeps im im1" "keeps im2 im3" "keeps im4 im'"
    "im_failed im2 = None" "im_failed im3 = None" "im_failed im4 = None"
proof -
  obtain im1 where i1: "(if lo_kind opt = SP_IMAGE_KERNEL then exit_or (kernel_low opt im) else Go im) = Go im1"
    using assms(1) by (auto simp: write_image_def flow_bind_Go)
  with assms(1) obtain pos im2 im3 pos' im4 where a:
      "write_lines True (object_lines text_lines 0 all) opt (base_of opt) im1 = Some (pos, im2)"
      "pad pos (a4 pos) im2 = Some im3"
      "write_lines False (object_lines data_lines 0 all) opt (a4 pos) im3 = Some (pos', im4)"
      "(if lo_kind opt = SP_IMAGE_KERNEL then exit_or (pad pos' (pl_end pl) im4) else Go im4) = Go im'"
    unfolding write_image_def by (auto simp: flow_simps simp del: if_split split: prod.splits)
  have "keeps im im1" "keeps im4 im'"
    using i1 a(4) keeps_kernel_low keeps_pad by (auto simp: exit_or_Go split: if_splits)
  moreover have "grows im im1 (uint (base_of opt - origin opt))"
    using i1 gates kernel_low_grows grows_quiet [OF quiet_refl] by (auto simp: exit_or_Go origin_def split: if_splits)
  moreover have "im_failed im4 = None"
    using \<open>keeps im4 im'\<close> ok by (simp add: keeps_def)
  moreover from this have "im_failed im3 = None"
    using keeps_write_lines [OF a(3)] by (simp add: keeps_def)
  moreover from this have "im_failed im2 = None"
    using keeps_pad [OF a(2)] by (simp add: keeps_def)
  ultimately show thesis
    using that [OF a(1-3)] keeps_pad [OF a(2)] by blast
qed

lemma grows_measured: "grows im im' n \<Longrightarrow> im_failed im' = None \<Longrightarrow> measured (im_out im) k \<Longrightarrow> measured (im_out im') (k + n)"
  by (auto simp: grows_def intro: measured_append)

lemma grows_poll: "keeps im im' \<Longrightarrow> im_poll im' = im_poll im"
  by (simp add: keeps_def)

lemma image_clean: "\<forall>x \<in> set (object_lines f 0 obs). image_sized t opt x \<Longrightarrow> list_all (\<lambda>ob. clean_lines (f ob)) obs"
proof -
  assume a: "\<forall>x \<in> set (object_lines f 0 obs). image_sized t opt x"
  have "clean_lines (concat (map f obs))"
    using a unfolding clean_lines_def list_all_iff map_snd_object_lines [of f 0 obs, symmetric]
    by (auto simp: image_sized_def)
  then show ?thesis
    by (auto simp: clean_lines_def list_all_iff)
qed

text \<open>Where the layout puts a label.\<close>

lemma placed_label:
  assumes "place_image all opt st = Go (pl, im0)" and ok: "im_failed im0 = None" and "unique_syms st"
    and "base_of opt \<le> lo_limit opt"
    and "list_all (\<lambda>ob. clean_lines (text_lines ob)) all" and "list_all (\<lambda>ob. clean_lines (data_lines ob)) all"
    and i: "i < length all" "segment_lines t (all ! i) = pre @ l # post" "obj_label_name_len l \<noteq> 0"
  shows "\<exists>N m e. unique_syms im0 \<and> im_out im0 = im_out st \<and> im_poll im0 = im_poll st \<and>
    sum_sizes (size_in True (im_poll st)) (concat (map text_lines all)) = Some N \<and>
    sum_sizes (size_in t (im_poll st)) (concat (map (segment_lines t) (take i all)) @ pre) = Some m \<and>
    image_entry (take (obj_label_name_len l) l)
      ((if t then base_of opt else a4 (base_of opt + of_int N)) + of_int m) (int i) e \<in> set (im_syms im0)"
proof -
  let ?nm = "take (obj_label_name_len l) l" and ?P = "im_poll st"
  obtain p1 q1 loaded bss bssend j1 j2 j3 j4 j5 where b:
      "place_segment True 0 all (base_of opt) (lo_limit opt) st = Go (p1, j1)"
      "align_image p1 (lo_limit opt) j1 = (q1, j2)"
      "place_segment False 0 all q1 (lo_limit opt) j2 = Go (loaded, j3)"
      "align_image loaded (lo_limit opt) j3 = (bss, j4)"
      "place_bss 0 all bss (lo_limit opt) j4 = Go (bssend, j5)"
      "im0 = builtins opt bss bssend j5"
    using place_image_phases [OF assms(1)] .
  have t5: "adds j3 im0"
    using adds_trans [OF adds_align [OF b(4)] adds_trans [OF adds_place_bss [OF b(5)] adds_builtins]] b(6) by simp
  with ok have j3: "im_failed j3 = None" "set (im_syms j3) \<subseteq> set (im_syms im0)"
    by (auto simp: adds_def)
  have s: "segment_lines True = text_lines" "segment_lines False = data_lines"
    by (simp_all add: segment_lines_def fun_eq_iff)
  note D = place_segment_entries [OF b(3) _ j3(1), unfolded s, OF assms(6)]
  then have j2: "im_failed j2 = None"
    using j3(1) unfolding adds_def by blast
  note al = align_image_ok [OF b(2) j2]
  then have j1: "j2 = j1" "im_failed j1 = None"
    using j2 by auto
  note T = place_segment_entries [OF b(1) _ j1(2), unfolded s, OF assms(5)]
  obtain N where N: "sum_sizes (size_in True ?P) (concat (map text_lines all)) = Some N" "uint p1 = uint (base_of opt) + N"
    using T by blast
  have p1: "p1 = base_of opt + of_int N"
  proof -
    have "p1 = of_int (uint p1)" by simp
    also have "\<dots> = of_int (uint (base_of opt)) + of_int N"
      by (simp only: N(2) of_int_add)
    finally show ?thesis by simp
  qed
  have q1: "q1 = a4 p1"
    using a4_align [of p1 q1] al by (simp add: word_le_def)
  note fr1 = advance_syms [OF b(2) [unfolded align_image_def]]
  note fr2 = advance_syms [OF b(4) [unfolded align_image_def]]
  have pj1: "im_poll j1 = ?P \<and> im_out j1 = im_out st"
    using place_segment_keeps [OF b(1)] .
  have poll: "im_poll j2 = ?P" "im_out j2 = im_out st"
    using fr1 pj1 by simp_all
  have "im_poll im0 = ?P" "im_out im0 = im_out st"
    using place_segment_keeps [OF b(3)] fr2 place_bss_keeps [OF b(5)] builtins_frame poll b(6) by simp_all
  moreover have "unique_syms im0"
    using T D t5 ok j1 j3 j2 assms(3) by (auto simp: adds_def)
  moreover have "\<exists>m e. sum_sizes (size_in t ?P) (concat (map (segment_lines t) (take i all)) @ pre) = Some m \<and>
    image_entry ?nm ((if t then base_of opt else q1) + of_int m) (int i) e \<in> set (im_syms im0)"
  proof (cases t)
    case True
    with i s have i': "text_lines (all ! i) = pre @ l # post" by simp
    obtain m where "sum_sizes (size_in True ?P) (concat (map text_lines (take i all)) @ pre) = Some m"
        "image_entry ?nm (base_of opt + of_int m) (0 + int i) (exported (all ! i) ?nm) \<in> set (im_syms j1)"
      using T i(1,3) i' by blast
    moreover have "set (im_syms j1) \<subseteq> set (im_syms im0)"
      using D j1(1) j3 by (auto simp: adds_def)
    ultimately show ?thesis
      using True s by auto
  next
    case False
    with i s have i': "data_lines (all ! i) = pre @ l # post" by simp
    obtain m where "sum_sizes (size_in False (im_poll j2)) (concat (map data_lines (take i all)) @ pre) = Some m"
        "image_entry ?nm (q1 + of_int m) (0 + int i) (exported (all ! i) ?nm) \<in> set (im_syms j3)"
      using D i(1,3) i' by blast
    with j3(2) False s poll show ?thesis by auto
  qed
  ultimately show ?thesis
    using N(1) q1 p1 by auto
qed



section \<open>Witness\<close>

text \<open>A user program of two jumps.\<close>

definition jump_user :: "obj list" where
  "jump_user = [obj_new\<lparr>text_lines := [''    jmp L1'', ''L1:'', ''    jmp L1'']\<rparr>]"

definition user_options :: link_options where
  "user_options = \<lparr>lo_base = 0x200000, lo_limit = 0x400000, lo_branch_gate = 0x100, lo_syscall_gate = 0x104,
     lo_kind = SP_IMAGE_USER\<rparr>"

definition jump_code :: "string list" where
  "jump_code = [''    mov r13, 0x20'', ''    lsl r13, r13, 16'', ''    or r13, r13, 0x10'', ''    jmp r13'']"

definition jump_img :: img where
  "jump_img = \<lparr>im_syms = [image_entry ''L1'' 0x200010 0 False, image_entry ''__bss_start'' 0x200020 (-1) True,
       image_entry ''__bss_end'' 0x200020 (-1) True, image_entry ''end'' 0x200020 (-1) True,
       image_entry ''__syscall_gate'' 0x104 (-1) True],
     im_out = jump_code @ jump_code, im_failed = None, im_poll = False\<rparr>"

lemma jump_parts_eval:
  "parts ''    jmp L1'' = (''jmp'', ''L1'')" "parts ''L1:'' = (''L1:'', [])"
  "obj_label_name_len ''    jmp L1'' = 0" "obj_label_name_len ''L1:'' = 2"
  "obj_line_size ''L1:'' = Some 0" "is_reg ''L1'' = False"
  by code_simp+

lemma jump_sizes:
  "line_size ''    jmp L1'' False = Some 16" "line_size ''L1:'' False = Some 0"
  by (simp_all add: line_size_def jump_parts_eval is_poll_def has_prefix_def is_cond_jump_def cond_jumps_def)

lemma numeral_L1: "numeral_name ''L1'' = None"
  by (simp add: numeral_name_def strtoull0_def hex_prefix_def is_space_def code_of_def digit_value_def is_digit_def
      is_lower_def is_upper_def)

lemma jump_hex: "show_hex 32 = ''20''" "show_hex 16 = ''10''"
  by (simp_all add: show_hex_def show_base.simps digit_char_def)

lemma jump_target: "load_target 0x200010 @ [''    jmp r13''] = jump_code"
  by (simp add: load_target_def jump_code_def jump_hex)

lemma jump_linked: "link_image jump_user user_options =
  Go (\<lparr>pl_loaded = 0x200020, pl_bss = 0x200020, pl_end = 0x200020\<rparr>, jump_img)"
proof -
  let ?st = "\<lparr>im_syms = [], im_out = [], im_failed = None, im_poll = False\<rparr>"
  have st: "start_img jump_user user_options = ?st"
    by (simp add: start_img_def jump_user_def exported_def obj_new_def)
  have pl: "place_image jump_user user_options ?st = Go (\<lparr>pl_loaded = 0x200020, pl_bss = 0x200020, pl_end = 0x200020\<rparr>,
      jump_img\<lparr>im_out := []\<rparr>)"
    by (simp add: place_image_def jump_user_def obj_new_def segment_lines_def size_in_def jump_sizes base_of_def
        user_options_def advance_def jump_parts_eval exported_def add_def check_def exit_or_def align_image_def
        builtins_def jump_img_def image_entry_def is_poll_def has_prefix_def)
  have r: "find_sym (im_syms jump_img) ''L1'' 0 = Some (image_entry ''L1'' 0x200010 0 False)"
    by (simp add: find_sym_def jump_img_def image_entry_def)
  have code: "image_line ''    jmp L1'' 0 user_options (jump_img\<lparr>im_out := out\<rparr>) = jump_img\<lparr>im_out := out @ jump_code\<rparr>" for out
  proof -
    have "\<not> is_cond_jump ''jmp''"
      by (simp add: is_cond_jump_def cond_jumps_def)
    moreover have "resolve ''L1'' 0 (jump_img\<lparr>im_out := out\<rparr>) = (0x200010, jump_img\<lparr>im_out := out\<rparr>)"
      using r by (simp add: resolve_def numeral_L1 image_entry_def)
    moreover have "emit [''    jmp r13''] (emit (load_target 0x200010) (jump_img\<lparr>im_out := out\<rparr>))
        = jump_img\<lparr>im_out := out @ jump_code\<rparr>"
      by (simp add: emit_def load_target_def jump_hex text_of_def jump_code_def)
    ultimately show ?thesis
      by (simp add: image_line_def code_line_def jump_parts_eval)
  qed
  have lab: "image_line ''L1:'' 0 user_options im = im" if "im_poll im = False" for im
    using that by (simp add: image_line_def jump_parts_eval is_poll_def has_prefix_def)
  have poll: "im_poll jump_img = False"
    by (simp add: jump_img_def)
  have "write_lines True (object_lines text_lines 0 jump_user) user_options 0x200000 (jump_img\<lparr>im_out := []\<rparr>)
      = Some (0x200020, jump_img)"
    using code [of "[]"] code [of jump_code]
    by (simp add: object_lines_def jump_user_def obj_new_def size_in_def jump_sizes lab poll) (simp add: jump_img_def)
  moreover have "write_lines False (object_lines data_lines 0 jump_user) user_options p im = Some (p, im)" for p im
    by (simp add: object_lines_def jump_user_def obj_new_def)
  moreover have "pad 0x200020 0x200020 jump_img = Some jump_img" "a4 0x200020 = 0x200020"
    by (simp_all add: pad_def a4_def)
  ultimately have "write_image jump_user user_options pl (jump_img\<lparr>im_out := []\<rparr>) = Go jump_img" for pl
    by (simp add: write_image_def base_of_def exit_or_def) (simp add: user_options_def)
  moreover have "im_failed jump_img = None"
    by (simp add: jump_img_def)
  ultimately show ?thesis
    using st pl by (simp add: link_image_def) (simp add: base_of_def user_options_def)
qed

lemma jump_accepted: "\<exists>r. asm_pass False 64 (lines_of (text_of (im_out jump_img))) 0 0 [] = Inr r"
proof -
  have o: "im_out jump_img = jump_code @ jump_code"
    by (simp add: jump_img_def)
  have "accepted 0 [''    mov r13, 0x20'']" "accepted 0 [''    lsl r13, r13, 16'']" "accepted 0 [''    or r13, r13, 0x10'']"
    by (rule accepted_one [where n = 4], simp add: line_eval, simp)+
  with accepted_insns(5) have "accepted (0 + (0 + (0 + 0))) jump_code"
    unfolding jump_code_def by (intro accepted_Cons)
  with accepted_append [of 0 jump_code 0 jump_code] have "accepted 0 (im_out jump_img)"
    by (simp add: o)
  then obtain off' labels' where "asm_pass False 64 (map asm_line (im_out jump_img)) 0 0 [] = Inr (off', [], labels')"
    unfolding accepted_def by (metis add_0 list.size(3) zero_le)
  moreover have "list_all (\<lambda>l. newline \<notin> set l) (im_out jump_img)"
    unfolding o by code_simp
  ultimately show ?thesis
    by (simp add: lines_of_text)
qed

theorem image_in_window_witness:
  "uint (base_of user_options) = 0x200000 \<and> base_of user_options \<le> 0x200020 \<and> im_failed jump_img = None"
  using image_in_window [OF jump_linked] by (simp add: base_of_def user_options_def)


end
