(* ===== verification/Codegen.thy ===== *)
theory Codegen
  imports Obj "HOL-Library.Monad_Syntax"
begin

text \<open>
  The code generator of the C compiler, \<^verbatim>\<open>symcc/src/codegen.c\<close>: from the syntax tree of
  \<^verbatim>\<open>symcc.h\<close> to the text and data lines of an object.

  \<^verbatim>\<open>Node\<close> is a datatype with one constructor for each kind, holding the fields that the kind uses;
  the statement kinds are a datatype of their own, and a linked list of statements is a list.
  Of a type the code reads the kind, the signedness and the size. A generator takes the next label
  number and returns the lines that it emits and the number after them; \<open>None\<close> is the end of the
  program with a message (a constant out of range, no lvalue), or a break or continue outside a
  loop, which reads before the start of an array. Comments that the code puts behind an
  instruction are left out; a line that is only a comment is kept. \<^verbatim>\<open>CcInt\<close> has 64 bits.
\<close>

section \<open>The syntax tree\<close>

datatype type_kind = TY_INT | TY_CHAR | TY_SHORT | TY_PTR | TY_VOID | TY_ARRAY | TY_STRUCT | TY_UNION | TY_FUNC

record ctype =
  ty_kind :: type_kind
  ty_unsigned :: bool
  ty_size :: int

datatype binop =
  ADD | SUB | MUL | DIV | MOD | EQ | NE | LT | LE | GT | GE | BITAND | BITOR | BITXOR | LSL | LSR

text \<open>The value after the operation of \<open>Bin\<close> is the size of the elements of a pointer difference.\<close>

datatype node =
    Num ctype int
  | Var ctype int
  | Gvar ctype string
  | Funct ctype string
  | Str ctype int
  | Addr ctype node
  | Deref ctype node
  | Member ctype node int int int
  | Va_start ctype node
  | Cast ctype node
  | Bitnot ctype node
  | Neg ctype node
  | Lognot ctype node
  | Assign ctype node node
  | Call ctype "string option" "node option" "node list"
  | Logand ctype node node
  | Logor ctype node node
  | Bin ctype binop int node node
  | Cond ctype node node "node option"
  | Comma ctype node node

fun node_ty :: "node \<Rightarrow> ctype" where
  "node_ty (Num t _) = t" | "node_ty (Var t _) = t" | "node_ty (Gvar t _) = t" | "node_ty (Funct t _) = t"
| "node_ty (Str t _) = t" | "node_ty (Addr t _) = t" | "node_ty (Deref t _) = t" | "node_ty (Member t _ _ _ _) = t"
| "node_ty (Va_start t _) = t" | "node_ty (Cast t _) = t" | "node_ty (Bitnot t _) = t" | "node_ty (Neg t _) = t"
| "node_ty (Lognot t _) = t" | "node_ty (Assign t _ _) = t" | "node_ty (Call t _ _ _) = t"
| "node_ty (Logand t _ _) = t" | "node_ty (Logor t _ _) = t" | "node_ty (Bin t _ _ _ _) = t"
| "node_ty (Cond t _ _ _) = t" | "node_ty (Comma t _ _) = t"

datatype stmt =
    Return "node option"
  | If node "stmt list" "stmt list option"
  | While node "stmt list"
  | For "stmt list" "node option" "node option" "stmt list"
  | Do_while "stmt list" node
  | Switch node int "(int option \<times> int) list" "stmt list"
  | Case int
  | Default int
  | Break
  | Continue
  | Goto int
  | Label int "stmt list"
  | Declaration
  | Expr node

record cfunc =
  f_name :: string
  f_static :: bool
  f_decl :: bool
  f_params :: "ctype list"
  f_retbuf :: bool
  f_ret_size :: int
  f_frame :: int
  f_body :: "stmt list"

record cglobal =
  g_name :: string
  g_ty :: ctype
  g_init :: "u8 list option"
  g_static :: bool
  g_extern :: bool
  g_strs :: "(int \<times> int) list"
  g_funcs :: "(int \<times> string \<times> int) list"

record cprogram =
  p_funcs :: "cfunc list"
  p_globals :: "cglobal list"
  p_strs :: "string list"


section \<open>Assembly lines\<close>

datatype asm_arg = R nat | N int | Sym string | At string | Hi string | Lo string | Mem nat

datatype asm_line = Ins string "asm_arg list" | Lab string | Raw string

definition show_reg :: "nat \<Rightarrow> string" where
  "show_reg r = (if r = 14 then ''sp'' else CHR ''r'' # show_int (int r))"

fun show_arg :: "asm_arg \<Rightarrow> string" where
  "show_arg (R r) = show_reg r"
| "show_arg (N v) = show_int v"
| "show_arg (Sym s) = s"
| "show_arg (At s) = CHR ''@'' # s"
| "show_arg (Hi s) = ''@hi:'' @ s"
| "show_arg (Lo s) = ''@lo:'' @ s"
| "show_arg (Mem r) = ''['' @ show_reg r @ '']''"

fun show_args :: "asm_arg list \<Rightarrow> string" where
  "show_args [] = []"
| "show_args [a] = show_arg a"
| "show_args (a # as) = show_arg a @ '', '' @ show_args as"

text \<open>The buffer of \<^verbatim>\<open>emit\<close> holds 1023 characters; line ends at both ends are dropped.\<close>

definition emit_text :: "string \<Rightarrow> string" where
  "emit_text s = dropWhile is_eol (strip_eol (take 1023 s))"

fun show_line :: "asm_line \<Rightarrow> string" where
  "show_line (Ins nm args) = emit_text (''    '' @ nm @ (if args = [] then [] else CHR '' '' # show_args args))"
| "show_line (Lab l) = emit_text (l @ '':'')"
| "show_line (Raw s) = emit_text s"

type_synonym gen = "(asm_line list \<times> nat) option"

definition new_label :: "nat \<Rightarrow> string" where "new_label n = CHR ''L'' # show_int (int n)"

definition poll_label :: "nat \<Rightarrow> asm_line" where "poll_label n = Lab (''__sp_poll_'' @ new_label n)"

definition user_label :: "int \<Rightarrow> string" where "user_label k = ''Lg'' @ show_int k"


section \<open>Small generators\<close>

definition is_aggregate :: "ctype \<Rightarrow> bool" where
  "is_aggregate t \<longleftrightarrow> ty_kind t = TY_STRUCT \<or> ty_kind t = TY_UNION"

definition gen_block_copy :: "int \<Rightarrow> asm_line list" where
  "gen_block_copy len =
     concat (map (\<lambda>k. [Ins ''add'' [R 3, R 1, N (4 * int k)], Ins ''load_32'' [R 2, Mem 3],
                       Ins ''add'' [R 3, R 9, N (4 * int k)], Ins ''store_32'' [Mem 3, R 2]])
       [0 ..< nat (len div 4)])"

definition gen_num_reg :: "nat \<Rightarrow> int \<Rightarrow> asm_line list option" where
  "gen_num_reg r v =
     (if v > 0xFFFFFFFF \<or> v < 0 then None
      else
        let hi = v div 65536 mod 65536; lo = v mod 65536 in
        Some (if hi \<noteq> 0 then
                [Ins ''mov'' [R r, N hi], Ins ''lsl'' [R r, R r, N 16]]
                @ (if lo \<noteq> 0 then [Ins ''or'' [R r, R r, N lo]] else [])
              else [Ins ''mov'' [R r, N lo]]))"

definition ref_needs_d32 :: "cglobal list \<Rightarrow> string \<Rightarrow> bool" where
  "ref_needs_d32 gs name =
     (case find (\<lambda>g. g_name g = name) gs of
        Some g \<Rightarrow> g_init g \<noteq> None \<or> g_extern g
      | None \<Rightarrow> True)"

definition emit_addr32 :: "string \<Rightarrow> asm_line list" where
  "emit_addr32 name =
     [Ins ''mov'' [R 9, Hi name], Ins ''lsl'' [R 9, R 9, N 16], Ins ''or'' [R 9, R 9, Lo name]]"

text \<open>The mask of a bit field and its distance from the low end of its unit.\<close>

definition field_shift :: "int \<Rightarrow> int \<Rightarrow> int" where "field_shift bo bw = 32 - bo - bw"

definition field_mask :: "int \<Rightarrow> int" where
  "field_mask bw = (if bw \<ge> 32 then 0xFFFFFFFF else 2 ^ nat bw - 1)"

definition gen_load_bitfield :: "ctype \<Rightarrow> int \<Rightarrow> int \<Rightarrow> asm_line list option" where
  "gen_load_bitfield t bo bw =
     (let sh = field_shift bo bw; mask = field_mask bw in
      do {
        c1 \<leftarrow> (if sh > 0 then map_option (\<lambda>c. c @ [Ins ''lsr'' [R 1, R 1, R 2]]) (gen_num_reg 2 sh) else Some []);
        c2 \<leftarrow> (if mask \<noteq> 0xFFFFFFFF
               then map_option (\<lambda>c. c @ [Ins ''and'' [R 1, R 1, R 2]]) (gen_num_reg 2 mask) else Some []);
        Some ([Ins ''load_32'' [R 1, Mem 9]] @ c1 @ c2
          @ (if \<not> ty_unsigned t \<and> bw < 32
             then [Ins ''lsl'' [R 1, R 1, N (32 - bw)], Ins ''asr'' [R 1, R 1, N (32 - bw)]] else []))
      })"

definition gen_store_bitfield :: "int \<Rightarrow> int \<Rightarrow> asm_line list option" where
  "gen_store_bitfield bo bw =
     (let sh = field_shift bo bw; mask = field_mask bw in
      do {
        c1 \<leftarrow> gen_num_reg 3 mask;
        c2 \<leftarrow> gen_num_reg 4 0xFFFFFFFF;
        Some ([Ins ''load_32'' [R 2, Mem 9]] @ c1 @ [Ins ''and'' [R 1, R 1, R 3]]
          @ (if sh > 0 then [Ins ''lsl'' [R 1, R 1, N sh], Ins ''lsl'' [R 3, R 3, N sh]] else [])
          @ c2
          @ [Ins ''xor'' [R 3, R 3, R 4], Ins ''and'' [R 2, R 2, R 3], Ins ''or'' [R 2, R 2, R 1],
             Ins ''store_32'' [Mem 9, R 2]])
      })"

definition sign_extend :: "ctype \<Rightarrow> int \<Rightarrow> asm_line list" where
  "sign_extend t k = [Ins ''lsl'' [R 1, R 1, N k], Ins (if ty_unsigned t then ''lsr'' else ''asr'') [R 1, R 1, N k]]"

definition gen_load :: "ctype \<Rightarrow> asm_line list" where
  "gen_load t =
     (if ty_kind t = TY_CHAR then Ins ''load_8'' [R 1, Mem 9] # sign_extend t 24
      else if ty_kind t = TY_SHORT then Ins ''load_16'' [R 1, Mem 9] # sign_extend t 16
      else [Ins ''load_32'' [R 1, Mem 9]])"

definition gen_store :: "ctype \<Rightarrow> asm_line list" where
  "gen_store t =
     [Ins (if ty_kind t = TY_CHAR then ''store_8'' else if ty_kind t = TY_SHORT then ''store_16'' else ''store_32'')
        [Mem 9, R 1]]"

definition gen_compare :: "string \<Rightarrow> nat \<Rightarrow> asm_line list \<times> nat" where
  "gen_compare jmp n =
     ([Ins ''cmp'' [R 1, R 2], Ins jmp [Sym (new_label n)], Ins ''mov'' [R 1, N 0],
       Ins ''jmp'' [Sym (new_label (n + 1))], Lab (new_label n), Ins ''mov'' [R 1, N 1], Lab (new_label (n + 1))],
      n + 2)"


section \<open>Expressions\<close>

text \<open>What the generators look up: the globals, the form of references, and the current function.\<close>

record genv =
  ge_globals :: "cglobal list"
  ge_d32 :: bool
  ge_nargs :: nat
  ge_retbuf :: int

definition push :: "nat \<Rightarrow> asm_line" where "push r = Ins ''push'' [R r]"
definition pop :: "nat \<Rightarrow> asm_line" where "pop r = Ins ''pop'' [R r]"
definition mov :: "nat \<Rightarrow> nat \<Rightarrow> asm_line" where "mov r q = Ins ''mov'' [R r, R q]"

definition var_addr :: "int \<Rightarrow> asm_line list" where
  "var_addr off = [Ins ''sub'' [R 9, R 10, N (- off)]]"

definition gvar_addr :: "genv \<Rightarrow> string \<Rightarrow> asm_line list" where
  "gvar_addr g name =
     (if ge_d32 g \<or> ref_needs_d32 (ge_globals g) name then emit_addr32 name
      else [Ins ''mov'' [R 9, At name]])"

definition str_name :: "int \<Rightarrow> string" where "str_name k = CHR ''s'' # show_int k"

definition decays :: "ctype \<Rightarrow> bool" where
  "decays t \<longleftrightarrow> ty_kind t = TY_ARRAY \<or> ty_kind t = TY_STRUCT \<or> ty_kind t = TY_UNION"

definition member_add :: "nat \<Rightarrow> int \<Rightarrow> asm_line list" where
  "member_add r v = (if v \<noteq> 0 then [Ins ''add'' [R 9, R r, N v]] else if r = 9 then [] else [mov 9 r])"

definition load_value :: "ctype \<Rightarrow> asm_line list" where
  "load_value t = (if decays t then [mov 1 9] else gen_load t)"

definition cast_code :: "ctype \<Rightarrow> asm_line list" where
  "cast_code t =
     (if ty_kind t = TY_CHAR then sign_extend t 24 else if ty_kind t = TY_SHORT then sign_extend t 16 else [])"

definition dynamic_call :: "asm_line list" where
  "dynamic_call =
     [Ins ''counter'' [R 2], Ins ''add'' [R 2, R 2, N 20], push 2, Ins ''jmp'' [R 1]]"

definition runtime_call :: "string \<Rightarrow> asm_line list" where
  "runtime_call f =
     [push 2, push 1, Ins ''call'' [Sym f], Ins ''add'' [R 14, R 14, N 8]]"

text \<open>A pointer difference divides by the size of the elements.\<close>

definition pointer_scale :: "int \<Rightarrow> asm_line list option" where
  "pointer_scale v =
     (if v = 0 \<or> v = 1 then Some []
      else if v = 2 then Some [Ins ''asr'' [R 1, R 1, N 1]]
      else if v = 4 then Some [Ins ''asr'' [R 1, R 1, N 2]]
      else if v = 8 then Some [Ins ''asr'' [R 1, R 1, N 3]]
      else map_option (\<lambda>c. push 1 # c @ [push 1, pop 2, pop 1] @ runtime_call ''__divsi3'') (gen_num_reg 1 v))"

definition jump_name :: "binop \<Rightarrow> bool \<Rightarrow> string" where
  "jump_name bop uns =
     (case bop of EQ \<Rightarrow> ''je'' | NE \<Rightarrow> ''jne''
      | LT \<Rightarrow> if uns then ''jb'' else ''jl'' | LE \<Rightarrow> if uns then ''jbe'' else ''jle''
      | GT \<Rightarrow> if uns then ''ja'' else ''jg'' | GE \<Rightarrow> if uns then ''jae'' else ''jge'' | _ \<Rightarrow> [])"

text \<open>The operation on registers 1 and 2, in register 1.\<close>

definition alu :: "string \<Rightarrow> asm_line" where "alu nm = Ins nm [R 1, R 1, R 2]"

definition binary_code :: "ctype \<Rightarrow> binop \<Rightarrow> int \<Rightarrow> nat \<Rightarrow> gen" where
  "binary_code t bop v n =
     (case bop of
        ADD \<Rightarrow> Some ([alu ''add''], n)
      | SUB \<Rightarrow> map_option (\<lambda>c. (alu ''sub'' # c, n)) (pointer_scale v)
      | MUL \<Rightarrow> Some ([alu ''mul''], n)
      | DIV \<Rightarrow> Some (if ty_unsigned t then [alu ''div''] else runtime_call ''__divsi3'', n)
      | MOD \<Rightarrow> Some (if ty_unsigned t then [alu ''mod''] else runtime_call ''__modsi3'', n)
      | BITAND \<Rightarrow> Some ([alu ''and''], n)
      | BITOR \<Rightarrow> Some ([alu ''or''], n)
      | BITXOR \<Rightarrow> Some ([alu ''xor''], n)
      | LSL \<Rightarrow> Some ([alu ''lsl''], n)
      | LSR \<Rightarrow> Some ([alu (if ty_unsigned t then ''lsr'' else ''asr'')], n)
      | _ \<Rightarrow> Some (gen_compare (jump_name bop (ty_unsigned t)) n))"

text \<open>Registers 1 against zero.\<close>

definition test_zero :: "string \<Rightarrow> string \<Rightarrow> asm_line list" where
  "test_zero jmp l = [Ins ''mov'' [R 2, N 0], Ins ''cmp'' [R 1, R 2], Ins jmp [Sym l]]"

definition truth_code :: "int \<Rightarrow> int \<Rightarrow> string \<Rightarrow> string \<Rightarrow> asm_line list" where
  "truth_code a b l lend =
     [Ins ''mov'' [R 1, N a], Ins ''jmp'' [Sym lend], Lab l, Ins ''mov'' [R 1, N b], Lab lend]"

function
  gen_expr :: "genv \<Rightarrow> node \<Rightarrow> nat \<Rightarrow> gen"
  and gen_laddr :: "genv \<Rightarrow> node \<Rightarrow> nat \<Rightarrow> gen"
  and gen_member_addr :: "genv \<Rightarrow> node \<Rightarrow> int \<Rightarrow> nat \<Rightarrow> gen"
  and gen_args :: "genv \<Rightarrow> node list \<Rightarrow> nat \<Rightarrow> (asm_line list \<times> nat \<times> int) option"
where
  "gen_expr g (Num t v) n = map_option (\<lambda>c. (c, n)) (gen_num_reg 1 v)"
| "gen_expr g (Var t off) n = do { (c, n1) \<leftarrow> gen_laddr g (Var t off) n; Some (c @ load_value t, n1) }"
| "gen_expr g (Gvar t name) n = do { (c, n1) \<leftarrow> gen_laddr g (Gvar t name) n; Some (c @ load_value t, n1) }"
| "gen_expr g (Funct t name) n = Some (emit_addr32 name @ [mov 1 9], n)"
| "gen_expr g (Str t k) n = Some (emit_addr32 (str_name k) @ [mov 1 9], n)"
| "gen_expr g (Addr t e) n =
     (case e of
        Str t' k \<Rightarrow> Some (emit_addr32 (str_name k) @ [mov 1 9], n)
      | _ \<Rightarrow> do { (c, n1) \<leftarrow> gen_laddr g e n; Some (c @ [mov 1 9], n1) })"
| "gen_expr g (Deref t e) n =
     do { (c, n1) \<leftarrow> gen_expr g e n; Some (c @ (if decays t then [] else mov 9 1 # gen_load t), n1) }"
| "gen_expr g (Member t e v bo bw) n =
     do {
       (c, n1) \<leftarrow> gen_member_addr g e v n;
       c2 \<leftarrow> (if bw \<ge> 0 then gen_load_bitfield t bo bw else Some (load_value t));
       Some (c @ c2, n1)
     }"
| "gen_expr g (Va_start t e) n =
     do {
       (c, n1) \<leftarrow> gen_laddr g e n;
       Some (c @ [push 9, mov 9 10, Ins ''add'' [R 9, R 9, N (8 + 4 * int (ge_nargs g) + ge_retbuf g)], pop 2,
                  Ins ''store_32'' [Mem 2, R 9]], n1)
     }"
| "gen_expr g (Cast t e) n = do { (c, n1) \<leftarrow> gen_expr g e n; Some (c @ cast_code t, n1) }"
| "gen_expr g (Bitnot t e) n =
     do {
       (c, n1) \<leftarrow> gen_expr g e n;
       c2 \<leftarrow> gen_num_reg 2 0xFFFFFFFF;
       Some (c @ c2 @ [alu ''xor''], n1)
     }"
| "gen_expr g (Assign t l r) n =
     do {
       (c1, n1) \<leftarrow> gen_laddr g l n;
       (c2, n2) \<leftarrow> gen_expr g r n1;
       c3 \<leftarrow> (if is_aggregate t then Some (gen_block_copy (ty_size t))
              else case l of
                     Member _ _ _ bo bw \<Rightarrow> if bw \<ge> 0 then gen_store_bitfield bo bw else Some (gen_store t)
                   | _ \<Rightarrow> Some (gen_store t));
       Some (c1 @ [push 9] @ c2 @ [pop 9] @ c3, n2)
     }"
| "gen_expr g (Call t name fp as) n =
     (if length as > 64 then None
      else
        do {
          (c1, n1, total) \<leftarrow> gen_args g as n;
          (c2, n2) \<leftarrow> (case name of
             Some f \<Rightarrow> Some ([Ins ''call'' [Sym f]], n1)
           | None \<Rightarrow> (case fp of None \<Rightarrow> None | Some e \<Rightarrow> map_option (\<lambda>(c, m). (c @ dynamic_call, m)) (gen_expr g e n1)));
          let space = (if is_aggregate t then ty_size t else 0);
          Some (c1 @ (if is_aggregate t then [Ins ''sub'' [R 14, R 14, N space]] else []) @ c2
            @ (if is_aggregate t then [mov 1 14] else [])
            @ (if total + space > 0 then [Ins ''add'' [R 14, R 14, N (total + space)]] else []), n2)
        })"
| "gen_expr g (Neg t e) n = do { (c, n1) \<leftarrow> gen_expr g e n; Some (c @ [Ins ''neg'' [R 1, R 1]], n1) }"
| "gen_expr g (Lognot t e) n =
     do {
       (c, n1) \<leftarrow> gen_expr g e n;
       let (c2, n2) = gen_compare ''je'' n1;
       Some (c @ Ins ''mov'' [R 2, N 0] # c2, n2)
     }"
| "gen_expr g (Logand t a b) n =
     do {
       (c1, n1) \<leftarrow> gen_expr g a (n + 2);
       (c2, n2) \<leftarrow> gen_expr g b n1;
       Some (c1 @ test_zero ''je'' (new_label n) @ c2 @ test_zero ''je'' (new_label n)
         @ truth_code 1 0 (new_label n) (new_label (n + 1)), n2)
     }"
| "gen_expr g (Logor t a b) n =
     do {
       (c1, n1) \<leftarrow> gen_expr g a (n + 2);
       (c2, n2) \<leftarrow> gen_expr g b n1;
       Some (c1 @ test_zero ''jne'' (new_label n) @ c2 @ test_zero ''jne'' (new_label n)
         @ truth_code 0 1 (new_label n) (new_label (n + 1)), n2)
     }"
| "gen_expr g (Bin t bop v a b) n =
     do {
       (c1, n1) \<leftarrow> gen_expr g b n;
       (c2, n2) \<leftarrow> gen_expr g a n1;
       (c3, n3) \<leftarrow> binary_code t bop v n2;
       Some (c1 @ [push 1] @ c2 @ [pop 2] @ c3, n3)
     }"
| "gen_expr g (Cond t e a b) n =
     do {
       (c1, n1) \<leftarrow> gen_expr g e (n + 2);
       (c2, n2) \<leftarrow> gen_expr g a n1;
       (c3, n3) \<leftarrow> (case b of None \<Rightarrow> Some ([], n2) | Some x \<Rightarrow> gen_expr g x n2);
       Some (c1 @ test_zero ''je'' (new_label n) @ c2 @ [Ins ''jmp'' [Sym (new_label (n + 1))], Lab (new_label n)]
         @ c3 @ [Lab (new_label (n + 1))], n3)
     }"
| "gen_expr g (Comma t a b) n =
     do { (c1, n1) \<leftarrow> gen_expr g a n; (c2, n2) \<leftarrow> gen_expr g b n1; Some (c1 @ c2, n2) }"
| "gen_laddr g l n =
     (case l of
        Var t off \<Rightarrow> Some (var_addr off, n)
      | Gvar t name \<Rightarrow> Some (gvar_addr g name, n)
      | Deref t e \<Rightarrow> do { (c, n1) \<leftarrow> gen_expr g e n; Some (c @ [mov 9 1], n1) }
      | Member t e v bo bw \<Rightarrow> gen_member_addr g e v n
      | _ \<Rightarrow> None)"
| "gen_member_addr g l v n =
     (case l of
        Deref t e \<Rightarrow> do { (c, n1) \<leftarrow> gen_expr g e n; Some (c @ member_add 1 v, n1) }
      | Call t nm fp as \<Rightarrow> do { (c, n1) \<leftarrow> gen_expr g l n; Some (c @ member_add 1 v, n1) }
      | _ \<Rightarrow> do { (c, n1) \<leftarrow> gen_laddr g l n; Some (c @ member_add 9 v, n1) })"
| "gen_args g [] n = Some ([], n, 0)"
| "gen_args g (a # as) n =
     do {
       (c1, n1, total) \<leftarrow> gen_args g as n;
       (c2, n2) \<leftarrow> gen_expr g a n1;
       if is_aggregate (node_ty a)
       then Some (c1 @ c2 @ [Ins ''sub'' [R 14, R 14, N (ty_size (node_ty a))], mov 9 14]
                    @ gen_block_copy (ty_size (node_ty a)), n2, total + ty_size (node_ty a))
       else Some (c1 @ c2 @ [push 1], n2, total + 4)
     }"
  by pat_completeness auto
termination
  by (relation "measure (\<lambda>x. case x of
        Inl (Inl (g, e, n)) \<Rightarrow> 3 * size e + 1 | Inl (Inr (g, e, n)) \<Rightarrow> 3 * size e
      | Inr (Inl (g, e, v, n)) \<Rightarrow> 3 * size e + 2 | Inr (Inr (g, as, n)) \<Rightarrow> 3 * size_list size as)")
    (auto simp: algebra_simps)


section \<open>Statements\<close>

definition branch_zero :: "genv \<Rightarrow> node \<Rightarrow> string \<Rightarrow> bool \<Rightarrow> nat \<Rightarrow> gen" where
  "branch_zero g c l jump_if_zero n =
     do { (c1, n1) \<leftarrow> gen_expr g c n; Some (c1 @ test_zero (if jump_if_zero then ''je'' else ''jne'') l, n1) }"

definition epilogue :: "asm_line list" where
  "epilogue = [mov 14 10, pop 10, Ins ''ret'' []]"

definition jump_to :: "string \<Rightarrow> asm_line" where "jump_to l = Ins ''jmp'' [Sym l]"

text \<open>The comparisons of a switch with the slot of its value, and where its default goes.\<close>

definition switch_slot :: "int \<Rightarrow> asm_line" where "switch_slot off = Ins ''sub'' [R 9, R 10, N off]"

fun switch_chain :: "int \<Rightarrow> (int option \<times> int) list \<Rightarrow> asm_line list option" where
  "switch_chain off [] = Some []"
| "switch_chain off ((None, k) # cs) = switch_chain off cs"
| "switch_chain off ((Some v, k) # cs) =
     do {
       c1 \<leftarrow> gen_num_reg 2 v;
       c2 \<leftarrow> switch_chain off cs;
       Some ([switch_slot off, Ins ''load_32'' [R 1, Mem 9]] @ c1
         @ [Ins ''cmp'' [R 1, R 2], Ins ''je'' [Sym (user_label k)]] @ c2)
     }"

fun switch_default :: "string \<Rightarrow> (int option \<times> int) list \<Rightarrow> string" where
  "switch_default l [] = l"
| "switch_default l ((None, k) # cs) = switch_default (user_label k) cs"
| "switch_default l ((Some v, k) # cs) = switch_default l cs"

definition is_case :: "stmt \<Rightarrow> bool" where
  "is_case s = (case s of Case _ \<Rightarrow> True | Default _ \<Rightarrow> True | _ \<Rightarrow> False)"

text \<open>
  The two stacks of labels have the innermost loop first and hold 64 labels. \<open>gen_switch\<close> generates
  the statements before the first case under the outer stacks; it stops at that case and takes
  what generates the rest.
\<close>

definition room_for :: "string list \<Rightarrow> bool" where "room_for ls \<longleftrightarrow> length ls < 64"

lemma size_list_take_drop:
  "size_list f (takeWhile P xs) \<le> size_list f xs" "size_list f (dropWhile P xs) \<le> size_list f xs"
  by (induction xs) auto

function
  gen_stmt :: "genv \<Rightarrow> string list \<Rightarrow> string list \<Rightarrow> stmt \<Rightarrow> nat \<Rightarrow> gen"
  and gen_stmts :: "genv \<Rightarrow> string list \<Rightarrow> string list \<Rightarrow> stmt list \<Rightarrow> nat \<Rightarrow> gen"
where
  "gen_stmt g brk cont (Return e) n =
     do {
       (c, n1) \<leftarrow> (case e of
          None \<Rightarrow> Some ([], n)
        | Some x \<Rightarrow>
            map_option (\<lambda>(c, m). (c @ (if is_aggregate (node_ty x)
                then Ins ''add'' [R 9, R 10, N 8] # gen_block_copy (ty_size (node_ty x)) else []), m))
              (gen_expr g x n));
       Some (c @ [Raw ''    ; return''] @ epilogue, n1)
     }"
| "gen_stmt g brk cont (If e a b) n =
     do {
       (c1, n1) \<leftarrow> branch_zero g e (new_label n) True (n + 2);
       (c2, n2) \<leftarrow> gen_stmts g brk cont a n1;
       (case b of
          None \<Rightarrow> Some (c1 @ c2 @ [Lab (new_label n)], n2)
        | Some ss \<Rightarrow>
            do {
              (c3, n3) \<leftarrow> gen_stmts g brk cont ss n2;
              Some (c1 @ c2 @ [jump_to (new_label (n + 1)), Lab (new_label n)] @ c3 @ [Lab (new_label (n + 1))], n3)
            })
     }"
| "gen_stmt g brk cont (While e ss) n =
     (if \<not> room_for brk \<or> \<not> room_for cont then None
      else
        do {
          (c1, n1) \<leftarrow> branch_zero g e (new_label (n + 1)) True (n + 3);
          (c2, n2) \<leftarrow> gen_stmts g (new_label (n + 1) # brk) (new_label n # cont) ss n1;
          Some ([Lab (new_label n), poll_label (n + 2)] @ c1 @ c2
            @ [jump_to (new_label n), Lab (new_label (n + 1))], n2)
        })"
| "gen_stmt g brk cont (For i e u ss) n =
     (if \<not> room_for brk \<or> \<not> room_for cont then None
      else
        do {
          (c1, n1) \<leftarrow> gen_stmts g brk cont i (n + 3);
          (c2, n2) \<leftarrow> (case e of None \<Rightarrow> Some ([], n1 + 1) | Some x \<Rightarrow> branch_zero g x (new_label (n + 2)) True (n1 + 1));
          (c3, n3) \<leftarrow> gen_stmts g (new_label (n + 2) # brk) (new_label (n + 1) # cont) ss n2;
          (c4, n4) \<leftarrow> (case u of None \<Rightarrow> Some ([], n3) | Some x \<Rightarrow> gen_expr g x n3);
          Some (c1 @ [Lab (new_label n), poll_label n1] @ c2 @ c3 @ [Lab (new_label (n + 1))] @ c4
            @ [jump_to (new_label n), Lab (new_label (n + 2))], n4)
        })"
| "gen_stmt g brk cont (Do_while ss e) n =
     (if \<not> room_for brk \<or> \<not> room_for cont then None
      else
        do {
          (c1, n1) \<leftarrow> gen_stmts g (new_label (n + 2) # brk) (new_label (n + 1) # cont) ss (n + 4);
          (c2, n2) \<leftarrow> branch_zero g e (new_label (n + 2)) True n1;
          Some ([Lab (new_label n), poll_label (n + 3)] @ c1 @ [Lab (new_label (n + 1))] @ c2
            @ [jump_to (new_label n), Lab (new_label (n + 2))], n2)
        })"
| "gen_stmt g brk cont (Switch e off cases ss) n =
     (if \<not> room_for brk then None
      else
        do {
          (c1, n1) \<leftarrow> gen_expr g e (n + 1);
          (c2, n2) \<leftarrow> gen_stmts g brk cont (takeWhile (\<lambda>s. \<not> is_case s) ss) n1;
          c3 \<leftarrow> switch_chain off cases;
          (c4, n3) \<leftarrow> gen_stmts g (new_label n # brk) cont (dropWhile (\<lambda>s. \<not> is_case s) ss) n2;
          Some (c1 @ [switch_slot off, Ins ''store_32'' [Mem 9, R 1]] @ c2 @ c3
            @ [jump_to (switch_default (new_label n) cases)] @ c4 @ [Lab (new_label n)], n3)
        })"
| "gen_stmt g brk cont (Case k) n = Some ([Lab (user_label k)], n)"
| "gen_stmt g brk cont (Default k) n = Some ([Lab (user_label k)], n)"
| "gen_stmt g brk cont Break n = (case brk of [] \<Rightarrow> None | l # _ \<Rightarrow> Some ([jump_to l], n))"
| "gen_stmt g brk cont Continue n = (case cont of [] \<Rightarrow> None | l # _ \<Rightarrow> Some ([jump_to l], n))"
| "gen_stmt g brk cont (Goto k) n = Some ([poll_label n, jump_to (user_label k)], n + 1)"
| "gen_stmt g brk cont (Label k ss) n =
     do { (c, n1) \<leftarrow> gen_stmts g brk cont ss n; Some (Lab (user_label k) # c, n1) }"
| "gen_stmt g brk cont Declaration n = Some ([], n)"
| "gen_stmt g brk cont (Expr e) n = gen_expr g e n"
| "gen_stmts g brk cont [] n = Some ([], n)"
| "gen_stmts g brk cont (s # ss) n =
     do { (c1, n1) \<leftarrow> gen_stmt g brk cont s n; (c2, n2) \<leftarrow> gen_stmts g brk cont ss n1; Some (c1 @ c2, n2) }"
  by pat_completeness auto

termination
  by (relation "measure (\<lambda>x. case x of Inl (g, b, c, s, n) \<Rightarrow> size s | Inr (g, b, c, ss, n) \<Rightarrow> size_list size ss)")
    (auto intro: le_imp_less_Suc le_less_trans [OF size_list_take_drop(1)] le_less_trans [OF size_list_take_drop(2)]
      order_trans [OF size_list_take_drop(1)] order_trans [OF size_list_take_drop(2)])


section \<open>Functions and data\<close>

definition align4 :: "int \<Rightarrow> int" where "align4 x = (x + 3) div 4 * 4"

definition retbuf_size :: "cfunc \<Rightarrow> int" where
  "retbuf_size f = (if f_retbuf f then align4 (f_ret_size f) else 0)"

text \<open>The parameters copied from the caller's part of the stack to their slots.\<close>

fun copy_params :: "ctype list \<Rightarrow> int \<Rightarrow> int \<Rightarrow> asm_line list" where
  "copy_params [] arg_off slot_off = []"
| "copy_params (t # ts) arg_off slot_off =
     (let psz = align4 (ty_size t); slot = slot_off + psz in
      (if is_aggregate t then
         [Ins ''add'' [R 1, R 10, N arg_off], Ins ''sub'' [R 9, R 10, N slot]] @ gen_block_copy (ty_size t)
       else
         [Ins ''add'' [R 9, R 10, N arg_off], Ins ''load_32'' [R 1, Mem 9], Ins ''sub'' [R 9, R 10, N slot]]
         @ gen_store t)
      @ copy_params ts (arg_off + psz) slot)"

definition prologue :: "cfunc \<Rightarrow> asm_line list" where
  "prologue f =
     [push 10, mov 10 14] @ (if f_frame f \<noteq> 0 then [Ins ''sub'' [R 14, R 14, N (f_frame f)]] else [])
     @ copy_params (f_params f) (8 + retbuf_size f) 0"

definition gen_func :: "cglobal list \<Rightarrow> bool \<Rightarrow> cfunc \<Rightarrow> nat \<Rightarrow> gen" where
  "gen_func gs d32 f n =
     do {
       (c, n1) \<leftarrow> gen_stmts \<lparr>ge_globals = gs, ge_d32 = d32, ge_nargs = length (f_params f), ge_retbuf = retbuf_size f\<rparr>
         [] [] (f_body f) (n + 1);
       Some ([Lab (f_name f)] @ prologue f @ [poll_label n] @ c @ epilogue, n1)
     }"

text \<open>The initial bytes of a global in units of four, with references to strings and functions.\<close>

definition hex2 :: "u8 \<Rightarrow> string" where "hex2 b = show_hex_pad 2 (uint b)"

definition data_word :: "cglobal \<Rightarrow> u8 list \<Rightarrow> int \<Rightarrow> asm_line" where
  "data_word gl bs off =
     (case find (\<lambda>(o', _). o' = off) (g_strs gl) of
        Some (_, k) \<Rightarrow> Raw (''    U32 @32:s'' @ show_int k)
      | None \<Rightarrow>
          (case find (\<lambda>(o', _). o' = off) (g_funcs gl) of
             Some (_, name, addend) \<Rightarrow>
               Raw (''    U32 @32:'' @ name @ (if addend \<noteq> 0 then '' + 0x'' @ show_hex addend else []))
           | None \<Rightarrow> Raw (''    U32 0x'' @ concat (map hex2 bs))))"

fun data_lines_of :: "cglobal \<Rightarrow> u8 list \<Rightarrow> int \<Rightarrow> asm_line list" where
  "data_lines_of gl (a # b # c # d # bs) off = data_word gl [a, b, c, d] off # data_lines_of gl bs (off + 4)"
| "data_lines_of gl bs off = map (\<lambda>b. Raw (''    U8 '' @ show_int (uint b))) bs"

definition add_data_lines :: "asm_line list \<Rightarrow> obj \<Rightarrow> obj" where
  "add_data_lines ls ob = fold (\<lambda>l. obj_add_data (show_line l)) ls ob"

definition add_global :: "cglobal \<Rightarrow> obj \<Rightarrow> obj" where
  "add_global gl ob =
     (let sym = (\<lambda>o1. if g_static gl then o1 else obj_add_symbol (g_name gl) True 1 0 (ty_size (g_ty gl)) o1) in
      if g_extern gl then ob
      else
        (case g_init gl of
           None \<Rightarrow> sym (obj_add_bss (g_name gl) (ty_size (g_ty gl)) ob)
         | Some [] \<Rightarrow> sym (obj_add_bss (g_name gl) (ty_size (g_ty gl)) ob)
         | Some bs \<Rightarrow> add_data_lines (data_lines_of gl bs 0) (sym (add_data_lines [Lab (g_name gl)] ob))))"

text \<open>A string with a quote or a control character is written byte by byte.\<close>

definition raw_ok :: "string \<Rightarrow> bool" where
  "raw_ok s \<longleftrightarrow> list_all (\<lambda>c. c \<noteq> dquote \<and> code_of c \<ge> 32) s"

definition string_lines :: "nat \<Rightarrow> string \<Rightarrow> asm_line list" where
  "string_lines k s =
     [Lab (str_name (int k))]
     @ (if raw_ok s then [Raw (''    '' @ [dquote] @ s @ [dquote])]
        else map (\<lambda>c. Raw (''    U8 '' @ show_int (int (code_of c)))) s)
     @ [Raw ''    U8 0'']"

definition emit_data :: "cprogram \<Rightarrow> obj \<Rightarrow> obj" where
  "emit_data p ob =
     fold (\<lambda>(k, s). add_data_lines (string_lines k s)) (List.enumerate 0 (p_strs p)) (fold add_global (p_globals p) ob)"

fun gen_funcs :: "cglobal list \<Rightarrow> bool \<Rightarrow> cfunc list \<Rightarrow> nat \<Rightarrow> gen" where
  "gen_funcs gs d32 [] n = Some ([], n)"
| "gen_funcs gs d32 (f # fs) n =
     do { (c1, n1) \<leftarrow> gen_func gs d32 f n; (c2, n2) \<leftarrow> gen_funcs gs d32 fs n1; Some (c1 @ c2, n2) }"

text \<open>\<^verbatim>\<open>main\<close> comes first; more than 256 functions overrun the array in which they are sorted.\<close>

definition func_order :: "cfunc list \<Rightarrow> cfunc list" where
  "func_order fs =
     filter (\<lambda>f. \<not> f_decl f) (filter (\<lambda>f. f_name f = ''main'') fs @ filter (\<lambda>f. f_name f \<noteq> ''main'') fs)"

definition add_func_symbol :: "cfunc \<Rightarrow> obj \<Rightarrow> obj" where
  "add_func_symbol f ob = (if f_static f then ob else obj_add_symbol (f_name f) False 0 0 0 ob)"

definition codegen :: "cprogram \<Rightarrow> obj \<Rightarrow> bool \<Rightarrow> obj option" where
  "codegen p ob d32 =
     (if length (p_funcs p) > 256 then None
      else
        do {
          (c, n) \<leftarrow> gen_funcs (p_globals p) d32 (func_order (p_funcs p)) 0;
          Some (emit_data p (fold add_func_symbol (func_order (p_funcs p))
            (fold (\<lambda>l. obj_add_text (show_line l)) c ob)))
        })"

end
