(* ===== verification/Codegen_Exec.thy ===== *)
theory Codegen_Exec
  imports Codegen Machine_Steps
begin

text \<open>
  The execution of the lines that \<^verbatim>\<open>symcc/src/codegen.c\<close> writes, by the emulator's semantics of
  mnemonics and operands (\<open>Machine\<close>, which the encoded words implement): a program is a list of
  lines, a position is an index into it, jumps go to the index of their label, and \<^verbatim>\<open>push\<close> and
  \<^verbatim>\<open>pop\<close> are their two words. Symbols have the addresses that the linker gives them. Calls are not
  executed. Memory holds data only: the program stands apart from it.
\<close>

section \<open>Operands\<close>

definition imm :: "int \<Rightarrow> operand option" where
  "imm v = (if 0 \<le> v \<and> v \<le> 0xFFFF then Some (Imm (of_int v)) else None)"

text \<open>The operands as the linker and the assembler read them; references are resolved by \<open>symtab\<close>.\<close>

fun operand_of :: "(string \<Rightarrow> u32) \<Rightarrow> asm_arg \<Rightarrow> operand option" where
  "operand_of symtab (R r) = Some (Reg r)"
| "operand_of symtab (Mem r) = Some (Reg r)"
| "operand_of symtab (N v) = imm v"
| "operand_of symtab (Hi s) = Some (Imm (drop_bit 16 (symtab s)))"
| "operand_of symtab (Lo s) = Some (Imm (symtab s AND 0xFFFF))"
| "operand_of symtab (At s) = imm (uint (symtab s))"
| "operand_of symtab (Sym s) = None"

text \<open>The instructions of a line, \<open>None\<close> for a line that is a jump, a call or does not assemble.\<close>

fun operands_of :: "(string \<Rightarrow> u32) \<Rightarrow> asm_arg list \<Rightarrow> operand list option" where
  "operands_of symtab [] = Some []"
| "operands_of symtab (a # as) =
     (case operand_of symtab a of None \<Rightarrow> None
      | Some x \<Rightarrow> (case operands_of symtab as of None \<Rightarrow> None | Some xs \<Rightarrow> Some (x # xs)))"

definition no_operands :: "string list" where
  "no_operands = [''call'', ''ret'', ''counter'', ''jmp'']"

definition expand :: "(string \<Rightarrow> u32) \<Rightarrow> string \<Rightarrow> asm_arg list \<Rightarrow> (string \<times> operand list) list option" where
  "expand symtab nm args =
     (case operands_of symtab args of
        None \<Rightarrow> None
      | Some xs \<Rightarrow>
          (if nm \<in> set no_operands then None
           else if nm = ''push'' then Some [(''sub'', [Reg 14, Reg 14, Imm 4]), (''store_32'', Reg 14 # xs)]
           else if nm = ''pop'' then Some [(''load_32'', xs @ [Reg 14]), (''add'', [Reg 14, Reg 14, Imm 4])]
           else Some [(nm, xs)]))"

fun run_words :: "'o emu_env \<Rightarrow> (string \<times> operand list) list \<Rightarrow> 'o emu \<Rightarrow> 'o emu option" where
  "run_words env [] st = Some st"
| "run_words env ((nm, xs) # ws) st =
     (case sem env 0 nm xs st of (Next, st') \<Rightarrow> run_words env ws st' | _ \<Rightarrow> None)"

definition run_line :: "'o emu_env \<Rightarrow> (string \<Rightarrow> u32) \<Rightarrow> asm_line \<Rightarrow> 'o emu \<Rightarrow> 'o emu option" where
  "run_line env symtab l st =
     (case l of
        Ins nm args \<Rightarrow> (case expand symtab nm args of None \<Rightarrow> None | Some ws \<Rightarrow> run_words env ws st)
      | _ \<Rightarrow> None)"

fun run_lines :: "'o emu_env \<Rightarrow> (string \<Rightarrow> u32) \<Rightarrow> asm_line list \<Rightarrow> 'o emu \<Rightarrow> 'o emu option" where
  "run_lines env symtab [] st = Some st"
| "run_lines env symtab (l # ls) st =
     (case run_line env symtab l st of None \<Rightarrow> None | Some st' \<Rightarrow> run_lines env symtab ls st')"


section \<open>Steps\<close>

fun label_index :: "asm_line list \<Rightarrow> string \<Rightarrow> nat option" where
  "label_index [] l = None"
| "label_index (x # xs) l = (if x = Lab l then Some 0 else map_option Suc (label_index xs l))"

fun labels_of :: "asm_line list \<Rightarrow> string list" where
  "labels_of [] = []"
| "labels_of (Lab l # xs) = l # labels_of xs"
| "labels_of (_ # xs) = labels_of xs"

inductive asm_step :: "'o emu_env \<Rightarrow> (string \<Rightarrow> u32) \<Rightarrow> asm_line list \<Rightarrow> nat \<times> 'o emu \<Rightarrow> nat \<times> 'o emu \<Rightarrow> bool"
  for env symtab prog where
  step_label: "i < length prog \<Longrightarrow> prog ! i = Lab l \<Longrightarrow> asm_step env symtab prog (i, st) (Suc i, st)"
| step_comment: "i < length prog \<Longrightarrow> prog ! i = Raw (''    ;'' @ s) \<Longrightarrow> asm_step env symtab prog (i, st) (Suc i, st)"
| step_line: "i < length prog \<Longrightarrow> run_line env symtab (prog ! i) st = Some st' \<Longrightarrow>
    asm_step env symtab prog (i, st) (Suc i, st')"
| step_jump: "i < length prog \<Longrightarrow> prog ! i = Ins ''jmp'' [Sym l] \<Longrightarrow> label_index prog l = Some k \<Longrightarrow>
    asm_step env symtab prog (i, st) (k, st)"
| step_cond: "i < length prog \<Longrightarrow> prog ! i = Ins nm [Sym l] \<Longrightarrow> map_of jump_conds nm = Some c \<Longrightarrow>
    c (last_a st) (last_b st) \<Longrightarrow> label_index prog l = Some k \<Longrightarrow> asm_step env symtab prog (i, st) (k, st)"
| step_next: "i < length prog \<Longrightarrow> prog ! i = Ins nm [Sym l] \<Longrightarrow> map_of jump_conds nm = Some c \<Longrightarrow>
    \<not> c (last_a st) (last_b st) \<Longrightarrow> asm_step env symtab prog (i, st) (Suc i, st)"

inductive_simps asm_step_simps: "asm_step env symtab prog (i, st) (j, st')"

abbreviation asm_steps where "asm_steps env symtab prog \<equiv> (asm_step env symtab prog)\<^sup>*\<^sup>*"

text \<open>The lines \<open>c\<close> stand in the program from index \<open>i\<close> on.\<close>

definition at :: "asm_line list \<Rightarrow> nat \<Rightarrow> asm_line list \<Rightarrow> bool" where
  "at prog i c \<longleftrightarrow> (\<exists>pre post. prog = pre @ c @ post \<and> length pre = i)"

lemma at_append: "at prog i (c @ d) \<Longrightarrow> at prog i c \<and> at prog (i + length c) d"
  unfolding at_def by (metis append.assoc length_append)

lemma at_Cons: "at prog i (x # c) \<Longrightarrow> i < length prog \<and> prog ! i = x \<and> at prog (Suc i) c"
proof -
  assume "at prog i (x # c)"
  then obtain pre post where "prog = pre @ x # c @ post" "length pre = i"
    by (auto simp: at_def)
  then have "prog = (pre @ [x]) @ c @ post" "length (pre @ [x]) = Suc i" "i < length prog" "prog ! i = x"
    by (auto simp: nth_append)
  then show ?thesis
    unfolding at_def by blast
qed

lemma at_nth: "at prog i c \<Longrightarrow> k < length c \<Longrightarrow> i + k < length prog \<and> prog ! (i + k) = c ! k"
  by (auto simp: at_def nth_append)

lemma label_index_at: "distinct (labels_of prog) \<Longrightarrow> i < length prog \<Longrightarrow> prog ! i = Lab l \<Longrightarrow> label_index prog l = Some i"
proof (induction prog arbitrary: i)
  case (Cons x xs)
  show ?case
  proof (cases i)
    case 0
    with Cons.prems show ?thesis by simp
  next
    case (Suc k)
    with Cons.prems have k: "k < length xs" "xs ! k = Lab l" by simp_all
    have "Lab l \<in> set xs \<Longrightarrow> l \<in> set (labels_of xs)" for xs
      by (induction xs rule: labels_of.induct) auto
    then have "l \<in> set (labels_of xs)"
      using k by (metis nth_mem)
    then have "x \<noteq> Lab l" "distinct (labels_of xs)"
      using Cons.prems(1) by (cases x; auto)+
    with Cons.IH [OF this(2) k] Suc show ?thesis by simp
  qed
qed simp

lemma labels_of_append [simp]: "labels_of (xs @ ys) = labels_of xs @ labels_of ys"
  by (induction xs rule: labels_of.induct) auto

lemma run_lines_steps:
  "at prog i c \<Longrightarrow> run_lines env symtab c st = Some st' \<Longrightarrow> asm_steps env symtab prog (i, st) (i + length c, st')"
proof (induction c arbitrary: i st)
  case (Cons l c)
  note h = at_Cons [OF Cons.prems(1)]
  from Cons.prems(2) obtain st1 where s: "run_line env symtab l st = Some st1" "run_lines env symtab c st1 = Some st'"
    by (auto split: option.splits)
  have "asm_step env symtab prog (i, st) (Suc i, st1)"
    using h s(1) by (auto intro: step_line)
  also have "asm_steps env symtab prog (Suc i, st1) (Suc i + length c, st')"
    using Cons.IH h s(2) by blast
  finally (converse_rtranclp_into_rtranclp) show ?case by simp
qed simp


section \<open>The effect of single lines\<close>

lemma regs_set_reg [simp]: "regs (set_reg r v st) = (if r > 0 then (regs st)(r := v) else regs st)"
  by (simp add: set_reg_def)

lemma set_reg_keeps [simp]: "ram (set_reg r v st) = ram st" "last_a (set_reg r v st) = last_a st"
  "last_b (set_reg r v st) = last_b st"
  by (simp_all add: set_reg_def)

lemma run_alu [simp]:
  "map_of alu_ops nm = Some f \<Longrightarrow> sem env t nm [Reg d, Reg s, x] st = (Next, set_reg d (f (regs st s) (operand_val st x)) st)"
  by simp

lemma alu_functions [simp]:
  "map_of alu_ops ''add'' = Some (\<lambda>x y. x + y)" "map_of alu_ops ''sub'' = Some (\<lambda>x y. x - y)"
  "map_of alu_ops ''mul'' = Some (\<lambda>x y. x * y)" "map_of alu_ops ''and'' = Some (\<lambda>x y. x AND y)"
  "map_of alu_ops ''or'' = Some (\<lambda>x y. x OR y)" "map_of alu_ops ''xor'' = Some (\<lambda>x y. x XOR y)"
  "map_of alu_ops ''lsl'' = Some (\<lambda>x y. push_bit (unat (y AND 31)) x)"
  "map_of alu_ops ''lsr'' = Some (\<lambda>x y. drop_bit (unat (y AND 31)) x)"
  "map_of alu_ops ''asr'' = Some (\<lambda>x y. signed_drop_bit (unat (y AND 31)) x)"
  "map_of alu_ops ''div'' = Some (\<lambda>x y. if y = 0 then 0 else x div y)"
  "map_of alu_ops ''mod'' = Some (\<lambda>x y. if y = 0 then 0 else x mod y)"
  by (simp_all add: alu_ops_def)

lemma move_functions [simp]:
  "sem env t ''mov'' [Reg d, x] st = (Next, set_reg d (operand_val st x) st)"
  "sem env t ''neg'' [Reg d, x] st = (Next, set_reg d (- operand_val st x) st)"
  "sem env t ''cmp'' [x, y] st = (Next, st\<lparr>last_a := operand_val st x, last_b := operand_val st y\<rparr>)"
  by (simp_all add: sem2_def move_ops_def)

lemma full_mask: "x AND UINT32_MAX = x" for x :: u32
proof -
  have "UINT32_MAX = - 1" by (simp add: UINT32_MAX_def)
  then show ?thesis by (metis and.right_neutral)
qed

lemma run_mem:
  assumes "plain env"
  shows "in_buffer (ram_size env) 1 (operand_val st x) \<Longrightarrow>
      sem env t ''load_8'' [Reg d, x] st = (Next, set_reg d (ucast (ram st (ucast (operand_val st x)))) st)"
    and "in_buffer (ram_size env) 2 (operand_val st x) \<Longrightarrow>
      sem env t ''load_16'' [Reg d, x] st = (Next, set_reg d (ucast (rd16 (ram st) (ucast (operand_val st x)))) st)"
    and "in_buffer (ram_size env) 4 (operand_val st x) \<Longrightarrow>
      sem env t ''load_32'' [Reg d, x] st = (Next, set_reg d (rd32 (ram st) (ucast (operand_val st x))) st)"
    and "in_buffer (ram_size env) 1 (operand_val st x) \<Longrightarrow>
      sem env t ''store_8'' [x, y] st = (Next, st\<lparr>ram := (ram st)(ucast (operand_val st x) := ucast (operand_val st y))\<rparr>)"
    and "in_buffer (ram_size env) 2 (operand_val st x) \<Longrightarrow>
      sem env t ''store_16'' [x, y] st = (Next, st\<lparr>ram := wr16 (ucast (operand_val st x)) (ucast (operand_val st y)) (ram st)\<rparr>)"
    and "in_buffer (ram_size env) 4 (operand_val st x) \<Longrightarrow>
      sem env t ''store_32'' [x, y] st = (Next, st\<lparr>ram := wr32 (ucast (operand_val st x)) (operand_val st y) (ram st)\<rparr>)"
  using assms by (simp_all add: sem2_def sem_load_def sem_store_def full_mask plain_def Let_def)

lemmas line_simps = run_line_def expand_def no_operands_def mov_def push_def pop_def alu_def imm_def


section \<open>Computations\<close>

text \<open>
  Memory from \<open>lo\<close> up to the end of main memory belongs to the program's data, what lies below the
  stack pointer is free, and what lies between holds saved values.
\<close>

definition same_from :: "u32 \<Rightarrow> (u64 \<Rightarrow> u8) \<Rightarrow> (u64 \<Rightarrow> u8) \<Rightarrow> bool" where
  "same_from lo m m' \<longleftrightarrow> (\<forall>a. unat lo \<le> unat a \<longrightarrow> m a = m' a)"

definition same_between :: "u32 \<Rightarrow> u32 \<Rightarrow> (u64 \<Rightarrow> u8) \<Rightarrow> (u64 \<Rightarrow> u8) \<Rightarrow> bool" where
  "same_between sp lo m m' \<longleftrightarrow> (\<forall>a. unat sp \<le> unat a \<and> unat a < unat lo \<longrightarrow> m a = m' a)"

lemma same_refl [simp]: "same_from lo m m" "same_between sp lo m m"
  by (simp_all add: same_from_def same_between_def)

lemma same_trans: "same_from lo m1 m2 \<Longrightarrow> same_from lo m2 m3 \<Longrightarrow> same_from lo m1 m3"
  "same_between sp lo m1 m2 \<Longrightarrow> same_between sp lo m2 m3 \<Longrightarrow> same_between sp lo m1 m3"
  by (auto simp: same_from_def same_between_def)

definition stack_ok :: "'o emu_env \<Rightarrow> u32 \<Rightarrow> u32 \<Rightarrow> 'o emu \<Rightarrow> bool" where
  "stack_ok env lo fp st \<longleftrightarrow>
     regs st 0 = 0 \<and> regs st 10 = fp \<and> unat (regs st 14) \<le> unat lo \<and> unat lo \<le> unat (ram_size env)"

text \<open>
  From index \<open>i\<close> the program comes to index \<open>j\<close>: the data change from \<open>m\<close> to \<open>m'\<close>, the registers satisfy
  \<open>P\<close>, stack and frame pointer are as before, and the saved values are kept, given \<open>need\<close> bytes of
  free stack.
\<close>

definition computes ::
    "'o emu_env \<Rightarrow> (string \<Rightarrow> u32) \<Rightarrow> asm_line list \<Rightarrow> u32 \<Rightarrow> u32 \<Rightarrow> nat \<Rightarrow> nat \<Rightarrow> nat \<Rightarrow> (u64 \<Rightarrow> u8) \<Rightarrow> (u64 \<Rightarrow> u8)
     \<Rightarrow> ((nat \<Rightarrow> u32) \<Rightarrow> bool) \<Rightarrow> bool" where
  "computes env symtab prog lo fp i j need m m' P \<longleftrightarrow>
     (\<forall>st. stack_ok env lo fp st \<longrightarrow> same_from lo (ram st) m \<longrightarrow> need \<le> unat (regs st 14) \<longrightarrow>
        (\<exists>st'. asm_steps env symtab prog (i, st) (j, st') \<and> P (regs st') \<and> stack_ok env lo fp st' \<and>
           regs st' 14 = regs st 14 \<and> same_from lo (ram st') m' \<and> same_between (regs st 14) lo (ram st') (ram st)))"

lemma computes_start: "computes env symtab prog lo fp i i need m m (\<lambda>_. True)"
  by (auto simp: computes_def)

lemma computes_seq:
  assumes "computes env symtab prog lo fp i j need m m1 P" and "computes env symtab prog lo fp j k need m1 m2 Q"
  shows "computes env symtab prog lo fp i k need m m2 Q"
  unfolding computes_def
proof (intro allI impI)
  fix st
  assume st: "stack_ok env lo fp st" "same_from lo (ram st) m" "need \<le> unat (regs st 14)"
  with assms(1) obtain s1 where a: "asm_steps env symtab prog (i, st) (j, s1)" "stack_ok env lo fp s1"
      "regs s1 14 = regs st 14" "same_from lo (ram s1) m1" "same_between (regs st 14) lo (ram s1) (ram st)"
    unfolding computes_def by blast
  with assms(2) st(3) obtain s2 where b: "asm_steps env symtab prog (j, s1) (k, s2)" "Q (regs s2)" "stack_ok env lo fp s2"
      "regs s2 14 = regs s1 14" "same_from lo (ram s2) m2" "same_between (regs s1 14) lo (ram s2) (ram s1)"
    unfolding computes_def by metis
  then show "\<exists>st'. asm_steps env symtab prog (i, st) (k, st') \<and> Q (regs st') \<and> stack_ok env lo fp st' \<and>
      regs st' 14 = regs st 14 \<and> same_from lo (ram st') m2 \<and> same_between (regs st 14) lo (ram st') (ram st)"
    using a by (metis rtranclp_trans same_trans(2))
qed

lemma computes_need: "computes env symtab prog lo fp i j need m m' P \<Longrightarrow> need \<le> need' \<Longrightarrow>
    computes env symtab prog lo fp i j need' m m' P"
  by (auto simp: computes_def)

lemma computes_weaken: "computes env symtab prog lo fp i j need m m' P \<Longrightarrow> (\<And>r. P r \<Longrightarrow> Q r) \<Longrightarrow>
    computes env symtab prog lo fp i j need m m' Q"
  unfolding computes_def by blast

text \<open>Lines that do not touch the stack: what they do to a state in which \<open>P\<close> holds.\<close>

lemma computes_lines:
  assumes c: "computes env symtab prog lo fp i j need m m1 P" and "at prog j d"
    and r: "\<And>st. P (regs st) \<Longrightarrow> stack_ok env lo fp st \<Longrightarrow> same_from lo (ram st) m1 \<Longrightarrow>
      \<exists>st'. run_lines env symtab d st = Some st' \<and> Q (regs st') \<and> regs st' 0 = 0 \<and> regs st' 10 = fp \<and>
        regs st' 14 = regs st 14 \<and> same_from lo (ram st') m2 \<and> (\<forall>a. unat a < unat lo \<longrightarrow> ram st' a = ram st a)"
  shows "computes env symtab prog lo fp i (j + length d) need m m2 Q"
  unfolding computes_def
proof (intro allI impI)
  fix st
  assume st: "stack_ok env lo fp st" "same_from lo (ram st) m" "need \<le> unat (regs st 14)"
  with c obtain s1 where a: "asm_steps env symtab prog (i, st) (j, s1)" "P (regs s1)" "stack_ok env lo fp s1"
      "regs s1 14 = regs st 14" "same_from lo (ram s1) m1" "same_between (regs st 14) lo (ram s1) (ram st)"
    unfolding computes_def by blast
  from r [OF a(2,3,5)] obtain s2 where b: "run_lines env symtab d s1 = Some s2" "Q (regs s2)" "regs s2 0 = 0" "regs s2 10 = fp"
      "regs s2 14 = regs s1 14" "same_from lo (ram s2) m2" "\<forall>a. unat a < unat lo \<longrightarrow> ram s2 a = ram s1 a"
    by blast
  have "asm_steps env symtab prog (i, st) (j + length d, s2)"
    using a(1) run_lines_steps [OF assms(2) b(1)] by (rule rtranclp_trans)
  moreover have "same_between (regs st 14) lo (ram s2) (ram st)"
    using a(6) b(7) by (simp add: same_between_def)
  ultimately show "\<exists>st'. asm_steps env symtab prog (i, st) (j + length d, st') \<and> Q (regs st') \<and> stack_ok env lo fp st' \<and>
      regs st' 14 = regs st 14 \<and> same_from lo (ram st') m2 \<and> same_between (regs st 14) lo (ram st') (ram st)"
    using a b by (intro exI [of _ s2]) (simp add: stack_ok_def)
qed

lemma computes_label:
  assumes "computes env symtab prog lo fp i j need m m' P" and "at prog j [Lab l]"
  shows "computes env symtab prog lo fp i (Suc j) need m m' P"
  using assms at_Cons [OF assms(2)] unfolding computes_def
  by (meson rtranclp.rtrancl_into_rtrancl step_label)

lemma computes_comment:
  assumes "computes env symtab prog lo fp i j need m m' P" and "at prog j [Raw (''    ;'' @ s)]"
  shows "computes env symtab prog lo fp i (Suc j) need m m' P"
  using assms at_Cons [OF assms(2)] unfolding computes_def
  by (meson rtranclp.rtrancl_into_rtrancl step_comment)

lemma computes_jump:
  assumes "computes env symtab prog lo fp i j need m m' P" and "at prog j [Ins ''jmp'' [Sym l]]"
    and "label_index prog l = Some k"
  shows "computes env symtab prog lo fp i k need m m' P"
  using assms at_Cons [OF assms(2)] unfolding computes_def
  by (meson rtranclp.rtrancl_into_rtrancl step_jump)


text \<open>A value saved on the stack during a computation.\<close>

lemma rd32_same:
  assumes "\<And>a. unat p \<le> unat a \<and> unat a < unat p + 4 \<Longrightarrow> m a = m' a" and "unat p + 4 < 2 ^ 64"
  shows "rd32 m p = rd32 m' p"
proof -
  have "unat (p + of_nat k) = unat p + k" if "k < 4" for k
    using assms(2) that by (simp add: unat_word_ariths unat_of_nat)
  from this [of 1] this [of 2] this [of 3] have "unat (p + 1) = unat p + 1" "unat (p + 2) = unat p + 2" "unat (p + 3) = unat p + 3"
    by simp_all
  then have "m p = m' p" "m (p + 1) = m' (p + 1)" "m (p + 2) = m' (p + 2)" "m (p + 3) = m' (p + 3)"
    by (auto intro!: assms(1))
  then show ?thesis
    by (simp add: rd32_def)
qed

lemma wr32_other:
  assumes "unat a < unat p \<or> unat p + 4 \<le> unat a" and "unat p + 4 < 2 ^ 64"
  shows "wr32 p v m a = m a"
proof -
  have "unat (p + of_nat k) = unat p + k" if "k < 4" for k
    using assms(2) that by (simp add: unat_word_ariths unat_of_nat)
  from this [of 1] this [of 2] this [of 3] have "unat (p + 1) = unat p + 1" "unat (p + 2) = unat p + 2" "unat (p + 3) = unat p + 3"
    by simp_all
  with assms(1) have "a \<noteq> p" "a \<noteq> p + 1" "a \<noteq> p + 2" "a \<noteq> p + 3"
    by auto
  then show ?thesis
    by (simp add: wr32_def)
qed

lemma computes_saved:
  assumes "plain env" and "at prog i [push r]" and "0 < r" "r < 14" "r \<noteq> 10"
    and c: "computes env symtab prog lo fp (Suc i) j need m m' P"
    and "at prog j [pop q]" and "0 < q" "q < 14" "q \<noteq> 10"
    and st: "stack_ok env lo fp st" "same_from lo (ram st) m" "need + 4 \<le> unat (regs st 14)"
  shows "\<exists>st' R. asm_steps env symtab prog (i, st) (Suc j, st') \<and> P R \<and> regs st' = R(q := regs st r, 14 := regs st 14) \<and>
      stack_ok env lo fp st' \<and> same_from lo (ram st') m' \<and> same_between (regs st 14) lo (ram st') (ram st)"
proof -
  let ?sp = "regs st 14" and ?v = "regs st r"
  let ?p = "?sp - 4" and ?m = "wr32 (ucast (?sp - 4)) ?v (ram st)"
  have four: "unat ?p = unat ?sp - 4" "unat (4 :: u32) \<le> unat ?sp"
    using st(3) by (simp_all add: unat_sub_if')
  have lim: "unat ?sp \<le> unat lo" "unat lo \<le> unat (ram_size env)"
    using st(1) by (simp_all add: stack_ok_def)
  have u64: "unat (ucast x :: u64) = unat x" for x :: u32
    by (rule unat_ucast32)
  have slot: "in_buffer (ram_size env) 4 ?p"
    using four lim st(3) by (simp add: in_buffer_def)
  have small: "unat (ucast ?p :: u64) + 4 < 2 ^ 64"
    using unat32_less [of ?p] by (simp add: u64)
  define s1 where "s1 = st\<lparr>regs := (regs st)(14 := ?p), ram := ?m\<rparr>"
  have "run_line env symtab (push r) st = Some s1"
    using assms(3,4) slot run_mem(6) [OF assms(1), where x = "Reg 14" and y = "Reg r"]
    by (simp add: line_simps s1_def set_reg_def)
  then have step1: "asm_step env symtab prog (i, st) (Suc i, s1)"
    using at_Cons [OF assms(2)] by (auto intro: step_line)
  have keep1: "?m a = ram st a" if "unat ?sp \<le> unat a" for a
    using wr32_other [OF _ small, of a] that four st(3) by (simp add: u64)
  have "stack_ok env lo fp s1"
    using st(1) four by (auto simp: stack_ok_def s1_def)
  moreover have "same_from lo (ram s1) m"
    using st(2) keep1 lim by (auto simp: same_from_def s1_def)
  moreover have "need \<le> unat (regs s1 14)"
    using st(3) four by (simp add: s1_def)
  ultimately obtain s2 where b: "asm_steps env symtab prog (Suc i, s1) (j, s2)" "P (regs s2)" "stack_ok env lo fp s2"
      "regs s2 14 = ?p" "same_from lo (ram s2) m'" "same_between ?p lo (ram s2) ?m"
    using c unfolding computes_def by (fastforce simp: s1_def)
  define s3 where "s3 = s2\<lparr>regs := (regs s2)(q := ?v, 14 := ?sp)\<rparr>"
  have "rd32 (ram s2) (ucast ?p) = rd32 ?m (ucast ?p)"
  proof (rule rd32_same [OF _ small])
    fix a :: u64
    assume "unat (ucast ?p :: u64) \<le> unat a \<and> unat a < unat (ucast ?p :: u64) + 4"
    then show "ram s2 a = ?m a"
      using b(6) four lim st(3) by (auto simp: same_between_def u64)
  qed
  then have v: "rd32 (ram s2) (ucast ?p) = ?v"
    by simp
  have "run_line env symtab (pop q) s2 = Some s3"
    using assms(8,9) slot run_mem(3) [OF assms(1), where x = "Reg 14" and d = q and st = s2] b(4) v
    by (simp add: line_simps s3_def set_reg_def)
  then have step2: "asm_step env symtab prog (j, s2) (Suc j, s3)"
    using at_Cons [OF assms(7)] by (auto intro: step_line)
  have "asm_steps env symtab prog (i, st) (Suc j, s3)"
    using step1 b(1) step2 by (meson converse_rtranclp_into_rtranclp rtranclp.rtrancl_into_rtrancl)
  moreover have "stack_ok env lo fp s3"
    using b(3) st(1) assms(8-10) by (auto simp: stack_ok_def s3_def)
  moreover have "same_between ?sp lo (ram s3) (ram st)"
    using b(6) keep1 four by (auto simp: same_between_def s3_def)
  ultimately show ?thesis
    using b(2,5) by (intro exI [of _ s3] exI [of _ "regs s2"]) (simp add: s3_def)
qed

text \<open>The value of one computation saved during the next.\<close>

lemma computes_pair:
  assumes c1: "computes env symtab prog lo fp i j need m m1 (\<lambda>R. R r = x)" and "plain env"
    and "at prog j [push r]" and "0 < r" "r < 14" "r \<noteq> 10"
    and c2: "computes env symtab prog lo fp (Suc j) k need2 m1 m2 (\<lambda>R. R 1 = y)"
    and "at prog k [pop q]" and "1 < q" "q < 14" "q \<noteq> 10" and "need2 + 4 \<le> need"
  shows "computes env symtab prog lo fp i (Suc k) need m m2 (\<lambda>R. R 1 = y \<and> R q = x)"
  unfolding computes_def
proof (intro allI impI)
  fix st
  assume st: "stack_ok env lo fp st" "same_from lo (ram st) m" "need \<le> unat (regs st 14)"
  with c1 obtain s1 where a: "asm_steps env symtab prog (i, st) (j, s1)" "regs s1 r = x" "stack_ok env lo fp s1"
      "regs s1 14 = regs st 14" "same_from lo (ram s1) m1" "same_between (regs st 14) lo (ram s1) (ram st)"
    unfolding computes_def by blast
  have n: "need2 + 4 \<le> unat (regs s1 14)" and q: "0 < q"
    using a(4) st(3) assms(9,12) by simp_all
  obtain s2 R where b: "asm_steps env symtab prog (j, s1) (Suc k, s2)" "R 1 = y" "regs s2 = R(q := regs s1 r, 14 := regs s1 14)"
      "stack_ok env lo fp s2" "same_from lo (ram s2) m2" "same_between (regs s1 14) lo (ram s2) (ram s1)"
    using computes_saved [OF assms(2-6) c2 assms(8) q assms(10,11) a(3,5) n] by blast
  have "asm_steps env symtab prog (i, st) (Suc k, s2)"
    using a(1) b(1) by (rule rtranclp_trans)
  moreover have "same_between (regs st 14) lo (ram s2) (ram st)"
    using a(4,6) b(6) same_trans(2) by metis
  moreover have "regs s2 1 = y \<and> regs s2 q = x" "regs s2 14 = regs st 14"
    using b(2,3) a(2,4) assms(9,10) by auto
  ultimately show "\<exists>st'. asm_steps env symtab prog (i, st) (Suc k, st') \<and> (regs st' 1 = y \<and> regs st' q = x) \<and>
      stack_ok env lo fp st' \<and> regs st' 14 = regs st 14 \<and> same_from lo (ram st') m2 \<and>
      same_between (regs st 14) lo (ram st') (ram st)"
    using b(4,5) by blast
qed

end
