(* ===== verification/Codegen_Sem.thy ===== *)
theory Codegen_Sem
  imports Codegen_Exec
begin

text \<open>
  What expressions mean: an evaluator for the syntax trees that \<^verbatim>\<open>symcc/src/codegen.c\<close> translates,
  written from the C language and not from the generated code. It takes the data memory to a value and
  the memory after the side effects; \<open>None\<close> is an access outside the data, a division by zero or
  a shift by 32 or more, and what is left out: calls, \<^verbatim>\<open>va_start\<close> and the signed divisions that the
  code generator leaves to the run-time library.

  In two places the value is the one that the code leaves in register 1 and not that of the language:
  an assignment to a \<^verbatim>\<open>char\<close> or a \<^verbatim>\<open>short\<close> has the value of its right side, not converted to the type
  of the left one, and an assignment to a bit field has the field in its place in the storage unit.
\<close>

section \<open>Objects in memory\<close>

definition width :: "ctype \<Rightarrow> nat" where
  "width t = (if ty_kind t = TY_CHAR then 1 else if ty_kind t = TY_SHORT then 2 else 4)"

definition load_val :: "ctype \<Rightarrow> (u64 \<Rightarrow> u8) \<Rightarrow> u32 \<Rightarrow> u32" where
  "load_val t m a =
     (if ty_kind t = TY_CHAR then (if ty_unsigned t then ucast (m (ucast a)) else scast (m (ucast a)))
      else if ty_kind t = TY_SHORT then (if ty_unsigned t then ucast (rd16 m (ucast a)) else scast (rd16 m (ucast a)))
      else rd32 m (ucast a))"

definition store_val :: "ctype \<Rightarrow> u32 \<Rightarrow> u32 \<Rightarrow> (u64 \<Rightarrow> u8) \<Rightarrow> u64 \<Rightarrow> u8" where
  "store_val t a v m =
     (if ty_kind t = TY_CHAR then m(ucast a := ucast v)
      else if ty_kind t = TY_SHORT then wr16 (ucast a) (ucast v) m
      else wr32 (ucast a) v m)"

text \<open>A cast keeps the low bits of a value and extends them by the sign or by zeros.\<close>

definition cast_val :: "ctype \<Rightarrow> u32 \<Rightarrow> u32" where
  "cast_val t v =
     (if ty_kind t = TY_CHAR then (if ty_unsigned t then take_bit 8 v else signed_take_bit 7 v)
      else if ty_kind t = TY_SHORT then (if ty_unsigned t then take_bit 16 v else signed_take_bit 15 v)
      else v)"

text \<open>
  A bit field of \<open>bw\<close> bits at distance \<open>bo\<close> from the high end of its unit.
\<close>

definition field_get :: "ctype \<Rightarrow> int \<Rightarrow> int \<Rightarrow> u32 \<Rightarrow> u32" where
  "field_get t bo bw u =
     (let x = drop_bit (nat (32 - bo - bw)) u in
      if ty_unsigned t then take_bit (nat bw) x else signed_take_bit (nat bw - 1) x)"

definition field_put :: "int \<Rightarrow> int \<Rightarrow> u32 \<Rightarrow> u32 \<Rightarrow> u32" where
  "field_put bo bw v u =
     (let sh = nat (32 - bo - bw) in
      (u AND NOT (push_bit sh (mask (nat bw)))) OR push_bit sh (take_bit (nat bw) v))"

definition field_ok :: "int \<Rightarrow> int \<Rightarrow> bool" where
  "field_ok bo bw \<longleftrightarrow> 0 \<le> bo \<and> 1 \<le> bw \<and> bo + bw \<le> 32"

text \<open>The first words of \<open>n\<close>, copied one after the other.\<close>

fun copy_words :: "nat \<Rightarrow> u32 \<Rightarrow> u32 \<Rightarrow> (u64 \<Rightarrow> u8) \<Rightarrow> u64 \<Rightarrow> u8" where
  "copy_words 0 dst src m = m"
| "copy_words (Suc n) dst src m =
     (let m1 = copy_words n dst src m; k = of_nat (4 * n) in
      wr32 (ucast (dst + k)) (rd32 m1 (ucast (src + k))) m1)"


section \<open>Expressions\<close>

text \<open>Where the data are: the size of main memory, the addresses of symbols, the lowest address, the frame.\<close>

record ectx =
  ex_ram :: u64
  ex_sym :: "string \<Rightarrow> u32"
  ex_lo :: u32
  ex_fp :: u32

definition data_at :: "ectx \<Rightarrow> nat \<Rightarrow> u32 \<Rightarrow> bool" where
  "data_at x k a \<longleftrightarrow> unat (ex_lo x) \<le> unat a \<and> in_buffer (ex_ram x) k a"

definition words_at :: "ectx \<Rightarrow> nat \<Rightarrow> u32 \<Rightarrow> bool" where
  "words_at x n a \<longleftrightarrow> list_all (\<lambda>k. data_at x 4 (a + of_nat (4 * k))) [0 ..< n]"

definition fetch :: "ectx \<Rightarrow> ctype \<Rightarrow> (u64 \<Rightarrow> u8) \<Rightarrow> u32 \<Rightarrow> u32 option" where
  "fetch x t m a =
     (if decays t then Some a else if data_at x (width t) a then Some (load_val t m a) else None)"

definition fetch_field :: "ectx \<Rightarrow> ctype \<Rightarrow> int \<Rightarrow> int \<Rightarrow> (u64 \<Rightarrow> u8) \<Rightarrow> u32 \<Rightarrow> u32 option" where
  "fetch_field x t bo bw m a =
     (if field_ok bo bw \<and> data_at x 4 a then Some (field_get t bo bw (rd32 m (ucast a))) else None)"

definition truth :: "bool \<Rightarrow> u32" where "truth b = (if b then 1 else 0)"

definition compare :: "binop \<Rightarrow> bool \<Rightarrow> u32 \<Rightarrow> u32 \<Rightarrow> bool" where
  "compare bop uns x y =
     (case bop of
        EQ \<Rightarrow> x = y | NE \<Rightarrow> x \<noteq> y
      | LT \<Rightarrow> if uns then x < y else sint x < sint y
      | LE \<Rightarrow> if uns then x \<le> y else sint x \<le> sint y
      | GT \<Rightarrow> if uns then y < x else sint y < sint x
      | _ \<Rightarrow> if uns then y \<le> x else sint y \<le> sint x)"

definition binary_val :: "ctype \<Rightarrow> binop \<Rightarrow> int \<Rightarrow> u32 \<Rightarrow> u32 \<Rightarrow> u32 option" where
  "binary_val t bop v x y =
     (case bop of
        ADD \<Rightarrow> Some (x + y)
      | SUB \<Rightarrow> if v = 0 then Some (x - y)
               else if v \<in> {1, 2, 4, 8} then Some (of_int (sint (x - y) div v)) else None
      | MUL \<Rightarrow> Some (x * y)
      | DIV \<Rightarrow> if ty_unsigned t \<and> y \<noteq> 0 then Some (x div y) else None
      | MOD \<Rightarrow> if ty_unsigned t \<and> y \<noteq> 0 then Some (x mod y) else None
      | BITAND \<Rightarrow> Some (x AND y)
      | BITOR \<Rightarrow> Some (x OR y)
      | BITXOR \<Rightarrow> Some (x XOR y)
      | LSL \<Rightarrow> if y < 32 then Some (push_bit (unat y) x) else None
      | LSR \<Rightarrow> if y < 32 then Some (if ty_unsigned t then drop_bit (unat y) x else signed_drop_bit (unat y) x) else None
      | _ \<Rightarrow> Some (truth (compare bop (ty_unsigned t) x y)))"

text \<open>The value of an assignment and the memory after it.\<close>

definition assign :: "ectx \<Rightarrow> ctype \<Rightarrow> node \<Rightarrow> u32 \<Rightarrow> u32 \<Rightarrow> (u64 \<Rightarrow> u8) \<Rightarrow> (u32 \<times> (u64 \<Rightarrow> u8)) option" where
  "assign x t l a v m =
     (if is_aggregate t then
        (if ty_size t mod 4 = 0 \<and> words_at x (nat (ty_size t div 4)) a \<and> words_at x (nat (ty_size t div 4)) v
         then Some (v, copy_words (nat (ty_size t div 4)) a v m) else None)
      else
        (case l of
           Member t' e k bo bw \<Rightarrow>
             if bw \<ge> 0 then
               (if field_ok bo bw \<and> data_at x 4 a
                then Some (push_bit (nat (32 - bo - bw)) (take_bit (nat bw) v),
                           wr32 (ucast a) (field_put bo bw v (rd32 m (ucast a))) m) else None)
             else if data_at x (width t) a then Some (v, store_val t a v m) else None
         | _ \<Rightarrow> if data_at x (width t) a then Some (v, store_val t a v m) else None))"

function
  eval :: "ectx \<Rightarrow> node \<Rightarrow> (u64 \<Rightarrow> u8) \<Rightarrow> (u32 \<times> (u64 \<Rightarrow> u8)) option"
  and addr_of :: "ectx \<Rightarrow> node \<Rightarrow> (u64 \<Rightarrow> u8) \<Rightarrow> (u32 \<times> (u64 \<Rightarrow> u8)) option"
where
  "eval x (Num t v) m = Some (of_int v, m)"
| "eval x (Var t off) m = do { (a, m1) \<leftarrow> addr_of x (Var t off) m; v \<leftarrow> fetch x t m1 a; Some (v, m1) }"
| "eval x (Gvar t name) m = do { (a, m1) \<leftarrow> addr_of x (Gvar t name) m; v \<leftarrow> fetch x t m1 a; Some (v, m1) }"
| "eval x (Deref t e) m = do { (a, m1) \<leftarrow> eval x e m; v \<leftarrow> fetch x t m1 a; Some (v, m1) }"
| "eval x (Member t e k bo bw) m =
     do {
       (a, m1) \<leftarrow> addr_of x e m;
       v \<leftarrow> (if bw \<ge> 0 then fetch_field x t bo bw m1 (a + of_int k) else fetch x t m1 (a + of_int k));
       Some (v, m1)
     }"
| "eval x (Funct t name) m = Some (ex_sym x name, m)"
| "eval x (Str t k) m = Some (ex_sym x (str_name k), m)"
| "eval x (Addr t e) m = (case e of Str t' k \<Rightarrow> Some (ex_sym x (str_name k), m) | _ \<Rightarrow> addr_of x e m)"
| "eval x (Va_start t e) m = None"
| "eval x (Cast t e) m = do { (v, m1) \<leftarrow> eval x e m; Some (cast_val t v, m1) }"
| "eval x (Bitnot t e) m = do { (v, m1) \<leftarrow> eval x e m; Some (NOT v, m1) }"
| "eval x (Neg t e) m = do { (v, m1) \<leftarrow> eval x e m; Some (- v, m1) }"
| "eval x (Lognot t e) m = do { (v, m1) \<leftarrow> eval x e m; Some (truth (v = 0), m1) }"
| "eval x (Assign t l r) m =
     do { (a, m1) \<leftarrow> addr_of x l m; (v, m2) \<leftarrow> eval x r m1; assign x t l a v m2 }"
| "eval x (Call t name fp as) m = None"
| "eval x (Logand t a b) m =
     do {
       (v, m1) \<leftarrow> eval x a m;
       if v = 0 then Some (0, m1) else do { (w, m2) \<leftarrow> eval x b m1; Some (truth (w \<noteq> 0), m2) }
     }"
| "eval x (Logor t a b) m =
     do {
       (v, m1) \<leftarrow> eval x a m;
       if v \<noteq> 0 then Some (1, m1) else do { (w, m2) \<leftarrow> eval x b m1; Some (truth (w \<noteq> 0), m2) }
     }"
| "eval x (Bin t bop k a b) m =
     do { (w, m1) \<leftarrow> eval x b m; (v, m2) \<leftarrow> eval x a m1; r \<leftarrow> binary_val t bop k v w; Some (r, m2) }"
| "eval x (Cond t e a b) m =
     do {
       (v, m1) \<leftarrow> eval x e m;
       if v \<noteq> 0 then eval x a m1 else (case b of None \<Rightarrow> None | Some d \<Rightarrow> eval x d m1)
     }"
| "eval x (Comma t a b) m = do { (v, m1) \<leftarrow> eval x a m; eval x b m1 }"
| "addr_of x l m =
     (case l of
        Var t off \<Rightarrow> Some (ex_fp x + of_int off, m)
      | Gvar t name \<Rightarrow> Some (ex_sym x name, m)
      | Deref t e \<Rightarrow> eval x e m
      | Member t e k bo bw \<Rightarrow> do { (a, m1) \<leftarrow> addr_of x e m; Some (a + of_int k, m1) }
      | _ \<Rightarrow> None)"
  by pat_completeness auto
termination
  by (relation "measure (\<lambda>p. case p of Inl (x, e, m) \<Rightarrow> 2 * size e + 1 | Inr (x, e, m) \<Rightarrow> 2 * size e)") auto

end
