(* ===== verification/Codegen_Lines.thy ===== *)
theory Codegen_Lines
  imports Codegen_Sem
begin

text \<open>
  The lines of generated code as functions of the state: words, moves and arithmetic on registers,
  constants, branches on a comparison, truth values.
\<close>

section \<open>Words\<close>

lemma seven: "\<not> 8 \<le> n \<Longrightarrow> 7 \<le> n \<Longrightarrow> n = (7 :: nat)"
  and fifteen: "\<not> 16 \<le> n \<Longrightarrow> 15 \<le> n \<Longrightarrow> n = (15 :: nat)"
  by simp_all

lemma extend_shift:
  fixes b :: u8 and h :: u16
  shows "drop_bit 24 (push_bit 24 (ucast b :: u32)) = ucast b"
    and "signed_drop_bit 24 (push_bit 24 (ucast b :: u32)) = scast b"
    and "drop_bit 16 (push_bit 16 (ucast h :: u32)) = ucast h"
    and "signed_drop_bit 16 (push_bit 16 (ucast h :: u32)) = scast h"
  by (rule bit_word_eqI; auto simp: bit_simps min_def dest: bit_imp_le_length seven fifteen)+

lemma cast_shift:
  fixes v :: u32
  shows "drop_bit 24 (push_bit 24 v) = take_bit 8 v" "signed_drop_bit 24 (push_bit 24 v) = signed_take_bit 7 v"
    and "drop_bit 16 (push_bit 16 v) = take_bit 16 v" "signed_drop_bit 16 (push_bit 16 v) = signed_take_bit 15 v"
  by (rule bit_word_eqI; auto simp: bit_simps min_def dest: bit_imp_le_length seven fifteen)+

lemma small_shift: "unat ((of_int k :: u32) AND 31) = nat k" if "0 \<le> k" "k < 32"
proof -
  have "(of_int k :: u32) AND 31 = take_bit 5 (of_int k)" by (simp add: take_bit_eq_mask mask_numeral)
  also have "unat \<dots> = nat k"
    using that by (simp add: unsigned_take_bit_eq take_bit_nat_eq_self_iff unsigned_of_int nat_take_bit_eq take_bit_int_eq_self_iff)
  finally show ?thesis .
qed

section \<open>Registers\<close>

lemma computes_regs:
  assumes "computes env symtab prog lo fp i j need m m1 P" and "at prog j d"
    and "\<And>st. P (regs st) \<Longrightarrow> regs st 0 = 0 \<Longrightarrow> regs st 10 = fp \<Longrightarrow>
      \<exists>st'. run_lines env symtab d st = Some st' \<and> Q (regs st') \<and> regs st' 0 = 0 \<and> regs st' 10 = fp \<and>
        regs st' 14 = regs st 14 \<and> ram st' = ram st"
  shows "computes env symtab prog lo fp i (j + length d) need m m1 Q"
  by (rule computes_lines [OF assms(1,2)]) (use assms(3) in \<open>fastforce simp: stack_ok_def\<close>)

text \<open>Single lines as functions of the state.\<close>

definition upd :: "nat \<Rightarrow> u32 \<Rightarrow> 'o emu \<Rightarrow> 'o emu" where "upd r v st = st\<lparr>regs := (regs st)(r := v)\<rparr>"

lemma upd_simps [simp]: "regs (upd r v st) = (regs st)(r := v)" "ram (upd r v st) = ram st"
  by (simp_all add: upd_def)

lemma set_reg_upd: "0 < r \<Longrightarrow> set_reg r v st = upd r v st"
  by (simp add: set_reg_def upd_def)

definition in16 :: "int \<Rightarrow> bool" where "in16 v \<longleftrightarrow> 0 \<le> v \<and> v \<le> 0xFFFF"

fun arg_val :: "(string \<Rightarrow> u32) \<Rightarrow> 'o emu \<Rightarrow> asm_arg \<Rightarrow> u32" where
  "arg_val symtab st (R r) = regs st r"
| "arg_val symtab st (Mem r) = regs st r"
| "arg_val symtab st (N v) = of_int v"
| "arg_val symtab st (Hi s) = drop_bit 16 (symtab s)"
| "arg_val symtab st (Lo s) = symtab s AND 0xFFFF"
| "arg_val symtab st (At s) = symtab s"
| "arg_val symtab st (Sym s) = 0"

fun arg_ok :: "(string \<Rightarrow> u32) \<Rightarrow> asm_arg \<Rightarrow> bool" where
  "arg_ok symtab (N v) = in16 v"
| "arg_ok symtab (At s) = in16 (uint (symtab s))"
| "arg_ok symtab (Sym s) = False"
| "arg_ok symtab _ = True"

lemma operand_arg: "arg_ok symtab a \<Longrightarrow> \<exists>x. operand_of symtab a = Some x \<and> operand_val st x = arg_val symtab st a"
  by (cases a) (auto simp: imm_def in16_def)

lemma run_alu_line:
  assumes "map_of alu_ops nm = Some f" and "0 < d" and "arg_ok symtab a"
  shows "run_line env symtab (Ins nm [R d, R s, a]) st = Some (upd d (f (regs st s) (arg_val symtab st a)) st)"
proof -
  from operand_arg [OF assms(3), of st] obtain x where x: "operand_of symtab a = Some x" "operand_val st x = arg_val symtab st a"
    by blast
  have "nm \<notin> set no_operands" "nm \<noteq> ''push''" "nm \<noteq> ''pop''"
    using assms(1) by (auto simp: alu_ops_def no_operands_def)
  with assms(1,2) x show ?thesis
    by (simp add: run_line_def expand_def set_reg_upd)
qed

lemma run_move_line:
  assumes "0 < d" and "arg_ok symtab a"
  shows "run_line env symtab (Ins ''mov'' [R d, a]) st = Some (upd d (arg_val symtab st a) st)"
    and "run_line env symtab (Ins ''neg'' [R d, a]) st = Some (upd d (- arg_val symtab st a) st)"
proof -
  from operand_arg [OF assms(2), of st] obtain x where x: "operand_of symtab a = Some x" "operand_val st x = arg_val symtab st a"
    by blast
  with assms(1) move_functions(1,2) [of env 0 d x st] show
    "run_line env symtab (Ins ''mov'' [R d, a]) st = Some (upd d (arg_val symtab st a) st)"
    "run_line env symtab (Ins ''neg'' [R d, a]) st = Some (upd d (- arg_val symtab st a) st)"
    by (simp_all add: run_line_def expand_def no_operands_def set_reg_upd del: move_functions sem.simps)
qed

lemma run_cmp_line: "run_line env symtab (Ins ''cmp'' [R r, R s]) st = Some (st\<lparr>last_a := regs st r, last_b := regs st s\<rparr>)"
  using move_functions(3) [of env 0 "Reg r" "Reg s" st] by (simp add: run_line_def expand_def no_operands_def del: sem.simps)

lemma run_mem_line:
  assumes "plain env"
  shows "in_buffer (ram_size env) 1 (regs st r) \<Longrightarrow> 0 < d \<Longrightarrow>
      run_line env symtab (Ins ''load_8'' [R d, Mem r]) st = Some (upd d (ucast (ram st (ucast (regs st r)))) st)"
    and "in_buffer (ram_size env) 2 (regs st r) \<Longrightarrow> 0 < d \<Longrightarrow>
      run_line env symtab (Ins ''load_16'' [R d, Mem r]) st = Some (upd d (ucast (rd16 (ram st) (ucast (regs st r)))) st)"
    and "in_buffer (ram_size env) 4 (regs st r) \<Longrightarrow> 0 < d \<Longrightarrow>
      run_line env symtab (Ins ''load_32'' [R d, Mem r]) st = Some (upd d (rd32 (ram st) (ucast (regs st r))) st)"
    and "in_buffer (ram_size env) 1 (regs st r) \<Longrightarrow>
      run_line env symtab (Ins ''store_8'' [Mem r, R d]) st = Some (st\<lparr>ram := (ram st)(ucast (regs st r) := ucast (regs st d))\<rparr>)"
    and "in_buffer (ram_size env) 2 (regs st r) \<Longrightarrow>
      run_line env symtab (Ins ''store_16'' [Mem r, R d]) st =
        Some (st\<lparr>ram := wr16 (ucast (regs st r)) (ucast (regs st d)) (ram st)\<rparr>)"
    and "in_buffer (ram_size env) 4 (regs st r) \<Longrightarrow>
      run_line env symtab (Ins ''store_32'' [Mem r, R d]) st =
        Some (st\<lparr>ram := wr32 (ucast (regs st r)) (regs st d) (ram st)\<rparr>)"
  using run_mem [OF assms, where x = "Reg r" and st = st and t = 0]
  by (simp_all add: run_line_def expand_def no_operands_def set_reg_upd del: sem.simps)

lemmas run_simps = run_alu_line [OF alu_functions(1)] run_alu_line [OF alu_functions(2)] run_alu_line [OF alu_functions(3)]
  run_alu_line [OF alu_functions(4)] run_alu_line [OF alu_functions(5)] run_alu_line [OF alu_functions(6)]
  run_alu_line [OF alu_functions(7)] run_alu_line [OF alu_functions(8)] run_alu_line [OF alu_functions(9)]
  run_alu_line [OF alu_functions(10)] run_alu_line [OF alu_functions(11)] run_move_line run_cmp_line mov_def alu_def

lemma run_append: "run_lines env symtab (c @ d) st = Option.bind (run_lines env symtab c st) (run_lines env symtab d)"
  by (induction c arbitrary: st) (auto split: option.split)

lemma computes_num:
  assumes c: "computes env symtab prog lo fp i j need m m1 P" and "at prog j d" and g: "gen_num_reg r v = Some d"
    and r: "0 < r" "r \<noteq> 10" "r \<noteq> 14" and P: "\<And>R w. P R \<Longrightarrow> P (R(r := w))"
  shows "computes env symtab prog lo fp i (j + length d) need m m1 (\<lambda>R. P R \<and> R r = of_int v)"
proof (rule computes_regs [OF c assms(2)])
  fix st :: "'a emu"
  assume st: "P (regs st)" "regs st 0 = 0" "regs st 10 = fp"
  let ?hi = "v div 65536 mod 65536" and ?lo = "v mod 65536"
  from g have v: "0 \<le> v" "v \<le> 0xFFFFFFFF" "d = (if ?hi \<noteq> 0 then
                [Ins ''mov'' [R r, N ?hi], Ins ''lsl'' [R r, R r, N 16]]
                @ (if ?lo \<noteq> 0 then [Ins ''or'' [R r, R r, N ?lo]] else [])
              else [Ins ''mov'' [R r, N ?lo]])"
    by (auto simp: gen_num_reg_def Let_def split: if_splits)
  have w: "(of_int v :: u32) = push_bit 16 (of_int ?hi) OR of_int ?lo"
  proof (rule bit_word_eqI)
    fix n
    assume "n < LENGTH(32)"
    moreover have "?hi = take_bit 16 (drop_bit 16 v)" "?lo = take_bit 16 v"
      by (simp_all add: take_bit_eq_mod drop_bit_eq_div)
    ultimately show "bit (of_int v :: u32) n = bit (push_bit 16 (of_int ?hi) OR of_int ?lo :: u32) n"
      by (auto simp: bit_simps)
  qed
  have P3: "P ((regs st)(r := x, r := y))" "P ((regs st)(r := x, r := y, r := z))" "P ((regs st)(r := x))" for x y z
    using P st(1) by simp_all
  show "\<exists>st'. run_lines env symtab d st = Some st' \<and> (P (regs st') \<and> regs st' r = of_int v) \<and> regs st' 0 = 0 \<and>
      regs st' 10 = fp \<and> regs st' 14 = regs st 14 \<and> ram st' = ram st"
    unfolding v(3) using r st(2,3) P3 w by (auto simp: run_simps in16_def)
qed


section \<open>Branches\<close>

lemma at_slice: "at prog i c \<Longrightarrow> n \<le> length c \<Longrightarrow> at prog (i + n) (take k (drop n c))"
proof -
  assume "at prog i c" "n \<le> length c"
  then have "at prog (i + n) (drop n c)"
    using at_append [of prog i "take n c" "drop n c"] by (simp add: min_absorb2)
  then have "at prog (i + n) (take k (drop n c) @ drop k (drop n c))"
    by (simp only: append_take_drop_id)
  then show ?thesis
    using at_append by blast
qed

lemma computes_branch:
  assumes c: "computes env symtab prog lo fp i j need m m1 P"
    and "at prog j [Ins ''cmp'' [R 1, R 2], Ins jmp [Sym l]]"
    and "map_of jump_conds jmp = Some f" and "b \<Longrightarrow> label_index prog l = Some k" and "\<And>R. P R \<Longrightarrow> f (R 1) (R 2) = b"
  shows "computes env symtab prog lo fp i (if b then k else j + 2) need m m1 P"
  unfolding computes_def
proof (intro allI impI)
  fix st
  assume st: "stack_ok env lo fp st" "same_from lo (ram st) m" "need \<le> unat (regs st 14)"
  with c obtain s1 where a: "asm_steps env symtab prog (i, st) (j, s1)" "P (regs s1)" "stack_ok env lo fp s1"
      "regs s1 14 = regs st 14" "same_from lo (ram s1) m1" "same_between (regs st 14) lo (ram s1) (ram st)"
    unfolding computes_def by blast
  let ?s = "s1\<lparr>last_a := regs s1 1, last_b := regs s1 2\<rparr>"
  note h1 = at_Cons [OF assms(2)] and h2 = at_Cons [OF conjunct2 [OF conjunct2 [OF at_Cons [OF assms(2)]]]]
  have "asm_step env symtab prog (j, s1) (Suc j, ?s)"
    using h1 run_cmp_line by (metis step_line)
  moreover have "asm_step env symtab prog (Suc j, ?s) (if b then k else j + 2, ?s)"
    using step_cond [OF conjunct1 [OF h2] conjunct1 [OF conjunct2 [OF h2]] assms(3) _ assms(4), of ?s env symtab]
      step_next [OF conjunct1 [OF h2] conjunct1 [OF conjunct2 [OF h2]] assms(3), of ?s env symtab] assms(5) [OF a(2)]
    by (cases b) simp_all
  ultimately have "asm_steps env symtab prog (i, st) (if b then k else j + 2, ?s)"
    using a(1) by (meson rtranclp.rtrancl_into_rtrancl)
  with a show "\<exists>st'. asm_steps env symtab prog (i, st) (if b then k else j + 2, st') \<and> P (regs st') \<and> stack_ok env lo fp st' \<and>
      regs st' 14 = regs st 14 \<and> same_from lo (ram st') m1 \<and> same_between (regs st 14) lo (ram st') (ram st)"
    by (intro exI [of _ ?s]) (simp add: stack_ok_def)
qed

lemma computes_imm:
  assumes c: "computes env symtab prog lo fp i j need m m1 P" and "at prog j [Ins ''mov'' [R r, N v]]" and "in16 v"
    and r: "0 < r" "r \<noteq> 10" "r \<noteq> 14" and P: "\<And>R. P R \<Longrightarrow> Q (R(r := of_int v))"
  shows "computes env symtab prog lo fp i (Suc j) need m m1 Q"
  using computes_regs [OF c assms(2), of Q] assms(3-7) by (simp add: run_simps)

lemma jump_tests: "map_of jump_conds ''je'' = Some (\<lambda>x y. x = y)" "map_of jump_conds ''jne'' = Some (\<lambda>x y. x \<noteq> y)"
  by (simp_all add: jump_conds_def)

lemma computes_test:
  assumes c: "computes env symtab prog lo fp i j need m m1 (\<lambda>R. R 1 = v)" and a: "at prog j (test_zero jmp l)"
    and "map_of jump_conds jmp = Some f" and "label_index prog l = Some k"
  shows "computes env symtab prog lo fp i (if f v 0 then k else j + 3) need m m1 (\<lambda>R. R 1 = v)"
proof -
  have "computes env symtab prog lo fp i (Suc j) need m m1 (\<lambda>R. R 1 = v \<and> R 2 = 0)"
    using computes_imm [OF c, of 2 0] at_append [of prog j "[Ins ''mov'' [R 2, N 0]]"] a
    by (simp add: test_zero_def in16_def)
  moreover have "at prog (Suc j) [Ins ''cmp'' [R 1, R 2], Ins jmp [Sym l]]"
    using at_Cons a by (simp add: test_zero_def)
  ultimately have "computes env symtab prog lo fp i (if f v 0 then k else Suc j + 2) need m m1 (\<lambda>R. R 1 = v \<and> R 2 = 0)"
    using assms(3,4) by (rule computes_branch) simp
  then show ?thesis
    by (rule computes_weaken [where P = "\<lambda>R. R 1 = v \<and> R 2 = 0", THEN back_subst [of "\<lambda>k. computes env symtab prog lo fp i k need m m1 (\<lambda>R. R 1 = v)"]]) simp_all
qed

text \<open>The two ends of a truth value.\<close>

lemma computes_truth:
  assumes d: "distinct (labels_of prog)" and a: "at prog j (truth_code x y l lend)" and "in16 x" "in16 y"
  shows "label_index prog l = Some (j + 2)"
    and "computes env symtab prog lo fp i j need m m1 P \<Longrightarrow>
      computes env symtab prog lo fp i (j + 5) need m m1 (\<lambda>R. R 1 = of_int x)"
    and "computes env symtab prog lo fp i (j + 2) need m m1 P \<Longrightarrow>
      computes env symtab prog lo fp i (j + 5) need m m1 (\<lambda>R. R 1 = of_int y)"
proof -
  note at' = a [unfolded truth_code_def]
  note h1 = at_Cons [OF at'] and h2 = at_Cons [OF conjunct2 [OF conjunct2 [OF at_Cons [OF at']]]]
  have nth: "j + 2 < length prog \<and> prog ! (j + 2) = Lab l" "j + 4 < length prog \<and> prog ! (j + 4) = Lab lend"
    using at_nth [OF at', of 2] at_nth [OF at', of 4] by simp_all
  then show l: "label_index prog l = Some (j + 2)"
    using label_index_at [OF d] by blast
  have lend: "label_index prog lend = Some (j + 4)"
    using nth label_index_at [OF d] by blast
  have parts: "at prog j [Ins ''mov'' [R 1, N x]]" "at prog (Suc j) [Ins ''jmp'' [Sym lend]]" "at prog (j + 2) [Lab l]"
      "at prog (j + 3) [Ins ''mov'' [R 1, N y]]" "at prog (j + 4) [Lab lend]"
    using at_slice [OF at', of 0 1] at_slice [OF at', of 1 1] at_slice [OF at', of 2 1] at_slice [OF at', of 3 1] at_slice [OF at', of 4 1]
    by simp_all
  show "computes env symtab prog lo fp i (j + 5) need m m1 (\<lambda>R. R 1 = of_int x)"
    if "computes env symtab prog lo fp i j need m m1 P"
  proof -
    have "computes env symtab prog lo fp i (Suc j) need m m1 (\<lambda>R. R 1 = of_int x)"
      by (rule computes_imm [OF that parts(1)]) (simp_all add: assms)
    from computes_label [OF computes_jump [OF this parts(2) lend] parts(5)] show ?thesis
      by (simp add: numeral_eq_Suc)
  qed
  show "computes env symtab prog lo fp i (j + 5) need m m1 (\<lambda>R. R 1 = of_int y)"
    if "computes env symtab prog lo fp i (j + 2) need m m1 P"
  proof -
    have "computes env symtab prog lo fp i (j + 3) need m m1 P"
      using computes_label [OF that parts(3)] by (simp add: numeral_eq_Suc)
    then have "computes env symtab prog lo fp i (Suc (j + 3)) need m m1 (\<lambda>R. R 1 = of_int y)"
      by (rule computes_imm [OF _ parts(4)]) (simp_all add: assms)
    then have "computes env symtab prog lo fp i (j + 4) need m m1 (\<lambda>R. R 1 = of_int y)"
      by (simp add: numeral_eq_Suc)
    from computes_label [OF this parts(5)] show ?thesis
      by (simp add: numeral_eq_Suc)
  qed
qed

lemma compare_code:
  "fst (gen_compare jmp n) =
     [Ins ''cmp'' [R 1, R 2], Ins jmp [Sym (new_label n)]] @ truth_code 0 1 (new_label n) (new_label (n + 1))"
  by (simp add: gen_compare_def truth_code_def)

lemma computes_compare:
  assumes c: "computes env symtab prog lo fp i j need m m1 (\<lambda>R. R 1 = x \<and> R 2 = y)" and d: "distinct (labels_of prog)"
    and a: "at prog j (fst (gen_compare jmp n))" and f: "map_of jump_conds jmp = Some f"
  shows "computes env symtab prog lo fp i (j + 7) need m m1 (\<lambda>R. R 1 = truth (f x y))"
proof -
  note at' = at_append [OF a [unfolded compare_code]]
  have t: "at prog (j + 2) (truth_code 0 1 (new_label n) (new_label (n + 1)))"
    using at' by simp
  have z: "in16 0" "in16 1" by (simp_all add: in16_def)
  note tr = computes_truth [OF d t z]
  have b: "computes env symtab prog lo fp i (if f x y then j + 2 + 2 else j + 2) need m m1 (\<lambda>R. R 1 = x \<and> R 2 = y)"
    by (rule computes_branch [OF c conjunct1 [OF at'] f tr(1)]) simp
  have "computes env symtab prog lo fp i (j + 2 + 5) need m m1 (\<lambda>R. R 1 = truth (f x y))"
  proof (cases "f x y")
    case True
    with b tr(3) [of env symtab lo fp i need m m1] show ?thesis
      by (simp only: truth_def if_True of_int_1)
  next
    case False
    with b tr(2) [of env symtab lo fp i need m m1] show ?thesis
      by (simp only: truth_def if_False of_int_0)
  qed
  then show ?thesis
    by (simp add: numeral_eq_Suc)
qed

end
