(* ===== verification/Codegen_Data.thy ===== *)
theory Codegen_Data
  imports Codegen_Lines
begin

text \<open>
  The code that \<^verbatim>\<open>symcc/src/codegen.c\<close> writes for loads, stores, bit fields, block copies
  and binary operations computes what \<open>Codegen_Sem\<close> says.
\<close>

section \<open>Memory\<close>

lemma unat_addr: "k < 4 \<Longrightarrow> unat (ucast (a :: u32) + of_nat k :: u64) = unat a + k"
  using unat32_less [of a] by (simp add: unat_word_ariths unat_of_nat)

lemma unat_addrs: "unat (ucast (a :: u32) + 1 :: u64) = unat a + 1" "unat (ucast a + 2 :: u64) = unat a + 2"
  "unat (ucast a + 3 :: u64) = unat a + 3"
  using unat_addr [of 1 a] unat_addr [of 2 a] unat_addr [of 3 a] by simp_all

lemma same_loads:
  assumes "same_from lo M m" and "unat lo \<le> unat (a :: u32)"
  shows "M (ucast a) = m (ucast a)" "rd16 M (ucast a) = rd16 m (ucast a)" "rd32 M (ucast a) = rd32 m (ucast a)"
proof -
  have "M (ucast a) = m (ucast a)" "M (ucast a + 1) = m (ucast a + 1)" "M (ucast a + 2) = m (ucast a + 2)"
    "M (ucast a + 3) = m (ucast a + 3)"
    using assms unat_addrs [of a] by (auto simp: same_from_def)
  then show "M (ucast a) = m (ucast a)" "rd16 M (ucast a) = rd16 m (ucast a)" "rd32 M (ucast a) = rd32 m (ucast a)"
    by (simp_all add: rd16_def rd32_def)
qed

lemma same_stores:
  assumes "same_from lo M m"
  shows "same_from lo (M(p := v)) (m(p := v))" "same_from lo (wr16 p w M) (wr16 p w m)" "same_from lo (wr32 p u M) (wr32 p u m)"
  using assms by (auto simp: same_from_def wr16_def wr32_def)

lemma store_above:
  assumes "unat (lo :: u32) \<le> unat (a :: u32)" and "unat (b :: u64) < unat lo"
  shows "(M(ucast (a :: u32) := v)) b = M b" "wr16 (ucast a) w M b = M b" "wr32 (ucast a) u M b = M b"
  using assms unat_addrs [of a] by (auto simp: wr16_def wr32_def)

definition fits :: "'o emu_env \<Rightarrow> (string \<Rightarrow> u32) \<Rightarrow> u32 \<Rightarrow> u32 \<Rightarrow> ectx" where
  "fits env symtab lo fp = \<lparr>ex_ram = ram_size env, ex_sym = symtab, ex_lo = lo, ex_fp = fp\<rparr>"

lemma fits_simps [simp]: "ex_ram (fits env symtab lo fp) = ram_size env" "ex_sym (fits env symtab lo fp) = symtab"
  "ex_lo (fits env symtab lo fp) = lo" "ex_fp (fits env symtab lo fp) = fp"
  by (simp_all add: fits_def)

lemma shift_counts: "unat ((24 :: u32) AND 31) = 24" "unat ((16 :: u32) AND 31) = 16"
  by simp_all

lemma computes_load:
  assumes p: "plain env" and c: "computes env symtab prog lo fp i j need m m1 (\<lambda>R. R 9 = a)" and "at prog j (gen_load t)"
    and a: "data_at (fits env symtab lo fp) (width t) a"
  shows "computes env symtab prog lo fp i (j + length (gen_load t)) need m m1 (\<lambda>R. R 1 = load_val t m1 a)"
proof (rule computes_lines [OF c assms(3)])
  fix st :: "'a emu"
  assume st: "regs st 9 = a" "stack_ok env lo fp st" "same_from lo (ram st) m1"
  have lo: "unat lo \<le> unat a" "in_buffer (ram_size env) (width t) (regs st 9)"
    using a st(1) by (simp_all add: data_at_def)
  note ld = same_loads [OF st(3) lo(1)] and rm = run_mem_line(1-3) [OF p, of st 9]
  show "\<exists>st'. run_lines env symtab (gen_load t) st = Some st' \<and> regs st' 1 = load_val t m1 a \<and> regs st' 0 = 0 \<and>
      regs st' 10 = fp \<and> regs st' 14 = regs st 14 \<and> same_from lo (ram st') m1 \<and> (\<forall>a. unat a < unat lo \<longrightarrow> ram st' a = ram st a)"
    using st lo(2) ld rm
    by (auto simp: gen_load_def sign_extend_def load_val_def width_def run_simps in16_def shift_counts extend_shift stack_ok_def)
qed

lemma computes_store:
  assumes p: "plain env" and c: "computes env symtab prog lo fp i j need m m1 (\<lambda>R. R 1 = v \<and> R 9 = a)"
    and "at prog j (gen_store t)" and a: "data_at (fits env symtab lo fp) (width t) a"
  shows "computes env symtab prog lo fp i (Suc j) need m (store_val t a v m1) (\<lambda>R. R 1 = v)"
proof -
  have "computes env symtab prog lo fp i (j + length (gen_store t)) need m (store_val t a v m1) (\<lambda>R. R 1 = v)"
  proof (rule computes_lines [OF c assms(3)])
    fix st :: "'a emu"
    assume st: "regs st 1 = v \<and> regs st 9 = a" "stack_ok env lo fp st" "same_from lo (ram st) m1"
    have lo: "unat lo \<le> unat a" "in_buffer (ram_size env) (width t) (regs st 9)"
      using a st(1) by (simp_all add: data_at_def)
    note sto = same_stores [OF st(3)] and ab = store_above [OF lo(1)] and rm = run_mem_line(4-6) [OF p, of st 9]
    show "\<exists>st'. run_lines env symtab (gen_store t) st = Some st' \<and> regs st' 1 = v \<and> regs st' 0 = 0 \<and>
        regs st' 10 = fp \<and> regs st' 14 = regs st 14 \<and> same_from lo (ram st') (store_val t a v m1) \<and>
        (\<forall>a. unat a < unat lo \<longrightarrow> ram st' a = ram st a)"
      using st lo(2) sto ab rm
      by (auto simp: gen_store_def store_val_def width_def stack_ok_def)
  qed
  then show ?thesis by (simp add: gen_store_def)
qed


section \<open>Bit fields\<close>

lemma field_mask_word: "1 \<le> bw \<Longrightarrow> bw \<le> 32 \<Longrightarrow> (of_int (field_mask bw) :: u32) = mask (nat bw)"
  by (cases "bw = 32") (auto simp: field_mask_def mask_eq_exp_minus_1 of_int_power mask_numeral)

lemma sign_field:
  fixes x :: u32
  assumes "1 \<le> k" and "k < 32"
  shows "signed_drop_bit (32 - k) (push_bit (32 - k) (take_bit k x)) = signed_take_bit (k - 1) x"
proof (rule bit_word_eqI)
  fix n
  assume n: "n < LENGTH(32)"
  have "n + (32 - k) < 32 \<longleftrightarrow> n < k" "min (32 - k + n) 31 - (32 - k) = min n (k - 1)"
    using assms n by auto
  then show "bit (signed_drop_bit (32 - k) (push_bit (32 - k) (take_bit k x))) n = bit (signed_take_bit (k - 1) x) n"
    using assms n by (auto simp: bit_simps min_def dest!: le_antisym)
qed

lemma whole_word: "signed_take_bit 31 x = x" "take_bit 32 x = x" for x :: u32
proof -
  show "take_bit 32 x = x" by (rule take_bit_word_eq_self) simp
  show "signed_take_bit 31 x = x"
  proof (rule bit_word_eqI)
    fix n assume "n < LENGTH(32)"
    then have "min n 31 = n" by simp
    with \<open>n < LENGTH(32)\<close> show "bit (signed_take_bit 31 x) n = bit x n" by (simp add: bit_signed_take_bit_iff)
  qed
qed

lemma computes_alu_num:
  assumes c: "computes env symtab prog lo fp i j need m m1 (\<lambda>R. R 1 = u)"
    and "at prog j (c2 @ [Ins nm [R 1, R 1, R 2]])" and g: "gen_num_reg 2 v = Some c2" and f: "map_of alu_ops nm = Some f"
  shows "computes env symtab prog lo fp i (j + (length c2 + 1)) need m m1 (\<lambda>R. R 1 = f u (of_int v))"
proof -
  note a = at_append [OF assms(2)]
  have "computes env symtab prog lo fp i (j + length c2) need m m1 (\<lambda>R. R 1 = u \<and> R 2 = of_int v)"
    by (rule computes_num [OF c conjunct1 [OF a] g]) simp_all
  from computes_regs [OF this conjunct2 [OF a], of "\<lambda>R. R 1 = f u (of_int v)"] show ?thesis
    by (simp add: run_alu_line [OF f] add.assoc)
qed

lemma computes_load_field:
  assumes p: "plain env" and c: "computes env symtab prog lo fp i j need m m1 (\<lambda>R. R 9 = a)"
    and g: "gen_load_bitfield t bo bw = Some d" and at: "at prog j d"
    and f: "field_ok bo bw" and a: "data_at (fits env symtab lo fp) 4 a"
  shows "computes env symtab prog lo fp i (j + length d) need m m1 (\<lambda>R. R 1 = field_get t bo bw (rd32 m1 (ucast a)))"
proof -
  let ?sh = "32 - bo - bw" and ?u = "rd32 m1 (ucast a)" and ?ld = "[Ins ''load_32'' [R 1, Mem 9]]"
  have bw: "1 \<le> bw" "bw \<le> 32" "0 \<le> ?sh" "?sh < 32"
    using f by (simp_all add: field_ok_def)
  from g obtain c1 c2 where
    c1: "(if ?sh > 0 then map_option (\<lambda>c. c @ [Ins ''lsr'' [R 1, R 1, R 2]]) (gen_num_reg 2 ?sh) else Some []) = Some c1"
    and c2: "(if field_mask bw \<noteq> 0xFFFFFFFF
       then map_option (\<lambda>c. c @ [Ins ''and'' [R 1, R 1, R 2]]) (gen_num_reg 2 (field_mask bw)) else Some []) = Some c2"
    and d: "d = ?ld @ c1 @ c2 @ (if \<not> ty_unsigned t \<and> bw < 32
             then [Ins ''lsl'' [R 1, R 1, N (32 - bw)], Ins ''asr'' [R 1, R 1, N (32 - bw)]] else [])"
    by (auto simp: gen_load_bitfield_def field_shift_def Let_def bind_eq_Some_conv)
  note a1 = at_append [OF at [unfolded d]]
  note a2 = at_append [OF conjunct2 [OF a1]]
  note a3 = at_append [OF conjunct2 [OF a2]]
  let ?j1 = "j + length ?ld" and ?x = "drop_bit (nat ?sh) ?u"
  have word: "computes env symtab prog lo fp i ?j1 need m m1 (\<lambda>R. R 1 = ?u)"
  proof -
    define w where "w = \<lparr>ty_kind = TY_INT, ty_unsigned = True, ty_size = 4\<rparr>"
    have "gen_load w = ?ld" "width w = 4" "load_val w m1 a = ?u"
      by (simp_all add: gen_load_def width_def load_val_def w_def)
    with computes_load [OF p c, where t = w] conjunct1 [OF a1] a show ?thesis by simp
  qed
  have shifted: "computes env symtab prog lo fp i (?j1 + length c1) need m m1 (\<lambda>R. R 1 = ?x)"
  proof (cases "?sh > 0")
    case True
    with c1 obtain k where k: "gen_num_reg 2 ?sh = Some k" "c1 = k @ [Ins ''lsr'' [R 1, R 1, R 2]]"
      by auto
    from computes_alu_num [OF word conjunct1 [OF a2, unfolded k(2)] k(1) alu_functions(8)] show ?thesis
      using bw by (simp add: k(2) small_shift del: of_int_diff)
  qed (use c1 word bw in auto)
  have masked: "computes env symtab prog lo fp i (?j1 + length c1 + length c2) need m m1 (\<lambda>R. R 1 = take_bit (nat bw) ?x)"
  proof (cases "field_mask bw \<noteq> 0xFFFFFFFF")
    case True
    with c2 obtain k where k: "gen_num_reg 2 (field_mask bw) = Some k" "c2 = k @ [Ins ''and'' [R 1, R 1, R 2]]"
      by auto
    from computes_alu_num [OF shifted conjunct1 [OF a3, unfolded k(2)] k(1) alu_functions(4)] show ?thesis
      using bw by (simp add: k(2) field_mask_word take_bit_eq_mask)
  next
    case False
    then have "(mask (nat bw) :: u32) = - 1"
      using field_mask_word [of bw] bw by simp
    then have "take_bit (nat bw) ?x = ?x"
      by (simp add: take_bit_eq_mask)
    with False c2 shifted show ?thesis by simp
  qed
  show ?thesis
  proof (cases "\<not> ty_unsigned t \<and> bw < 32")
    case True
    have nb: "1 \<le> nat bw" "nat bw < 32"
      using bw True by auto
    have k: "nat bw - 1 < 32" "nat (32 - bw) = 32 - nat bw" "unat ((of_int (32 - bw) :: u32) AND 31) = nat (32 - bw)"
      using bw conjunct2 [OF True] small_shift [of "32 - bw"] by (simp_all only: nat_diff_distrib)
    have "at prog (?j1 + length c1 + length c2) [Ins ''lsl'' [R 1, R 1, N (32 - bw)], Ins ''asr'' [R 1, R 1, N (32 - bw)]]"
      using a3 True by simp
    from computes_regs [OF masked this, of "\<lambda>R. R 1 = field_get t bo bw ?u"] show ?thesis
      using True bw k sign_field [of "nat bw" ?x, OF nb]
      by (simp add: d run_simps in16_def field_get_def Let_def add.assoc del: of_int_diff)
  next
    case False
    then have "field_get t bo bw ?u = take_bit (nat bw) ?x"
      using bw by (auto simp: field_get_def Let_def whole_word)
    with False masked show ?thesis by (auto simp: d add.assoc)
  qed
qed

lemma word_full: "(0xFFFFFFFF :: u32) = - 1"
  by simp

lemma put_words:
  fixes u v :: u32
  shows "(u AND (push_bit s (mask k) XOR 0xFFFFFFFF)) OR push_bit s (v AND mask k) = (u AND NOT (push_bit s (mask k))) OR push_bit s (take_bit k v)"
proof -
  have "x XOR 0xFFFFFFFF = NOT x" for x :: u32
    using bit.xor_one_right [of x] by (simp only: word_full) 
  then show ?thesis
    by (simp add: take_bit_eq_mask)
qed

lemma gen_full_mask: "gen_num_reg 4 0xFFFFFFFF = Some c \<Longrightarrow>
    c = [Ins ''mov'' [R 4, N 65535], Ins ''lsl'' [R 4, R 4, N 16], Ins ''or'' [R 4, R 4, N 65535]]"
  by (simp add: gen_num_reg_def)

lemma computes_store_field:
  assumes p: "plain env" and c: "computes env symtab prog lo fp i j need m m1 (\<lambda>R. R 1 = v \<and> R 9 = a)"
    and g: "gen_store_bitfield bo bw = Some d" and at: "at prog j d"
    and f: "field_ok bo bw" and a: "data_at (fits env symtab lo fp) 4 a"
  shows "computes env symtab prog lo fp i (j + length d) need m (wr32 (ucast a) (field_put bo bw v (rd32 m1 (ucast a))) m1)
    (\<lambda>R. R 1 = push_bit (nat (32 - bo - bw)) (take_bit (nat bw) v))"
proof -
  let ?sh = "32 - bo - bw" and ?u = "rd32 m1 (ucast a)" and ?M = "mask (nat bw) :: u32" and ?ld = "[Ins ''load_32'' [R 2, Mem 9]]"
  let ?n = "nat ?sh"
  have bw: "1 \<le> bw" "bw \<le> 32" "0 \<le> ?sh" "?sh < 32"
    using f by (simp_all add: field_ok_def)
  let ?c3 = "[Ins ''and'' [R 1, R 1, R 3]]
      @ (if ?sh > 0 then [Ins ''lsl'' [R 1, R 1, N ?sh], Ins ''lsl'' [R 3, R 3, N ?sh]] else [])"
  let ?c5 = "[Ins ''xor'' [R 3, R 3, R 4], Ins ''and'' [R 2, R 2, R 3], Ins ''or'' [R 2, R 2, R 1], Ins ''store_32'' [Mem 9, R 2]]"
  from g obtain c1 c2 where c1: "gen_num_reg 3 (field_mask bw) = Some c1" and c2: "gen_num_reg 4 0xFFFFFFFF = Some c2"
    and d: "d = ?ld @ c1 @ ?c3 @ c2 @ ?c5"
    by (auto simp: gen_store_bitfield_def field_shift_def Let_def bind_eq_Some_conv)
  note a1 = at_append [OF at [unfolded d]]
  note a2 = at_append [OF conjunct2 [OF a1]]
  have lo: "unat lo \<le> unat a" "in_buffer (ram_size env) 4 a"
    using a by (simp_all add: data_at_def)
  have "computes env symtab prog lo fp i (j + length ?ld) need m m1 (\<lambda>R. R 1 = v \<and> R 9 = a \<and> R 2 = ?u)"
    by (rule computes_lines [OF c conjunct1 [OF a1]])
      (use lo same_loads(3) run_mem_line(3) [OF p] in \<open>auto simp: stack_ok_def\<close>)
  then have "computes env symtab prog lo fp i (j + length ?ld + length c1) need m m1
      (\<lambda>R. (R 1 = v \<and> R 9 = a \<and> R 2 = ?u) \<and> R 3 = of_int (field_mask bw))"
    by (rule computes_num [OF _ conjunct1 [OF a2] c1]) simp_all
  then have before: "computes env symtab prog lo fp i (j + length ?ld + length c1) need m m1
      (\<lambda>R. R 1 = v \<and> R 9 = a \<and> R 2 = ?u \<and> R 3 = ?M)"
    using bw field_mask_word by (auto elim: computes_weaken)
  let ?w = "field_put bo bw v ?u"
  have run: "\<exists>s2. run_lines env symtab (?c3 @ c2 @ ?c5) st = Some s2 \<and> regs s2 1 = push_bit ?n (take_bit (nat bw) v) \<and>
      regs s2 0 = 0 \<and> regs s2 10 = fp \<and> regs s2 14 = regs st 14 \<and> same_from lo (ram s2) (wr32 (ucast a) ?w m1) \<and>
      (\<forall>a. unat a < unat lo \<longrightarrow> ram s2 a = ram st a)"
    if st: "regs st 1 = v \<and> regs st 9 = a \<and> regs st 2 = ?u \<and> regs st 3 = ?M" "stack_ok env lo fp st" "same_from lo (ram st) m1"
    for st :: "'a emu"
  proof -
    have "\<exists>s1. run_lines env symtab ?c3 st = Some s1 \<and> ram s1 = ram st \<and>
        regs s1 = (regs st)(1 := push_bit ?n (v AND ?M), 3 := push_bit ?n ?M)"
      using st(1) bw by (auto simp: run_simps in16_def small_shift simp del: of_int_diff)
    then obtain s1 where s1: "run_lines env symtab ?c3 st = Some s1" "ram s1 = ram st"
        "regs s1 = (regs st)(1 := push_bit ?n (v AND ?M), 3 := push_bit ?n ?M)"
      by blast
    have "\<exists>s2. run_lines env symtab (c2 @ ?c5) s1 = Some s2 \<and> regs s2 1 = regs s1 1 \<and> regs s2 0 = regs s1 0 \<and>
        regs s2 10 = regs s1 10 \<and> regs s2 14 = regs s1 14 \<and> ram s2 = wr32 (ucast a) ?w (ram st)"
      using st(1) s1(2,3) lo run_mem_line(6) [OF p] put_words [of ?u ?n "nat bw" v]
      by (simp add: gen_full_mask [OF c2] run_simps in16_def field_put_def Let_def)
    then obtain s2 where s2: "run_lines env symtab (c2 @ ?c5) s1 = Some s2" "regs s2 1 = regs s1 1" "regs s2 0 = regs s1 0"
        "regs s2 10 = regs s1 10" "regs s2 14 = regs s1 14" "ram s2 = wr32 (ucast a) ?w (ram st)"
      by blast
    have "run_lines env symtab (?c3 @ c2 @ ?c5) st = Some s2"
      unfolding run_append [of env symtab ?c3] s1(1) using s2(1) by simp
    with s1(3) s2(2-6) st(2) same_stores(3) [OF st(3)] store_above(3) [OF lo(1)] show ?thesis
      by (intro exI [of _ s2]) (simp add: stack_ok_def take_bit_eq_mask)
  qed
  from computes_lines [OF before conjunct2 [OF a2] run] show ?thesis
    by (simp add: d add.assoc)
qed


section \<open>Block copies\<close>

lemma block_copy_Suc: "gen_block_copy (4 * int (Suc n)) = gen_block_copy (4 * int n) @
    [Ins ''add'' [R 3, R 1, N (4 * int n)], Ins ''load_32'' [R 2, Mem 3],
     Ins ''add'' [R 3, R 9, N (4 * int n)], Ins ''store_32'' [Mem 3, R 2]]"
proof -
  have "nat (4 * int (Suc n) div 4) = Suc n" "nat (4 * int n div 4) = n"
    by simp_all
  then show ?thesis by (simp only: gen_block_copy_def upt_Suc_append) simp
qed

definition line_ok :: "(string \<Rightarrow> u32) \<Rightarrow> asm_line \<Rightarrow> bool" where
  "line_ok symtab l = (case l of Ins nm [Sym s] \<Rightarrow> True | Ins nm as \<Rightarrow> list_all (arg_ok symtab) as | _ \<Rightarrow> True)"

definition assembles :: "(string \<Rightarrow> u32) \<Rightarrow> asm_line list \<Rightarrow> bool" where
  "assembles symtab c = list_all (line_ok symtab) c"

lemma assembles_append [simp]: "assembles symtab (c @ d) \<longleftrightarrow> assembles symtab c \<and> assembles symtab d"
  "assembles symtab []" "assembles symtab (l # c) \<longleftrightarrow> line_ok symtab l \<and> assembles symtab c"
  by (simp_all add: assembles_def)

lemma computes_copy:
  assumes p: "plain env" and c: "computes env symtab prog lo fp i j need m m1 (\<lambda>R. R 1 = s \<and> R 9 = a)"
    and "at prog j (gen_block_copy (4 * int n))" and "assembles symtab (gen_block_copy (4 * int n))"
    and "words_at (fits env symtab lo fp) n s" and "words_at (fits env symtab lo fp) n a"
  shows "computes env symtab prog lo fp i (j + length (gen_block_copy (4 * int n))) need m (copy_words n a s m1)
    (\<lambda>R. R 1 = s \<and> R 9 = a)"
  using assms(3-6)
proof (induction n)
  case 0
  with c show ?case by (simp add: gen_block_copy_def)
next
  case (Suc n)
  let ?x = "fits env symtab lo fp" and ?k = "of_nat (4 * n) :: u32" and ?m = "copy_words n a s m1"
  let ?d = "[Ins ''add'' [R 3, R 1, N (4 * int n)], Ins ''load_32'' [R 2, Mem 3],
     Ins ''add'' [R 3, R 9, N (4 * int n)], Ins ''store_32'' [Mem 3, R 2]]"
  note at' = at_append [OF Suc.prems(1) [unfolded block_copy_Suc]]
  have k: "(of_int (4 * int n) :: u32) = ?k" "in16 (4 * int n)"
    using Suc.prems(2) [unfolded block_copy_Suc] by (simp_all add: line_ok_def)
  have acc: "unat lo \<le> unat (s + ?k)" "in_buffer (ram_size env) 4 (s + ?k)" "unat lo \<le> unat (a + ?k)"
      "in_buffer (ram_size env) 4 (a + ?k)"
    using Suc.prems(3,4) by (simp_all add: words_at_def data_at_def)
  have "computes env symtab prog lo fp i (j + length (gen_block_copy (4 * int n))) need m ?m (\<lambda>R. R 1 = s \<and> R 9 = a)"
    using Suc.prems(2-4) [unfolded block_copy_Suc] Suc.IH at' by (simp add: words_at_def)
  then have "computes env symtab prog lo fp i (j + length (gen_block_copy (4 * int n)) + length ?d) need m
     (wr32 (ucast (a + ?k)) (rd32 ?m (ucast (s + ?k))) ?m) (\<lambda>R. R 1 = s \<and> R 9 = a)"
  proof (rule computes_lines [OF _ conjunct2 [OF at']])
    fix st :: "'a emu"
    assume st: "regs st 1 = s \<and> regs st 9 = a" "stack_ok env lo fp st" "same_from lo (ram st) ?m"
    show "\<exists>st'. run_lines env symtab ?d st = Some st' \<and> (regs st' 1 = s \<and> regs st' 9 = a) \<and> regs st' 0 = 0 \<and> regs st' 10 = fp \<and>
        regs st' 14 = regs st 14 \<and> same_from lo (ram st') (wr32 (ucast (a + ?k)) (rd32 ?m (ucast (s + ?k))) ?m) \<and>
        (\<forall>a. unat a < unat lo \<longrightarrow> ram st' a = ram st a)"
      using st(1,2) acc(2,4) k same_loads(3) [OF st(3) acc(1)] same_stores(3) [OF st(3)] store_above(3) [OF acc(3)]
      by (simp add: run_simps run_mem_line [OF p] stack_ok_def del: of_nat_mult of_int_mult)
  qed
  then show ?case
    unfolding block_copy_Suc by (simp add: add.assoc Let_def del: of_nat_mult)
qed


section \<open>Operations on two registers\<close>

lemma computes_alu:
  assumes c: "computes env symtab prog lo fp i j need m m1 (\<lambda>R. R 1 = x \<and> R 2 = y)" and "at prog j [alu nm]"
    and "map_of alu_ops nm = Some f"
  shows "computes env symtab prog lo fp i (Suc j) need m m1 (\<lambda>R. R 1 = f x y)"
  using computes_regs [OF c assms(2), of "\<lambda>R. R 1 = f x y"] by (simp add: alu_def run_alu_line [OF assms(3)])

lemma signed_shift_div: "of_int (sint w div 2 ^ k) = signed_drop_bit k (w :: u32)"
proof -
  have "sint (signed_drop_bit k w) = sint w div 2 ^ k"
    by (simp add: sint_signed_drop_bit_eq drop_bit_eq_div)
  moreover have "(of_int (sint (signed_drop_bit k w)) :: u32) = signed_drop_bit k w"
    by simp
  ultimately show ?thesis by simp
qed

lemma small_shift_word: "y < 32 \<Longrightarrow> unat (y AND 31) = unat (y :: u32)"
proof -
  assume "y < 32"
  then have "unat y < 2 ^ 5" by (simp add: word_less_nat_alt)
  moreover have "y AND 31 = take_bit 5 y"
    by (simp add: take_bit_eq_mask mask_numeral)
  ultimately show ?thesis
    by (simp add: unsigned_take_bit_eq take_bit_nat_eq_self)
qed

lemma computes_binary:
  assumes c: "computes env symtab prog lo fp i j need m m1 (\<lambda>R. R 1 = x \<and> R 2 = y)" and d: "distinct (labels_of prog)"
    and a: "at prog j code" and g: "binary_code t bop v n = Some (code, n')" and r: "binary_val t bop v x y = Some r"
  shows "computes env symtab prog lo fp i (j + length code) need m m1 (\<lambda>R. R 1 = r)"
proof -
  note u = computes_alu [OF c]
  show ?thesis
  proof (cases "bop \<in> {EQ, NE, LT, LE, GT, GE}")
    case True
    then have g': "code = fst (gen_compare (jump_name bop (ty_unsigned t)) n)" and r': "r = truth (compare bop (ty_unsigned t) x y)"
      using g r by (auto simp: binary_code_def binary_val_def gen_compare_def)
    have "map_of jump_conds (jump_name bop (ty_unsigned t)) = Some (compare bop (ty_unsigned t))"
      using True by (cases "ty_unsigned t") (auto simp: jump_name_def compare_def jump_conds_def fun_eq_iff)
    from computes_compare [OF c d a [unfolded g'] this] show ?thesis
      by (simp add: g' r' gen_compare_def numeral_eq_Suc)
  next
    case False
    show ?thesis
    proof (cases "bop = SUB")
      case True
      from g True obtain c2 where c2: "pointer_scale v = Some c2" "code = alu ''sub'' # c2"
        by (auto simp: binary_code_def)
      have at': "at prog j [alu ''sub'']" "at prog (Suc j) c2"
        using at_append [of prog j "[alu ''sub'']" c2] a c2 by simp_all
      have s: "computes env symtab prog lo fp i (Suc j) need m m1 (\<lambda>R. R 1 = x - y)"
        by (rule computes_alu [OF c at'(1) alu_functions(2)])
      have asr: "computes env symtab prog lo fp i (Suc j + 1) need m m1 (\<lambda>R. R 1 = of_int (sint (x - y) div 2 ^ k))"
        if "c2 = [Ins ''asr'' [R 1, R 1, N (int k)]]" "k < 32" for k
        using computes_regs [OF s at'(2), of "\<lambda>R. R 1 = signed_drop_bit k (x - y)"] that small_shift [of "int k"]
        by (simp add: run_simps in16_def signed_shift_div)
      have "v = 0 \<and> r = x - y \<or> v \<in> {1, 2, 4, 8} \<and> r = of_int (sint (x - y) div v)"
        using r True by (auto simp: binary_val_def split: if_splits)
      then consider "v \<in> {0, 1}" "r = x - y" | "v = 2" | "v = 4" | "v = 8"
        by auto
      then show ?thesis
      proof cases
        case 1
        with c2 s show ?thesis by (auto simp: pointer_scale_def)
      next
        case 2
        with asr [of 1] c2 r True show ?thesis by (auto simp: pointer_scale_def binary_val_def)
      next
        case 3
        with asr [of 2] c2 r True show ?thesis by (auto simp: pointer_scale_def binary_val_def)
      next
        case 4
        with asr [of 3] c2 r True show ?thesis by (auto simp: pointer_scale_def binary_val_def)
      qed
    next
      case no: False
      from False no g r have "\<exists>nm f. code = [alu nm] \<and> map_of alu_ops nm = Some f \<and> f x y = r"
        by (cases bop; auto simp: binary_code_def binary_val_def small_shift_word runtime_call_def alu_def split: if_splits)
      then obtain nm f where "code = [alu nm]" "map_of alu_ops nm = Some f" "f x y = r"
        by blast
      with u [of nm f] a show ?thesis by simp
    qed
  qed
qed

end
