(* ===== verification/Codegen_Expr.thy ===== *)
theory Codegen_Expr
  imports Codegen_Data
begin

text \<open>
  The code of an expression computes its value and its side effects: one lemma for each kind of node of
  \<^verbatim>\<open>gen_expr\<close>, \<^verbatim>\<open>gen_laddr\<close> and \<^verbatim>\<open>gen_member_addr\<close>, and the induction over the syntax.
\<close>

declare gen_laddr.simps [simp del] gen_member_addr.simps [simp del] addr_of.simps [simp del]

section \<open>Generated expressions\<close>

definition value_ok :: "'o emu_env \<Rightarrow> (string \<Rightarrow> u32) \<Rightarrow> asm_line list \<Rightarrow> u32 \<Rightarrow> u32 \<Rightarrow> genv \<Rightarrow> node \<Rightarrow> bool" where
  "value_ok env symtab prog lo fp g e \<longleftrightarrow>
     (\<forall>n c n' i m v m'. gen_expr g e n = Some (c, n') \<longrightarrow> at prog i c \<longrightarrow> assembles symtab c \<longrightarrow>
        eval (fits env symtab lo fp) e m = Some (v, m') \<longrightarrow>
        computes env symtab prog lo fp i (i + length c) (4 * size e) m m' (\<lambda>R. R 1 = v))"

definition addr_ok :: "'o emu_env \<Rightarrow> (string \<Rightarrow> u32) \<Rightarrow> asm_line list \<Rightarrow> u32 \<Rightarrow> u32 \<Rightarrow> genv \<Rightarrow> node \<Rightarrow> bool" where
  "addr_ok env symtab prog lo fp g e \<longleftrightarrow>
     (\<forall>n c n' i m v m'. gen_laddr g e n = Some (c, n') \<longrightarrow> at prog i c \<longrightarrow> assembles symtab c \<longrightarrow>
        addr_of (fits env symtab lo fp) e m = Some (v, m') \<longrightarrow>
        computes env symtab prog lo fp i (i + length c) (4 * size e) m m' (\<lambda>R. R 9 = v))"

definition member_ok :: "'o emu_env \<Rightarrow> (string \<Rightarrow> u32) \<Rightarrow> asm_line list \<Rightarrow> u32 \<Rightarrow> u32 \<Rightarrow> genv \<Rightarrow> node \<Rightarrow> bool" where
  "member_ok env symtab prog lo fp g e \<longleftrightarrow>
     (\<forall>k n c n' i m v m'. gen_member_addr g e k n = Some (c, n') \<longrightarrow> at prog i c \<longrightarrow> assembles symtab c \<longrightarrow>
        addr_of (fits env symtab lo fp) e m = Some (v, m') \<longrightarrow>
        computes env symtab prog lo fp i (i + length c) (4 * size e) m m' (\<lambda>R. R 9 = v + of_int k))"

lemma value_okD:
  "value_ok env symtab prog lo fp g e \<Longrightarrow> gen_expr g e n = Some (c, n') \<Longrightarrow> at prog i c \<Longrightarrow> assembles symtab c \<Longrightarrow>
     eval (fits env symtab lo fp) e m = Some (v, m') \<Longrightarrow> 4 * size e \<le> need \<Longrightarrow>
     computes env symtab prog lo fp i (i + length c) need m m' (\<lambda>R. R 1 = v)"
  unfolding value_ok_def using computes_need by blast

lemma addr_okD:
  "addr_ok env symtab prog lo fp g e \<Longrightarrow> gen_laddr g e n = Some (c, n') \<Longrightarrow> at prog i c \<Longrightarrow> assembles symtab c \<Longrightarrow>
     addr_of (fits env symtab lo fp) e m = Some (v, m') \<Longrightarrow> 4 * size e \<le> need \<Longrightarrow>
     computes env symtab prog lo fp i (i + length c) need m m' (\<lambda>R. R 9 = v)"
  unfolding addr_ok_def using computes_need by blast

lemma member_okD:
  "member_ok env symtab prog lo fp g e \<Longrightarrow> gen_member_addr g e k n = Some (c, n') \<Longrightarrow> at prog i c \<Longrightarrow> assembles symtab c \<Longrightarrow>
     addr_of (fits env symtab lo fp) e m = Some (v, m') \<Longrightarrow> 4 * size e \<le> need \<Longrightarrow>
     computes env symtab prog lo fp i (i + length c) need m m' (\<lambda>R. R 9 = v + of_int k)"
  unfolding member_ok_def using computes_need by blast

text \<open>Moves between registers 1 and 9, and constant offsets.\<close>

lemma computes_mov:
  assumes "computes env symtab prog lo fp i j need m m1 (\<lambda>R. R s = v)" and "at prog j [mov d s]" and "d = 1 \<or> d = 9"
  shows "computes env symtab prog lo fp i (Suc j) need m m1 (\<lambda>R. R d = v)"
  using computes_regs [OF assms(1,2), of "\<lambda>R. R d = v"] assms(3) by (auto simp: run_simps)

lemma computes_member_add:
  assumes c: "computes env symtab prog lo fp i j need m m1 (\<lambda>R. R r = v)" and "at prog j (member_add r k)"
    and "assembles symtab (member_add r k)" and "r = 1 \<or> r = 9"
  shows "computes env symtab prog lo fp i (j + length (member_add r k)) need m m1 (\<lambda>R. R 9 = v + of_int k)"
proof (rule computes_regs [OF c assms(2)])
  fix st :: "'a emu"
  assume "regs st r = v" "regs st 0 = 0" "regs st 10 = fp"
  with assms(3,4) show "\<exists>st'. run_lines env symtab (member_add r k) st = Some st' \<and> regs st' 9 = v + of_int k \<and> regs st' 0 = 0 \<and>
      regs st' 10 = fp \<and> regs st' 14 = regs st 14 \<and> ram st' = ram st"
    by (auto simp: member_add_def run_simps line_ok_def)
qed

lemma join_halves: "push_bit 16 (drop_bit 16 w) OR (w AND 0xFFFF) = (w :: u32)"
proof -
  have "w AND 0xFFFF = take_bit 16 w" by (simp add: take_bit_eq_mask mask_numeral)
  then show ?thesis by (auto intro!: bit_word_eqI simp: bit_simps)
qed

lemma computes_addr32:
  assumes "at prog j (emit_addr32 s)"
  shows "computes env symtab prog lo fp j (j + length (emit_addr32 s)) need m m (\<lambda>R. R 9 = symtab s)"
  by (rule computes_regs [OF computes_start assms]) (simp add: emit_addr32_def run_simps in16_def join_halves)

lemma computes_symbol:
  assumes "at prog j (emit_addr32 s @ [mov 1 9])"
  shows "computes env symtab prog lo fp j (j + length (emit_addr32 s @ [mov 1 9])) need m m (\<lambda>R. R 1 = symtab s)"
proof -
  note a = at_append [OF assms]
  from computes_mov [OF computes_addr32 [OF conjunct1 [OF a]] conjunct2 [OF a]] show ?thesis
    by simp
qed

lemma computes_fetch:
  assumes p: "plain env" and c: "computes env symtab prog lo fp i j need m m1 (\<lambda>R. R 9 = a)" and at: "at prog j (load_value t)"
    and f: "fetch (fits env symtab lo fp) t m1 a = Some v"
  shows "computes env symtab prog lo fp i (j + length (load_value t)) need m m1 (\<lambda>R. R 1 = v)"
proof (cases "decays t")
  case True
  with computes_mov [OF c, of 1] at f show ?thesis
    by (simp add: load_value_def fetch_def)
next
  case False
  with computes_load [OF p c, of t] at f show ?thesis
    by (auto simp: load_value_def fetch_def split: if_splits)
qed


subsection \<open>Addresses\<close>

lemma var_addr_ok: "addr_ok env symtab prog lo fp g (Var t off)"
  unfolding addr_ok_def
proof (intro allI impI)
  fix n c n' i m v m'
  assume h: "gen_laddr g (Var t off) n = Some (c, n')" "at prog i c" "assembles symtab c"
    "addr_of (fits env symtab lo fp) (Var t off) m = Some (v, m')"
  then have c: "c = var_addr off" "in16 (- off)" "v = fp + of_int off" "m' = m"
    by (auto simp: gen_laddr.simps addr_of.simps var_addr_def line_ok_def)
  have "computes env symtab prog lo fp i (i + length (var_addr off)) (4 * size (Var t off)) m m (\<lambda>R. R 9 = fp + of_int off)"
    using h(2) c(2) by (intro computes_regs [OF computes_start]) (auto simp: c(1) var_addr_def run_simps)
  with c show "computes env symtab prog lo fp i (i + length c) (4 * size (Var t off)) m m' (\<lambda>R. R 9 = v)"
    by simp
qed

lemma gvar_addr_ok: "addr_ok env symtab prog lo fp g (Gvar t name)"
  unfolding addr_ok_def
proof (intro allI impI)
  fix n c n' i m v m'
  assume h: "gen_laddr g (Gvar t name) n = Some (c, n')" "at prog i c" "assembles symtab c"
    "addr_of (fits env symtab lo fp) (Gvar t name) m = Some (v, m')"
  then have c: "c = gvar_addr g name" "v = symtab name" "m' = m"
    by (auto simp: gen_laddr.simps addr_of.simps)
  show "computes env symtab prog lo fp i (i + length c) (4 * size (Gvar t name)) m m' (\<lambda>R. R 9 = v)"
  proof (cases "ge_d32 g \<or> ref_needs_d32 (ge_globals g) name")
    case True
    with c(1) have e: "c = emit_addr32 name" by (simp add: gvar_addr_def)
    from computes_addr32 [OF h(2) [unfolded e]] c(2,3) show ?thesis by (simp add: e)
  next
    case False
    with c(1) have e: "c = [Ins ''mov'' [R 9, At name]]" by (simp add: gvar_addr_def)
    with h(3) have "in16 (uint (symtab name))" by (simp add: line_ok_def)
    with e h(2) c(2,3) show ?thesis
      by (simp add: computes_regs [OF computes_start, of prog i "[_]", simplified] run_simps)
  qed
qed

lemma deref_addr_ok:
  assumes "value_ok env symtab prog lo fp g e"
  shows "addr_ok env symtab prog lo fp g (Deref t e)"
  unfolding addr_ok_def
proof (intro allI impI)
  fix n c n' i m v m'
  assume h: "gen_laddr g (Deref t e) n = Some (c, n')" "at prog i c" "assembles symtab c"
    "addr_of (fits env symtab lo fp) (Deref t e) m = Some (v, m')"
  then obtain c1 where c: "gen_expr g e n = Some (c1, n')" "c = c1 @ [mov 9 1]" "eval (fits env symtab lo fp) e m = Some (v, m')"
    by (auto simp: gen_laddr.simps addr_of.simps bind_eq_Some_conv)
  note a = at_append [OF h(2) [unfolded c(2)]]
  have "computes env symtab prog lo fp i (i + length c1) (4 * size (Deref t e)) m m' (\<lambda>R. R 1 = v)"
    using value_okD [OF assms c(1) conjunct1 [OF a] _ c(3)] h(3) c(2) by simp
  from computes_mov [OF this conjunct2 [OF a]] show "computes env symtab prog lo fp i (i + length c) (4 * size (Deref t e)) m m' (\<lambda>R. R 9 = v)"
    by (simp add: c(2))
qed

lemma member_addr_ok:
  assumes "member_ok env symtab prog lo fp g e"
  shows "addr_ok env symtab prog lo fp g (Member t e k bo bw)"
  unfolding addr_ok_def
proof (intro allI impI)
  fix n c n' i m v m'
  assume h: "gen_laddr g (Member t e k bo bw) n = Some (c, n')" "at prog i c" "assembles symtab c"
    "addr_of (fits env symtab lo fp) (Member t e k bo bw) m = Some (v, m')"
  then obtain a where c: "gen_member_addr g e k n = Some (c, n')" "addr_of (fits env symtab lo fp) e m = Some (a, m')" "v = a + of_int k"
    by (auto simp: gen_laddr.simps addr_of.simps [of _ "Member t e k bo bw"] bind_eq_Some_conv)
  with member_okD [OF assms c(1) h(2,3) c(2)] show "computes env symtab prog lo fp i (i + length c) (4 * size (Member t e k bo bw)) m m' (\<lambda>R. R 9 = v)"
    by simp
qed

lemma other_member_ok:
  assumes "addr_ok env symtab prog lo fp g e"
    and "\<And>k n c n'. gen_member_addr g e k n = Some (c, n') \<Longrightarrow>
      \<exists>c1. gen_laddr g e n = Some (c1, n') \<and> c = c1 @ member_add 9 k"
  shows "member_ok env symtab prog lo fp g e"
  unfolding member_ok_def
proof (intro allI impI)
  fix k n c n' i m v m'
  assume h: "gen_member_addr g e k n = Some (c, n')" "at prog i c" "assembles symtab c"
    "addr_of (fits env symtab lo fp) e m = Some (v, m')"
  from assms(2) [OF h(1)] obtain c1 where c: "gen_laddr g e n = Some (c1, n')" "c = c1 @ member_add 9 k"
    by blast
  note a = at_append [OF h(2) [unfolded c(2)]]
  have "computes env symtab prog lo fp i (i + length c1) (4 * size e) m m' (\<lambda>R. R 9 = v)"
    using addr_okD [OF assms(1) c(1) conjunct1 [OF a] _ h(4)] h(3) c(2) by simp
  from computes_member_add [OF this conjunct2 [OF a]] h(3) show "computes env symtab prog lo fp i (i + length c) (4 * size e) m m' (\<lambda>R. R 9 = v + of_int k)"
    by (simp add: c(2) add.assoc)
qed

lemma deref_member_ok:
  assumes "value_ok env symtab prog lo fp g e"
  shows "member_ok env symtab prog lo fp g (Deref t e)"
  unfolding member_ok_def
proof (intro allI impI)
  fix k n c n' i m v m'
  assume h: "gen_member_addr g (Deref t e) k n = Some (c, n')" "at prog i c" "assembles symtab c"
    "addr_of (fits env symtab lo fp) (Deref t e) m = Some (v, m')"
  then obtain c1 where c: "gen_expr g e n = Some (c1, n')" "c = c1 @ member_add 1 k" "eval (fits env symtab lo fp) e m = Some (v, m')"
    by (auto simp: gen_member_addr.simps addr_of.simps bind_eq_Some_conv)
  note a = at_append [OF h(2) [unfolded c(2)]]
  have "computes env symtab prog lo fp i (i + length c1) (4 * size (Deref t e)) m m' (\<lambda>R. R 1 = v)"
    using value_okD [OF assms c(1) conjunct1 [OF a] _ c(3)] h(3) c(2) by simp
  from computes_member_add [OF this conjunct2 [OF a]] h(3) show "computes env symtab prog lo fp i (i + length c) (4 * size (Deref t e)) m m' (\<lambda>R. R 9 = v + of_int k)"
    by (simp add: c(2) add.assoc)
qed


lemma value_okI:
  assumes "\<And>n c n' i m v m'. gen_expr g e n = Some (c, n') \<Longrightarrow> at prog i c \<Longrightarrow> assembles symtab c \<Longrightarrow>
    eval (fits env symtab lo fp) e m = Some (v, m') \<Longrightarrow>
    computes env symtab prog lo fp i (i + length c) (4 * size e) m m' (\<lambda>R. R 1 = v)"
  shows "value_ok env symtab prog lo fp g e"
  using assms unfolding value_ok_def by blast

lemma num_value_ok: "value_ok env symtab prog lo fp g (Num t k)"
proof (rule value_okI)
  fix n c n' i m v m'
  assume h: "gen_expr g (Num t k) n = Some (c, n')" "at prog i c" "eval (fits env symtab lo fp) (Num t k) m = Some (v, m')"
  then have c: "gen_num_reg 1 k = Some c" "v = of_int k" "m' = m" by auto
  have "computes env symtab prog lo fp i (i + length c) (4 * size (Num t k)) m m (\<lambda>R. True \<and> R 1 = of_int k)"
    by (rule computes_num [OF computes_start h(2) c(1)]) simp_all
  with c show "computes env symtab prog lo fp i (i + length c) (4 * size (Num t k)) m m' (\<lambda>R. R 1 = v)"
    by simp
qed

lemma loaded_value_ok:
  assumes p: "plain env" and a: "addr_ok env symtab prog lo fp g e"
    and g: "\<And>n c n'. gen_expr g e n = Some (c, n') \<Longrightarrow> \<exists>c1. gen_laddr g e n = Some (c1, n') \<and> c = c1 @ load_value t"
    and v: "\<And>m v m'. eval (fits env symtab lo fp) e m = Some (v, m') \<Longrightarrow>
      \<exists>a. addr_of (fits env symtab lo fp) e m = Some (a, m') \<and> fetch (fits env symtab lo fp) t m' a = Some v"
  shows "value_ok env symtab prog lo fp g e"
proof (rule value_okI)
  fix n c n' i m v m'
  assume h: "gen_expr g e n = Some (c, n')" "at prog i c" "assembles symtab c" "eval (fits env symtab lo fp) e m = Some (v, m')"
  from g [OF h(1)] v [OF h(4)] obtain c1 a where c: "gen_laddr g e n = Some (c1, n')" "c = c1 @ load_value t"
      "addr_of (fits env symtab lo fp) e m = Some (a, m')" "fetch (fits env symtab lo fp) t m' a = Some v"
    by blast
  note at' = at_append [OF h(2) [unfolded c(2)]]
  have "computes env symtab prog lo fp i (i + length c1) (4 * size e) m m' (\<lambda>R. R 9 = a)"
    using addr_okD [OF assms(2) c(1) conjunct1 [OF at'] _ c(3)] h(3) c(2) by simp
  from computes_fetch [OF p this conjunct2 [OF at'] c(4)] show "computes env symtab prog lo fp i (i + length c) (4 * size e) m m' (\<lambda>R. R 1 = v)"
    by (simp add: c(2) add.assoc)
qed

lemma symbol_value:
  assumes "\<And>n. gen_expr g e n = Some (emit_addr32 s @ [mov 1 9], n)"
    and "\<And>m. eval (fits env symtab lo fp) e m = Some (symtab s, m)"
  shows "value_ok env symtab prog lo fp g e"
proof (rule value_okI)
  fix n c n' i m v m'
  assume "gen_expr g e n = Some (c, n')" "at prog i c" "eval (fits env symtab lo fp) e m = Some (v, m')"
  with assms have "c = emit_addr32 s @ [mov 1 9]" "v = symtab s" "m' = m" "at prog i (emit_addr32 s @ [mov 1 9])"
    by auto
  with computes_symbol [of prog i s] show "computes env symtab prog lo fp i (i + length c) (4 * size e) m m' (\<lambda>R. R 1 = v)"
    by blast
qed

lemma symbol_value_ok: "value_ok env symtab prog lo fp g (Funct t f)" "value_ok env symtab prog lo fp g (Str t k)"
  "value_ok env symtab prog lo fp g (Addr t (Str t' k))"
  by (rule symbol_value, simp, simp)+

lemma addr_value_ok:
  assumes "addr_ok env symtab prog lo fp g e"
  shows "value_ok env symtab prog lo fp g (Addr t e)"
proof (cases "\<exists>t' k. e = Str t' k")
  case True
  then show ?thesis using symbol_value_ok by auto
next
  case False
  show ?thesis
  proof (rule value_okI)
    fix n c n' i m v m'
    assume h: "gen_expr g (Addr t e) n = Some (c, n')" "at prog i c" "assembles symtab c"
      "eval (fits env symtab lo fp) (Addr t e) m = Some (v, m')"
    with False obtain c1 where c: "gen_laddr g e n = Some (c1, n')" "c = c1 @ [mov 1 9]"
        "addr_of (fits env symtab lo fp) e m = Some (v, m')"
      by (cases e) (auto simp: bind_eq_Some_conv)
    note at' = at_append [OF h(2) [unfolded c(2)]]
    have "computes env symtab prog lo fp i (i + length c1) (4 * size (Addr t e)) m m' (\<lambda>R. R 9 = v)"
      using addr_okD [OF assms c(1) conjunct1 [OF at'] _ c(3)] h(3) c(2) by simp
    from computes_mov [OF this conjunct2 [OF at']]
    show "computes env symtab prog lo fp i (i + length c) (4 * size (Addr t e)) m m' (\<lambda>R. R 1 = v)"
      by (simp add: c(2))
  qed
qed

lemma deref_value_ok:
  assumes p: "plain env" and a: "value_ok env symtab prog lo fp g e"
  shows "value_ok env symtab prog lo fp g (Deref t e)"
proof (rule value_okI)
  fix n c n' i m v m'
  assume h: "gen_expr g (Deref t e) n = Some (c, n')" "at prog i c" "assembles symtab c"
    "eval (fits env symtab lo fp) (Deref t e) m = Some (v, m')"
  then obtain c1 a where c: "gen_expr g e n = Some (c1, n')" "c = c1 @ (if decays t then [] else mov 9 1 # gen_load t)"
      "eval (fits env symtab lo fp) e m = Some (a, m')" "fetch (fits env symtab lo fp) t m' a = Some v"
    by (auto simp: bind_eq_Some_conv)
  note at' = at_append [OF h(2) [unfolded c(2)]]
  have r1: "computes env symtab prog lo fp i (i + length c1) (4 * size (Deref t e)) m m' (\<lambda>R. R 1 = a)"
    using value_okD [OF a c(1) conjunct1 [OF at'] _ c(3)] h(3) c(2) by simp
  show "computes env symtab prog lo fp i (i + length c) (4 * size (Deref t e)) m m' (\<lambda>R. R 1 = v)"
  proof (cases "decays t")
    case True
    with r1 c show ?thesis by (simp add: fetch_def)
  next
    case False
    then have "at prog (i + length c1) ([mov 9 1] @ gen_load t)"
      using at' by simp
    note at2 = at_append [OF this]
    have "computes env symtab prog lo fp i (Suc (i + length c1)) (4 * size (Deref t e)) m m' (\<lambda>R. R 9 = a)"
      by (rule computes_mov [OF r1 conjunct1 [OF at2]]) simp
    from computes_load [OF p this, of t] at2 False c(2,4) show ?thesis
      by (auto simp: fetch_def add.assoc split: if_splits)
  qed
qed

lemma member_value_ok:
  assumes p: "plain env" and a: "member_ok env symtab prog lo fp g e"
  shows "value_ok env symtab prog lo fp g (Member t e k bo bw)"
proof (rule value_okI)
  fix n c n' i m v m'
  let ?x = "fits env symtab lo fp"
  assume h: "gen_expr g (Member t e k bo bw) n = Some (c, n')" "at prog i c" "assembles symtab c"
    "eval ?x (Member t e k bo bw) m = Some (v, m')"
  then obtain c1 c2 a where c: "gen_member_addr g e k n = Some (c1, n')" "c = c1 @ c2"
      "(if bw \<ge> 0 then gen_load_bitfield t bo bw else Some (load_value t)) = Some c2"
      "addr_of ?x e m = Some (a, m')"
      "(if bw \<ge> 0 then fetch_field ?x t bo bw m' (a + of_int k) else fetch ?x t m' (a + of_int k)) = Some v"
    by (auto simp: bind_eq_Some_conv simp del: gen_load_bitfield_def)
  note at' = at_append [OF h(2) [unfolded c(2)]]
  have r9: "computes env symtab prog lo fp i (i + length c1) (4 * size (Member t e k bo bw)) m m' (\<lambda>R. R 9 = a + of_int k)"
    using member_okD [OF a c(1) conjunct1 [OF at'] _ c(4)] h(3) c(2) by simp
  show "computes env symtab prog lo fp i (i + length c) (4 * size (Member t e k bo bw)) m m' (\<lambda>R. R 1 = v)"
  proof (cases "bw \<ge> 0")
    case True
    then have g: "gen_load_bitfield t bo bw = Some c2" and f: "field_ok bo bw" "data_at ?x 4 (a + of_int k)"
        and v: "v = field_get t bo bw (rd32 m' (ucast (a + of_int k)))"
      using c(3,5) by (auto simp: fetch_field_def split: if_splits)
    from computes_load_field [OF p r9 g conjunct2 [OF at'] f] show ?thesis
      by (simp add: c(2) v add.assoc)
  next
    case False
    with c(3,5) have "c2 = load_value t" and f: "fetch ?x t m' (a + of_int k) = Some v"
      by auto
    with computes_fetch [OF p r9 _ f] at' show ?thesis
      by (simp add: c(2) add.assoc)
  qed
qed

text \<open>Operators of one operand: lines behind the code of the operand.\<close>

lemma unary_value_ok:
  assumes a: "value_ok env symtab prog lo fp g e" and "size e < size e'"
    and "\<And>n c n'. gen_expr g e' n = Some (c, n') \<Longrightarrow> \<exists>c1 n1. gen_expr g e n = Some (c1, n1) \<and> c = c1 @ d n1"
    and "\<And>m v m'. eval (fits env symtab lo fp) e' m = Some (v, m') \<Longrightarrow>
      \<exists>u. eval (fits env symtab lo fp) e m = Some (u, m') \<and> v = f u"
    and r: "\<And>i j m m' u n1. computes env symtab prog lo fp i j (4 * size e') m m' (\<lambda>R. R 1 = u) \<Longrightarrow> at prog j (d n1) \<Longrightarrow>
      computes env symtab prog lo fp i (j + length (d n1)) (4 * size e') m m' (\<lambda>R. R 1 = f u)"
  shows "value_ok env symtab prog lo fp g e'"
proof (rule value_okI)
  fix n c n' i m v m'
  assume h: "gen_expr g e' n = Some (c, n')" "at prog i c" "assembles symtab c" "eval (fits env symtab lo fp) e' m = Some (v, m')"
  from assms(3) [OF h(1)] assms(4) [OF h(4)] obtain c1 n1 u where c: "gen_expr g e n = Some (c1, n1)" "c = c1 @ d n1"
      "eval (fits env symtab lo fp) e m = Some (u, m')" "v = f u"
    by blast
  note at' = at_append [OF h(2) [unfolded c(2)]]
  have "computes env symtab prog lo fp i (i + length c1) (4 * size e') m m' (\<lambda>R. R 1 = u)"
    using value_okD [OF a c(1) conjunct1 [OF at'] _ c(3)] h(3) c(2) assms(2) by simp
  from r [OF this conjunct2 [OF at']] show "computes env symtab prog lo fp i (i + length c) (4 * size e') m m' (\<lambda>R. R 1 = v)"
    by (simp add: c(2,4) add.assoc)
qed

lemma cast_value_ok:
  assumes "value_ok env symtab prog lo fp g e"
  shows "value_ok env symtab prog lo fp g (Cast t e)"
proof (rule unary_value_ok [OF assms, where d = "\<lambda>_. cast_code t" and f = "cast_val t"])
  fix i j m m' u
  assume c: "computes env symtab prog lo fp i j (4 * size (Cast t e)) m m' (\<lambda>R. R 1 = u)" "at prog j (cast_code t)"
  show "computes env symtab prog lo fp i (j + length (cast_code t)) (4 * size (Cast t e)) m m' (\<lambda>R. R 1 = cast_val t u)"
    by (rule computes_regs [OF c])
      (auto simp: cast_code_def cast_val_def sign_extend_def run_simps in16_def shift_counts cast_shift)
qed (auto simp: bind_eq_Some_conv)

lemma neg_value_ok:
  assumes "value_ok env symtab prog lo fp g e"
  shows "value_ok env symtab prog lo fp g (Neg t e)"
proof (rule unary_value_ok [OF assms, where d = "\<lambda>_. [Ins ''neg'' [R 1, R 1]]" and f = uminus])
  fix i j m m' u
  assume c: "computes env symtab prog lo fp i j (4 * size (Neg t e)) m m' (\<lambda>R. R 1 = u)" "at prog j [Ins ''neg'' [R 1, R 1]]"
  show "computes env symtab prog lo fp i (j + length [Ins ''neg'' [R 1, R 1]]) (4 * size (Neg t e)) m m' (\<lambda>R. R 1 = - u)"
    by (rule computes_regs [OF c]) (auto simp: run_simps)
qed (auto simp: bind_eq_Some_conv)

lemma bitnot_value_ok:
  assumes "value_ok env symtab prog lo fp g e"
  shows "value_ok env symtab prog lo fp g (Bitnot t e)"
proof -
  obtain c2 where c2: "gen_num_reg 2 0xFFFFFFFF = Some c2"
    by (simp add: gen_num_reg_def)
  show ?thesis
  proof (rule unary_value_ok [OF assms, where d = "\<lambda>_. c2 @ [alu ''xor'']" and f = "\<lambda>u. NOT u"])
    fix i j m m' u
    assume c: "computes env symtab prog lo fp i j (4 * size (Bitnot t e)) m m' (\<lambda>R. R 1 = u)" "at prog j (c2 @ [alu ''xor''])"
    from computes_alu_num [OF c(1) c(2) [unfolded alu_def] c2 alu_functions(6)] bit.xor_one_right [of u]
    show "computes env symtab prog lo fp i (j + length (c2 @ [alu ''xor''])) (4 * size (Bitnot t e)) m m' (\<lambda>R. R 1 = NOT u)"
      by (simp add: word_full)
  qed (auto simp: bind_eq_Some_conv c2)
qed

lemma lognot_value_ok:
  assumes "value_ok env symtab prog lo fp g e" and d: "distinct (labels_of prog)"
  shows "value_ok env symtab prog lo fp g (Lognot t e)"
proof (rule unary_value_ok [OF assms(1), where d = "\<lambda>n. [Ins ''mov'' [R 2, N 0]] @ fst (gen_compare ''je'' n)" and f = "\<lambda>u. truth (u = 0)"])
  fix i j m m' u n1
  let ?c = "[Ins ''mov'' [R 2, N 0]] @ fst (gen_compare ''je'' n1)"
  assume c: "computes env symtab prog lo fp i j (4 * size (Lognot t e)) m m' (\<lambda>R. R 1 = u)" "at prog j ?c"
  note a = at_append [OF c(2)]
  have "computes env symtab prog lo fp i (Suc j) (4 * size (Lognot t e)) m m' (\<lambda>R. R 1 = u \<and> R 2 = 0)"
    by (rule computes_imm [OF c(1) conjunct1 [OF a]]) (simp_all add: in16_def)
  moreover have "at prog (Suc j) (fst (gen_compare ''je'' n1))"
    using a by simp
  ultimately have "computes env symtab prog lo fp i (Suc j + 7) (4 * size (Lognot t e)) m m' (\<lambda>R. R 1 = truth (u = 0))"
    by (rule computes_compare [OF _ d _ jump_tests(1)])
  then show "computes env symtab prog lo fp i (j + length ?c) (4 * size (Lognot t e)) m m' (\<lambda>R. R 1 = truth (u = 0))"
    by (simp add: gen_compare_def numeral_eq_Suc)
qed (auto simp: bind_eq_Some_conv split_def Let_def)


lemma assign_value_ok:
  assumes p: "plain env" and l: "addr_ok env symtab prog lo fp g l" and r: "value_ok env symtab prog lo fp g r"
  shows "value_ok env symtab prog lo fp g (Assign t l r)"
proof (rule value_okI)
  fix n c n' i m v m'
  let ?x = "fits env symtab lo fp" and ?need = "4 * size (Assign t l r)"
  assume h: "gen_expr g (Assign t l r) n = Some (c, n')" "at prog i c" "assembles symtab c" "eval ?x (Assign t l r) m = Some (v, m')"
  let ?c3 = "if is_aggregate t then Some (gen_block_copy (ty_size t))
              else case l of
                     Member _ _ _ bo bw \<Rightarrow> if bw \<ge> 0 then gen_store_bitfield bo bw else Some (gen_store t)
                   | _ \<Rightarrow> Some (gen_store t)"
  from h(1) obtain c1 n1 c2 c3 where c: "gen_laddr g l n = Some (c1, n1)" "gen_expr g r n1 = Some (c2, n')" "?c3 = Some c3"
      "c = c1 @ [push 9] @ c2 @ [pop 9] @ c3"
    by (fastforce simp: bind_eq_Some_conv simp del: gen_store_bitfield_def)
  from h(4) obtain a m1 u m2 where e: "addr_of ?x l m = Some (a, m1)" "eval ?x r m1 = Some (u, m2)" "assign ?x t l a u m2 = Some (v, m')"
    by (auto simp: bind_eq_Some_conv)
  note a1 = at_append [OF h(2) [unfolded c(4)]]
  note a2 = at_append [OF conjunct2 [OF a1]]
  note a3 = at_append [OF conjunct2 [OF a2]]
  note a4 = at_append [OF conjunct2 [OF a3]]
  let ?j = "i + length c1"
  have asm: "assembles symtab c1" "assembles symtab c2" "assembles symtab c3"
    using h(3) c(4) by simp_all
  have c1: "computes env symtab prog lo fp i ?j ?need m m1 (\<lambda>R. R 9 = a)"
    by (rule addr_okD [OF l c(1) conjunct1 [OF a1] asm(1) e(1)]) simp
  have at2: "at prog (Suc ?j) c2"
    using a3 by simp
  have c2: "computes env symtab prog lo fp (Suc ?j) (Suc ?j + length c2) (4 * size r) m1 m2 (\<lambda>R. R 1 = u)"
    by (rule value_okD [OF r c(2) at2 asm(2) e(2)]) simp
  have at3: "at prog (Suc ?j + length c2) [pop 9]" "at prog (Suc (Suc ?j + length c2)) c3"
    using a4 by (simp_all add: add.assoc)
  have both: "computes env symtab prog lo fp i (Suc (Suc ?j + length c2)) ?need m m2 (\<lambda>R. R 1 = u \<and> R 9 = a)"
    by (rule computes_pair [OF c1 p conjunct1 [OF a2] _ _ _ c2 at3(1)]) simp_all
  have "computes env symtab prog lo fp i (Suc (Suc ?j + length c2) + length c3) ?need m m' (\<lambda>R. R 1 = v)"
  proof (cases "is_aggregate t")
    case True
    define k where "k = nat (ty_size t div 4)"
    have e': "v = u" "m' = copy_words k a u m2" "words_at ?x k a" "words_at ?x k u"
      using e(3) True by (auto simp: assign_def k_def split: if_splits)
    have "gen_block_copy (ty_size t) = gen_block_copy (4 * int k)"
      by (simp add: gen_block_copy_def k_def)
    with True c(3) have c3: "c3 = gen_block_copy (4 * int k)"
      by simp
    from computes_copy [OF p both at3(2) [unfolded c3] asm(3) [unfolded c3] e'(4,3)] show ?thesis
      by (auto simp: c3 e'(1,2) elim: computes_weaken)
  next
    case False
    have plain_store: ?thesis if "c3 = gen_store t" "(if data_at ?x (width t) a then Some (u, store_val t a u m2) else None) = Some (v, m')"
    proof -
      from that(2) have "data_at ?x (width t) a" "v = u" "m' = store_val t a u m2"
        by (auto split: if_splits)
      with computes_store [OF p both at3(2) [unfolded that(1)]] that(1) show ?thesis
        by (simp add: gen_store_def)
    qed
    show ?thesis
    proof (cases "\<exists>t' e k bo bw. l = Member t' e k bo bw \<and> bw \<ge> 0")
      case True
      then obtain t' e' k bo bw where m: "l = Member t' e' k bo bw" "bw \<ge> 0"
        by blast
      with False c(3) e(3) have "gen_store_bitfield bo bw = Some c3" "field_ok bo bw" "data_at ?x 4 a"
          "v = push_bit (nat (32 - bo - bw)) (take_bit (nat bw) u)" "m' = wr32 (ucast a) (field_put bo bw u (rd32 m2 (ucast a))) m2"
        by (auto simp: assign_def split: if_splits)
      with computes_store_field [OF p both _ at3(2)] show ?thesis
        by blast
    next
      case no: False
      with False c(3) e(3) show ?thesis
        by (intro plain_store) (auto simp: assign_def split: node.splits if_splits)
    qed
  qed
  then show "computes env symtab prog lo fp i (i + length c) ?need m m' (\<lambda>R. R 1 = v)"
    by (simp add: c(4) add.assoc)
qed

lemma binary_value_ok:
  assumes p: "plain env" and d: "distinct (labels_of prog)"
    and va: "value_ok env symtab prog lo fp g a" and vb: "value_ok env symtab prog lo fp g b"
  shows "value_ok env symtab prog lo fp g (Bin t bop k a b)"
proof (rule value_okI)
  fix n c n' i m v m'
  let ?x = "fits env symtab lo fp" and ?need = "4 * size (Bin t bop k a b)"
  assume h: "gen_expr g (Bin t bop k a b) n = Some (c, n')" "at prog i c" "assembles symtab c" "eval ?x (Bin t bop k a b) m = Some (v, m')"
  from h(1) obtain c1 n1 c2 n2 c3 where c: "gen_expr g b n = Some (c1, n1)" "gen_expr g a n1 = Some (c2, n2)"
      "binary_code t bop k n2 = Some (c3, n')" "c = c1 @ [push 1] @ c2 @ [pop 2] @ c3"
    by (fastforce simp: bind_eq_Some_conv)
  from h(4) obtain y m1 x where e: "eval ?x b m = Some (y, m1)" "eval ?x a m1 = Some (x, m')" "binary_val t bop k x y = Some v"
    by (auto simp: bind_eq_Some_conv)
  note a1 = at_append [OF h(2) [unfolded c(4)]]
  note a2 = at_append [OF conjunct2 [OF a1]]
  note a3 = at_append [OF conjunct2 [OF a2]]
  note a4 = at_append [OF conjunct2 [OF a3]]
  let ?j = "i + length c1"
  have asm: "assembles symtab c1" "assembles symtab c2"
    using h(3) c(4) by simp_all
  have c1: "computes env symtab prog lo fp i ?j ?need m m1 (\<lambda>R. R 1 = y)"
    by (rule value_okD [OF vb c(1) conjunct1 [OF a1] asm(1) e(1)]) simp
  have at2: "at prog (Suc ?j) c2"
    using a3 by simp
  have c2: "computes env symtab prog lo fp (Suc ?j) (Suc ?j + length c2) (4 * size a) m1 m' (\<lambda>R. R 1 = x)"
    by (rule value_okD [OF va c(2) at2 asm(2) e(2)]) simp
  have at3: "at prog (Suc ?j + length c2) [pop 2]" "at prog (Suc (Suc ?j + length c2)) c3"
    using a4 by (simp_all add: add.assoc)
  have both: "computes env symtab prog lo fp i (Suc (Suc ?j + length c2)) ?need m m' (\<lambda>R. R 1 = x \<and> R 2 = y)"
    by (rule computes_pair [OF c1 p conjunct1 [OF a2] _ _ _ c2 at3(1)]) simp_all
  from computes_binary [OF both d at3(2) c(3) e(3)]
  show "computes env symtab prog lo fp i (i + length c) ?need m m' (\<lambda>R. R 1 = v)"
    by (simp add: c(4) add.assoc)
qed

lemma comma_value_ok:
  assumes va: "value_ok env symtab prog lo fp g a" and vb: "value_ok env symtab prog lo fp g b"
  shows "value_ok env symtab prog lo fp g (Comma t a b)"
proof (rule value_okI)
  fix n c n' i m v m'
  let ?x = "fits env symtab lo fp" and ?need = "4 * size (Comma t a b)"
  assume h: "gen_expr g (Comma t a b) n = Some (c, n')" "at prog i c" "assembles symtab c" "eval ?x (Comma t a b) m = Some (v, m')"
  from h(1,4) obtain c1 n1 c2 u m1 where c: "gen_expr g a n = Some (c1, n1)" "gen_expr g b n1 = Some (c2, n')" "c = c1 @ c2"
      "eval ?x a m = Some (u, m1)" "eval ?x b m1 = Some (v, m')"
    by (auto simp: bind_eq_Some_conv)
  note a1 = at_append [OF h(2) [unfolded c(3)]]
  have asm: "assembles symtab c1" "assembles symtab c2"
    using h(3) c(3) by simp_all
  have "computes env symtab prog lo fp i (i + length c1) ?need m m1 (\<lambda>R. R 1 = u)"
    by (rule value_okD [OF va c(1) conjunct1 [OF a1] asm(1) c(4)]) simp
  moreover have "computes env symtab prog lo fp (i + length c1) (i + length c1 + length c2) ?need m1 m' (\<lambda>R. R 1 = v)"
    by (rule value_okD [OF vb c(2) conjunct2 [OF a1] asm(2) c(5)]) simp
  ultimately show "computes env symtab prog lo fp i (i + length c) ?need m m' (\<lambda>R. R 1 = v)"
    using computes_seq by (simp add: c(3) add.assoc)
qed

text \<open>Short-circuit operators differ in the jump and in the values at the two ends.\<close>

lemma short_circuit:
  assumes d: "distinct (labels_of prog)" and va: "value_ok env symtab prog lo fp g a" and vb: "value_ok env symtab prog lo fp g b"
    and j: "map_of jump_conds jmp = Some f" and xy: "in16 x" "in16 y"
    and c: "gen_expr g a n0 = Some (c1, n1)" "gen_expr g b n1 = Some (c2, n2)" 
    and at: "at prog i (c1 @ test_zero jmp l @ c2 @ test_zero jmp l @ truth_code x y l lend)"
    and asm: "assembles symtab (c1 @ test_zero jmp l @ c2 @ test_zero jmp l @ truth_code x y l lend)"
    and ea: "eval (fits env symtab lo fp) a m = Some (u, m1)"
    and eb: "if f u 0 then v = of_int y \<and> m' = m1
      else \<exists>w. eval (fits env symtab lo fp) b m1 = Some (w, m') \<and> v = of_int (if f w 0 then y else x)"
    and need: "4 * size a \<le> need" "4 * size b \<le> need"
  shows "computes env symtab prog lo fp i (i + (length c1 + length c2 + 11)) need m m' (\<lambda>R. R 1 = v)"
proof -
  note a1 = at_append [OF at]
  note a2 = at_append [OF conjunct2 [OF a1]]
  note a3 = at_append [OF conjunct2 [OF a2]]
  note a4 = at_append [OF conjunct2 [OF a3]]
  let ?j1 = "i + length c1" and ?j2 = "i + length c1 + 3" and ?j3 = "i + length c1 + 3 + length c2"
  let ?j4 = "i + length c1 + 3 + length c2 + 3"
  have len: "length (test_zero jmp l) = 3" by (simp add: test_zero_def)
  have at': "at prog i c1" "at prog ?j1 (test_zero jmp l)" "at prog ?j2 c2" "at prog ?j3 (test_zero jmp l)" "at prog ?j4 (truth_code x y l lend)"
    using a1 a2 a3 a4 by (simp_all only: len)
  have ok: "assembles symtab c1" "assembles symtab c2"
    using asm by simp_all
  note tr = computes_truth [OF d at'(5) xy]
  have "computes env symtab prog lo fp i ?j1 need m m1 (\<lambda>R. R 1 = u)"
    by (rule value_okD [OF va c(1) at'(1) ok(1) ea need(1)])
  then have t1: "computes env symtab prog lo fp i (if f u 0 then ?j4 + 2 else ?j2) need m m1 (\<lambda>R. R 1 = u)"
    by (rule computes_test [OF _ at'(2) j tr(1)])
  have "computes env symtab prog lo fp i (?j4 + 5) need m m' (\<lambda>R. R 1 = v)"
  proof (cases "f u 0")
    case True
    with eb tr(3) [of env symtab lo fp i need m m1] t1 show ?thesis by simp
  next
    case False
    with eb obtain w where w: "eval (fits env symtab lo fp) b m1 = Some (w, m')" "v = of_int (if f w 0 then y else x)"
      by auto
    have "computes env symtab prog lo fp ?j2 ?j3 need m1 m' (\<lambda>R. R 1 = w)"
      by (rule value_okD [OF vb c(2) at'(3) ok(2) w(1) need(2)])
    with t1 False have "computes env symtab prog lo fp i ?j3 need m m' (\<lambda>R. R 1 = w)"
      using computes_seq by (simp only: if_False) 
    then have t2: "computes env symtab prog lo fp i (if f w 0 then ?j4 + 2 else ?j4) need m m' (\<lambda>R. R 1 = w)"
      by (rule computes_test [OF _ at'(4) j tr(1)])
    then show ?thesis
    proof (cases "f w 0")
      case True
      with tr(3) [of env symtab lo fp i need m m'] t2 w(2) show ?thesis by simp
    next
      case False
      with tr(2) [of env symtab lo fp i need m m'] t2 w(2) show ?thesis by simp
    qed
  qed
  moreover have "?j4 + 5 = i + (length c1 + length c2 + 11)"
    by simp
  ultimately show ?thesis
    by (simp only:)
qed

lemma logical_value_ok:
  assumes d: "distinct (labels_of prog)" and va: "value_ok env symtab prog lo fp g a" and vb: "value_ok env symtab prog lo fp g b"
  shows "value_ok env symtab prog lo fp g (Logand t a b)" and "value_ok env symtab prog lo fp g (Logor t a b)"
proof -
  have z: "in16 0" "in16 1" by (simp_all add: in16_def)
  let ?x = "fits env symtab lo fp"
  have len: "length (test_zero jmp l) = 3" "length (truth_code p q l l') = 5" for jmp l p q l'
    by (simp_all add: test_zero_def truth_code_def)
  show "value_ok env symtab prog lo fp g (Logand t a b)"
  proof (rule value_okI)
    fix n c n' i m v m'
    assume h: "gen_expr g (Logand t a b) n = Some (c, n')" "at prog i c" "assembles symtab c" "eval ?x (Logand t a b) m = Some (v, m')"
    from h(1) obtain c1 n1 c2 where c: "gen_expr g a (n + 2) = Some (c1, n1)" "gen_expr g b n1 = Some (c2, n')"
        "c = c1 @ test_zero ''je'' (new_label n) @ c2 @ test_zero ''je'' (new_label n) @ truth_code 1 0 (new_label n) (new_label (n + 1))"
      by (auto simp: bind_eq_Some_conv)
    from h(4) obtain u m1 where e: "eval ?x a m = Some (u, m1)"
        "if u = 0 then v = of_int 0 \<and> m' = m1 else \<exists>w. eval ?x b m1 = Some (w, m') \<and> v = of_int (if w = 0 then 0 else 1)"
      by (fastforce simp: bind_eq_Some_conv truth_def split: if_splits)
    from short_circuit [OF d va vb jump_tests(1) z(2,1) c(1,2) h(2,3) [unfolded c(3)] e, of "4 * size (Logand t a b)"]
    show "computes env symtab prog lo fp i (i + length c) (4 * size (Logand t a b)) m m' (\<lambda>R. R 1 = v)"
      by (simp add: c(3) len add.commute add.left_commute add.assoc)
  qed
  show "value_ok env symtab prog lo fp g (Logor t a b)"
  proof (rule value_okI)
    fix n c n' i m v m'
    assume h: "gen_expr g (Logor t a b) n = Some (c, n')" "at prog i c" "assembles symtab c" "eval ?x (Logor t a b) m = Some (v, m')"
    from h(1) obtain c1 n1 c2 where c: "gen_expr g a (n + 2) = Some (c1, n1)" "gen_expr g b n1 = Some (c2, n')"
        "c = c1 @ test_zero ''jne'' (new_label n) @ c2 @ test_zero ''jne'' (new_label n) @ truth_code 0 1 (new_label n) (new_label (n + 1))"
      by (auto simp: bind_eq_Some_conv)
    from h(4) obtain u m1 where e: "eval ?x a m = Some (u, m1)"
        "if u \<noteq> 0 then v = of_int 1 \<and> m' = m1 else \<exists>w. eval ?x b m1 = Some (w, m') \<and> v = of_int (if w \<noteq> 0 then 1 else 0)"
      by (fastforce simp: bind_eq_Some_conv truth_def split: if_splits)
    from short_circuit [OF d va vb jump_tests(2) z c(1,2) h(2,3) [unfolded c(3)] e, of "4 * size (Logor t a b)"]
    show "computes env symtab prog lo fp i (i + length c) (4 * size (Logor t a b)) m m' (\<lambda>R. R 1 = v)"
      by (simp add: c(3) len add.commute add.left_commute add.assoc)
  qed
qed

lemma cond_value_ok:
  assumes d: "distinct (labels_of prog)" and ve: "value_ok env symtab prog lo fp g e" and va: "value_ok env symtab prog lo fp g a"
    and vb: "\<And>x. b = Some x \<Longrightarrow> value_ok env symtab prog lo fp g x"
  shows "value_ok env symtab prog lo fp g (Cond t e a b)"
proof (rule value_okI)
  fix n c n' i m v m'
  let ?x = "fits env symtab lo fp" and ?need = "4 * size (Cond t e a b)" and ?l = "new_label n" and ?l' = "new_label (n + 1)"
  assume h: "gen_expr g (Cond t e a b) n = Some (c, n')" "at prog i c" "assembles symtab c" "eval ?x (Cond t e a b) m = Some (v, m')"
  from h(1) obtain c1 n1 c2 n2 c3 where c: "gen_expr g e (n + 2) = Some (c1, n1)" "gen_expr g a n1 = Some (c2, n2)"
      "(case b of None \<Rightarrow> Some ([], n2) | Some x \<Rightarrow> gen_expr g x n2) = Some (c3, n')"
      "c = c1 @ test_zero ''je'' ?l @ c2 @ ([Ins ''jmp'' [Sym ?l']] @ ([Lab ?l] @ (c3 @ [Lab ?l'])))"
    by (fastforce simp: bind_eq_Some_conv)
  from h(4) obtain u m1 where e: "eval ?x e m = Some (u, m1)"
      "(if u \<noteq> 0 then eval ?x a m1 else (case b of None \<Rightarrow> None | Some d \<Rightarrow> eval ?x d m1)) = Some (v, m')"
    by (auto simp: bind_eq_Some_conv)
  note a1 = at_append [OF h(2) [unfolded c(4)]]
  note a2 = at_append [OF conjunct2 [OF a1]]
  note a3 = at_append [OF conjunct2 [OF a2]]
  note a4 = at_append [OF conjunct2 [OF a3]]
  note a5 = at_append [OF conjunct2 [OF a4]]
  note a6 = at_append [OF conjunct2 [OF a5]]
  let ?j1 = "i + length c1" and ?j2 = "i + length c1 + 3" and ?j3 = "i + length c1 + 3 + length c2"
  let ?j4 = "i + length c1 + 3 + length c2 + 1" and ?j5 = "i + length c1 + 3 + length c2 + 1 + 1"
  let ?j6 = "i + length c1 + 3 + length c2 + 1 + 1 + length c3"
  have len: "length (test_zero ''je'' ?l) = 3" "length [x] = 1" for x :: asm_line
    by (simp_all add: test_zero_def)
  have at': "at prog i c1" "at prog ?j1 (test_zero ''je'' ?l)" "at prog ?j2 c2" "at prog ?j3 [Ins ''jmp'' [Sym ?l']]"
      "at prog ?j4 [Lab ?l]" "at prog ?j5 c3" "at prog ?j6 [Lab ?l']"
    using a1 a2 a3 a4 a5 a6 by (simp_all only: len)
  have ok: "assembles symtab c1" "assembles symtab c2" "assembles symtab c3"
    using h(3) c(4) by simp_all
  have l: "label_index prog ?l = Some ?j4" "label_index prog ?l' = Some ?j6"
    using label_index_at [OF d] at_Cons [OF at'(5)] at_Cons [OF at'(7)] by blast+
  have "computes env symtab prog lo fp i ?j1 ?need m m1 (\<lambda>R. R 1 = u)"
    by (rule value_okD [OF ve c(1) at'(1) ok(1) e(1)]) simp
  then have t: "computes env symtab prog lo fp i (if u = 0 then ?j4 else ?j2) ?need m m1 (\<lambda>R. R 1 = u)"
    by (rule computes_test [OF _ at'(2) jump_tests(1) l(1)])
  have "computes env symtab prog lo fp i ?j6 ?need m m' (\<lambda>R. R 1 = v)"
  proof (cases "u = 0")
    case True
    with e(2) obtain x where x: "b = Some x" "eval ?x x m1 = Some (v, m')"
      by (auto split: option.splits)
    with c(3) have g: "gen_expr g x n2 = Some (c3, n')" by simp
    have "computes env symtab prog lo fp i ?j5 ?need m m1 (\<lambda>R. R 1 = u)"
      using computes_label [OF _ at'(5)] t True by simp
    moreover have "computes env symtab prog lo fp ?j5 ?j6 ?need m1 m' (\<lambda>R. R 1 = v)"
      by (rule value_okD [OF vb [OF x(1)] g at'(6) ok(3) x(2)]) (simp add: x(1))
    ultimately show ?thesis by (rule computes_seq)
  next
    case False
    have "computes env symtab prog lo fp ?j2 ?j3 ?need m1 m' (\<lambda>R. R 1 = v)"
      using e(2) False by (intro value_okD [OF va c(2) at'(3) ok(2)]) simp_all
    with t False have "computes env symtab prog lo fp i ?j3 ?need m m' (\<lambda>R. R 1 = v)"
      using computes_seq by (simp only: if_False)
    then show ?thesis
      by (rule computes_jump [OF _ at'(4) l(2)])
  qed
  from computes_label [OF this at'(7)] show "computes env symtab prog lo fp i (i + length c) ?need m m' (\<lambda>R. R 1 = v)"
    by (simp add: c(4) len add.commute add.left_commute add.assoc)
qed

text \<open>All expressions, by induction on the syntax.\<close>

lemma no_address:
  assumes "\<And>m. addr_of (fits env symtab lo fp) e m = None" and "value_ok env symtab prog lo fp g e"
  shows "value_ok env symtab prog lo fp g e \<and> addr_ok env symtab prog lo fp g e \<and> member_ok env symtab prog lo fp g e"
  using assms by (simp add: addr_ok_def member_ok_def)

lemma no_value: "(\<And>m. eval (fits env symtab lo fp) e m = None) \<Longrightarrow> value_ok env symtab prog lo fp g e"
  by (simp add: value_ok_def)

lemma nodes_ok:
  assumes p: "plain env" and d: "distinct (labels_of prog)"
  shows "value_ok env symtab prog lo fp g e \<and> addr_ok env symtab prog lo fp g e \<and> member_ok env symtab prog lo fp g e"
proof (induction e)
  case (Var t off)
  have "value_ok env symtab prog lo fp g (Var t off)"
    by (rule loaded_value_ok [OF p var_addr_ok, where t = t]) (auto simp: bind_eq_Some_conv)
  moreover have "member_ok env symtab prog lo fp g (Var t off)"
    by (rule other_member_ok [OF var_addr_ok]) (auto simp: gen_member_addr.simps bind_eq_Some_conv)
  ultimately show ?case using var_addr_ok by blast
next
  case (Gvar t name)
  have "value_ok env symtab prog lo fp g (Gvar t name)"
    by (rule loaded_value_ok [OF p gvar_addr_ok, where t = t]) (auto simp: bind_eq_Some_conv)
  moreover have "member_ok env symtab prog lo fp g (Gvar t name)"
    by (rule other_member_ok [OF gvar_addr_ok]) (auto simp: gen_member_addr.simps bind_eq_Some_conv)
  ultimately show ?case using gvar_addr_ok by blast
next
  case (Deref t e)
  then show ?case
    by (simp add: deref_value_ok [OF p] deref_addr_ok deref_member_ok)
next
  case (Member t e k bo bw)
  then have "addr_ok env symtab prog lo fp g (Member t e k bo bw)"
    using member_addr_ok by blast
  moreover from this have "member_ok env symtab prog lo fp g (Member t e k bo bw)"
    by (rule other_member_ok) (auto simp: gen_member_addr.simps [of _ "Member t e k bo bw"] bind_eq_Some_conv)
  ultimately show ?case
    using member_value_ok [OF p] Member by blast
next
  case (Call t name fp as)
  show ?case
    by (rule no_address, simp add: addr_of.simps) (rule no_value, simp)
next
  case (Va_start t e)
  show ?case
    by (rule no_address, simp add: addr_of.simps) (rule no_value, simp)
next
  case (Num t k)
  show ?case
    by (rule no_address, simp add: addr_of.simps) (rule num_value_ok)
next
  case (Funct t f)
  show ?case
    by (rule no_address, simp add: addr_of.simps) (rule symbol_value_ok)
next
  case (Str t k)
  show ?case
    by (rule no_address, simp add: addr_of.simps) (rule symbol_value_ok)
next
  case (Addr t e)
  show ?case
    by (rule no_address, simp add: addr_of.simps) (rule addr_value_ok, simp add: Addr)
next
  case (Cast t e)
  show ?case
    by (rule no_address, simp add: addr_of.simps) (rule cast_value_ok, simp add: Cast)
next
  case (Bitnot t e)
  show ?case
    by (rule no_address, simp add: addr_of.simps) (rule bitnot_value_ok, simp add: Bitnot)
next
  case (Neg t e)
  show ?case
    by (rule no_address, simp add: addr_of.simps) (rule neg_value_ok, simp add: Neg)
next
  case (Lognot t e)
  show ?case
    by (rule no_address, simp add: addr_of.simps) (rule lognot_value_ok [OF _ d], simp add: Lognot)
next
  case (Assign t l r)
  show ?case
    by (rule no_address, simp add: addr_of.simps) (rule assign_value_ok [OF p]; simp add: Assign)
next
  case (Logand t a b)
  show ?case
    by (rule no_address, simp add: addr_of.simps) (rule logical_value_ok [OF d]; simp add: Logand)
next
  case (Logor t a b)
  show ?case
    by (rule no_address, simp add: addr_of.simps) (rule logical_value_ok [OF d]; simp add: Logor)
next
  case (Bin t bop k a b)
  show ?case
    by (rule no_address, simp add: addr_of.simps) (rule binary_value_ok [OF p d]; simp add: Bin)
next
  case (Cond t e a b)
  show ?case
    by (rule no_address, simp add: addr_of.simps) (rule cond_value_ok [OF d]; simp add: Cond)
next
  case (Comma t a b)
  show ?case
    by (rule no_address, simp add: addr_of.simps) (rule comma_value_ok; simp add: Comma)
qed

end
