(* ===== verification/Codegen_Stmt.thy ===== *)
theory Codegen_Stmt
  imports Codegen_Expr
begin

text \<open>
  The code of statements: what they mean, with the ways in which they end (\<open>exec\<close>), and that the code of
  returns, conditionals and loops of \<^verbatim>\<open>gen_stmt\<close> goes to where they end.
\<close>

section \<open>What statements mean\<close>

text \<open>
  The way in which statements end. \<open>exec\<close> takes fuel for the iterations of loops; \<open>None\<close> is missing fuel,
  an expression without a value, a jump into a label, the value of a structure returned, or statements of a
  \<^verbatim>\<open>switch\<close> before its first case, which the generated code executes and the language skips.
\<close>

datatype outcome = Done | Broke | Continued | Returned "u32 option"

definition case_target :: "u32 \<Rightarrow> (int option \<times> int) list \<Rightarrow> int option" where
  "case_target v cs =
     (case find (\<lambda>(c, k). case c of Some w \<Rightarrow> of_int w = v | None \<Rightarrow> False) cs of
        Some (_, k) \<Rightarrow> Some k
      | None \<Rightarrow> map_option snd (find (\<lambda>(c, k). c = None) (rev cs)))"

fun is_target :: "int \<Rightarrow> stmt \<Rightarrow> bool" where
  "is_target k (Case j) \<longleftrightarrow> j = k"
| "is_target k (Default j) \<longleftrightarrow> j = k"
| "is_target k _ \<longleftrightarrow> False"

definition eval_opt :: "ectx \<Rightarrow> node option \<Rightarrow> (u64 \<Rightarrow> u8) \<Rightarrow> (u32 \<times> (u64 \<Rightarrow> u8)) option" where
  "eval_opt x e m = (case e of None \<Rightarrow> Some (1, m) | Some d \<Rightarrow> eval x d m)"

definition leave_loop :: "outcome \<Rightarrow> outcome" where "leave_loop r = (if r = Broke then Done else r)"

function
  exec :: "ectx \<Rightarrow> nat \<Rightarrow> stmt \<Rightarrow> (u64 \<Rightarrow> u8) \<Rightarrow> (outcome \<times> (u64 \<Rightarrow> u8)) option"
  and execs :: "ectx \<Rightarrow> nat \<Rightarrow> stmt list \<Rightarrow> (u64 \<Rightarrow> u8) \<Rightarrow> (outcome \<times> (u64 \<Rightarrow> u8)) option"
  and loop :: "ectx \<Rightarrow> nat \<Rightarrow> node option \<Rightarrow> node option \<Rightarrow> stmt list \<Rightarrow> (u64 \<Rightarrow> u8) \<Rightarrow> (outcome \<times> (u64 \<Rightarrow> u8)) option"
  and do_loop :: "ectx \<Rightarrow> nat \<Rightarrow> node \<Rightarrow> stmt list \<Rightarrow> (u64 \<Rightarrow> u8) \<Rightarrow> (outcome \<times> (u64 \<Rightarrow> u8)) option"
where
  "exec x f (Return e) m =
     (case e of
        None \<Rightarrow> Some (Returned None, m)
      | Some d \<Rightarrow> if is_aggregate (node_ty d) then None
                  else do { (v, m1) \<leftarrow> eval x d m; Some (Returned (Some v), m1) })"
| "exec x f (If e a b) m =
     do {
       (v, m1) \<leftarrow> eval x e m;
       if v \<noteq> 0 then execs x f a m1 else (case b of None \<Rightarrow> Some (Done, m1) | Some ss \<Rightarrow> execs x f ss m1)
     }"
| "exec x f (While e ss) m = loop x f (Some e) None ss m"
| "exec x f (For i e u ss) m =
     do { (r, m1) \<leftarrow> execs x f i m; if r = Done then loop x f e u ss m1 else None }"
| "exec x f (Do_while ss e) m = do_loop x f e ss m"
| "exec x f (Switch e off cases ss) m =
     do {
       (v, m1) \<leftarrow> eval x e m;
       let a = ex_fp x - of_int off; m2 = wr32 (ucast a) v m1 in
       if \<not> data_at x 4 a \<or> takeWhile (\<lambda>s. \<not> is_case s) ss \<noteq> [] then None
       else
         (case case_target v cases of
            None \<Rightarrow> Some (Done, m2)
          | Some k \<Rightarrow>
              if list_all (\<lambda>s. \<not> is_target k s) ss then None
              else do { (r, m3) \<leftarrow> execs x f (dropWhile (\<lambda>s. \<not> is_target k s) ss) m2; Some (leave_loop r, m3) })
     }"
| "exec x f (Case k) m = Some (Done, m)"
| "exec x f (Default k) m = Some (Done, m)"
| "exec x f Break m = Some (Broke, m)"
| "exec x f stmt.Continue m = Some (Continued, m)"
| "exec x f (Goto k) m = None"
| "exec x f (Label k ss) m = execs x f ss m"
| "exec x f Declaration m = Some (Done, m)"
| "exec x f (Expr e) m = do { (v, m1) \<leftarrow> eval x e m; Some (Done, m1) }"
| "execs x f [] m = Some (Done, m)"
| "execs x f (s # ss) m =
     do { (r, m1) \<leftarrow> exec x f s m; if r = Done then execs x f ss m1 else Some (r, m1) }"
| "loop x 0 e u ss m = None"
| "loop x (Suc f) e u ss m =
     do {
       (v, m1) \<leftarrow> eval_opt x e m;
       if v = 0 then Some (Done, m1)
       else
         do {
           (r, m2) \<leftarrow> execs x f ss m1;
           if r = Done \<or> r = Continued
           then do {
             (w, m3) \<leftarrow> eval_opt x u m2;
             loop x f e u ss m3
           }
           else Some (leave_loop r, m2)
         }
     }"
| "do_loop x 0 e ss m = None"
| "do_loop x (Suc f) e ss m =
     do {
       (r, m1) \<leftarrow> execs x f ss m;
       if r = Done \<or> r = Continued
       then do { (v, m2) \<leftarrow> eval x e m1; if v = 0 then Some (Done, m2) else do_loop x f e ss m2 }
       else Some (leave_loop r, m1)
     }"
  by pat_completeness auto
termination
  by (relation "measures [(\<lambda>p. case p of Inl (Inl (x, f, s, m)) \<Rightarrow> f | Inl (Inr (x, f, ss, m)) \<Rightarrow> f
        | Inr (Inl (x, f, e, u, ss, m)) \<Rightarrow> f | Inr (Inr (x, f, e, ss, m)) \<Rightarrow> f),
      (\<lambda>p. case p of Inl (Inl (x, f, s, m)) \<Rightarrow> size s | Inl (Inr (x, f, ss, m)) \<Rightarrow> size_list size ss
        | _ \<Rightarrow> 0)]")
    (auto intro: le_imp_less_Suc le_less_trans [OF size_list_take_drop(2)] order_trans [OF size_list_take_drop(2)])


text \<open>The stack that the code of statements needs for saved values.\<close>

fun stmt_need :: "stmt \<Rightarrow> nat" and stmts_need :: "stmt list \<Rightarrow> nat" where
  "stmt_need (Return e) = (case e of None \<Rightarrow> 0 | Some d \<Rightarrow> 4 * size d)"
| "stmt_need (If e a b) =
     max (4 * size e) (max (stmts_need a) (case b of None \<Rightarrow> 0 | Some ss \<Rightarrow> stmts_need ss))"
| "stmt_need (While e ss) = max (4 * size e) (stmts_need ss)"
| "stmt_need (For i e u ss) =
     max (stmts_need i) (max (case e of None \<Rightarrow> 0 | Some d \<Rightarrow> 4 * size d)
       (max (case u of None \<Rightarrow> 0 | Some d \<Rightarrow> 4 * size d) (stmts_need ss)))"
| "stmt_need (Do_while ss e) = max (4 * size e) (stmts_need ss)"
| "stmt_need (Switch e off cases ss) = max (4 * size e) (stmts_need ss)"
| "stmt_need (Label k ss) = stmts_need ss"
| "stmt_need (Expr e) = 4 * size e"
| "stmt_need _ = 0"
| "stmts_need [] = 0"
| "stmts_need (s # ss) = max (stmt_need s) (stmts_need ss)"


section \<open>Ways out of a piece of code\<close>

definition reaches ::
    "'o emu_env \<Rightarrow> (string \<Rightarrow> u32) \<Rightarrow> asm_line list \<Rightarrow> u32 \<Rightarrow> u32 \<Rightarrow> string list \<Rightarrow> string list \<Rightarrow> nat \<Rightarrow> nat \<Rightarrow> nat
     \<Rightarrow> (u64 \<Rightarrow> u8) \<Rightarrow> (u64 \<Rightarrow> u8) \<Rightarrow> outcome \<Rightarrow> bool" where
  "reaches env symtab prog lo fp brk cont i j need m m' r \<longleftrightarrow>
     (case r of
        Done \<Rightarrow> computes env symtab prog lo fp i j need m m' (\<lambda>_. True)
      | Broke \<Rightarrow> (\<forall>k. brk \<noteq> [] \<longrightarrow> label_index prog (hd brk) = Some k \<longrightarrow> computes env symtab prog lo fp i k need m m' (\<lambda>_. True))
      | Continued \<Rightarrow> (\<forall>k. cont \<noteq> [] \<longrightarrow> label_index prog (hd cont) = Some k \<longrightarrow> computes env symtab prog lo fp i k need m m' (\<lambda>_. True))
      | Returned v \<Rightarrow> (\<exists>k. at prog k epilogue \<and>
          computes env symtab prog lo fp i k need m m' (\<lambda>R. case v of None \<Rightarrow> True | Some w \<Rightarrow> R 1 = w)))"

lemma computes_reaches:
  assumes "computes env symtab prog lo fp i j need m m1 P" and "reaches env symtab prog lo fp brk cont j k need m1 m' r"
  shows "reaches env symtab prog lo fp brk cont i k need m m' r"
  using assms(2) computes_seq [OF assms(1)] unfolding reaches_def by (cases r) (simp; blast)+

lemma reaches_other: "r \<noteq> Done \<Longrightarrow> reaches env symtab prog lo fp brk cont i j need m m' r \<longleftrightarrow> reaches env symtab prog lo fp brk cont i k need m m' r"
  by (cases r) (simp_all add: reaches_def)

lemma reaches_need: "reaches env symtab prog lo fp brk cont i j need m m' r \<Longrightarrow> need \<le> need' \<Longrightarrow>
    reaches env symtab prog lo fp brk cont i j need' m m' r"
  unfolding reaches_def using computes_need by (cases r) (simp; blast)+

definition stmts_ok :: "'o emu_env \<Rightarrow> (string \<Rightarrow> u32) \<Rightarrow> asm_line list \<Rightarrow> u32 \<Rightarrow> u32 \<Rightarrow> genv \<Rightarrow> nat \<Rightarrow> stmt list \<Rightarrow> bool" where
  "stmts_ok env symtab prog lo fp g f ss \<longleftrightarrow>
     (\<forall>brk cont n c n' i m r m'. gen_stmts g brk cont ss n = Some (c, n') \<longrightarrow> at prog i c \<longrightarrow> assembles symtab c \<longrightarrow>
        execs (fits env symtab lo fp) f ss m = Some (r, m') \<longrightarrow>
        reaches env symtab prog lo fp brk cont i (i + length c) (stmts_need ss) m m' r)"

definition stmt_ok :: "'o emu_env \<Rightarrow> (string \<Rightarrow> u32) \<Rightarrow> asm_line list \<Rightarrow> u32 \<Rightarrow> u32 \<Rightarrow> genv \<Rightarrow> nat \<Rightarrow> stmt \<Rightarrow> bool" where
  "stmt_ok env symtab prog lo fp g f s \<longleftrightarrow>
     (\<forall>brk cont n c n' i m r m'. gen_stmt g brk cont s n = Some (c, n') \<longrightarrow> at prog i c \<longrightarrow> assembles symtab c \<longrightarrow>
        exec (fits env symtab lo fp) f s m = Some (r, m') \<longrightarrow>
        reaches env symtab prog lo fp brk cont i (i + length c) (stmt_need s) m m' r)"

lemma stmts_okD:
  "stmts_ok env symtab prog lo fp g f ss \<Longrightarrow> gen_stmts g brk cont ss n = Some (c, n') \<Longrightarrow> at prog i c \<Longrightarrow> assembles symtab c \<Longrightarrow>
     execs (fits env symtab lo fp) f ss m = Some (r, m') \<Longrightarrow> stmts_need ss \<le> need \<Longrightarrow>
     reaches env symtab prog lo fp brk cont i (i + length c) need m m' r"
  unfolding stmts_ok_def by (rule reaches_need [where need = "stmts_need ss"]) blast+

lemma stmt_okD:
  "stmt_ok env symtab prog lo fp g f s \<Longrightarrow> gen_stmt g brk cont s n = Some (c, n') \<Longrightarrow> at prog i c \<Longrightarrow> assembles symtab c \<Longrightarrow>
     exec (fits env symtab lo fp) f s m = Some (r, m') \<Longrightarrow> stmt_need s \<le> need \<Longrightarrow>
     reaches env symtab prog lo fp brk cont i (i + length c) need m m' r"
  unfolding stmt_ok_def by (rule reaches_need [where need = "stmt_need s"]) blast+

lemma reaches_Done [simp]: "reaches env symtab prog lo fp brk cont i j need m m' Done = computes env symtab prog lo fp i j need m m' (\<lambda>_. True)"
  by (simp add: reaches_def)

lemma stmts_ok_list:
  assumes "\<And>s. s \<in> set ss \<Longrightarrow> stmt_ok env symtab prog lo fp g f s"
  shows "stmts_ok env symtab prog lo fp g f ss"
  using assms
proof (induction ss)
  case Nil
  then show ?case
    by (auto simp: stmts_ok_def intro: computes_need [OF computes_weaken [OF computes_start]])
next
  case (Cons s ss)
  show ?case
    unfolding stmts_ok_def
  proof (intro allI impI)
    fix brk cont n c n' i m r m'
    let ?x = "fits env symtab lo fp" and ?need = "stmts_need (s # ss)"
    assume h: "gen_stmts g brk cont (s # ss) n = Some (c, n')" "at prog i c" "assembles symtab c" "execs ?x f (s # ss) m = Some (r, m')"
    from h(1) obtain c1 n1 c2 where c: "gen_stmt g brk cont s n = Some (c1, n1)" "gen_stmts g brk cont ss n1 = Some (c2, n')" "c = c1 @ c2"
      by (auto simp: bind_eq_Some_conv)
    from h(4) obtain r1 m1 where e: "exec ?x f s m = Some (r1, m1)"
        "(if r1 = Done then execs ?x f ss m1 else Some (r1, m1)) = Some (r, m')"
      by (auto simp: bind_eq_Some_conv split: prod.splits)
    note a = at_append [OF h(2) [unfolded c(3)]]
    have ok: "assembles symtab c1" "assembles symtab c2"
      using h(3) c(3) by simp_all
    have r1: "reaches env symtab prog lo fp brk cont i (i + length c1) ?need m m1 r1"
      by (rule stmt_okD [OF Cons.prems c(1) conjunct1 [OF a] ok(1) e(1)]) simp_all
    show "reaches env symtab prog lo fp brk cont i (i + length c) ?need m m' r"
    proof (cases "r1 = Done")
      case True
      with e(2) have e2: "execs ?x f ss m1 = Some (r, m')" by simp
      have "stmts_ok env symtab prog lo fp g f ss"
        using Cons by simp
      from stmts_okD [OF this c(2) conjunct2 [OF a] ok(2) e2]
      have "reaches env symtab prog lo fp brk cont (i + length c1) (i + length c1 + length c2) ?need m1 m' r"
        by simp
      with r1 True show ?thesis
        using computes_reaches by (fastforce simp: c(3) add.assoc)
    next
      case False
      with r1 e(2) show ?thesis
        using reaches_other by (metis Pair_inject option.inject)
    qed
  qed
qed


section \<open>Loops\<close>

lemma reaches_leave: "r \<noteq> Continued \<Longrightarrow> r \<noteq> Done \<Longrightarrow> reaches env symtab prog lo fp (l # brk) cont' i j' need m m' r \<Longrightarrow>
    label_index prog l = Some k \<Longrightarrow> j = Suc k \<Longrightarrow> at prog k [Lab l] \<Longrightarrow>
    reaches env symtab prog lo fp brk cont i j need m m' (leave_loop r)"
  using computes_label by (cases r) (auto simp: reaches_def leave_loop_def)

lemma loop_reaches:
  assumes head: "\<And>v m m1. eval_opt (fits env symtab lo fp) e m = Some (v, m1) \<Longrightarrow>
      computes env symtab prog lo fp i (if v = 0 then k else b) need m m1 (\<lambda>_. True)"
    and body: "\<And>f' m r m1. f' < f \<Longrightarrow> execs (fits env symtab lo fp) f' ss m = Some (r, m1) \<Longrightarrow>
      reaches env symtab prog lo fp (le # brk) (lc # cont) b b' need m m1 r"
    and again: "\<And>w m m1. eval_opt (fits env symtab lo fp) u m = Some (w, m1) \<Longrightarrow>
      computes env symtab prog lo fp b' i need m m1 (\<lambda>_. True) \<and> computes env symtab prog lo fp kc i need m m1 (\<lambda>_. True)"
    and l: "label_index prog le = Some k" "at prog k [Lab le]" "label_index prog lc = Some kc"
  shows "loop (fits env symtab lo fp) f e u ss m = Some (r, m') \<Longrightarrow> reaches env symtab prog lo fp brk cont i (Suc k) need m m' r"
  using body
proof (induction f arbitrary: m)
  case (Suc f)
  let ?x = "fits env symtab lo fp"
  from Suc.prems(1) obtain v m1 where v: "eval_opt ?x e m = Some (v, m1)"
      "(if v = 0 then Some (Done, m1)
       else
         do {
           (r, m2) \<leftarrow> execs ?x f ss m1;
           if r = Done \<or> r = Continued
           then do { (w, m3) \<leftarrow> eval_opt ?x u m2; loop ?x f e u ss m3 }
           else Some (leave_loop r, m2)
         }) = Some (r, m')"
    by (auto simp: bind_eq_Some_conv)
  note h = head [OF v(1)]
  show ?case
  proof (cases "v = 0")
    case True
    with h v(2) computes_label [OF _ l(2)] show ?thesis by simp
  next
    case False
    with v(2) obtain r2 m2 where e: "execs ?x f ss m1 = Some (r2, m2)"
        "(if r2 = Done \<or> r2 = Continued then do { (w, m3) \<leftarrow> eval_opt ?x u m2; loop ?x f e u ss m3 }
          else Some (leave_loop r2, m2)) = Some (r, m')"
      by (auto simp: bind_eq_Some_conv)
    have "computes env symtab prog lo fp i b need m m1 (\<lambda>_. True)"
      using h False by simp
    from computes_reaches [OF this Suc.prems(2) [OF _ e(1)]]
    have r2: "reaches env symtab prog lo fp (le # brk) (lc # cont) i b' need m m2 r2"
      by simp
    show ?thesis
    proof (cases "r2 = Done \<or> r2 = Continued")
      case True
      with e(2) obtain w m3 where w: "eval_opt ?x u m2 = Some (w, m3)" "loop ?x f e u ss m3 = Some (r, m')"
        by (auto simp: bind_eq_Some_conv)
      have "computes env symtab prog lo fp i (if r2 = Done then b' else kc) need m m2 (\<lambda>_. True)"
        using True r2 l(3) by (auto simp: reaches_def)
      then have "computes env symtab prog lo fp i i need m m3 (\<lambda>_. True)"
        using again [OF w(1)] computes_seq by (auto split: if_splits)
      moreover have "reaches env symtab prog lo fp brk cont i (Suc k) need m3 m' r"
        by (rule Suc.IH [OF w(2)]) (rule Suc.prems(2); simp)
      ultimately show ?thesis
        by (rule computes_reaches)
    next
      case False
      with e(2) reaches_leave [OF _ _ r2 l(1) refl l(2)] show ?thesis by auto
    qed
  qed
qed simp

lemma do_loop_reaches:
  assumes head: "\<And>m. computes env symtab prog lo fp i b need m m (\<lambda>_. True)"
    and body: "\<And>f' m r m1. f' < f \<Longrightarrow> execs (fits env symtab lo fp) f' ss m = Some (r, m1) \<Longrightarrow>
      reaches env symtab prog lo fp (le # brk) (lc # cont) b b' need m m1 r"
    and again: "\<And>v m m1. eval (fits env symtab lo fp) e m = Some (v, m1) \<Longrightarrow>
      computes env symtab prog lo fp b' (if v = 0 then k else i) need m m1 (\<lambda>_. True)"
    and l: "label_index prog le = Some k" "at prog k [Lab le]" "label_index prog lc = Some b'"
  shows "do_loop (fits env symtab lo fp) f e ss m = Some (r, m') \<Longrightarrow> reaches env symtab prog lo fp brk cont i (Suc k) need m m' r"
  using body
proof (induction f arbitrary: m)
  case (Suc f)
  let ?x = "fits env symtab lo fp"
  from Suc.prems(1) obtain r2 m2 where e: "execs ?x f ss m = Some (r2, m2)"
      "(if r2 = Done \<or> r2 = Continued
       then do { (v, m2) \<leftarrow> eval ?x e m2; if v = 0 then Some (Done, m2) else do_loop ?x f e ss m2 }
       else Some (leave_loop r2, m2)) = Some (r, m')"
    by (auto simp: bind_eq_Some_conv)
  from computes_reaches [OF head Suc.prems(2) [OF _ e(1)]]
  have r2: "reaches env symtab prog lo fp (le # brk) (lc # cont) i b' need m m2 r2"
    by simp
  show ?case
  proof (cases "r2 = Done \<or> r2 = Continued")
    case True
    with e(2) obtain v m3 where v: "eval ?x e m2 = Some (v, m3)" "(if v = 0 then Some (Done, m3) else do_loop ?x f e ss m3) = Some (r, m')"
      by (auto simp: bind_eq_Some_conv)
    have "computes env symtab prog lo fp i b' need m m2 (\<lambda>_. True)"
      using True r2 l(3) by (auto simp: reaches_def)
    then have t: "computes env symtab prog lo fp i (if v = 0 then k else i) need m m3 (\<lambda>_. True)"
      using again [OF v(1)] by (rule computes_seq)
    show ?thesis
    proof (cases "v = 0")
      case True
      with t v(2) computes_label [OF _ l(2)] show ?thesis by simp
    next
      case False
      with v(2) have "do_loop ?x f e ss m3 = Some (r, m')" by simp
      then have "reaches env symtab prog lo fp brk cont i (Suc k) need m3 m' r"
        by (rule Suc.IH) (rule Suc.prems(2); simp)
      with t False computes_reaches show ?thesis by fastforce
    qed
  next
    case False
    with e(2) reaches_leave [OF _ _ r2 l(1) refl l(2)] show ?thesis by auto
  qed
qed simp


section \<open>Generated statements\<close>

lemma reaches_label: "reaches env symtab prog lo fp brk cont i j need m m' r \<Longrightarrow> at prog j [Lab l] \<Longrightarrow>
    reaches env symtab prog lo fp brk cont i (Suc j) need m m' r"
  using computes_label by (cases r) (auto simp: reaches_def)

lemma stmt_okI:
  assumes "\<And>brk cont n c n' i m r m'. gen_stmt g brk cont s n = Some (c, n') \<Longrightarrow> at prog i c \<Longrightarrow> assembles symtab c \<Longrightarrow>
    exec (fits env symtab lo fp) f s m = Some (r, m') \<Longrightarrow>
    reaches env symtab prog lo fp brk cont i (i + length c) (stmt_need s) m m' r"
  shows "stmt_ok env symtab prog lo fp g f s"
  using assms unfolding stmt_ok_def by blast

lemma computes_zero:
  assumes p: "plain env" and d: "distinct (labels_of prog)" and g: "branch_zero g e l True n = Some (c, n')"
    and a: "at prog i c" "assembles symtab c" and e: "eval (fits env symtab lo fp) e m = Some (v, m')"
    and l: "label_index prog l = Some k" and need: "4 * size e \<le> need"
  shows "computes env symtab prog lo fp i (if v = 0 then k else i + length c) need m m' (\<lambda>_. True)"
proof -
  from g obtain c1 where c: "gen_expr g e n = Some (c1, n')" "c = c1 @ test_zero ''je'' l"
    by (auto simp: branch_zero_def bind_eq_Some_conv)
  note a1 = at_append [OF a(1) [unfolded c(2)]]
  have "computes env symtab prog lo fp i (i + length c1) need m m' (\<lambda>R. R 1 = v)"
    using value_okD [OF conjunct1 [OF nodes_ok [OF p d]] c(1) conjunct1 [OF a1] _ e need] a(2) c(2) by simp
  from computes_test [OF this conjunct2 [OF a1] jump_tests(1) l]
  show ?thesis
    by (auto simp: c(2) test_zero_def eval_nat_numeral elim!: computes_weaken)
qed

lemma expr_stmt_ok:
  assumes p: "plain env" and d: "distinct (labels_of prog)"
  shows "stmt_ok env symtab prog lo fp g f (Expr e)"
proof (rule stmt_okI)
  fix brk cont n c n' i m r m'
  assume h: "gen_stmt g brk cont (Expr e) n = Some (c, n')" "at prog i c" "assembles symtab c" "exec (fits env symtab lo fp) f (Expr e) m = Some (r, m')"
  then obtain v where "eval (fits env symtab lo fp) e m = Some (v, m')" "r = Done" "gen_expr g e n = Some (c, n')"
    by (auto simp: bind_eq_Some_conv)
  then show "reaches env symtab prog lo fp brk cont i (i + length c) (stmt_need (Expr e)) m m' r"
    using value_okD [OF conjunct1 [OF nodes_ok [OF p d]] _ h(2,3), of g e n n' lo fp m v m' "stmt_need (Expr e)"] computes_weaken
    by fastforce
qed

lemma return_stmt_ok:
  assumes p: "plain env" and d: "distinct (labels_of prog)"
  shows "stmt_ok env symtab prog lo fp g f (Return e)"
proof (rule stmt_okI)
  fix brk cont n c n' i m r m'
  let ?x = "fits env symtab lo fp" and ?need = "stmt_need (Return e)" and ?ret = "[Raw ''    ; return''] @ epilogue"
  assume h: "gen_stmt g brk cont (Return e) n = Some (c, n')" "at prog i c" "assembles symtab c" "exec ?x f (Return e) m = Some (r, m')"
  have "\<exists>c1 v. c = c1 @ ?ret \<and> r = Returned v \<and>
      computes env symtab prog lo fp i (i + length c1) ?need m m' (\<lambda>R. case v of None \<Rightarrow> True | Some w \<Rightarrow> R 1 = w)"
  proof (cases e)
    case None
    with h(1,4) show ?thesis
      by (auto intro: computes_start)
  next
    case (Some d)
    with h(4) have na: "\<not> is_aggregate (node_ty d)" and "\<exists>v. r = Returned (Some v) \<and> eval ?x d m = Some (v, m')"
      by (auto simp: bind_eq_Some_conv split: if_splits)
    then obtain v where v: "r = Returned (Some v)" "eval ?x d m = Some (v, m')"
      by blast
    from h(1) Some na obtain c1 where c: "gen_expr g d n = Some (c1, n')" "c = c1 @ ?ret"
      by (auto simp: bind_eq_Some_conv)
    have "computes env symtab prog lo fp i (i + length c1) ?need m m' (\<lambda>R. R 1 = v)"
      using value_okD [OF conjunct1 [OF nodes_ok [OF p d]] c(1) _ _ v(2)] at_append [of prog i c1 ?ret] h(2,3) c(2) Some by simp
    with c(2) v(1) show ?thesis by auto
  qed
  then obtain c1 v where c: "c = c1 @ ?ret" "r = Returned v" and
      run: "computes env symtab prog lo fp i (i + length c1) ?need m m' (\<lambda>R. case v of None \<Rightarrow> True | Some w \<Rightarrow> R 1 = w)"
    by blast
  have a: "at prog (i + length c1) [Raw (''    ;'' @ '' return'')]" "at prog (Suc (i + length c1)) epilogue"
    using at_append [of prog "i + length c1" "[Raw ''    ; return'']" epilogue] at_append [of prog i c1 ?ret] h(2) c(1) by simp_all
  from computes_comment [OF run a(1)] a(2) c(2)
  show "reaches env symtab prog lo fp brk cont i (i + length c) ?need m m' r"
    by (auto simp: reaches_def)
qed

lemma if_stmt_ok:
  assumes p: "plain env" and d: "distinct (labels_of prog)" and a: "stmts_ok env symtab prog lo fp g f a"
    and b: "\<And>ss. b = Some ss \<Longrightarrow> stmts_ok env symtab prog lo fp g f ss"
  shows "stmt_ok env symtab prog lo fp g f (If e a b)"
proof (rule stmt_okI)
  fix brk cont n c n' i m r m'
  let ?x = "fits env symtab lo fp" and ?need = "stmt_need (If e a b)" and ?l = "new_label n" and ?l' = "new_label (n + 1)"
  assume h: "gen_stmt g brk cont (If e a b) n = Some (c, n')" "at prog i c" "assembles symtab c" "exec ?x f (If e a b) m = Some (r, m')"
  from h(1) obtain c1 n1 c2 n2 where c: "branch_zero g e ?l True (n + 2) = Some (c1, n1)" "gen_stmts g brk cont a n1 = Some (c2, n2)"
      "(case b of None \<Rightarrow> c = c1 @ c2 @ [Lab ?l]
        | Some ss \<Rightarrow> \<exists>c3. gen_stmts g brk cont ss n2 = Some (c3, n') \<and> c = c1 @ c2 @ ([jump_to ?l'] @ ([Lab ?l] @ (c3 @ [Lab ?l']))))"
    by (fastforce simp: bind_eq_Some_conv split: option.splits)
  from h(4) obtain v m1 where e: "eval ?x e m = Some (v, m1)"
      "(if v \<noteq> 0 then execs ?x f a m1 else (case b of None \<Rightarrow> Some (Done, m1) | Some ss \<Rightarrow> execs ?x f ss m1)) = Some (r, m')"
    by (auto simp: bind_eq_Some_conv)
  let ?j1 = "i + length c1" and ?j2 = "i + length c1 + length c2"
  obtain c0 where c0: "c = c1 @ c2 @ c0"
    using c(3) by (auto split: option.splits)
  note a1 = at_append [OF h(2) [unfolded c0]]
  note a2 = at_append [OF conjunct2 [OF a1]]
  have ok: "assembles symtab c1" "assembles symtab c2"
    using h(3) c0 by simp_all
  have then_ok: "reaches env symtab prog lo fp brk cont ?j1 ?j2 ?need m1 m' r" if "v \<noteq> 0"
    using e(2) that by (intro stmts_okD [OF a c(2) conjunct1 [OF a2] ok(2)]) simp_all
  show "reaches env symtab prog lo fp brk cont i (i + length c) ?need m m' r"
  proof (cases b)
    case None
    with c(3) c0 have c': "c0 = [Lab ?l]" by simp
    have l: "label_index prog ?l = Some ?j2"
      using label_index_at [OF d] at_Cons [OF conjunct2 [OF a2, unfolded c']] by blast
    have t: "computes env symtab prog lo fp i (if v = 0 then ?j2 else ?j1) ?need m m1 (\<lambda>_. True)"
      by (rule computes_zero [OF p d c(1) conjunct1 [OF a1] ok(1) e(1) l]) simp
    have "reaches env symtab prog lo fp brk cont i ?j2 ?need m m' r"
    proof (cases "v = 0")
      case True
      with t e(2) None show ?thesis by simp
    next
      case False
      with t then_ok show ?thesis using computes_reaches by fastforce
    qed
    from reaches_label [OF this conjunct2 [OF a2, unfolded c']] show ?thesis
      by (simp add: c0 c' add.assoc)
  next
    case (Some ss)
    with c(3) c0 obtain c3 where c3: "gen_stmts g brk cont ss n2 = Some (c3, n')" and c': "c0 = [jump_to ?l'] @ ([Lab ?l] @ (c3 @ [Lab ?l']))"
      by auto
    let ?j3 = "i + length c1 + length c2 + 1" and ?j4 = "i + length c1 + length c2 + 1 + 1"
    let ?j5 = "i + length c1 + length c2 + 1 + 1 + length c3"
    note a3 = at_append [OF conjunct2 [OF a2, unfolded c']]
    note a4 = at_append [OF conjunct2 [OF a3]]
    note a5 = at_append [OF conjunct2 [OF a4]]
    have one: "length [x] = 1" for x :: asm_line by simp
    have at': "at prog ?j2 [jump_to ?l']" "at prog ?j3 [Lab ?l]" "at prog ?j4 c3" "at prog ?j5 [Lab ?l']"
      using a3 a4 a5 by (simp_all only: one)
    have l: "label_index prog ?l = Some ?j3" "label_index prog ?l' = Some ?j5"
      using label_index_at [OF d] at_Cons [OF at'(2)] at_Cons [OF at'(4)] by blast+
    have t: "computes env symtab prog lo fp i (if v = 0 then ?j3 else ?j1) ?need m m1 (\<lambda>_. True)"
      by (rule computes_zero [OF p d c(1) conjunct1 [OF a1] ok(1) e(1) l(1)]) simp
    have r: "reaches env symtab prog lo fp brk cont i ?j5 ?need m m' r"
    proof (cases "v = 0")
      case True
      with t have "computes env symtab prog lo fp i (Suc ?j3) ?need m m1 (\<lambda>_. True)"
        using computes_label [OF _ at'(2)] by simp
      moreover have "assembles symtab c3" "execs ?x f ss m1 = Some (r, m')"
        using h(3) c0 c' e(2) True Some by simp_all
      then have "reaches env symtab prog lo fp brk cont ?j4 ?j5 ?need m1 m' r"
        using Some by (intro stmts_okD [OF b [OF Some] c3 at'(3)]) simp_all
      ultimately show ?thesis using computes_reaches by fastforce
    next
      case False
      with t then_ok have r2: "reaches env symtab prog lo fp brk cont i ?j2 ?need m m' r"
        using computes_reaches by fastforce
      then show ?thesis
        using computes_jump [OF _ at'(1) [unfolded jump_to_def] l(2)] by (cases r) (auto simp: reaches_def)
    qed
    have len: "i + length c = Suc ?j5"
      by (simp add: c0 c')
    show ?thesis
      unfolding len by (rule reaches_label [OF r at'(4)])
  qed
qed


fun ats :: "asm_line list \<Rightarrow> nat \<Rightarrow> asm_line list list \<Rightarrow> bool" where
  "ats prog i [] = True"
| "ats prog i (c # cs) = (at prog i c \<and> ats prog (i + length c) cs)"

lemma ats_concat: "at prog i (concat cs) \<Longrightarrow> ats prog i cs"
  by (induction cs arbitrary: i) (auto dest: at_append)

lemma computes_head:
  assumes "at prog i [Lab l]" and "at prog (Suc i) [poll_label k]"
  shows "computes env symtab prog lo fp i (Suc (Suc i)) need m m (\<lambda>_. True)"
  using computes_label [OF computes_label [OF computes_start assms(1)] assms(2) [unfolded poll_label_def]] .

lemma label_here: "distinct (labels_of prog) \<Longrightarrow> at prog i [Lab l] \<Longrightarrow> label_index prog l = Some i"
  using label_index_at at_Cons by blast

lemma while_stmt_ok:
  assumes p: "plain env" and d: "distinct (labels_of prog)" and b: "\<And>f'. f' < f \<Longrightarrow> stmts_ok env symtab prog lo fp g f' ss"
  shows "stmt_ok env symtab prog lo fp g f (While e ss)"
proof (rule stmt_okI)
  fix brk cont n c n' i m r m'
  let ?x = "fits env symtab lo fp" and ?need = "stmt_need (While e ss)" and ?l0 = "new_label n" and ?le = "new_label (n + 1)"
  assume h: "gen_stmt g brk cont (While e ss) n = Some (c, n')" "at prog i c" "assembles symtab c" "exec ?x f (While e ss) m = Some (r, m')"
  from h(1) obtain c1 n1 c2 where c: "branch_zero g e ?le True (n + 3) = Some (c1, n1)" "gen_stmts g (?le # brk) (?l0 # cont) ss n1 = Some (c2, n')"
      "c = concat [[Lab ?l0], [poll_label (n + 2)], c1, c2, [jump_to ?l0], [Lab ?le]]"
    by (auto simp: bind_eq_Some_conv split: if_splits)
  let ?b = "Suc (Suc i) + length c1" and ?b' = "Suc (Suc i) + length c1 + length c2"
  have a: "at prog i [Lab ?l0]" "at prog (Suc i) [poll_label (n + 2)]" "at prog (Suc (Suc i)) c1" "at prog ?b c2" "at prog ?b' [jump_to ?l0]"
      "at prog (Suc ?b') [Lab ?le]"
    using ats_concat [OF h(2) [unfolded c(3)]] by simp_all
  have ok: "assembles symtab c1" "assembles symtab c2"
    using h(3) c(3) by simp_all
  note l = label_here [OF d a(1)] label_here [OF d a(6)]
  have head: "computes env symtab prog lo fp i (if v = 0 then Suc ?b' else ?b) ?need m m1 (\<lambda>_. True)"
    if "eval_opt ?x (Some e) m = Some (v, m1)" for v m m1
    using that by (intro computes_seq [OF computes_head [OF a(1,2)] computes_zero [OF p d c(1) a(3) ok(1) _ l(2)]])
      (simp_all add: eval_opt_def)
  have body: "reaches env symtab prog lo fp (?le # brk) (?l0 # cont) ?b ?b' ?need m m1 r"
    if "f' < f" "execs ?x f' ss m = Some (r, m1)" for f' m r m1
    by (rule stmts_okD [OF b [OF that(1)] c(2) a(4) ok(2) that(2)]) simp
  have again: "computes env symtab prog lo fp ?b' i ?need m m1 (\<lambda>_. True) \<and> computes env symtab prog lo fp i i ?need m m1 (\<lambda>_. True)"
    if "eval_opt ?x None m = Some (w, m1)" for w m m1
  proof -
    have m: "m1 = m" using that by (simp add: eval_opt_def)
    show ?thesis
      unfolding m by (rule conjI [OF computes_jump [OF computes_start a(5) [unfolded jump_to_def] l(1)] computes_start])
  qed
  have "loop ?x f (Some e) None ss m = Some (r, m')"
    using h(4) by simp
  then have "reaches env symtab prog lo fp brk cont i (Suc (Suc ?b')) ?need m m' r"
    using head body again l(2) a(6) l(1) by (intro loop_reaches [where b = ?b and b' = ?b' and k = "Suc ?b'" and kc = i])
  then show "reaches env symtab prog lo fp brk cont i (i + length c) ?need m m' r"
    by (simp add: c(3) add.assoc)
qed

lemma for_stmt_ok:
  assumes p: "plain env" and d: "distinct (labels_of prog)" and b: "\<And>f'. f' < f \<Longrightarrow> stmts_ok env symtab prog lo fp g f' ss"
    and init: "stmts_ok env symtab prog lo fp g f is"
  shows "stmt_ok env symtab prog lo fp g f (For is e u ss)"
proof (rule stmt_okI)
  fix brk cont n c n' i m r m'
  let ?x = "fits env symtab lo fp" and ?need = "stmt_need (For is e u ss)"
  let ?l0 = "new_label n" and ?lc = "new_label (n + 1)" and ?le = "new_label (n + 2)"
  assume h: "gen_stmt g brk cont (For is e u ss) n = Some (c, n')" "at prog i c" "assembles symtab c" "exec ?x f (For is e u ss) m = Some (r, m')"
  from h(1) obtain c1 n1 c2 n2 c3 n3 c4 where c: "gen_stmts g brk cont is (n + 3) = Some (c1, n1)"
      "(case e of None \<Rightarrow> Some ([], n1 + 1) | Some d \<Rightarrow> branch_zero g d ?le True (n1 + 1)) = Some (c2, n2)"
      "gen_stmts g (?le # brk) (?lc # cont) ss n2 = Some (c3, n3)"
      "(case u of None \<Rightarrow> Some ([], n3) | Some d \<Rightarrow> gen_expr g d n3) = Some (c4, n')"
      "c = concat [c1, [Lab ?l0], [poll_label n1], c2, c3, [Lab ?lc], c4, [jump_to ?l0], [Lab ?le]]"
    by (fastforce simp: bind_eq_Some_conv split: if_splits)
  let ?i0 = "i + length c1"
  let ?b = "Suc (Suc ?i0) + length c2" and ?b' = "Suc (Suc ?i0) + length c2 + length c3"
  let ?k = "Suc (Suc (Suc ?i0) + length c2 + length c3 + length c4)"
  have a: "at prog i c1" "at prog ?i0 [Lab ?l0]" "at prog (Suc ?i0) [poll_label n1]" "at prog (Suc (Suc ?i0)) c2" "at prog ?b c3"
      "at prog ?b' [Lab ?lc]" "at prog (Suc ?b') c4" "at prog ?k [jump_to ?l0]" "at prog (Suc ?k) [Lab ?le]"
    using ats_concat [OF h(2) [unfolded c(5)]] by simp_all
  have ok: "assembles symtab c1" "assembles symtab c2" "assembles symtab c3" "assembles symtab c4"
    using h(3) c(5) by simp_all
  note l = label_here [OF d a(2)] label_here [OF d a(6)] label_here [OF d a(9)]
  from h(4) obtain m0 where e: "execs ?x f is m = Some (Done, m0)" "loop ?x f e u ss m0 = Some (r, m')"
    by (auto simp: bind_eq_Some_conv split: if_splits)
  have first: "computes env symtab prog lo fp i ?i0 ?need m m0 (\<lambda>_. True)"
    using stmts_okD [OF init c(1) a(1) ok(1) e(1), of ?need] by simp
  have head: "computes env symtab prog lo fp ?i0 (if v = 0 then Suc ?k else ?b) ?need m m1 (\<lambda>_. True)"
    if "eval_opt ?x e m = Some (v, m1)" for v m m1
  proof (cases e)
    case None
    with that c(2) computes_head [OF a(2,3)] show ?thesis by (auto simp: eval_opt_def)
  next
    case (Some d')
    with that c(2) show ?thesis
      by (intro computes_seq [OF computes_head [OF a(2,3)] computes_zero [OF p d _ a(4) ok(2) _ l(3)]])
        (auto simp: eval_opt_def)
  qed
  have body: "reaches env symtab prog lo fp (?le # brk) (?lc # cont) ?b ?b' ?need m m1 r"
    if "f' < f" "execs ?x f' ss m = Some (r, m1)" for f' m r m1
    by (rule stmts_okD [OF b [OF that(1)] c(3) a(5) ok(3) that(2)]) simp
  have again: "computes env symtab prog lo fp ?b' ?i0 ?need m m1 (\<lambda>_. True) \<and> computes env symtab prog lo fp ?b' ?i0 ?need m m1 (\<lambda>_. True)"
    if w: "eval_opt ?x u m = Some (w, m1)" for w m m1
  proof -
    have "computes env symtab prog lo fp (Suc ?b') ?k ?need m m1 (\<lambda>_. True)"
    proof (cases u)
      case None
      with w c(4) show ?thesis by (auto simp: eval_opt_def intro: computes_weaken [OF computes_start])
    next
      case (Some d')
      with c(4) w have g: "gen_expr g d' n3 = Some (c4, n')" and ev: "eval ?x d' m = Some (w, m1)"
        by (simp_all add: eval_opt_def)
      have "computes env symtab prog lo fp (Suc ?b') (Suc ?b' + length c4) ?need m m1 (\<lambda>R. R 1 = w)"
        by (rule value_okD [OF conjunct1 [OF nodes_ok [OF p d]] g a(7) ok(4) ev]) (simp add: Some)
      then show ?thesis
        by (rule computes_weaken [where P = "\<lambda>R. R 1 = w", THEN back_subst [of "\<lambda>k. computes env symtab prog lo fp (Suc ?b') k ?need m m1 (\<lambda>_. True)"]]) simp_all
    qed
    from computes_jump [OF computes_seq [OF computes_label [OF computes_start a(6)] this] a(8) [unfolded jump_to_def] l(1)]
    show ?thesis by simp
  qed
  have "reaches env symtab prog lo fp brk cont ?i0 (Suc (Suc ?k)) ?need m0 m' r"
    by (rule loop_reaches [where b = ?b and b' = ?b', OF head body again l(3) a(9) l(2) e(2)])
  from computes_reaches [OF first this] show "reaches env symtab prog lo fp brk cont i (i + length c) ?need m m' r"
    by (simp add: c(5) add.assoc)
qed

lemma do_stmt_ok:
  assumes p: "plain env" and d: "distinct (labels_of prog)" and b: "\<And>f'. f' < f \<Longrightarrow> stmts_ok env symtab prog lo fp g f' ss"
  shows "stmt_ok env symtab prog lo fp g f (Do_while ss e)"
proof (rule stmt_okI)
  fix brk cont n c n' i m r m'
  let ?x = "fits env symtab lo fp" and ?need = "stmt_need (Do_while ss e)"
  let ?l0 = "new_label n" and ?lc = "new_label (n + 1)" and ?le = "new_label (n + 2)"
  assume h: "gen_stmt g brk cont (Do_while ss e) n = Some (c, n')" "at prog i c" "assembles symtab c" "exec ?x f (Do_while ss e) m = Some (r, m')"
  from h(1) obtain c1 n1 c2 where c: "gen_stmts g (?le # brk) (?lc # cont) ss (n + 4) = Some (c1, n1)" "branch_zero g e ?le True n1 = Some (c2, n')"
      "c = concat [[Lab ?l0], [poll_label (n + 3)], c1, [Lab ?lc], c2, [jump_to ?l0], [Lab ?le]]"
    by (auto simp: bind_eq_Some_conv split: if_splits)
  let ?b = "Suc (Suc i)" and ?b' = "Suc (Suc i) + length c1" and ?k = "Suc (Suc (Suc i) + length c1 + length c2)"
  have a: "at prog i [Lab ?l0]" "at prog (Suc i) [poll_label (n + 3)]" "at prog ?b c1" "at prog ?b' [Lab ?lc]" "at prog (Suc ?b') c2"
      "at prog ?k [jump_to ?l0]" "at prog (Suc ?k) [Lab ?le]"
    using ats_concat [OF h(2) [unfolded c(3)]] by simp_all
  have ok: "assembles symtab c1" "assembles symtab c2"
    using h(3) c(3) by simp_all
  note l = label_here [OF d a(1)] label_here [OF d a(4)] label_here [OF d a(7)]
  have body: "reaches env symtab prog lo fp (?le # brk) (?lc # cont) ?b ?b' ?need m m1 r"
    if "f' < f" "execs ?x f' ss m = Some (r, m1)" for f' m r m1
    by (rule stmts_okD [OF b [OF that(1)] c(1) a(3) ok(1) that(2)]) simp
  have again: "computes env symtab prog lo fp ?b' (if v = 0 then Suc ?k else i) ?need m m1 (\<lambda>_. True)"
    if "eval ?x e m = Some (v, m1)" for v m m1
  proof -
    have "computes env symtab prog lo fp (Suc ?b') (if v = 0 then Suc ?k else Suc ?b' + length c2) ?need m m1 (\<lambda>_. True)"
      by (rule computes_zero [OF p d c(2) a(5) ok(2) that l(3)]) simp
    from computes_seq [OF computes_label [OF computes_start a(4)] this]
    have t: "computes env symtab prog lo fp ?b' (if v = 0 then Suc ?k else ?k) ?need m m1 (\<lambda>_. True)"
      by (cases "v = 0") simp_all
    show ?thesis
    proof (cases "v = 0")
      case False
      with t computes_jump [OF _ a(6) [unfolded jump_to_def] l(1)] show ?thesis by simp
    qed (use t in simp)
  qed
  have "do_loop ?x f e ss m = Some (r, m')"
    using h(4) by simp
  then have "reaches env symtab prog lo fp brk cont i (Suc (Suc ?k)) ?need m m' r"
    using computes_head [OF a(1,2)] body again l(3) a(7) l(2) by (intro do_loop_reaches [where b = ?b and b' = ?b' and k = "Suc ?k"])
  then show "reaches env symtab prog lo fp brk cont i (i + length c) ?need m m' r"
    by (simp add: c(3) add.assoc)
qed

end
