(* ===== verification/Codegen_Switch.thy ===== *)
theory Codegen_Switch
  imports Codegen_Stmt
begin

text \<open>
  The code of a \<^verbatim>\<open>switch\<close> goes to the case of its value, and the code of every list of statements
  does what the statements mean.
\<close>

section \<open>Switches\<close>

lemma gen_stmts_append:
  "gen_stmts g brk cont (xs @ ys) n =
     do { (c1, n1) \<leftarrow> gen_stmts g brk cont xs n; (c2, n2) \<leftarrow> gen_stmts g brk cont ys n1; Some (c1 @ c2, n2) }"
  by (induction xs arbitrary: n) (auto simp: split_def intro!: Option.bind_cong split: Option.bind_split)

lemma switch_default_rev:
  "switch_default l cs = (case find (\<lambda>(c, k). c = None) (rev cs) of None \<Rightarrow> l | Some (c, k) \<Rightarrow> user_label k)"
proof -
  have app: "find P (xs @ ys) = (case find P xs of None \<Rightarrow> find P ys | Some x \<Rightarrow> Some x)" for P and xs ys :: "(int option \<times> int) list"
    by (induction xs) auto
  show ?thesis
    by (induction l cs rule: switch_default.induct) (auto simp: app split: option.splits)
qed

definition case_of :: "u32 \<Rightarrow> (int option \<times> int) list \<Rightarrow> (int option \<times> int) option" where
  "case_of v cs = find (\<lambda>(c, k). case c of Some w \<Rightarrow> of_int w = v | None \<Rightarrow> False) cs"

lemma load_slot:
  assumes p: "plain env" and c: "computes env symtab prog lo fp i j need m m1 P"
    and a: "at prog j [switch_slot off, Ins ''load_32'' [R 1, Mem 9]]" and off: "in16 off"
    and d: "data_at (fits env symtab lo fp) 4 (fp - of_int off)"
  shows "computes env symtab prog lo fp i (j + 2) need m m1 (\<lambda>R. R 1 = rd32 m1 (ucast (fp - of_int off)))"
proof -
  have lo: "unat lo \<le> unat (fp - of_int off)" "in_buffer (ram_size env) 4 (fp - of_int off)"
    using d by (simp_all add: data_at_def)
  have "computes env symtab prog lo fp i (j + length [switch_slot off, Ins ''load_32'' [R 1, Mem 9]]) need m m1
      (\<lambda>R. R 1 = rd32 m1 (ucast (fp - of_int off)))"
    by (rule computes_lines [OF c a])
      (use off lo same_loads(3) run_mem_line(3) [OF p] in \<open>auto simp: switch_slot_def run_simps stack_ok_def\<close>)
  then show ?thesis by (simp add: eval_nat_numeral)
qed

lemma switch_chain_computes:
  assumes p: "plain env" and d: "data_at (fits env symtab lo fp) 4 (fp - of_int off)"
    and v: "rd32 m1 (ucast (fp - of_int off)) = v"
  shows "switch_chain off cs = Some c \<Longrightarrow> at prog j c \<Longrightarrow> assembles symtab c \<Longrightarrow>
    (\<And>w k. case_of v cs = Some (w, k) \<Longrightarrow> label_index prog (user_label k) = Some t) \<Longrightarrow>
    computes env symtab prog lo fp i j need m m1 (\<lambda>_. True) \<Longrightarrow>
    computes env symtab prog lo fp i (if case_of v cs = None then j + length c else t) need m m1 (\<lambda>_. True)"
proof (induction cs arbitrary: c j)
  case Nil
  then show ?case by (simp add: case_of_def)
next
  case (Cons x cs)
  obtain cv k where x: "x = (cv, k)" by (cases x)
  show ?case
  proof (cases cv)
    case None
    with Cons x show ?thesis by (simp add: case_of_def)
  next
    case (Some w)
    with x Cons.prems(1) obtain c1 c2 where c: "gen_num_reg 2 w = Some c1" "switch_chain off cs = Some c2"
        "c = concat [[switch_slot off, Ins ''load_32'' [R 1, Mem 9]], c1, [Ins ''cmp'' [R 1, R 2], Ins ''je'' [Sym (user_label k)]], c2]"
      by (auto simp: bind_eq_Some_conv)
    let ?j1 = "j + 2" and ?j2 = "j + 2 + length c1" and ?j3 = "j + 2 + length c1 + 2"
    have a: "at prog j [switch_slot off, Ins ''load_32'' [R 1, Mem 9]]" "at prog ?j1 c1"
        "at prog ?j2 [Ins ''cmp'' [R 1, R 2], Ins ''je'' [Sym (user_label k)]]" "at prog ?j3 c2"
      using ats_concat [OF Cons.prems(2) [unfolded c(3)]] by simp_all
    have ok: "in16 off" "assembles symtab c2"
      using Cons.prems(3) c(3) by (simp_all add: switch_slot_def line_ok_def)
    have "computes env symtab prog lo fp i ?j1 need m m1 (\<lambda>R. R 1 = v)"
      using load_slot [OF p Cons.prems(5) a(1) ok(1) d] v by simp
    then have both: "computes env symtab prog lo fp i ?j2 need m m1 (\<lambda>R. R 1 = v \<and> R 2 = of_int w)"
      by (rule computes_num [OF _ a(2) c(1)]) simp_all
    show ?thesis
    proof (cases "of_int w = v")
      case True
      then have "case_of v (x # cs) = Some (cv, k)"
        using x Some by (simp add: case_of_def)
      moreover from this have l: "label_index prog (user_label k) = Some t"
        by (rule Cons.prems(4))
      ultimately show ?thesis
        using computes_branch [OF both a(3) jump_tests(1) l, of True] True by (auto elim: computes_weaken)
    next
      case False
      then have e: "case_of v (x # cs) = case_of v cs"
        using x Some by (simp add: case_of_def)
      have "computes env symtab prog lo fp i ?j3 need m m1 (\<lambda>_. True)"
        using computes_branch [OF both a(3) jump_tests(1), of False] False by (auto elim: computes_weaken)
      moreover have "j + length c = ?j3 + length c2"
        by (simp add: c(3))
      ultimately show ?thesis
        unfolding e using Cons.prems(4) [unfolded e] Cons.IH [OF c(2) a(4) ok(2)] by metis
    qed
  qed
qed

text \<open>Where the chain and the jump behind it go.\<close>

lemma case_target_label:
  "case_target v cs = (case case_of v cs of Some (w, k) \<Rightarrow> Some k | None \<Rightarrow> map_option snd (find (\<lambda>(c, k). c = None) (rev cs)))"
  by (simp add: case_target_def case_of_def)

lemma switch_dispatch:
  assumes p: "plain env" and d: "data_at (fits env symtab lo fp) 4 (fp - of_int off)"
    and v: "rd32 m1 (ucast (fp - of_int off)) = v"
    and g: "switch_chain off cs = Some c" and a: "at prog j (c @ [jump_to (switch_default l cs)])" and ok: "assembles symtab c"
    and t: "label_index prog (case case_target v cs of None \<Rightarrow> l | Some k \<Rightarrow> user_label k) = Some t"
    and c: "computes env symtab prog lo fp i j need m m1 (\<lambda>_. True)"
  shows "computes env symtab prog lo fp i t need m m1 (\<lambda>_. True)"
proof -
  note a' = at_append [OF a]
  have chain: "computes env symtab prog lo fp i (if case_of v cs = None then j + length c else t) need m m1 (\<lambda>_. True)"
    using t by (intro switch_chain_computes [OF p d v g conjunct1 [OF a'] ok _ c]) (simp add: case_target_label)
  show ?thesis
  proof (cases "case_of v cs")
    case None
    with t have "label_index prog (switch_default l cs) = Some t"
      by (auto simp: case_target_label switch_default_rev split: option.splits)
    moreover have "computes env symtab prog lo fp i (j + length c) need m m1 (\<lambda>_. True)"
      using chain None by simp
    ultimately show ?thesis
      using computes_jump [OF _ conjunct2 [OF a', unfolded jump_to_def]] by blast
  next
    case (Some a)
    with chain show ?thesis by simp
  qed
qed

lemma stmts_need_append: "stmts_need (xs @ ys) = max (stmts_need xs) (stmts_need ys)"
  by (induction xs) auto

lemma target_label: "is_target k s \<Longrightarrow> gen_stmt g brk cont s n = Some ([Lab (user_label k)], n)"
  by (cases s) auto

lemma switch_stmt_ok:
  assumes p: "plain env" and d: "distinct (labels_of prog)" and b: "\<And>s. s \<in> set ss \<Longrightarrow> stmt_ok env symtab prog lo fp g f s"
  shows "stmt_ok env symtab prog lo fp g f (Switch e off cs ss)"
proof (rule stmt_okI)
  fix brk cont n c n' i m r m'
  let ?x = "fits env symtab lo fp" and ?need = "stmt_need (Switch e off cs ss)" and ?l = "new_label n" and ?a = "fp - of_int off"
  assume h: "gen_stmt g brk cont (Switch e off cs ss) n = Some (c, n')" "at prog i c" "assembles symtab c"
    "exec ?x f (Switch e off cs ss) m = Some (r, m')"
  from h(4) obtain v m1 where e: "eval ?x e m = Some (v, m1)" "data_at ?x 4 ?a" "takeWhile (\<lambda>s. \<not> is_case s) ss = []"
      "(case case_target v cs of
            None \<Rightarrow> Some (Done, wr32 (ucast ?a) v m1)
          | Some k \<Rightarrow>
              if list_all (\<lambda>s. \<not> is_target k s) ss then None
              else do { (r, m3) \<leftarrow> execs ?x f (dropWhile (\<lambda>s. \<not> is_target k s) ss) (wr32 (ucast ?a) v m1); Some (leave_loop r, m3) })
        = Some (r, m')"
    by (auto simp: bind_eq_Some_conv Let_def split: if_splits)
  let ?m2 = "wr32 (ucast ?a) v m1"
  have all: "dropWhile (\<lambda>s. \<not> is_case s) ss = ss"
    using e(3) takeWhile_dropWhile_id [of "\<lambda>s. \<not> is_case s" ss] by simp
  from h(1) e(3) obtain c1 n1 c3 c4 where c: "gen_expr g e (n + 1) = Some (c1, n1)" "switch_chain off cs = Some c3"
      "gen_stmts g (?l # brk) cont ss n1 = Some (c4, n')"
      "c = concat [c1, [switch_slot off, Ins ''store_32'' [Mem 9, R 1]], c3 @ [jump_to (switch_default ?l cs)], c4, [Lab ?l]]"
    by (auto simp: bind_eq_Some_conv all split: if_splits)
  let ?j1 = "i + length c1" and ?j2 = "i + length c1 + 2" and ?j3 = "i + length c1 + 2 + (length c3 + 1)"
  let ?j4 = "i + length c1 + 2 + (length c3 + 1) + length c4"
  have a: "at prog i c1" "at prog ?j1 [switch_slot off, Ins ''store_32'' [Mem 9, R 1]]" "at prog ?j2 (c3 @ [jump_to (switch_default ?l cs)])"
      "at prog ?j3 c4" "at prog ?j4 [Lab ?l]"
    using ats_concat [OF h(2) [unfolded c(4)]] by (simp_all add: eval_nat_numeral)
  have ok: "assembles symtab c1" "assembles symtab c3" "assembles symtab c4" "in16 off"
    using h(3) c(4) by (simp_all add: switch_slot_def line_ok_def)
  have lo: "unat lo \<le> unat ?a" "in_buffer (ram_size env) 4 ?a"
    using e(2) by (simp_all add: data_at_def)
  have "computes env symtab prog lo fp i ?j1 ?need m m1 (\<lambda>R. R 1 = v)"
    by (rule value_okD [OF conjunct1 [OF nodes_ok [OF p d]] c(1) a(1) ok(1) e(1)]) simp
  then have "computes env symtab prog lo fp i (?j1 + length [switch_slot off, Ins ''store_32'' [Mem 9, R 1]]) ?need m ?m2 (\<lambda>_. True)"
    by (rule computes_lines [OF _ a(2)])
      (use ok(4) lo same_stores(3) store_above(3) [OF lo(1)] run_mem_line(6) [OF p] in \<open>auto simp: switch_slot_def run_simps stack_ok_def\<close>)
  then have stored: "computes env symtab prog lo fp i ?j2 ?need m ?m2 (\<lambda>_. True)"
    by (simp add: eval_nat_numeral)
  note go = switch_dispatch [OF p e(2) _ c(2) a(3) ok(2) _ stored, of v]
  have l: "label_index prog ?l = Some ?j4"
    by (rule label_here [OF d a(5)])
  have "reaches env symtab prog lo fp brk cont i (Suc ?j4) ?need m m' r"
  proof (cases "case_target v cs")
    case None
    then show ?thesis
      using go [of ?j4] l computes_label [OF _ a(5)] e(4) by simp
  next
    case (Some k)
    let ?P = "\<lambda>s. \<not> is_target k s"
    from e(4) Some obtain r3 m3 where r: "\<not> list_all ?P ss" "execs ?x f (dropWhile ?P ss) ?m2 = Some (r3, m3)" "r = leave_loop r3" "m' = m3"
      by (auto simp: bind_eq_Some_conv split: if_splits)
    then obtain s rest where dr: "dropWhile ?P ss = s # rest"
      by (cases "dropWhile ?P ss") (auto simp: list_all_iff dropWhile_eq_Nil_conv)
    then have sr: "dropWhile ?P ss = s # rest" "is_target k s"
      by (simp_all add: dropWhile_eq_Cons_conv)
    from c(3) have "gen_stmts g (?l # brk) cont (takeWhile ?P ss @ s # rest) n1 = Some (c4, n')"
      using sr(1) takeWhile_dropWhile_id [of ?P ss] by simp
    then obtain c5 n5 c6 where c5: "gen_stmts g (?l # brk) cont (takeWhile ?P ss) n1 = Some (c5, n5)"
        "gen_stmts g (?l # brk) cont (s # rest) n5 = Some (c6, n')" "c4 = c5 @ c6"
      unfolding gen_stmts_append by (auto simp: bind_eq_Some_conv simp del: gen_stmts.simps)
    let ?t = "?j3 + length c5"
    have a6: "at prog ?t c6"
      using at_append [OF a(4) [unfolded c5(3)]] by simp
    have "\<exists>c7. c6 = [Lab (user_label k)] @ c7"
      using c5(2) target_label [OF sr(2)] by (auto simp: bind_eq_Some_conv)
    then have t: "label_index prog (user_label k) = Some ?t"
      using a6 at_append label_here [OF d] by metis
    have "computes env symtab prog lo fp i ?t ?need m ?m2 (\<lambda>_. True)"
      by (rule go) (simp_all add: Some t)
    moreover have sub: "stmts_ok env symtab prog lo fp g f (s # rest)"
      using b sr(1) by (intro stmts_ok_list) (metis set_dropWhileD)
    have "stmts_need (s # rest) \<le> stmts_need ss"
      using stmts_need_append [of "takeWhile ?P ss" "s # rest"] sr(1) takeWhile_dropWhile_id [of ?P ss] by simp
    then have "stmts_need (s # rest) \<le> ?need"
      by (rule order_trans) simp
    then have "reaches env symtab prog lo fp (?l # brk) cont ?t (?t + length c6) ?need ?m2 m3 r3"
      using r(2) sr(1) ok(3) c5(3) by (intro stmts_okD [OF sub c5(2) a6]) (simp_all del: execs.simps)
    ultimately have r3: "reaches env symtab prog lo fp (?l # brk) cont i ?j4 ?need m m3 r3"
      using computes_reaches by (fastforce simp: c5(3) add.assoc)
    show ?thesis
    proof (cases "r3 = Done \<or> r3 = Continued")
      case True
      with r3 r(3,4) computes_label [OF _ a(5)] show ?thesis by (auto simp: reaches_def leave_loop_def)
    next
      case False
      with r(3,4) reaches_leave [OF _ _ r3 l refl a(5)] show ?thesis by simp
    qed
  qed
  then show "reaches env symtab prog lo fp brk cont i (i + length c) ?need m m' r"
    by (simp add: c(4) add.assoc)
qed

section \<open>All statements\<close>

lemma label_stmt_ok:
  assumes "stmts_ok env symtab prog lo fp g f ss"
  shows "stmt_ok env symtab prog lo fp g f (Label k ss)"
proof (rule stmt_okI)
  fix brk cont n c n' i m r m'
  assume h: "gen_stmt g brk cont (Label k ss) n = Some (c, n')" "at prog i c" "assembles symtab c"
    "exec (fits env symtab lo fp) f (Label k ss) m = Some (r, m')"
  then obtain c1 where c: "gen_stmts g brk cont ss n = Some (c1, n')" "c = [Lab (user_label k)] @ c1"
    by (auto simp: bind_eq_Some_conv)
  note a = at_append [OF h(2) [unfolded c(2)]]
  have a1: "at prog (Suc i) c1" and ok: "assembles symtab c1" and e: "execs (fits env symtab lo fp) f ss m = Some (r, m')"
    using a h(3,4) c(2) by simp_all
  have "reaches env symtab prog lo fp brk cont (Suc i) (Suc i + length c1) (stmt_need (Label k ss)) m m' r"
    by (rule stmts_okD [OF assms c(1) a1 ok e]) simp
  from computes_reaches [OF computes_label [OF computes_start conjunct1 [OF a]] this]
  show "reaches env symtab prog lo fp brk cont i (i + length c) (stmt_need (Label k ss)) m m' r"
    by (simp add: c(2))
qed

lemma jump_stmt_ok: "stmt_ok env symtab prog lo fp g f Break" "stmt_ok env symtab prog lo fp g f stmt.Continue"
proof -
  show "stmt_ok env symtab prog lo fp g f Break"
  proof (rule stmt_okI)
    fix brk cont n c n' i m r m'
    assume h: "gen_stmt g brk cont Break n = Some (c, n')" "at prog i c" "exec (fits env symtab lo fp) f Break m = Some (r, m')"
    then have "brk \<noteq> [] \<and> c = [Ins ''jmp'' [Sym (hd brk)]] \<and> r = Broke \<and> m' = m"
      by (auto simp: jump_to_def split: list.splits)
    with h(2) show "reaches env symtab prog lo fp brk cont i (i + length c) (stmt_need Break) m m' r"
      by (auto simp: reaches_def intro: computes_jump [OF computes_start])
  qed
  show "stmt_ok env symtab prog lo fp g f stmt.Continue"
  proof (rule stmt_okI)
    fix brk cont n c n' i m r m'
    assume h: "gen_stmt g brk cont stmt.Continue n = Some (c, n')" "at prog i c" "exec (fits env symtab lo fp) f stmt.Continue m = Some (r, m')"
    then have "cont \<noteq> [] \<and> c = [Ins ''jmp'' [Sym (hd cont)]] \<and> r = Continued \<and> m' = m"
      by (auto simp: jump_to_def split: list.splits)
    with h(2) show "reaches env symtab prog lo fp brk cont i (i + length c) (stmt_need stmt.Continue) m m' r"
      by (auto simp: reaches_def intro: computes_jump [OF computes_start])
  qed
qed

lemma empty_stmt_ok: "stmt_ok env symtab prog lo fp g f Declaration" "stmt_ok env symtab prog lo fp g f (Goto k)"
  by (auto simp: stmt_ok_def intro: computes_start)

lemma case_stmt_ok: "stmt_ok env symtab prog lo fp g f (Case k)" "stmt_ok env symtab prog lo fp g f (Default k)"
  by (auto simp: stmt_ok_def intro: computes_label [OF computes_start])

lemma all_stmts_ok:
  assumes p: "plain env" and d: "distinct (labels_of prog)"
  shows "stmt_ok env symtab prog lo fp g f s"
proof (induction f arbitrary: s rule: less_induct)
  case (less f)
  have loops: "stmts_ok env symtab prog lo fp g f' ss" if "f' < f" for f' ss
    using less [OF that] stmts_ok_list by blast
  show ?case
  proof (induction s)
    case (Return e)
    show ?case by (rule return_stmt_ok [OF p d])
  next
    case (If e a b)
    then show ?case by (intro if_stmt_ok [OF p d] stmts_ok_list) auto
  next
    case (While e ss)
    show ?case by (rule while_stmt_ok [OF p d loops])
  next
    case (For i e u ss)
    then show ?case by (intro for_stmt_ok [OF p d loops] stmts_ok_list) auto
  next
    case (Do_while ss e)
    show ?case by (rule do_stmt_ok [OF p d loops])
  next
    case (Switch e off cs ss)
    then show ?case by (intro switch_stmt_ok [OF p d]) auto
  next
    case (Label k ss)
    then show ?case by (intro label_stmt_ok stmts_ok_list) auto
  next
    case (Expr e)
    show ?case by (rule expr_stmt_ok [OF p d])
  qed (rule jump_stmt_ok empty_stmt_ok case_stmt_ok)+
qed


text \<open>
  C1: The lines that \<^verbatim>\<open>gen_stmts\<close> writes for the body of a function run to its end when the statements
  end, and to an epilogue with the value in register 1 when they return; the data memory is then what the
  statements make it, and the stack pointer, the frame pointer and the saved part of the stack are unchanged.
\<close>

theorem statements_computed:
  assumes "plain env" and "distinct (labels_of prog)" and "gen_stmts g brk cont ss n = Some (c, n')" and "at prog i c"
    and "assembles symtab c" and "execs (fits env symtab lo fp) fuel ss m = Some (r, m')" and "r \<noteq> Broke" "r \<noteq> Continued"
    and "stack_ok env lo fp st" and "same_from lo (ram st) m" and "stmts_need ss \<le> unat (regs st 14)"
  shows "\<exists>j st'. asm_steps env symtab prog (i, st) (j, st') \<and>
    (case r of Returned v \<Rightarrow> at prog j epilogue \<and> (\<forall>w. v = Some w \<longrightarrow> regs st' 1 = w) | _ \<Rightarrow> j = i + length c) \<and>
    same_from lo (ram st') m' \<and> regs st' 14 = regs st 14 \<and> regs st' 10 = fp \<and>
    same_between (regs st 14) lo (ram st') (ram st)"
proof -
  have "stmts_ok env symtab prog lo fp g fuel ss"
    using all_stmts_ok [OF assms(1,2)] by (rule stmts_ok_list)
  from stmts_okD [OF this assms(3-6) order_refl]
  have "reaches env symtab prog lo fp brk cont i (i + length c) (stmts_need ss) m m' r" .
  then obtain j P where j: "computes env symtab prog lo fp i j (stmts_need ss) m m' P"
      "case r of Returned v \<Rightarrow> at prog j epilogue \<and> (\<forall>w R. v = Some w \<longrightarrow> P R \<longrightarrow> R 1 = w) | _ \<Rightarrow> j = i + length c"
    using assms(7,8) by (cases r) (force simp: reaches_def)+
  from j(1) assms(9-11) obtain st' where "asm_steps env symtab prog (i, st) (j, st')" "P (regs st')" "stack_ok env lo fp st'"
      "regs st' 14 = regs st 14" "same_from lo (ram st') m'" "same_between (regs st 14) lo (ram st') (ram st)"
    unfolding computes_def by blast
  with j(2) show ?thesis
    by (intro exI [of _ j] exI [of _ st']) (auto simp: stack_ok_def split: outcome.splits)
qed

text \<open>A function that counts a local variable down and returns it.\<close>

definition int_ty :: ctype where "int_ty = \<lparr>ty_kind = TY_INT, ty_unsigned = False, ty_size = 4\<rparr>"
definition count_var :: node where "count_var = Var int_ty (-4)"
definition count_down :: "stmt list" where
  "count_down = [Expr (Assign int_ty count_var (Num int_ty 1)),
     While count_var [Expr (Assign int_ty count_var (Bin int_ty SUB 0 count_var (Num int_ty 1)))],
     Return (Some count_var)]"
definition no_globals :: genv where "no_globals = \<lparr>ge_globals = [], ge_d32 = False, ge_nargs = 0, ge_retbuf = 0\<rparr>"

definition count_prog :: "asm_line list" where
  "count_prog = var_addr (-4) @ [push 9, Ins ''mov'' [R 1, N 1], pop 9, Ins ''store_32'' [Mem 9, R 1],
     Lab ''L0'', Lab ''__sp_poll_L2''] @ var_addr (-4) @ [Ins ''load_32'' [R 1, Mem 9]] @ test_zero ''je'' ''L1'' @
     var_addr (-4) @ [push 9, Ins ''mov'' [R 1, N 1], push 1] @ var_addr (-4) @ [Ins ''load_32'' [R 1, Mem 9], pop 2, alu ''sub'',
     pop 9, Ins ''store_32'' [Mem 9, R 1], Ins ''jmp'' [Sym ''L0''], Lab ''L1''] @
     var_addr (-4) @ [Ins ''load_32'' [R 1, Mem 9], Raw ''    ; return''] @ epilogue"

lemma labels: "new_label 0 = ''L0''" "new_label 1 = ''L1''" "new_label 2 = ''L2''" "new_label (Suc 0) = ''L1''" "new_label (Suc (Suc 0)) = ''L2''"
  by (simp_all add: new_label_def show_int_def show_base.simps digit_char_def)

lemma count_prog: "gen_stmts no_globals [] [] count_down 0 = Some (count_prog, 3)"
  by (simp add: count_down_def count_var_def no_globals_def count_prog_def gen_laddr.simps branch_zero_def room_for_def
    gen_num_reg_def load_value_def decays_def int_ty_def gen_load_def gen_store_def is_aggregate_def binary_code_def pointer_scale_def
    labels poll_label_def jump_to_def)

definition count_start :: "unit emu" where
  "count_start = (emu_start ())\<lparr>ram := (\<lambda>_. 0), regs := (\<lambda>_. 0)(14 := 32, 10 := 64)\<rparr>"

lemma count_runs: "\<exists>m. execs (fits demo_env (\<lambda>_. 0) 32 64) (Suc (Suc 0)) count_down (\<lambda>_. 0) = Some (Returned (Some 0), m)"
  by (simp add: count_down_def count_var_def addr_of.simps fetch_def decays_def int_ty_def data_at_def width_def in_buffer_def
    demo_env_def emu_env_of_def load_val_def store_val_def assign_def is_aggregate_def binary_val_def eval_opt_def)

theorem statements_computed_witness:
  "\<exists>j st'. asm_steps demo_env (\<lambda>_. 0) count_prog (0, count_start) (j, st') \<and> at count_prog j epilogue \<and> regs st' 1 = 0"
proof -
  obtain m where m: "execs (fits demo_env (\<lambda>_. 0) 32 64) (Suc (Suc 0)) count_down (\<lambda>_. 0) = Some (Returned (Some 0), m)"
    using count_runs by blast
  have "plain demo_env"
    by (simp add: demo_env_def emu_env_of_def plain_def)
  moreover have "distinct (labels_of count_prog)"
    by (simp add: count_prog_def var_addr_def test_zero_def epilogue_def push_def pop_def mov_def alu_def)
  moreover have "at count_prog 0 count_prog"
    by (auto simp: at_def)
  moreover have "assembles (\<lambda>_. 0) count_prog"
    by (simp add: count_prog_def var_addr_def test_zero_def epilogue_def push_def pop_def mov_def alu_def line_ok_def in16_def)
  moreover have "stack_ok demo_env 32 64 count_start" "same_from 32 (ram count_start) (\<lambda>_. 0)" "stmts_need count_down \<le> unat (regs count_start 14)"
    by (simp_all add: count_start_def stack_ok_def demo_env_def emu_env_of_def emu_start_def count_down_def count_var_def)
  ultimately show ?thesis
    using statements_computed [OF _ _ count_prog _ _ m] by fastforce
qed

text \<open>
  C37: An assignment to a \<^verbatim>\<open>char\<close> stores the low byte of its right side, and its value is the whole right
  side: the value is not converted to the type of the left side as the C language asks.
\<close>

theorem char_assignment_value:
  assumes "plain env" and "distinct (labels_of prog)" and "ty_kind t = TY_CHAR"
    and "gen_expr g (Assign t (Var t off) e) n = Some (c, n')" and "at prog i c" and "assembles symtab c"
    and "eval (fits env symtab lo fp) e m = Some (v, m')" and "data_at (fits env symtab lo fp) 1 (fp + of_int off)"
    and "stack_ok env lo fp st" and "same_from lo (ram st) m" and "4 * size (Assign t (Var t off) e) \<le> unat (regs st 14)"
  shows "\<exists>st'. asm_steps env symtab prog (i, st) (i + length c, st') \<and> regs st' 1 = v \<and>
    ram st' (ucast (fp + of_int off)) = ucast v"
proof -
  let ?a = "fp + of_int off" and ?x = "fits env symtab lo fp"
  have "eval ?x (Assign t (Var t off) e) m = Some (v, m'(ucast ?a := ucast v))"
    using assms(3,7,8) by (simp add: addr_of.simps assign_def is_aggregate_def width_def store_val_def)
  from value_okD [OF conjunct1 [OF nodes_ok [OF assms(1,2)]] assms(4-6) this order_refl]
  obtain st' where "asm_steps env symtab prog (i, st) (i + length c, st')" "regs st' 1 = v"
      "same_from lo (ram st') (m'(ucast ?a := ucast v))"
    using assms(9-11) unfolding computes_def by blast
  moreover have "unat lo \<le> unat ?a"
    using assms(8) by (simp add: data_at_def)
  ultimately show ?thesis
    using same_loads(1) [of lo "ram st'" "m'(ucast ?a := ucast v)" ?a] by auto
qed

definition char_ty :: ctype where "char_ty = \<lparr>ty_kind = TY_CHAR, ty_unsigned = False, ty_size = 1\<rparr>"

definition char_prog :: "asm_line list" where
  "char_prog = var_addr (-4) @ [push 9, Ins ''mov'' [R 1, N 300], pop 9, Ins ''store_8'' [Mem 9, R 1]]"

theorem char_assignment_value_witness:
  "\<exists>st'. asm_steps demo_env (\<lambda>_. 0) char_prog (0, count_start) (length char_prog, st') \<and> regs st' 1 = 300 \<and> ram st' 60 = 44"
proof -
  have g: "gen_expr no_globals (Assign char_ty (Var char_ty (-4)) (Num int_ty 300)) 0 = Some (char_prog, 0)"
    by (simp add: char_ty_def gen_laddr.simps gen_num_reg_def is_aggregate_def gen_store_def char_prog_def)
  have d: "plain demo_env" "distinct (labels_of char_prog)" "ty_kind char_ty = TY_CHAR" "at char_prog 0 char_prog"
      "assembles (\<lambda>_. 0) char_prog" "eval (fits demo_env (\<lambda>_. 0) 32 64) (Num int_ty 300) (\<lambda>_. 0) = Some (300, \<lambda>_. 0)"
      "data_at (fits demo_env (\<lambda>_. 0) 32 64) 1 (64 + of_int (-4))"
    by (auto simp: demo_env_def emu_env_of_def plain_def char_prog_def var_addr_def push_def pop_def char_ty_def line_ok_def in16_def
        data_at_def in_buffer_def at_def)
  have s: "stack_ok demo_env 32 64 count_start" "same_from 32 (ram count_start) (\<lambda>_. 0)"
      "4 * size (Assign char_ty (Var char_ty (-4)) (Num int_ty 300)) \<le> unat (regs count_start 14)"
    by (simp_all add: count_start_def stack_ok_def demo_env_def emu_env_of_def emu_start_def)
  have "(300 :: u8) = 44"
    by (rule word_uint_eqI) simp
  with char_assignment_value [OF d(1-3) g d(4-7) s] show ?thesis
    by simp
qed

end
