(* ===== verification/Codegen_Labels.thy ===== *)
theory Codegen_Labels
  imports Codegen_Exec "HOL-Library.Multiset"
begin

text \<open>
  The labels in generated code: every number that \<^verbatim>\<open>new_label\<close> gives out is used for one label at
  most, so the labels of a function differ, and jumps go where they are meant to go, as long as the
  labels of \<^verbatim>\<open>goto\<close> and \<^verbatim>\<open>case\<close> have different numbers.
\<close>

declare gen_laddr.simps [simp del] gen_member_addr.simps [simp del]

lemma show_int_inject: "show_int (int j) = show_int (int k) \<longleftrightarrow> j = k"
  using digits_show_base [of 10 "[]"] by (auto simp: show_int_def) (metis append_Nil2 prod.inject one_less_numeral_iff semiring_norm(76) order_refl)

section \<open>Label multisets\<close>

definition lab :: "asm_line list \<Rightarrow> string multiset" where "lab c = mset (labels_of c)"

lemma lab_simps [simp]: "lab [] = {#}" "lab (c @ d) = lab c + lab d" "lab (Lab l # c) = add_mset l (lab c)"
  "lab (Ins nm as # c) = lab c" "lab (Raw s # c) = lab c"
  by (simp_all add: lab_def)

definition poll_name :: "nat \<Rightarrow> string" where "poll_name k = ''__sp_poll_'' @ new_label k"

definition own_labels :: "nat \<Rightarrow> nat \<Rightarrow> string set" where
  "own_labels n n' = new_label ` {n ..< n'} \<union> poll_name ` {n ..< n'}"

text \<open>
  The labels \<open>M\<close> differ, and they are those of the numbers from \<open>n\<close> to \<open>n'\<close> and of the label numbers \<open>us\<close>
  of the program.
\<close>

definition fresh :: "nat \<Rightarrow> nat \<Rightarrow> int set \<Rightarrow> string multiset \<Rightarrow> bool" where
  "fresh n n' us M \<longleftrightarrow> n \<le> n' \<and> (\<forall>l. count M l \<le> 1) \<and> set_mset M \<subseteq> own_labels n n' \<union> user_label ` us"

lemma new_label_inject: "new_label j = new_label k \<longleftrightarrow> j = k"
  by (simp add: new_label_def show_int_inject)

lemma user_label_not_own: "user_label u \<noteq> new_label k" "user_label u \<noteq> poll_name k" "new_label j \<noteq> poll_name k"
  "poll_name j = poll_name k \<longleftrightarrow> j = k"
proof -
  obtain c cs where "show_int (int k) = c # cs" "is_digit c"
    using shown_head [of k] by (auto simp: show_int_def)
  moreover have "\<not> is_digit (CHR ''g'')"
    by (simp add: is_digit_def code_of_def)
  ultimately show "user_label u \<noteq> new_label k"
    by (auto simp: user_label_def new_label_def)
  show "user_label u \<noteq> poll_name k" "new_label j \<noteq> poll_name k" "poll_name j = poll_name k \<longleftrightarrow> j = k"
    by (auto simp: user_label_def new_label_def poll_name_def show_int_inject)
qed

lemma own_disjoint: "b \<le> c \<Longrightarrow> own_labels a b \<inter> own_labels c d = {}"
  by (auto simp: own_labels_def new_label_inject user_label_not_own user_label_not_own(3) [symmetric])

lemma own_user_disjoint: "own_labels a b \<inter> user_label ` us = {}"
  by (auto simp: own_labels_def user_label_not_own dest: sym)

lemma own_mono: "a \<le> a' \<Longrightarrow> b' \<le> b \<Longrightarrow> own_labels a' b' \<subseteq> own_labels a b"
  by (auto simp: own_labels_def)

lemma show_base_sign: "show_base 10 k \<noteq> CHR ''-'' # s"
proof -
  obtain c cs where "show_base 10 k = c # cs" "is_digit c"
    by (rule shown_head)
  then show ?thesis
    by (auto simp: is_digit_def code_of_def)
qed

lemma show_int_eq:
  assumes e: "show_int u = show_int v"
  shows "u = v"
proof (cases "u < 0")
  case True
  then have "show_int v = CHR ''-'' # show_base 10 (nat (- u))"
    using e by (simp add: show_int_def split: if_splits)
  then have v: "v < 0"
    using show_base_sign [of "nat v"] by (auto simp: show_int_def split: if_splits)
  then have "show_int (int (nat (- u))) = show_int (int (nat (- v)))"
    using e True unfolding show_int_def by simp
  with True v show ?thesis by (simp only: show_int_inject)
next
  case False
  then have "show_base 10 (nat u) = show_int v"
    using e by (simp add: show_int_def)
  then have v: "\<not> v < 0"
    using show_base_sign [of "nat u"] by (auto simp: show_int_def split: if_splits)
  then have "show_int (int (nat u)) = show_int (int (nat v))"
    using e False by simp
  with False v show ?thesis by (simp only: show_int_inject)
qed

lemma user_label_inject: "user_label u = user_label v \<longleftrightarrow> u = v"
  using show_int_eq by (auto simp: user_label_def)

lemma count_le_1_add:
  assumes "\<forall>l. count M l \<le> (1 :: nat)" and "\<forall>l. count K l \<le> 1" and "set_mset M \<inter> set_mset K = {}"
  shows "\<forall>l. count (M + K) l \<le> 1"
proof
  fix l
  show "count (M + K) l \<le> 1"
  proof (cases "l \<in># M")
    case True
    with assms(3) have "l \<notin># K" by auto
    with assms(1) show ?thesis by (simp add: not_in_iff)
  next
    case False
    with assms(2) show ?thesis by (simp add: not_in_iff)
  qed
qed

lemma fresh_plus:
  assumes "fresh n n1 us M" and "fresh n1 n2 vs K" and "us \<inter> vs = {}"
  shows "fresh n n2 (us \<union> vs) (M + K)"
proof -
  have le: "n \<le> n1" "n1 \<le> n2" and sub: "set_mset M \<subseteq> own_labels n n1 \<union> user_label ` us" "set_mset K \<subseteq> own_labels n1 n2 \<union> user_label ` vs"
    using assms(1,2) by (simp_all add: fresh_def)
  have "(own_labels n n1 \<union> user_label ` us) \<inter> (own_labels n1 n2 \<union> user_label ` vs) = {}"
    using own_disjoint [of n1 n1 n n2] own_user_disjoint [of n n1 vs] own_user_disjoint [of n1 n2 us] assms(3)
    by (auto simp: user_label_inject)
  then have "set_mset M \<inter> set_mset K = {}"
    using sub by blast
  then have "\<forall>l. count (M + K) l \<le> 1"
    using assms(1,2) by (intro count_le_1_add) (simp_all add: fresh_def)
  moreover have "set_mset (M + K) \<subseteq> own_labels n n2 \<union> user_label ` (us \<union> vs)"
    using sub own_mono [of n n n1 n2] own_mono [of n n1 n2 n2] le by auto
  ultimately show ?thesis
    using le by (simp add: fresh_def)
qed

lemma fresh_empty [simp]: "fresh n n {} {#}"
  by (simp add: fresh_def)

lemma fresh_one: "fresh n (Suc n) {} {#new_label n#}" "fresh n (Suc n) {} {#poll_name n#}" "fresh n n {u} {#user_label u#}"
  by (auto simp: fresh_def own_labels_def)

text \<open>Expressions use no label numbers of the program.\<close>

lemmas fresh_seq = fresh_plus [where us = "{}" and vs = "{}", simplified]

lemma fresh_two:
  assumes "fresh (Suc (Suc n)) n' {} M"
  shows "fresh n n' {} (add_mset (new_label n) (add_mset (new_label (Suc n)) M))"
proof -
  have "fresh n n' {} ({#new_label n#} + ({#new_label (Suc n)#} + M))"
    by (rule fresh_seq [OF fresh_one(1) fresh_seq [OF fresh_one(1) assms]])
  moreover have "{#new_label n#} + ({#new_label (Suc n)#} + M) = add_mset (new_label n) (add_mset (new_label (Suc n)) M)"
    by (metis add_mset_add_single union_commute)
  ultimately show ?thesis by (simp only:)
qed

lemma no_labels [simp]: "lab (push r # c) = lab c" "lab (pop r # c) = lab c" "lab (mov r q # c) = lab c" "lab (alu nm # c) = lab c"
  "lab (emit_addr32 s) = {#}" "lab (var_addr k) = {#}" "lab (gvar_addr g s) = {#}" "lab (member_add r k) = {#}" "lab (cast_code t) = {#}"
  "lab (gen_load t) = {#}" "lab (load_value t) = {#}" "lab (gen_store t) = {#}" "lab (test_zero jmp l) = {#}" "lab dynamic_call = {#}"
  "lab (runtime_call f) = {#}"
  by (simp_all add: push_def pop_def mov_def alu_def emit_addr32_def var_addr_def gvar_addr_def member_add_def cast_code_def sign_extend_def
    gen_load_def load_value_def gen_store_def test_zero_def dynamic_call_def runtime_call_def)

lemma lab_num [simp]: "gen_num_reg r v = Some c \<Longrightarrow> lab c = {#}"
  by (auto simp: gen_num_reg_def Let_def split: if_splits)

lemma lab_copy [simp]: "lab (gen_block_copy k) = {#}"
proof -
  have "lab (concat (map (\<lambda>k. [Ins ''add'' [R 3, R 1, N (4 * int k)], Ins ''load_32'' [R 2, Mem 3],
                       Ins ''add'' [R 3, R 9, N (4 * int k)], Ins ''store_32'' [Mem 3, R 2]]) ks)) = {#}" for ks
    by (induction ks) simp_all
  then show ?thesis by (simp add: gen_block_copy_def)
qed

lemma lab_fields [simp]: "gen_load_bitfield t bo bw = Some c \<Longrightarrow> lab c = {#}" "gen_store_bitfield bo bw = Some c \<Longrightarrow> lab c = {#}"
  by (auto simp: gen_load_bitfield_def gen_store_bitfield_def Let_def bind_eq_Some_conv split: if_splits)

lemma lab_binary: "binary_code t bop v n = Some (c, n') \<Longrightarrow> fresh n n' {} (lab c)"
proof -
  have p: "lab d = {#}" if "pointer_scale v = Some d" for d
    using that by (auto simp: pointer_scale_def split: if_splits)
  assume "binary_code t bop v n = Some (c, n')"
  then show ?thesis
    using fresh_two [OF fresh_empty, of n] p
    by (cases bop) (auto simp: binary_code_def gen_compare_def add_mset_commute)
qed

lemma fresh_add: "fresh n n1 {} M \<Longrightarrow> fresh n1 n2 {} K \<Longrightarrow> fresh n n2 {} (M + K)"
  by (rule fresh_seq)

lemma fresh_around: "fresh (Suc (Suc n)) n1 {} M \<Longrightarrow> fresh n1 n2 {} K \<Longrightarrow>
    fresh n n2 {} (add_mset (new_label n) (add_mset (new_label (Suc n)) (M + K)))"
  by (rule fresh_two [OF fresh_seq])

definition value_fresh :: "genv \<Rightarrow> node \<Rightarrow> bool" where
  "value_fresh g e \<longleftrightarrow> (\<forall>n c n'. gen_expr g e n = Some (c, n') \<longrightarrow> fresh n n' {} (lab c))"

definition addr_fresh :: "genv \<Rightarrow> node \<Rightarrow> bool" where
  "addr_fresh g e \<longleftrightarrow> (\<forall>n c n'. gen_laddr g e n = Some (c, n') \<longrightarrow> fresh n n' {} (lab c)) \<and>
     (\<forall>k n c n'. gen_member_addr g e k n = Some (c, n') \<longrightarrow> fresh n n' {} (lab c))"

lemma value_freshD: "value_fresh g e \<Longrightarrow> gen_expr g e n = Some (c, n') \<Longrightarrow> fresh n n' {} (lab c)"
  and addr_freshD: "addr_fresh g e \<Longrightarrow> gen_laddr g e n = Some (c, n') \<Longrightarrow> fresh n n' {} (lab c)"
    "addr_fresh g e \<Longrightarrow> gen_member_addr g e k n = Some (c, n') \<Longrightarrow> fresh n n' {} (lab c)"
  by (auto simp: value_fresh_def addr_fresh_def)

lemma args_fresh: "(\<And>a. a \<in> set as \<Longrightarrow> value_fresh g a) \<Longrightarrow> gen_args g as n = Some (c, n', tot) \<Longrightarrow> fresh n n' {} (lab c)"
proof (induction as arbitrary: c n' tot)
  case (Cons a as)
  from Cons.prems(2) obtain c1 n1 t1 c2 n2 where c: "gen_args g as n = Some (c1, n1, t1)" "gen_expr g a n1 = Some (c2, n2)"
      "n' = n2" "lab c = lab c1 + lab c2"
    by (auto simp: bind_eq_Some_conv split: if_splits)
  then show ?case
    using Cons fresh_seq value_freshD by fastforce
qed simp

lemma gen_fresh: "value_fresh g e \<and> addr_fresh g e"
proof (induction e)
  case (Call t nm fp as)
  have "value_fresh g (Call t nm fp as)"
    unfolding value_fresh_def
  proof (intro allI impI)
    fix n c n'
    assume "gen_expr g (Call t nm fp as) n = Some (c, n')"
    then obtain c1 n1 tot c2 where c: "gen_args g as n = Some (c1, n1, tot)" "lab c = lab c1 + lab c2"
        "(case nm of Some f \<Rightarrow> Some ([Ins ''call'' [Sym f]], n1)
          | None \<Rightarrow> (case fp of None \<Rightarrow> None | Some e \<Rightarrow> map_option (\<lambda>(c, m). (c @ dynamic_call, m)) (gen_expr g e n1))) = Some (c2, n')"
      by (fastforce simp: bind_eq_Some_conv Let_def split: if_splits)
    have "fresh n1 n' {} (lab c2)"
    proof (cases nm)
      case None
      with c(3) obtain e c3 where "fp = Some e" "gen_expr g e n1 = Some (c3, n')" "c2 = c3 @ dynamic_call"
        by (auto split: option.splits)
      with Call show ?thesis using value_freshD by fastforce
    qed (use c(3) in auto)
    with args_fresh [OF _ c(1)] Call show "fresh n n' {} (lab c)"
      using fresh_seq c(2) by fastforce
  qed
  then show ?case
    by (auto simp: addr_fresh_def gen_laddr.simps gen_member_addr.simps bind_eq_Some_conv simp del: gen_expr.simps dest: value_freshD)
next
  case (Cond t e a b)
  have "value_fresh g (Cond t e a b)"
    unfolding value_fresh_def
  proof (intro allI impI)
    fix n c n'
    assume "gen_expr g (Cond t e a b) n = Some (c, n')"
    then obtain c1 n1 c2 n2 c3 where c: "gen_expr g e (Suc (Suc n)) = Some (c1, n1)" "gen_expr g a n1 = Some (c2, n2)"
        "(case b of None \<Rightarrow> Some ([], n2) | Some x \<Rightarrow> gen_expr g x n2) = Some (c3, n')"
        "lab c = add_mset (new_label n) (add_mset (new_label (Suc n)) (lab c1 + lab c2 + lab c3))"
      by (fastforce simp: bind_eq_Some_conv)
    have "fresh n2 n' {} (lab c3)"
      using c(3) Cond value_freshD by (cases b) fastforce+
    moreover have "fresh (Suc (Suc n)) n2 {} (lab c1 + lab c2)"
      using c(1,2) Cond value_freshD fresh_seq by blast
    ultimately show "fresh n n' {} (lab c)"
      unfolding c(4) by (intro fresh_around)
  qed
  then show ?case
    by (auto simp: addr_fresh_def gen_laddr.simps gen_member_addr.simps bind_eq_Some_conv)
next
  case (Lognot t e)
  then show ?case
    by (auto simp: value_fresh_def addr_fresh_def gen_laddr.simps gen_member_addr.simps bind_eq_Some_conv gen_compare_def
        add_mset_commute intro!: fresh_seq [OF _ fresh_two [OF fresh_empty], simplified])
next
  case (Assign t l r)
  have "value_fresh g (Assign t l r)"
    unfolding value_fresh_def
  proof (intro allI impI)
    fix n c n'
    assume "gen_expr g (Assign t l r) n = Some (c, n')"
    then obtain c1 n1 c2 where "gen_laddr g l n = Some (c1, n1)" "gen_expr g r n1 = Some (c2, n')" "lab c = lab c1 + lab c2"
      by (fastforce simp: bind_eq_Some_conv split: if_splits node.splits)
    then show "fresh n n' {} (lab c)"
      using Assign value_freshD addr_freshD fresh_seq by metis
  qed
  then show ?case
    by (auto simp: addr_fresh_def gen_laddr.simps gen_member_addr.simps bind_eq_Some_conv)
next
  case (Addr t e)
  then show ?case
    by (cases e) (auto simp: value_fresh_def addr_fresh_def gen_laddr.simps [of _ "Addr _ _"] gen_member_addr.simps [of _ "Addr _ _"] bind_eq_Some_conv)
next
  case (Member t e k bo bw)
  then show ?case
    by (auto simp: value_fresh_def addr_fresh_def gen_laddr.simps [of _ "Member _ _ _ _ _"] gen_member_addr.simps [of _ "Member _ _ _ _ _"]
        bind_eq_Some_conv split: if_splits)
next
  case (Bin t bop k a b)
  have "value_fresh g (Bin t bop k a b)"
    unfolding value_fresh_def
  proof (intro allI impI)
    fix n c n'
    assume "gen_expr g (Bin t bop k a b) n = Some (c, n')"
    then obtain c1 n1 c2 n2 c3 where "gen_expr g b n = Some (c1, n1)" "gen_expr g a n1 = Some (c2, n2)" "binary_code t bop k n2 = Some (c3, n')"
        "lab c = lab c1 + (lab c2 + lab c3)"
      by (fastforce simp: bind_eq_Some_conv)
    then show "fresh n n' {} (lab c)"
      using Bin value_freshD lab_binary fresh_seq by metis
  qed
  then show ?case
    by (auto simp: addr_fresh_def gen_laddr.simps gen_member_addr.simps bind_eq_Some_conv)
next
  case (Logand t a b)
  have "value_fresh g (Logand t a b)"
    unfolding value_fresh_def
  proof (intro allI impI)
    fix n c n'
    assume "gen_expr g (Logand t a b) n = Some (c, n')"
    then obtain c1 n1 c2 where "gen_expr g a (Suc (Suc n)) = Some (c1, n1)" "gen_expr g b n1 = Some (c2, n')"
        "lab c = add_mset (new_label n) (add_mset (new_label (Suc n)) (lab c1 + lab c2))"
      by (fastforce simp: bind_eq_Some_conv truth_code_def)
    then show "fresh n n' {} (lab c)"
      using Logand value_freshD fresh_around by metis
  qed
  then show ?case
    by (auto simp: addr_fresh_def gen_laddr.simps gen_member_addr.simps bind_eq_Some_conv)
next
  case (Logor t a b)
  have "value_fresh g (Logor t a b)"
    unfolding value_fresh_def
  proof (intro allI impI)
    fix n c n'
    assume "gen_expr g (Logor t a b) n = Some (c, n')"
    then obtain c1 n1 c2 where "gen_expr g a (Suc (Suc n)) = Some (c1, n1)" "gen_expr g b n1 = Some (c2, n')"
        "lab c = add_mset (new_label n) (add_mset (new_label (Suc n)) (lab c1 + lab c2))"
      by (fastforce simp: bind_eq_Some_conv truth_code_def)
    then show "fresh n n' {} (lab c)"
      using Logor value_freshD fresh_around by metis
  qed
  then show ?case
    by (auto simp: addr_fresh_def gen_laddr.simps gen_member_addr.simps bind_eq_Some_conv)
next
  case (Comma t a b)
  then show ?case
    by (fastforce simp: value_fresh_def addr_fresh_def gen_laddr.simps gen_member_addr.simps bind_eq_Some_conv intro: fresh_seq)
qed (auto simp: value_fresh_def addr_fresh_def gen_laddr.simps gen_member_addr.simps bind_eq_Some_conv)

section \<open>Statements\<close>

text \<open>The label numbers of the program that statements define.\<close>

fun stmt_labels :: "stmt \<Rightarrow> int list" and stmts_labels :: "stmt list \<Rightarrow> int list" where
  "stmt_labels (If e a b) = stmts_labels a @ (case b of None \<Rightarrow> [] | Some ss \<Rightarrow> stmts_labels ss)"
| "stmt_labels (While e ss) = stmts_labels ss"
| "stmt_labels (For i e u ss) = stmts_labels i @ stmts_labels ss"
| "stmt_labels (Do_while ss e) = stmts_labels ss"
| "stmt_labels (Switch e off cs ss) = stmts_labels ss"
| "stmt_labels (Case k) = [k]"
| "stmt_labels (Default k) = [k]"
| "stmt_labels (Label k ss) = k # stmts_labels ss"
| "stmt_labels _ = []"
| "stmts_labels [] = []"
| "stmts_labels (s # ss) = stmt_labels s @ stmts_labels ss"

lemma stmts_labels_append [simp]: "stmts_labels (xs @ ys) = stmts_labels xs @ stmts_labels ys"
  by (induction xs) simp_all

definition stmt_fresh :: "genv \<Rightarrow> stmt \<Rightarrow> bool" where
  "stmt_fresh g s \<longleftrightarrow>
     (\<forall>brk cont n c n'. gen_stmt g brk cont s n = Some (c, n') \<longrightarrow> distinct (stmt_labels s) \<longrightarrow>
        fresh n n' (set (stmt_labels s)) (lab c))"

lemma stmt_freshD: "stmt_fresh g s \<Longrightarrow> gen_stmt g brk cont s n = Some (c, n') \<Longrightarrow> distinct (stmt_labels s) \<Longrightarrow>
    fresh n n' (set (stmt_labels s)) (lab c)"
  by (auto simp: stmt_fresh_def)

lemma stmts_fresh:
  "(\<And>s. s \<in> set ss \<Longrightarrow> stmt_fresh g s) \<Longrightarrow> gen_stmts g brk cont ss n = Some (c, n') \<Longrightarrow> distinct (stmts_labels ss) \<Longrightarrow>
     fresh n n' (set (stmts_labels ss)) (lab c)"
proof (induction ss arbitrary: n c)
  case (Cons s ss)
  from Cons.prems(2) obtain c1 n1 c2 where c: "gen_stmt g brk cont s n = Some (c1, n1)" "gen_stmts g brk cont ss n1 = Some (c2, n')"
      "c = c1 @ c2"
    by (auto simp: bind_eq_Some_conv)
  have "fresh n n1 (set (stmt_labels s)) (lab c1)" "fresh n1 n' (set (stmts_labels ss)) (lab c2)"
    using Cons.prems(1,3) c Cons.IH [OF _ c(2)] stmt_freshD [OF _ c(1)] by simp_all
  with Cons.prems(3) show ?case
    using fresh_plus by (simp add: c(3))
qed simp

lemma fresh_own: "fresh (Suc n) n' us M \<Longrightarrow> fresh n n' us (add_mset (new_label n) M)"
  "fresh (Suc n) n' us M \<Longrightarrow> fresh n n' us (add_mset (poll_name n) M)"
  using fresh_plus [OF fresh_one(1) [of n], of n' us M] fresh_plus [OF fresh_one(2) [of n], of n' us M] by simp_all

lemma fresh_user: "fresh n n' us M \<Longrightarrow> u \<notin> us \<Longrightarrow> fresh n n' (insert u us) (add_mset (user_label u) M)"
  using fresh_plus [OF fresh_one(3) [of n u], of n' us M] by simp

lemma fresh_expr: "fresh n n1 {} M \<Longrightarrow> fresh n1 n2 us K \<Longrightarrow> fresh n n2 us (M + K)"
  "fresh n n1 us M \<Longrightarrow> fresh n1 n2 {} K \<Longrightarrow> fresh n n2 us (M + K)"
  using fresh_plus [of n n1 "{}" M n2 us K] fresh_plus [of n n1 us M n2 "{}" K] by simp_all

lemma lab_stmt [simp]: "lab epilogue = {#}" "lab (jump_to l # c) = lab c" "lab (switch_slot off # c) = lab c"
  "lab (poll_label n # c) = add_mset (poll_name n) (lab c)" "lab (Lab (user_label k) # c) = add_mset (user_label k) (lab c)"
  by (simp_all add: epilogue_def jump_to_def switch_slot_def poll_label_def poll_name_def)

lemma lab_chain: "switch_chain off cs = Some c \<Longrightarrow> lab c = {#}"
  by (induction off cs arbitrary: c rule: switch_chain.induct) (auto simp: bind_eq_Some_conv)

lemma branch_fresh: "branch_zero g e l b n = Some (c, n') \<Longrightarrow> fresh n n' {} (lab c)"
  using gen_fresh value_freshD by (fastforce simp: branch_zero_def bind_eq_Some_conv)

lemma expr_fresh: "gen_expr g e n = Some (c, n') \<Longrightarrow> fresh n n' {} (lab c)"
  using gen_fresh value_freshD by blast

lemma fresh_mono: "fresh n n' us M \<Longrightarrow> a \<le> n \<Longrightarrow> fresh a n' us M"
  using own_mono [of a n n' n'] by (auto simp: fresh_def)

lemma stmt_freshI:
  assumes "\<And>brk cont n c n'. gen_stmt g brk cont s n = Some (c, n') \<Longrightarrow> distinct (stmt_labels s) \<Longrightarrow>
    fresh n n' (set (stmt_labels s)) (lab c)"
  shows "stmt_fresh g s"
  using assms by (simp add: stmt_fresh_def)

lemma if_fresh:
  assumes a: "\<And>s. s \<in> set a \<Longrightarrow> stmt_fresh g s" and b: "\<And>ss s. b = Some ss \<Longrightarrow> s \<in> set ss \<Longrightarrow> stmt_fresh g s"
  shows "stmt_fresh g (If e a b)"
proof (rule stmt_freshI)
  fix brk cont n c n'
  assume g: "gen_stmt g brk cont (If e a b) n = Some (c, n')" and d: "distinct (stmt_labels (If e a b))"
  show "fresh n n' (set (stmt_labels (If e a b))) (lab c)"
  proof (cases b)
    case None
    with g obtain c1 n1 c2 where c: "branch_zero g e (new_label n) True (Suc (Suc n)) = Some (c1, n1)"
        "gen_stmts g brk cont a n1 = Some (c2, n')" "lab c = add_mset (new_label n) (lab c1 + lab c2)"
      by (auto simp: bind_eq_Some_conv)
    have "fresh n1 n' (set (stmts_labels a)) (lab c2)"
      by (rule stmts_fresh [OF a c(2)]) (use d in auto)
    then have "fresh (Suc n) n' (set (stmts_labels a)) (lab c1 + lab c2)"
      by (rule fresh_mono [OF fresh_expr(1) [OF branch_fresh [OF c(1)]]]) simp
    then show ?thesis
      unfolding c(3) using None by (simp add: fresh_own)
  next
    case (Some ss)
    with g obtain c1 n1 c2 n2 c3 where c: "branch_zero g e (new_label n) True (Suc (Suc n)) = Some (c1, n1)"
        "gen_stmts g brk cont a n1 = Some (c2, n2)" "gen_stmts g brk cont ss n2 = Some (c3, n')"
        "lab c = add_mset (new_label n) (add_mset (new_label (Suc n)) (lab c1 + (lab c2 + lab c3)))"
      by (fastforce simp: bind_eq_Some_conv add_mset_commute)
    have "fresh n1 n2 (set (stmts_labels a)) (lab c2)" "fresh n2 n' (set (stmts_labels ss)) (lab c3)"
      using d Some by (auto intro: stmts_fresh [OF a c(2)] stmts_fresh [OF b c(3)])
    then have "fresh n1 n' (set (stmts_labels a) \<union> set (stmts_labels ss)) (lab c2 + lab c3)"
      by (rule fresh_plus) (use d Some in auto)
    from fresh_own(1) [OF fresh_own(1) [OF fresh_expr(1) [OF branch_fresh [OF c(1)] this]]] show ?thesis
      unfolding c(4) using Some by simp
  qed
qed

lemma while_fresh:
  assumes "\<And>s. s \<in> set ss \<Longrightarrow> stmt_fresh g s"
  shows "stmt_fresh g (While e ss)"
proof (rule stmt_freshI)
  fix brk cont n c n'
  assume "gen_stmt g brk cont (While e ss) n = Some (c, n')" and d: "distinct (stmt_labels (While e ss))"
  then obtain c1 n1 c2 where c: "branch_zero g e (new_label (Suc n)) True (Suc (Suc (Suc n))) = Some (c1, n1)"
      "gen_stmts g (new_label (Suc n) # brk) (new_label n # cont) ss n1 = Some (c2, n')"
      "lab c = add_mset (new_label n) (add_mset (new_label (Suc n)) (add_mset (poll_name (Suc (Suc n))) (lab c1 + lab c2)))"
    by (auto simp: bind_eq_Some_conv add_mset_commute eval_nat_numeral split: if_splits)
  have "fresh n1 n' (set (stmts_labels ss)) (lab c2)"
    by (rule stmts_fresh [OF assms c(2)]) (use d in auto)
  from fresh_own(1) [OF fresh_own(1) [OF fresh_own(2) [OF fresh_expr(1) [OF branch_fresh [OF c(1)] this]]]]
  show "fresh n n' (set (stmt_labels (While e ss))) (lab c)"
    unfolding c(3) by simp
qed

lemma for_fresh:
  assumes i: "\<And>s. s \<in> set is \<Longrightarrow> stmt_fresh g s" and b: "\<And>s. s \<in> set ss \<Longrightarrow> stmt_fresh g s"
  shows "stmt_fresh g (For is e u ss)"
proof (rule stmt_freshI)
  fix brk cont n c n'
  assume "gen_stmt g brk cont (For is e u ss) n = Some (c, n')" and d: "distinct (stmt_labels (For is e u ss))"
  then obtain c1 n1 c2 n2 c3 n3 c4 where c: "gen_stmts g brk cont is (n + 3) = Some (c1, n1)"
      "(case e of None \<Rightarrow> Some ([], n1 + 1) | Some x \<Rightarrow> branch_zero g x (new_label (n + 2)) True (n1 + 1)) = Some (c2, n2)"
      "gen_stmts g (new_label (n + 2) # brk) (new_label (n + 1) # cont) ss n2 = Some (c3, n3)"
      "(case u of None \<Rightarrow> Some ([], n3) | Some x \<Rightarrow> gen_expr g x n3) = Some (c4, n')"
      "c = concat [c1, [Lab (new_label n)], [poll_label n1], c2, c3, [Lab (new_label (n + 1))], c4, [jump_to (new_label n)],
         [Lab (new_label (n + 2))]]"
    by (fastforce simp: bind_eq_Some_conv split: if_splits)
  have l: "lab c = add_mset (new_label n) (add_mset (new_label (Suc n)) (add_mset (new_label (Suc (Suc n)))
        (lab c1 + add_mset (poll_name n1) (lab c2 + (lab c3 + lab c4)))))"
    unfolding c(5) by (simp add: add_mset_commute ac_simps)
  have ends: "fresh (Suc n1) n2 {} (lab c2)" "fresh n3 n' {} (lab c4)"
    using c(2,4) by (auto dest: branch_fresh expr_fresh split: option.splits)
  have "fresh n2 n3 (set (stmts_labels ss)) (lab c3)"
    by (rule stmts_fresh [OF b c(3)]) (use d in auto)
  then have tail: "fresh n1 n' (set (stmts_labels ss)) (add_mset (poll_name n1) (lab c2 + (lab c3 + lab c4)))"
    by (intro fresh_own(2) fresh_expr(1) [OF ends(1)] fresh_expr(2) [OF _ ends(2)])
  have "fresh (Suc (Suc (Suc n))) n1 (set (stmts_labels is)) (lab c1)"
    using stmts_fresh [OF i c(1)] d by (simp add: eval_nat_numeral)
  from fresh_own(1) [OF fresh_own(1) [OF fresh_own(1) [OF fresh_plus [OF this tail]]]] d
  show "fresh n n' (set (stmt_labels (For is e u ss))) (lab c)"
    unfolding l by simp
qed

lemma do_fresh:
  assumes "\<And>s. s \<in> set ss \<Longrightarrow> stmt_fresh g s"
  shows "stmt_fresh g (Do_while ss e)"
proof (rule stmt_freshI)
  fix brk cont n c n'
  assume "gen_stmt g brk cont (Do_while ss e) n = Some (c, n')" and d: "distinct (stmt_labels (Do_while ss e))"
  then obtain c1 n1 c2 where c: "gen_stmts g (new_label (Suc (Suc n)) # brk) (new_label (Suc n) # cont) ss (Suc (Suc (Suc (Suc n)))) = Some (c1, n1)"
      "branch_zero g e (new_label (Suc (Suc n))) True n1 = Some (c2, n')"
      "lab c = add_mset (new_label n) (add_mset (new_label (Suc n)) (add_mset (new_label (Suc (Suc n)))
        (add_mset (poll_name (Suc (Suc (Suc n)))) (lab c1 + lab c2))))"
    by (auto simp: bind_eq_Some_conv add_mset_commute eval_nat_numeral split: if_splits)
  have "fresh (Suc (Suc (Suc (Suc n)))) n1 (set (stmts_labels ss)) (lab c1)"
    by (rule stmts_fresh [OF assms c(1)]) (use d in auto)
  from fresh_own(1) [OF fresh_own(1) [OF fresh_own(1) [OF fresh_own(2) [OF fresh_expr(2) [OF this branch_fresh [OF c(2)]]]]]]
  show "fresh n n' (set (stmt_labels (Do_while ss e))) (lab c)"
    unfolding c(3) by simp
qed

lemma switch_fresh:
  assumes "\<And>s. s \<in> set ss \<Longrightarrow> stmt_fresh g s"
  shows "stmt_fresh g (Switch e off cs ss)"
proof (rule stmt_freshI)
  fix brk cont n c n'
  let ?pre = "takeWhile (\<lambda>s. \<not> is_case s) ss" and ?post = "dropWhile (\<lambda>s. \<not> is_case s) ss"
  assume "gen_stmt g brk cont (Switch e off cs ss) n = Some (c, n')" and d: "distinct (stmt_labels (Switch e off cs ss))"
  then obtain c1 n1 c2 n2 c3 c4 where c: "gen_expr g e (Suc n) = Some (c1, n1)" "gen_stmts g brk cont ?pre n1 = Some (c2, n2)"
      "switch_chain off cs = Some c3" "gen_stmts g (new_label n # brk) cont ?post n2 = Some (c4, n')"
      "lab c = add_mset (new_label n) (lab c1 + (lab c2 + lab c4))"
    by (fastforce simp: bind_eq_Some_conv lab_chain split: if_splits)
  have l: "stmts_labels ss = stmts_labels ?pre @ stmts_labels ?post"
    by (metis stmts_labels_append takeWhile_dropWhile_id)
  then have d': "distinct (stmts_labels ?pre @ stmts_labels ?post)"
    using d by simp
  have "fresh n1 n2 (set (stmts_labels ?pre)) (lab c2)"
    by (rule stmts_fresh [OF assms c(2)]) (use d' in \<open>auto dest: set_takeWhileD\<close>)
  moreover have "fresh n2 n' (set (stmts_labels ?post)) (lab c4)"
    by (rule stmts_fresh [OF assms c(4)]) (use d' in \<open>auto dest: set_dropWhileD\<close>)
  ultimately have "fresh n1 n' (set (stmts_labels ss)) (lab c2 + lab c4)"
    unfolding l set_append by (rule fresh_plus) (use d' in auto)
  from fresh_own(1) [OF fresh_expr(1) [OF expr_fresh [OF c(1)] this]]
  show "fresh n n' (set (stmt_labels (Switch e off cs ss))) (lab c)"
    unfolding c(5) by simp
qed

lemma all_stmts_fresh: "stmt_fresh g s"
proof (induction s)
  case (Return e)
  show ?case
    by (rule stmt_freshI) (auto simp: bind_eq_Some_conv dest: expr_fresh split: option.splits if_splits)
next
  case (If e a b)
  then show ?case by (intro if_fresh) auto
next
  case (For i e u ss)
  then show ?case by (intro for_fresh) auto
next
  case (Label k ss)
  show ?case
  proof (rule stmt_freshI)
    fix brk cont n c n'
    assume "gen_stmt g brk cont (Label k ss) n = Some (c, n')" and d: "distinct (stmt_labels (Label k ss))"
    then obtain c1 where c: "gen_stmts g brk cont ss n = Some (c1, n')" "lab c = add_mset (user_label k) (lab c1)"
      by (auto simp: bind_eq_Some_conv)
    from stmts_fresh [OF Label c(1)] d show "fresh n n' (set (stmt_labels (Label k ss))) (lab c)"
      unfolding c(2) by (auto intro: fresh_user)
  qed
next
  case (Expr e)
  show ?case by (rule stmt_freshI) (auto dest: expr_fresh)
next
  case (While e ss)
  then show ?case by (rule while_fresh)
next
  case (Do_while ss e)
  then show ?case by (rule do_fresh)
next
  case (Switch e off cs ss)
  then show ?case by (rule switch_fresh)
qed (auto intro: stmt_freshI simp: stmt_fresh_def fresh_one fresh_own split: list.splits)

section \<open>Functions\<close>

definition plain_name :: "string \<Rightarrow> bool" where
  "plain_name s \<longleftrightarrow> s \<notin> range new_label \<and> s \<notin> range poll_name \<and> s \<notin> range user_label"

lemma lab_prologue [simp]: "lab (prologue f) = {#}"
proof -
  have "lab (copy_params ts a b) = {#}" for ts a b
    by (induction ts a b rule: copy_params.induct) (simp_all add: Let_def)
  then show ?thesis by (simp add: prologue_def)
qed

lemma gen_func_fresh:
  assumes "gen_func gs d32 f n = Some (c, n')" and "distinct (stmts_labels (f_body f))"
  shows "\<exists>M. lab c = add_mset (f_name f) M \<and> fresh n n' (set (stmts_labels (f_body f))) M"
proof -
  from assms(1) obtain g c1 where c: "gen_stmts g [] [] (f_body f) (Suc n) = Some (c1, n')"
      "lab c = add_mset (f_name f) (add_mset (poll_name n) (lab c1))"
    by (fastforce simp: gen_func_def bind_eq_Some_conv)
  from fresh_own(2) [OF stmts_fresh [OF all_stmts_fresh c(1) assms(2)]] c(2) show ?thesis
    by blast
qed

lemma gen_funcs_fresh:
  "gen_funcs gs d32 fs n = Some (c, n') \<Longrightarrow> distinct (concat (map (\<lambda>f. stmts_labels (f_body f)) fs)) \<Longrightarrow>
     \<exists>M. lab c = mset (map f_name fs) + M \<and> fresh n n' (\<Union>f \<in> set fs. set (stmts_labels (f_body f))) M"
proof (induction fs arbitrary: n c)
  case (Cons f fs)
  from Cons.prems(1) obtain c1 n1 c2 where c: "gen_func gs d32 f n = Some (c1, n1)" "gen_funcs gs d32 fs n1 = Some (c2, n')" "c = c1 @ c2"
    by (auto simp: bind_eq_Some_conv)
  obtain M where M: "lab c1 = add_mset (f_name f) M" "fresh n n1 (set (stmts_labels (f_body f))) M"
    using gen_func_fresh [OF c(1)] Cons.prems(2) by auto
  obtain K where K: "lab c2 = mset (map f_name fs) + K" "fresh n1 n' (\<Union>f \<in> set fs. set (stmts_labels (f_body f))) K"
    using Cons.IH [OF c(2)] Cons.prems(2) by auto
  have "fresh n n' (set (stmts_labels (f_body f)) \<union> (\<Union>f \<in> set fs. set (stmts_labels (f_body f)))) (M + K)"
    by (rule fresh_plus [OF M(2) K(2)]) (use Cons.prems(2) in auto)
  then show ?case
    by (intro exI [of _ "M + K"]) (simp add: c(3) M(1) K(1))
qed simp

lemma distinct_count_le: "\<forall>l. count (mset xs) l \<le> 1 \<Longrightarrow> distinct xs"
proof (induction xs)
  case (Cons x xs)
  have "count (mset xs) l \<le> count (mset (x # xs)) l" for l
    by simp
  then have "\<forall>l. count (mset xs) l \<le> 1"
    using Cons.prems order_trans by blast
  moreover have "count (mset xs) x = 0"
    using spec [OF Cons.prems, of x] by simp
  ultimately show ?case
    using Cons.IH by simp
qed simp


definition loop_forever :: "string \<Rightarrow> cfunc" where
  "loop_forever nm = (let t = \<lparr>ty_kind = TY_INT, ty_unsigned = False, ty_size = 4\<rparr> in
     \<lparr>f_name = nm, f_static = False, f_decl = False, f_params = [], f_retbuf = False, f_ret_size = 4, f_frame = 0,
      f_body = [Label 0 [], While (Num t 1) [Break], Label 1 []]\<rparr>)"

lemma loop_forever_code:
  "\<exists>c n'. gen_funcs [] False [loop_forever nm] 0 = Some (c, n') \<and>
     labels_of c = [nm, poll_name 0, user_label 0, new_label 1, poll_name 3, new_label 2, user_label 1]"
  by (simp add: loop_forever_def Let_def gen_func_def prologue_def branch_zero_def gen_num_reg_def room_for_def poll_label_def
      poll_name_def push_def pop_def mov_def test_zero_def jump_to_def epilogue_def numeral_2_eq_2 numeral_3_eq_3)


text \<open>
  The names of C functions and the generated labels share one name space: a function whose
  name is \<^verbatim>\<open>L1\<close> has the label of its own loop.
\<close>

lemma function_name_collides:
  "\<exists>c n'. gen_funcs [] False [loop_forever ''L1''] 0 = Some (c, n') \<and> \<not> distinct (labels_of c)"
proof -
  obtain c n' where c: "gen_funcs [] False [loop_forever ''L1''] 0 = Some (c, n')"
      "labels_of c = [''L1'', poll_name 0, user_label 0, new_label 1, poll_name 3, new_label 2, user_label 1]"
    using loop_forever_code by blast
  moreover have "new_label 1 = ''L1''"
    by (simp add: new_label_def show_int_def show_base.simps digit_char_def)
  ultimately show ?thesis by auto
qed

end
