(* ===== verification/Token.thy ===== *)
theory Token
  imports Cstd "HOL-Library.Sublist"
begin

text \<open>
  The lexer of the C compiler, \<^verbatim>\<open>symcc/src/tokenize.c\<close>, on the host build: integers are 64 bits wide
  (\<^verbatim>\<open>runtime/compiler_int.h\<close>).

  The source is the list of characters before its NUL. A token holds its text instead of a pointer into the
  source and a length. Every end of the program with a message is an error; \<open>Overrun\<close> is a read behind
  the NUL, \<open>Overflow\<close> a write behind the end of the buffer of a string literal.
\<close>

section \<open>Tokens\<close>

datatype tok_kind = TK_EOF | TK_NUM | TK_IDENT | TK_KEYWORD | TK_PUNCT | TK_STR

record token =
  tk_kind :: tok_kind
  tk_val :: int
  tk_text :: string
  tk_str :: string
  tk_unsigned :: bool
  tk_bol :: bool

datatype lex_error =
    Unterminated_comment | Bad_hex | Out_of_range | Invalid_number | Unterminated_string
  | Unterminated_char | Unexpected_char | Overrun | Overflow

definition new_token :: "tok_kind \<Rightarrow> string \<Rightarrow> bool \<Rightarrow> token" where
  "new_token k s bol = \<lparr>tk_kind = k, tk_val = 0, tk_text = s, tk_str = [], tk_unsigned = False, tk_bol = bol\<rparr>"

definition tok_is :: "token \<Rightarrow> string \<Rightarrow> bool" where
  "tok_is t s \<longleftrightarrow> (tk_kind t = TK_PUNCT \<or> tk_kind t = TK_KEYWORD) \<and> tk_text t = s"

definition tok_is_kw :: "token \<Rightarrow> string \<Rightarrow> bool" where
  "tok_is_kw t s \<longleftrightarrow> tk_kind t = TK_KEYWORD \<and> tk_text t = s"

definition tok_num :: "token \<Rightarrow> int" where "tok_num t = (if tk_kind t = TK_NUM then tk_val t else 0)"

definition tok_at_bol :: "token \<Rightarrow> bool" where "tok_at_bol t \<longleftrightarrow> tk_kind t \<noteq> TK_EOF \<and> tk_bol t"

definition punct1 :: string where "punct1 = ''+-*/%(){}=;,[]<>!&#?:^~|.''"

definition punct3 :: "string list" where "punct3 = [''<<='', ''>>='', ''...'']"

definition punct2 :: "string list" where
  "punct2 = [''=='', ''!='', ''<='', ''>='', ''&&'', ''||'', ''##'', ''<<'', ''>>'', ''+='', ''-='', ''*='', ''/='', ''%='',
     ''&='', ''|='', ''^='', ''++'', ''--'', ''->'']"

definition cc_keywords :: "string list" where
  "cc_keywords =
    [''return'', ''int'', ''char'', ''long'', ''short'', ''signed'', ''unsigned'', ''void'', ''if'', ''else'', ''while'', ''for'',
     ''typedef'', ''enum'', ''struct'', ''union'', ''static'', ''extern'', ''const'',
     ''volatile'', ''register'', ''inline'', ''sizeof'', ''break'', ''continue'',
     ''do'', ''switch'', ''case'', ''default'', ''goto'']"


section \<open>Literals\<close>

definition CC_LITERAL_MAX :: int where "CC_LITERAL_MAX = 0x7FFFFFFFFFFFFFFF"

text \<open>The value is unsigned with 64 bits; \<open>None\<close> is the end of the program.\<close>

definition cc_accumulate :: "int \<Rightarrow> int \<Rightarrow> int \<Rightarrow> int option" where
  "cc_accumulate value base digit =
     (if value > (CC_LITERAL_MAX - digit) div base then None else Some (value * base + digit))"

text \<open>An \<^verbatim>\<open>int\<close> of 32 bits, and its conversion to an unsigned value of 64.\<close>

definition to_int :: "int \<Rightarrow> int" where "to_int v = (v + 2 ^ 31) mod 2 ^ 32 - 2 ^ 31"

definition to_u64 :: "int \<Rightarrow> int" where "to_u64 v = v mod 2 ^ 64"

definition is_octal :: "char \<Rightarrow> bool" where "is_octal c \<longleftrightarrow> digit_value c < 8"
definition is_hex :: "char \<Rightarrow> bool" where "is_hex c \<longleftrightarrow> digit_value c < 16"

definition byte_char :: "int \<Rightarrow> char" where "byte_char v = char_of (nat (v mod 256))"

text \<open>The loops of \<^verbatim>\<open>get_escape\<close>: the value is an \<^verbatim>\<open>int\<close>.\<close>

fun escape_octal :: "nat \<Rightarrow> int \<Rightarrow> string \<Rightarrow> lex_error + int \<times> string" where
  "escape_octal (Suc n) v (c # cs) =
     (if is_octal c then
        (case cc_accumulate (to_u64 v) 8 (int (digit_value c)) of
           None \<Rightarrow> Inl Out_of_range
         | Some w \<Rightarrow> escape_octal n (to_int w) cs)
      else Inr (v, c # cs))"
| "escape_octal _ v cs = Inr (v, cs)"

fun escape_hex :: "int \<Rightarrow> string \<Rightarrow> lex_error + int \<times> string" where
  "escape_hex v (c # cs) =
     (if is_hex c then
        (case cc_accumulate (to_u64 v) 16 (int (digit_value c)) of
           None \<Rightarrow> Inl Out_of_range
         | Some w \<Rightarrow> escape_hex (to_int w) cs)
      else Inr (v, c # cs))"
| "escape_hex v [] = Inr (v, [])"

definition escape_chars :: "(char \<times> nat) list" where
  "escape_chars = [(CHR ''n'', 10), (CHR ''t'', 9), (CHR ''r'', 13), (CHR ''v'', 11), (CHR ''f'', 12), (CHR ''a'', 7), (CHR ''b'', 8),
     (CHR 0x5C, 0x5C), (CHR 0x22, 0x22), (CHR 0x27, 0x27), (CHR ''?'', 63)]"

text \<open>The character of the escape behind a backslash. At the end of the source the code steps over the NUL.\<close>

definition get_escape :: "string \<Rightarrow> lex_error + int \<times> string" where
  "get_escape p =
     (case p of
        [] \<Rightarrow> Inl Overrun
      | c # cs \<Rightarrow>
          (case map_of escape_chars c of
             Some v \<Rightarrow> Inr (int v, cs)
           | None \<Rightarrow>
               if is_octal c then map_sum id (map_prod (\<lambda>v. v mod 256) id) (escape_octal 3 0 p)
               else if c = CHR ''x'' then
                 (if cs \<noteq> [] \<and> is_hex (hd cs) then map_sum id (map_prod (\<lambda>v. v mod 256) id) (escape_hex 0 cs)
                  else Inr (int (code_of (CHR ''x'')), cs))
               else Inr (0x5C, cs)))"

text \<open>The digits of a number, and its suffix: whether it is unsigned, and what follows.\<close>

fun accumulate :: "nat \<Rightarrow> int \<Rightarrow> string \<Rightarrow> lex_error + int \<times> string" where
  "accumulate base v [] = Inr (v, [])"
| "accumulate base v (c # cs) =
     (if digit_value c < base then
        (case cc_accumulate v (int base) (int (digit_value c)) of
           None \<Rightarrow> Inl Out_of_range
         | Some w \<Rightarrow> accumulate base w cs)
      else Inr (v, c # cs))"

fun num_suffix :: "bool \<Rightarrow> bool \<Rightarrow> string \<Rightarrow> bool \<times> string" where
  "num_suffix uns lng [] = (uns, [])"
| "num_suffix uns lng (c # cs) =
     (if \<not> uns \<and> (c = CHR ''u'' \<or> c = CHR ''U'') then num_suffix True lng cs
      else if \<not> lng \<and> (c = CHR ''l'' \<or> c = CHR ''L'') then
        (case cs of
           d # ds \<Rightarrow> if d = c then num_suffix uns True ds else num_suffix uns True (d # ds)
         | [] \<Rightarrow> (uns, []))
      else (uns, c # cs))"

definition starts_digit :: "string \<Rightarrow> bool" where "starts_digit p \<longleftrightarrow> p \<noteq> [] \<and> is_digit (hd p)"

definition ident_char :: "char \<Rightarrow> bool" where "ident_char c \<longleftrightarrow> is_alnum c \<or> c = CHR ''_''"

definition lex_digits :: "string \<Rightarrow> lex_error + int \<times> string" where
  "lex_digits p =
     (case p of
        c # d # cs \<Rightarrow>
          if c = CHR ''0'' \<and> (d = CHR ''x'' \<or> d = CHR ''X'') then
            (if cs = [] \<or> \<not> is_hex (hd cs) then Inl Bad_hex else accumulate 16 0 cs)
          else if c = CHR ''0'' \<and> is_octal d then
            (case accumulate 8 0 (d # cs) of
               Inl e \<Rightarrow> Inl e
             | Inr (v, r) \<Rightarrow> if starts_digit r then accumulate 10 0 r else Inr (v, r))
          else accumulate 10 0 p
      | _ \<Rightarrow> accumulate 10 0 p)"

text \<open>What was read: the text before the rest.\<close>

definition before :: "string \<Rightarrow> string \<Rightarrow> string" where "before p r = take (length p - length r) p"

definition lex_number :: "string \<Rightarrow> bool \<Rightarrow> lex_error + token option \<times> string \<times> bool" where
  "lex_number p bol =
     (case lex_digits p of
        Inl e \<Rightarrow> Inl e
      | Inr (v, r0) \<Rightarrow>
          (let (uns, r) = num_suffix False False r0 in
           if r \<noteq> [] \<and> ident_char (hd r) then Inl Invalid_number
           else Inr (Some ((new_token TK_NUM (before p r) bol)\<lparr>tk_val := v, tk_unsigned := uns\<rparr>), r, False)))"

definition lex_word :: "string \<Rightarrow> bool \<Rightarrow> token option \<times> string \<times> bool" where
  "lex_word p bol =
     (let w = takeWhile ident_char p in
      (Some (new_token (if w \<in> set cc_keywords then TK_KEYWORD else TK_IDENT) w bol), dropWhile ident_char p, False))"

text \<open>The size of the buffer for a string literal: its length up to the closing quote, and one more.\<close>

fun string_end :: "string \<Rightarrow> nat" where
  "string_end [] = 0"
| "string_end (c # cs) =
     (if c = dquote then 0
      else if c = CHR 0x5C then (case cs of [] \<Rightarrow> 1 | d # ds \<Rightarrow> 2 + string_end ds)
      else 1 + string_end cs)"

definition string_cap :: "string \<Rightarrow> nat" where "string_cap p = string_end p + 2"

lemma map_sum_Inr: "map_sum id f x = Inr y \<longleftrightarrow> (\<exists>z. x = Inr z \<and> y = f z)"
  by (cases x) auto

lemma map_sum_Inl: "map_sum id f x = Inl e \<longleftrightarrow> x = Inl e"
  by (cases x) auto

lemma octal_hex: "is_octal c \<Longrightarrow> is_hex c"
  by (simp add: is_octal_def is_hex_def)

lemma escape_octal_read: "escape_octal n v p = Inr (w, r) \<Longrightarrow> \<exists>u. p = u @ r \<and> list_all is_hex u"
proof (induction n v p rule: escape_octal.induct)
  case (1 n v c cs)
  show ?case
  proof (cases "is_octal c")
    case True
    with "1.prems" obtain x where x: "cc_accumulate (to_u64 v) 8 (int (digit_value c)) = Some x"
        "escape_octal n (to_int x) cs = Inr (w, r)"
      by (auto split: option.splits)
    then obtain u where "cs = u @ r" "list_all is_hex u"
      using "1.IH" True by blast
    then have "c # cs = (c # u) @ r \<and> list_all is_hex (c # u)"
      using octal_hex True by simp
    then show ?thesis by blast
  qed (use "1.prems" in auto)
qed auto

lemma escape_hex_read: "escape_hex v p = Inr (w, r) \<Longrightarrow> \<exists>u. p = u @ r \<and> list_all is_hex u"
proof (induction v p rule: escape_hex.induct)
  case (1 v c cs)
  show ?case
  proof (cases "is_hex c")
    case True
    with "1.prems" obtain x where x: "cc_accumulate (to_u64 v) 16 (int (digit_value c)) = Some x"
        "escape_hex (to_int x) cs = Inr (w, r)"
      by (auto split: option.splits)
    then obtain u where "cs = u @ r" "list_all is_hex u"
      using "1.IH" True by blast
    then have "c # cs = (c # u) @ r \<and> list_all is_hex (c # u)"
      using True by simp
    then show ?thesis by blast
  qed (use "1.prems" in auto)
qed auto

lemma get_escape_read:
  assumes "get_escape p = Inr (v, r)"
  obtains c u where "p = c # u @ r" "list_all is_hex u"
proof (cases p)
  case (Cons c cs)
  have "\<exists>u. cs = u @ r \<and> list_all is_hex u"
  proof (cases "is_octal c \<and> map_of escape_chars c = None")
    case True
    then obtain x where "escape_octal 3 0 p = Inr (x, r)"
      using assms Cons by (auto simp: get_escape_def map_sum_Inr)
    then obtain y where "escape_octal 2 y cs = Inr (x, r)"
      using True Cons by (auto simp: numeral_3_eq_3 numeral_2_eq_2 split: option.splits)
    then show ?thesis by (rule escape_octal_read)
  next
    case False
    then show ?thesis
      using assms Cons by (auto simp: get_escape_def map_sum_Inr split: option.splits if_splits dest: escape_hex_read)
  qed
  then show thesis using that Cons by blast
qed (use assms in \<open>simp add: get_escape_def\<close>)

lemma get_escape_shorter: "get_escape p = Inr (v, r) \<Longrightarrow> length r < length p"
  by (erule get_escape_read) simp

text \<open>The characters of a string literal behind its opening quote, in a buffer of \<open>cap\<close> characters.\<close>

function lex_string :: "nat \<Rightarrow> string \<Rightarrow> string \<Rightarrow> lex_error + string \<times> string" where
  "lex_string cap buf [] = Inl Unterminated_string"
| "lex_string cap buf (c # cs) =
     (if c = dquote then Inr (buf, cs)
      else if c = CHR 0x5C then
        (case get_escape cs of
           Inl e \<Rightarrow> Inl e
         | Inr (v, r) \<Rightarrow>
             if length buf \<ge> cap then Inl Overflow else lex_string cap (buf @ [byte_char v]) r)
      else if length buf \<ge> cap then Inl Overflow else lex_string cap (buf @ [c]) cs)"
  by pat_completeness auto
termination
  by (relation "measure (\<lambda>(cap, buf, p). length p)") (auto dest!: get_escape_shorter)

definition lex_char :: "string \<Rightarrow> lex_error + int \<times> string" where
  "lex_char p =
     (case (case p of
              [] \<Rightarrow> Inl Overrun
            | c # cs \<Rightarrow> if c = CHR 0x5C then get_escape cs else Inr (int (code_of c), cs)) of
        Inl e \<Rightarrow> Inl e
      | Inr (v, r) \<Rightarrow> if r \<noteq> [] \<and> hd r = CHR 0x27 then Inr (v, tl r) else Inl Unterminated_char)"


section \<open>The lexer\<close>

fun skip_comment :: "string \<Rightarrow> string option" where
  "skip_comment [] = None"
| "skip_comment (c # cs) = (if c = CHR ''*'' \<and> cs \<noteq> [] \<and> hd cs = CHR ''/'' then Some (tl cs) else skip_comment cs)"

definition lex_punct :: "nat \<Rightarrow> string \<Rightarrow> bool \<Rightarrow> token option \<times> string \<times> bool" where
  "lex_punct k p bol = (Some (new_token TK_PUNCT (take k p) bol), drop k p, False)"

text \<open>One turn of the loop: a token or none, the rest, and whether the next token begins a line.\<close>

definition lex_step :: "string \<Rightarrow> bool \<Rightarrow> lex_error + token option \<times> string \<times> bool" where
  "lex_step p bol =
     (let c = hd p in
      if is_space c then Inr (None, tl p, if c = newline then True else bol)
      else if take 2 p = ''//'' then Inr (None, dropWhile (\<lambda>c. c \<noteq> newline) p, bol)
      else if take 2 p = ''/*'' then
        (case skip_comment (drop 2 p) of None \<Rightarrow> Inl Unterminated_comment | Some r \<Rightarrow> Inr (None, r, bol))
      else if is_digit c then lex_number p bol
      else if is_alpha c \<or> c = CHR ''_'' then Inr (lex_word p bol)
      else if take 3 p \<in> set punct3 then Inr (lex_punct 3 p bol)
      else if take 2 p \<in> set punct2 then Inr (lex_punct 2 p bol)
      else if c \<in> set punct1 then Inr (lex_punct 1 p bol)
      else if c = dquote then
        (case lex_string (string_cap (tl p)) [] (tl p) of
           Inl e \<Rightarrow> Inl e
         | Inr (s, r) \<Rightarrow> Inr (Some ((new_token TK_STR (before p r) bol)\<lparr>tk_str := s\<rparr>), r, False))
      else if c = CHR 0x27 then
        (case lex_char (tl p) of
           Inl e \<Rightarrow> Inl e
         | Inr (v, r) \<Rightarrow> Inr (Some ((new_token TK_NUM (before p r) bol)\<lparr>tk_val := v\<rparr>), r, False))
      else Inl Unexpected_char)"


lemma suffix_strict_Cons: "suffix r cs \<Longrightarrow> strict_suffix r (c # cs)"
  using suffix_length_le [of r cs] by (auto simp: strict_suffix_def intro: suffix_ConsI)

lemma accumulate_suffix: "accumulate base v p = Inr (w, r) \<Longrightarrow> suffix r p"
  by (induction base v p rule: accumulate.induct) (auto split: if_splits option.splits intro: suffix_ConsI)

lemma accumulate_strict:
  "accumulate base v (c # cs) = Inr (w, r) \<Longrightarrow> digit_value c < base \<Longrightarrow> strict_suffix r (c # cs)"
  by (auto split: option.splits dest: accumulate_suffix intro: suffix_strict_Cons)

lemma num_suffix_suffix: "num_suffix uns lng p = (u, r) \<Longrightarrow> suffix r p"
  by (induction uns lng p rule: num_suffix.induct) (auto split: if_splits list.splits intro: suffix_ConsI)

lemma digit_below: "is_digit c \<Longrightarrow> digit_value c < 10"
  by (auto simp: digit_value_def is_digit_def)

lemma lex_digits_strict:
  assumes "lex_digits p = Inr (v, r)" and "p \<noteq> []" and "is_digit (hd p)"
  shows "strict_suffix r p"
proof -
  obtain c cs where p: "p = c # cs" using assms(2) by (cases p) auto
  have plain: "strict_suffix r p" if "accumulate 10 0 p = Inr (v, r)"
    using that p assms(3) accumulate_strict [of 10 0 c cs] digit_below [of c] by simp
  show ?thesis
  proof (cases cs)
    case Nil
    then show ?thesis using assms p plain by (simp add: lex_digits_def)
  next
    case (Cons d ds)
    have "suffix r ds" if "accumulate 16 0 ds = Inr (v, r)" using that by (rule accumulate_suffix)
    moreover have "suffix r (d # ds)" if "accumulate 8 0 (d # ds) = Inr (w, r')" "r' = r \<or> accumulate 10 0 r' = Inr (v, r)" for w r'
      using that accumulate_suffix suffix_order.trans by blast
    ultimately show ?thesis
      using assms p Cons plain
      by (auto simp: lex_digits_def strict_suffix_def split: if_splits sum.splits prod.splits
            intro: suffix_ConsI dest: suffix_length_le)
  qed
qed

lemma skip_comment_suffix: "skip_comment p = Some r \<Longrightarrow> suffix r p"
  by (induction p) (auto split: if_splits simp: suffix_tl intro: suffix_ConsI)

lemma lex_string_suffix: "lex_string cap buf p = Inr (s, r) \<Longrightarrow> strict_suffix r p"
proof (induction cap buf p rule: lex_string.induct)
  case (2 cap buf c cs)
  have esc: "strict_suffix r (c # cs)" if "get_escape cs = Inr (v, x)" "strict_suffix r x" for v x
    using that by (auto elim!: get_escape_read simp: strict_suffix_def suffix_def)
  show ?case
  proof (cases "c = CHR 0x5C")
    case True
    then show ?thesis
      using "2.prems" "2.IH"(1) esc by (auto simp: dquote_def split: sum.splits prod.splits if_splits)
  next
    case False
    then show ?thesis
      using "2.prems" "2.IH"(2) by (auto simp: strict_suffix_def suffix_def split: if_splits)
  qed
qed simp

lemma lex_char_suffix:
  assumes "lex_char p = Inr (v, r)"
  shows "suffix r p"
proof -
  obtain x w where x: "hd x = CHR 0x27" "x \<noteq> []" "r = tl x"
    and "(case p of [] \<Rightarrow> Inl Overrun | c # cs \<Rightarrow> if c = CHR 0x5C then get_escape cs else Inr (int (code_of c), cs)) = Inr (w, x)"
    using assms by (auto simp: lex_char_def split: sum.splits prod.splits if_splits)
  then have "suffix x p"
    by (auto split: list.splits if_splits elim!: get_escape_read simp: suffix_def)
  then show ?thesis
    using x suffix_tl suffix_order.trans by metis
qed

lemma lex_word_strict:
  "lex_word p b = (t, r, b') \<Longrightarrow> p \<noteq> [] \<Longrightarrow> ident_char (hd p) \<Longrightarrow> strict_suffix r p"
  by (cases p) (auto simp: lex_word_def Let_def suffix_dropWhile intro: suffix_strict_Cons)

lemma suffix_strict_drop: "p \<noteq> [] \<Longrightarrow> 0 < n \<Longrightarrow> strict_suffix (drop n p) p"
  by (cases p; cases n) (auto simp: suffix_drop intro: suffix_strict_Cons)

text \<open>Every turn of the loop consumes at least one character, and never one behind the rest.\<close>

lemma lex_step_strict:
  assumes "lex_step p b = Inr (t, r, b')" and "p \<noteq> []"
  shows "strict_suffix r p"
proof -
  obtain c cs where p: "p = c # cs" using assms(2) by (cases p) auto
  have num: "strict_suffix r p" if "lex_number p b = Inr (t, r, b')" "is_digit c"
    using that p by (auto simp: lex_number_def split: sum.splits prod.splits if_splits dest!: num_suffix_suffix lex_digits_strict
        intro: suffix_order.le_less_trans)
  have line: "strict_suffix (dropWhile (\<lambda>c. c \<noteq> newline) p) p" if "take 2 p = ''//''"
    using that p by (auto simp: newline_def intro!: suffix_strict_Cons suffix_dropWhile)
  have block: "strict_suffix x p" if "skip_comment (drop 2 p) = Some x" for x
    using skip_comment_suffix [OF that] suffix_strict_drop [of p 2] assms(2) suffix_order.le_less_trans by auto
  have str: "strict_suffix x p" if "lex_string cap [] cs = Inr (s, x)" for cap s x
    using lex_string_suffix [OF that] p by (auto simp: strict_suffix_def intro!: suffix_strict_Cons [unfolded strict_suffix_def])
  have chr: "strict_suffix x p" if "lex_char cs = Inr (v, x)" for v x
    using lex_char_suffix [OF that] p by (auto intro: suffix_strict_Cons)
  have word: "strict_suffix r p" if "lex_word p b = (t, r, b')" "is_alpha c \<or> c = CHR ''_''"
    using lex_word_strict [OF that(1)] that(2) p by (auto simp: ident_char_def is_alnum_def)
  show ?thesis
    using assms(1) num line block str chr word suffix_strict_drop [OF assms(2)] suffix_strict_Cons [of cs cs c]
    unfolding p lex_step_def lex_punct_def Let_def list.sel
    by (auto simp del: take_Suc_Cons drop_Suc_Cons take_Cons_numeral drop_Cons_numeral
          split: if_split_asm option.split_asm sum.split_asm prod.split_asm)
qed

lemma strict_suffix_shorter: "strict_suffix r p \<Longrightarrow> length r < length p"
  by (metis strict_suffix_def suffix_def length_append less_add_same_cancel2 length_greater_0_conv append_Nil)

function lex_loop :: "string \<Rightarrow> bool \<Rightarrow> lex_error + token list" where
  "lex_loop p bol =
     (if p = [] then Inr [new_token TK_EOF [] False]
      else
        (case lex_step p bol of
           Inl e \<Rightarrow> Inl e
         | Inr (t, r, bol') \<Rightarrow>
             map_sum id (\<lambda>ts. case t of None \<Rightarrow> ts | Some t \<Rightarrow> t # ts) (lex_loop r bol')))"
  by pat_completeness auto
termination
  by (relation "measure (\<lambda>(p, bol). length p)") (auto dest!: lex_step_strict strict_suffix_shorter)

definition tokenize :: "string \<Rightarrow> lex_error + token list" where "tokenize p = lex_loop p True"


declare lex_loop.simps [simp del]

lemma lex_loop_Nil [simp]: "lex_loop [] b = Inr [new_token TK_EOF [] False]"
  by (simp add: lex_loop.simps)

lemma lex_loop_step:
  assumes "p \<noteq> []"
  shows "lex_step p b = Inr (Some t, r, b') \<Longrightarrow> lex_loop r b' = Inr ts \<Longrightarrow> lex_loop p b = Inr (t # ts)"
    and "lex_step p b = Inr (None, r, b') \<Longrightarrow> lex_loop p b = lex_loop r b'"
  using assms by (simp_all add: lex_loop.simps [of p] sum.map_id0 [unfolded id_def] id_def)

text \<open>A statement on every turn of the loop holds of the whole loop, when it passes to what is left.\<close>

lemma lex_loop_error:
  assumes "lex_loop p b = Inl e"
    and "\<And>p b. p \<noteq> [] \<Longrightarrow> P p \<Longrightarrow> lex_step p b = Inl e \<Longrightarrow> Q"
    and "\<And>p r. P p \<Longrightarrow> strict_suffix r p \<Longrightarrow> P r" and "P p"
  shows Q
  using assms(1,4)
proof (induction p b rule: lex_loop.induct)
  case (1 p b)
  then have ne: "p \<noteq> []" by auto
  show ?case
  proof (cases "lex_step p b")
    case (Inl e')
    then show ?thesis using "1.prems" ne assms(2) by (simp add: lex_loop.simps [of p])
  next
    case (Inr y)
    obtain t r b' where y: "y = (t, r, b')" by (cases y) auto
    then have "lex_loop r b' = Inl e"
      using "1.prems" ne Inr by (simp add: lex_loop.simps [of p] map_sum_Inl)
    then show ?thesis
      using "1.IH" [OF ne Inr y [symmetric] refl] assms(3) [OF "1.prems"(2)] lex_step_strict [of p b t r b'] Inr y ne by blast
  qed
qed


section \<open>The buffer of a string literal\<close>

lemma string_end_hex: "list_all is_hex u \<Longrightarrow> string_end (u @ r) = length u + string_end r"
  by (induction u) (auto simp: is_hex_def dquote_def digit_value_def is_digit_def is_lower_def is_upper_def code_of_def)

lemma escape_error:
  "escape_octal n v p = Inl e \<Longrightarrow> e = Out_of_range"
  "escape_hex v p = Inl e \<Longrightarrow> e = Out_of_range"
proof -
  show "escape_octal n v p = Inl e \<Longrightarrow> e = Out_of_range"
    by (induction n v p rule: escape_octal.induct) (auto split: if_splits option.splits)
  show "escape_hex v p = Inl e \<Longrightarrow> e = Out_of_range"
    by (induction v p rule: escape_hex.induct) (auto split: if_splits option.splits)
qed

lemma get_escape_error: "get_escape p = Inl e \<Longrightarrow> e = Out_of_range \<or> p = [] \<and> e = Overrun"
  by (auto simp: get_escape_def map_sum_Inl split: list.splits option.splits if_splits dest: escape_error)

lemma lex_string_fits:
  "length buf + string_end p < cap \<Longrightarrow> lex_string cap buf p \<noteq> Inl Overflow"
proof (induction cap buf p rule: lex_string.induct)
  case (2 cap buf c cs)
  have esc: "string_end x + 2 \<le> string_end (c # cs)" if "c = CHR 0x5C" "get_escape cs = Inr (v, x)" for v x
    using that by (auto elim!: get_escape_read simp: string_end_hex dquote_def)
  show ?case
  proof (cases "c = CHR 0x5C")
    case True
    have "get_escape cs \<noteq> Inl Overflow"
      using get_escape_error by fastforce
    then show ?thesis
      using True "2.prems" "2.IH"(1) esc [OF True] by (fastforce simp: dquote_def split: sum.splits prod.splits)
  next
    case False
    then show ?thesis
      using "2.prems" "2.IH"(2) by (auto split: if_splits)
  qed
qed simp


lemma lex_string_overrun: "lex_string cap buf p = Inl Overrun \<Longrightarrow> p \<noteq> [] \<and> last p = CHR 0x5C"
proof (induction cap buf p rule: lex_string.induct)
  case (2 cap buf c cs)
  show ?case
  proof (cases "c = CHR 0x5C")
    case True
    show ?thesis
    proof (cases "get_escape cs")
      case (Inl e)
      then show ?thesis
        using True "2.prems" get_escape_error [OF Inl] by (auto simp: dquote_def)
    next
      case (Inr y)
      obtain v r where y: "y = (v, r)" by (cases y)
      have "r \<noteq> [] \<and> last r = CHR 0x5C"
        using True "2.prems" "2.IH"(1) [OF _ True Inr y [symmetric]] Inr y by (auto simp: dquote_def split: if_splits)
      then show ?thesis
        using Inr y by (auto elim!: get_escape_read)
    qed
  next
    case False
    then show ?thesis
      using "2.prems" "2.IH"(2) by (auto split: if_splits)
  qed
qed simp

lemma lex_char_error:
  "lex_char p = Inl e \<Longrightarrow> e = Unterminated_char \<or> e = Out_of_range \<or> e = Overrun \<and> (p = [] \<or> p = [CHR 0x5C])"
  by (auto simp: lex_char_def split: list.splits sum.splits prod.splits if_splits dest!: get_escape_error)

lemma accumulate_error: "accumulate base v p = Inl e \<Longrightarrow> e = Out_of_range"
  by (induction base v p rule: accumulate.induct) (auto split: if_splits option.splits)

lemma lex_number_error: "lex_number p b = Inl e \<Longrightarrow> e = Bad_hex \<or> e = Out_of_range \<or> e = Invalid_number"
  by (auto simp: lex_number_def lex_digits_def Let_def simp del: accumulate.simps
      split: sum.splits prod.splits if_splits list.splits dest!: accumulate_error)

lemma lex_step_safe:
  assumes "p \<noteq> []"
  shows "lex_step p b \<noteq> Inl Overflow"
    and "lex_step p b = Inl Overrun \<Longrightarrow> last p = CHR 0x5C \<or> last p = CHR 0x27"
proof -
  have number: "lex_number p b \<noteq> Inl Overflow" "lex_number p b \<noteq> Inl Overrun"
    using lex_number_error by fastforce+
  have chr: "lex_char q \<noteq> Inl Overflow" for q
    using lex_char_error by fastforce
  have str: "lex_string (string_cap q) [] q \<noteq> Inl Overflow" for q
    by (rule lex_string_fits) (simp add: string_cap_def)
  show "lex_step p b \<noteq> Inl Overflow"
    using number(1) str chr by (auto simp: lex_step_def Let_def split: option.splits sum.splits prod.splits)
  show "last p = CHR 0x5C \<or> last p = CHR 0x27" if *: "lex_step p b = Inl Overrun"
  proof -
    obtain c cs where p: "p = c # cs" using assms by (cases p) auto
    have "(\<exists>cap. lex_string cap [] cs = Inl Overrun) \<or> c = CHR 0x27 \<and> lex_char cs = Inl Overrun"
      using * number(2) p
      by (auto simp: lex_step_def Let_def split: if_splits option.splits sum.splits prod.splits)
    then show ?thesis
      using p lex_string_overrun lex_char_error [of cs Overrun] by fastforce
  qed
qed




section \<open>The tokens and the source\<close>

lemma before_suffix: "suffix r p \<Longrightarrow> before p r @ r = p"
  by (auto simp: before_def suffix_def)

lemma lex_step_text:
  assumes "lex_step p b = Inr (Some t, r, b')" and "p \<noteq> []"
  shows "p = tk_text t @ r" and "tk_kind t \<noteq> TK_EOF" and "tk_bol t = b" and "\<not> b'"
proof -
  have r: "before p r @ r = p"
    using lex_step_strict [OF assms] by (simp add: before_suffix)
  have number: "tk_text t = before p r \<and> tk_kind t = TK_NUM \<and> tk_bol t = b \<and> \<not> b'" if "lex_number p b = Inr (Some t, r, b')"
    using that by (auto simp: lex_number_def Let_def new_token_def split: sum.splits prod.splits if_splits)
  have word: "tk_text t @ r = p \<and> tk_kind t \<noteq> TK_EOF \<and> tk_bol t = b \<and> \<not> b'" if "lex_word p b = (Some t, r, b')"
    using that by (auto simp: lex_word_def Let_def new_token_def split: if_splits)
  have punct: "tk_text t @ r = p \<and> tk_kind t \<noteq> TK_EOF \<and> tk_bol t = b \<and> \<not> b'" if "lex_punct k p b = (Some t, r, b')" for k
    using that by (auto simp: lex_punct_def new_token_def)
  have "p = tk_text t @ r \<and> tk_kind t \<noteq> TK_EOF \<and> tk_bol t = b \<and> \<not> b'"
    using assms(1) r number word punct unfolding lex_step_def Let_def
    by (auto simp: new_token_def split: if_split_asm option.split_asm sum.split_asm prod.split_asm)
  then show "p = tk_text t @ r" "tk_kind t \<noteq> TK_EOF" "tk_bol t = b" "\<not> b'" by blast+
qed

lemma lex_loop_tokens:
  "lex_loop p b = Inr ts \<Longrightarrow>
     \<exists>us. ts = us @ [new_token TK_EOF [] False] \<and> (\<forall>t \<in> set us. tk_kind t \<noteq> TK_EOF \<and> tk_text t \<noteq> [])
       \<and> subseq (concat (map tk_text us)) p"
proof (induction p b arbitrary: ts rule: lex_loop.induct)
  case (1 p b)
  show ?case
  proof (cases "p = []")
    case False
    then obtain t r b' us where s: "lex_step p b = Inr (t, r, b')" "lex_loop r b' = Inr us"
        "ts = (case t of None \<Rightarrow> us | Some t \<Rightarrow> t # us)"
      using "1.prems" by (auto simp: lex_loop.simps [of p] map_sum_Inr split: sum.splits)
    obtain vs where vs: "us = vs @ [new_token TK_EOF [] False]" "\<forall>t \<in> set vs. tk_kind t \<noteq> TK_EOF \<and> tk_text t \<noteq> []"
        "subseq (concat (map tk_text vs)) r"
      using "1.IH" [OF False s(1) refl refl s(2)] by blast
    have strict: "strict_suffix r p" using lex_step_strict [OF s(1) False] .
    show ?thesis
    proof (cases t)
      case None
      have "subseq (concat (map tk_text vs)) p"
        using vs(3) strict by (metis subseq_drop_many suffix_def strict_suffix_def)
      then show ?thesis using vs s(3) None by auto
    next
      case (Some u)
      have u: "p = tk_text u @ r" "tk_kind u \<noteq> TK_EOF"
        using lex_step_text [of p b u r b'] s(1) Some False by auto
      moreover have "tk_text u \<noteq> []" using u(1) strict by auto
      moreover have "subseq (concat (map tk_text (u # vs))) p"
        using vs(3) unfolding u(1) by (simp add: list_emb_append_mono)
      ultimately show ?thesis using vs s(3) Some by (intro exI [of _ "u # vs"]) auto
    qed
  qed (use "1.prems" in simp)
qed




section \<open>Two literals the lexer does not read as its comments say\<close>

text \<open>An escape it does not know loses its character, and an octal literal with a digit 8 or 9 loses the digits before it.\<close>

lemma unknown_escape_drops:
  assumes "map_of escape_chars c = None" and "\<not> is_octal c" and "c \<noteq> CHR ''x''"
  shows "get_escape (c # cs) = Inr (0x5C, cs)"
  using assms by (simp add: get_escape_def)

lemma bad_octal_restarts:
  "map_sum id (map tk_val) (tokenize ''018'') = Inr [8, 0]"
  by code_simp

end
