(* ===== verification/Token_Print.thy ===== *)
theory Token_Print
  imports Token
begin

text \<open>
  Reading back what a printer of tokens writes: the lexer of \<^verbatim>\<open>symcc/src/tokenize.c\<close> returns the printed tokens.
\<close>

section \<open>Spelling tokens\<close>

text \<open>The characters of a string literal, and the text of a token: what a printer writes.\<close>

definition quote_char :: "char \<Rightarrow> string" where
  "quote_char c =
     (if c = dquote \<or> c = CHR 0x5C then [CHR 0x5C, c] else if c = newline then [CHR 0x5C, CHR ''n''] else [c])"

definition puncts :: "string list" where "puncts = punct3 @ punct2 @ map (\<lambda>c. [c]) punct1"

definition spelled :: "token \<Rightarrow> bool" where
  "spelled t =
     (let w = tk_text t; plain = tk_str t = [] \<and> \<not> tk_unsigned t \<and> tk_val t = 0 in
      case tk_kind t of
        TK_EOF \<Rightarrow> False
      | TK_NUM \<Rightarrow> tk_str t = [] \<and> 0 \<le> tk_val t \<and> tk_val t \<le> CC_LITERAL_MAX
          \<and> w = show_base 10 (nat (tk_val t)) @ (if tk_unsigned t then ''u'' else [])
      | TK_IDENT \<Rightarrow> plain \<and> w \<noteq> [] \<and> list_all ident_char w \<and> \<not> is_digit (hd w) \<and> w \<notin> set cc_keywords
      | TK_KEYWORD \<Rightarrow> plain \<and> w \<in> set cc_keywords
      | TK_PUNCT \<Rightarrow> plain \<and> w \<in> set puncts
      | TK_STR \<Rightarrow> \<not> tk_unsigned t \<and> tk_val t = 0 \<and> w = dquote # concat (map quote_char (tk_str t)) @ [dquote])"

definition print_token :: "token \<Rightarrow> string" where
  "print_token t = (if tk_bol t then newline else CHR '' '') # tk_text t"

definition eof_token :: token where "eof_token = new_token TK_EOF [] False"

text \<open>What follows a token of a printed text.\<close>

definition apart :: "string \<Rightarrow> bool" where "apart r \<longleftrightarrow> r = [] \<or> is_space (hd r)"

lemma token_eqI:
  fixes t u :: token
  shows "tk_kind t = tk_kind u \<Longrightarrow> tk_val t = tk_val u \<Longrightarrow> tk_text t = tk_text u \<Longrightarrow> tk_str t = tk_str u
    \<Longrightarrow> tk_unsigned t = tk_unsigned u \<Longrightarrow> tk_bol t = tk_bol u \<Longrightarrow> t = u"
  by (cases t; cases u) simp

lemma apart_word:
  assumes "apart r" and "list_all ident_char w"
  shows "takeWhile ident_char (w @ r) = w" and "dropWhile ident_char (w @ r) = r"
proof -
  have *: "\<forall>x \<in> set w. ident_char x" using assms(2) by (simp add: list_all_iff)
  have no: "\<not> ident_char d" if "is_space d" for d
    using that by (auto simp: is_space_def ident_char_def is_alnum_def is_alpha_def is_digit_def is_lower_def is_upper_def code_of_def)
  show "takeWhile ident_char (w @ r) = w" "dropWhile ident_char (w @ r) = r"
    using * assms(1) no by (cases r; simp add: apart_def takeWhile_append2 dropWhile_append2)+
qed

lemma word_char_plain: "ident_char c \<Longrightarrow> \<not> is_space c \<and> c \<noteq> CHR ''/''"
  by (auto simp: is_space_def ident_char_def is_alnum_def is_alpha_def is_digit_def is_lower_def is_upper_def code_of_def)

lemma step_word:
  assumes "w \<noteq> []" and "list_all ident_char w" and "\<not> is_digit (hd w)" and "apart r"
  shows "lex_step (w @ r) b = Inr (Some (new_token (if w \<in> set cc_keywords then TK_KEYWORD else TK_IDENT) w b), r, False)"
proof -
  obtain c cs where w: "w = c # cs" using assms(1) by (cases w) auto
  then have c: "ident_char c" "\<not> is_digit c" using assms by auto
  then have "is_alpha c \<or> c = CHR ''_''" by (auto simp: ident_char_def is_alnum_def)
  then show ?thesis
    using c word_char_plain [OF c(1)] w apart_word [OF assms(4,2)]
    by (simp add: lex_step_def lex_word_def Let_def del: takeWhile.simps dropWhile.simps)
qed

text \<open>A punctuator is found by the longest match, since no punctuator holds a space.\<close>

lemma puncts_munch:
  "\<forall>w \<in> set puncts. \<not> is_space (hd w) \<and> take 2 w \<noteq> ''//'' \<and> take 2 w \<noteq> ''/*'' \<and> \<not> is_digit (hd w) \<and> \<not> ident_char (hd w)
     \<and> length w \<in> {1, 2, 3}
     \<and> (take 3 w \<in> set punct3 \<longleftrightarrow> length w = 3) \<and> (length w = 2 \<longleftrightarrow> take 3 w \<notin> set punct3 \<and> take 2 w \<in> set punct2)
     \<and> (length w = 1 \<longrightarrow> hd w \<in> set punct1)"
  by code_simp

lemma puncts_sizes:
  "\<forall>w \<in> set punct3. length w = 3" "\<forall>w \<in> set punct2. length w = 2"
  by code_simp+

lemma puncts_solid: "\<forall>w \<in> set (''//'' # ''/*'' # puncts). list_all (\<lambda>c. \<not> is_space c) w"
  by code_simp


lemma take_apart:
  assumes "apart r" and "list_all (\<lambda>c. \<not> is_space c) u" and "length u = n"
  shows "take n (w @ r) = u \<longleftrightarrow> take n w = u"
proof (cases "n \<le> length w")
  case False
  then obtain k where k: "n - length w = Suc k" by (metis Suc_diff_Suc not_le)
  have "take n (w @ r) \<noteq> u"
  proof (cases r)
    case (Cons d ds)
    then have "d \<in> set (take n (w @ r))" using False k by simp
    moreover have "is_space d" using assms(1) Cons by (simp add: apart_def)
    ultimately show ?thesis using assms(2) by (metis list_all_iff)
  qed (use False assms in auto)
  then show ?thesis using False assms(3) by auto
qed simp

lemma member_same: "(\<And>u. u \<in> S \<Longrightarrow> a = u \<longleftrightarrow> b = u) \<Longrightarrow> a \<in> S \<longleftrightarrow> b \<in> S"
  by metis

lemma step_punct:
  assumes "w \<in> set puncts" and "apart r"
  shows "lex_step (w @ r) b = Inr (Some (new_token TK_PUNCT w b), r, False)"
proof -
  have m: "\<not> is_space (hd w)" "take 2 w \<noteq> ''//''" "take 2 w \<noteq> ''/*''" "\<not> is_digit (hd w)" "\<not> ident_char (hd w)"
     "length w \<in> {1, 2, 3}" "take 3 w \<in> set punct3 \<longleftrightarrow> length w = 3"
     "length w = 2 \<longleftrightarrow> take 3 w \<notin> set punct3 \<and> take 2 w \<in> set punct2" "length w = 1 \<longrightarrow> hd w \<in> set punct1"
    using puncts_munch assms(1) by blast+
  have same: "take n (w @ r) = u \<longleftrightarrow> take n w = u" if "u \<in> set (''//'' # ''/*'' # puncts)" "length u = n" for n u
    using take_apart [OF assms(2) _ that(2)] puncts_solid that(1) by blast
  have "take 3 (w @ r) = u \<longleftrightarrow> take 3 w = u" if "u \<in> set punct3" for u
    using same [of u 3] puncts_sizes(1) that by (simp add: puncts_def)
  then have t3: "take 3 (w @ r) \<in> set punct3 \<longleftrightarrow> take 3 w \<in> set punct3" by (rule member_same)
  have "take 2 (w @ r) = u \<longleftrightarrow> take 2 w = u" if "u \<in> set punct2" for u
    using same [of u 2] puncts_sizes(2) that by (simp add: puncts_def)
  then have t2: "take 2 (w @ r) \<in> set punct2 \<longleftrightarrow> take 2 w \<in> set punct2" by (rule member_same)
  have c: "take 2 (w @ r) \<noteq> ''//''" "take 2 (w @ r) \<noteq> ''/*''"
    using same [of "''//''" 2] same [of "''/*''" 2] m(2,3) by simp_all
  have hd: "hd (w @ r) = hd w" using m(6) by (cases w) auto
  show ?thesis
    using m t3 t2 c unfolding lex_step_def lex_punct_def Let_def hd
    by (auto simp: ident_char_def is_alnum_def)
qed

lemma accumulate_value:
  assumes "list_all (\<lambda>c. digit_value c < base) w" and "r = [] \<or> \<not> digit_value (hd r) < base" and "0 < base"
    and "int (foldl (\<lambda>a c. a * base + digit_value c) v w) \<le> CC_LITERAL_MAX"
  shows "accumulate base (int v) (w @ r) = Inr (int (foldl (\<lambda>a c. a * base + digit_value c) v w), r)"
  using assms(1,4)
proof (induction w arbitrary: v)
  case Nil
  then show ?case using assms(2) by (cases r) auto
next
  case (Cons c w)
  define v' where "v' = v * base + digit_value c"
  have mono: "v' \<le> foldl (\<lambda>a c. a * base + digit_value c) v' w" for v'
  proof (induction w arbitrary: v')
    case (Cons a w)
    have "v' * 1 \<le> v' * base" using assms(3) by (intro mult_le_mono) auto
    then have "v' \<le> v' * base + digit_value a" using trans_le_add1 [of v' "v' * base"] by (simp only: mult_1_right)
    also note Cons [of "v' * base + digit_value a"]
    finally show ?case by simp
  qed simp
  have "int v' \<le> CC_LITERAL_MAX"
    using order.trans [OF of_nat_mono [OF mono [of v']]] Cons.prems(2) by (simp only: foldl_Cons v'_def)
  then have "int v * int base \<le> CC_LITERAL_MAX - int (digit_value c)"
    by (simp add: v'_def)
  then have "int v \<le> (CC_LITERAL_MAX - int (digit_value c)) div int base"
    using assms(3) by (simp add: zdiv_mono1 [of "int v * int base" _ "int base", simplified])
  then have "cc_accumulate (int v) (int base) (int (digit_value c)) = Some (int v')"
    by (simp add: cc_accumulate_def v'_def)
  then show ?case
    using Cons.IH [of v'] Cons.prems by (simp add: v'_def)
qed


lemma show_base_head: "0 < n \<Longrightarrow> hd (show_base 10 n) \<noteq> CHR ''0''"
proof (induction "10 :: nat" n rule: show_base.induct)
  case (1 n)
  show ?case
  proof (cases "n < 10")
    case True
    then have "digit_value (digit_char n) = n" by simp
    then have "digit_char n \<noteq> CHR ''0''" using "1.prems" by (auto simp: digit_value_def is_digit_def code_of_def)
    then show ?thesis using True by (subst show_base.simps) simp
  next
    case False
    then show ?thesis using 1 by (subst show_base.simps) (simp add: hd_append div_greater_zero_iff)
  qed
qed

lemma space_no_digit: "is_space c \<Longrightarrow> \<not> digit_value c < 36 \<and> c \<noteq> CHR ''u'' \<and> c \<noteq> CHR ''U'' \<and> c \<noteq> CHR ''l'' \<and> c \<noteq> CHR ''L'' \<and> \<not> ident_char c"
  by (auto simp: is_space_def ident_char_def is_alnum_def is_alpha_def digit_value_def is_digit_def is_lower_def is_upper_def code_of_def)

lemma lex_digits_shown:
  assumes "int n \<le> CC_LITERAL_MAX" and "apart r"
  shows "lex_digits (show_base 10 n @ ''u'' @ r) = Inr (int n, ''u'' @ r)" and "lex_digits (show_base 10 n @ r) = Inr (int n, r)"
proof -
  have all: "list_all (\<lambda>c. digit_value c < 10) (show_base 10 n)"
    using show_base_digits [of 10 n] by (simp add: list_all_iff)
  have acc: "accumulate 10 0 (show_base 10 n @ x) = Inr (int n, x)" if "x = [] \<or> \<not> digit_value (hd x) < 10" for x
    using accumulate_value [OF all that, of 0] show_base_value [of 10 n] assms(1) by simp
  obtain c cs where c: "show_base 10 n = c # cs" by (cases "show_base 10 n") auto
  have digits: "is_digit d" if "d \<in> set (c # cs)" for d using that digit_of_shown [of d n] c by simp
  have shown: "lex_digits (show_base 10 n @ x) = Inr (int n, x)"
    if x: "x = [] \<or> \<not> digit_value (hd x) < 10 \<and> hd x \<noteq> CHR ''x'' \<and> hd x \<noteq> CHR ''X''" for x
  proof (cases "cs @ x")
    case Nil
    then show ?thesis using acc [of x] that c by (auto simp: lex_digits_def)
  next
    case (Cons d ds)
    have "d \<noteq> CHR ''x'' \<and> d \<noteq> CHR ''X'' \<and> \<not> is_octal d" if "c = CHR ''0''"
    proof -
      have d: "d = hd x \<and> x \<noteq> []"
      proof -
        have "cs = []"
        proof (rule ccontr)
          assume "cs \<noteq> []"
          then have "0 < n"
            using c by (cases "n = 0") (simp_all add: show_base.simps [of 10 0])
          then show False using show_base_head [of n] c that by simp
        qed
        then show ?thesis using Cons by auto
      qed
      then show ?thesis using x by (simp add: is_octal_def)
    qed
    then show ?thesis using acc [of x] x c Cons by (auto simp: lex_digits_def)
  qed
  have u: "\<not> digit_value (CHR ''u'') < 10" by code_simp
  show "lex_digits (show_base 10 n @ ''u'' @ r) = Inr (int n, ''u'' @ r)"
    by (rule shown) (simp add: u)
  have "\<not> is_space (CHR ''x'')" "\<not> is_space (CHR ''X'')" by code_simp+
  then show "lex_digits (show_base 10 n @ r) = Inr (int n, r)"
    using assms(2) space_no_digit [of "hd r"] by (intro shown) (auto simp: apart_def)
qed

lemma step_number:
  assumes "int n \<le> CC_LITERAL_MAX" and "apart r"
  shows "lex_step (show_base 10 n @ (if u then ''u'' else []) @ r) b
    = Inr (Some ((new_token TK_NUM (show_base 10 n @ (if u then ''u'' else [])) b)\<lparr>tk_val := int n, tk_unsigned := u\<rparr>), r, False)"
proof -
  obtain c cs where c: "show_base 10 n = c # cs" "is_digit c" by (rule shown_head)
  have suffix: "num_suffix False False ((if u then ''u'' else []) @ r) = (u, r)"
    using assms(2) space_no_digit [of "hd r"] by (cases r) (auto simp: apart_def)
  have digits: "lex_digits (show_base 10 n @ (if u then ''u'' else []) @ r) = Inr (int n, (if u then ''u'' else []) @ r)"
    using lex_digits_shown [OF assms] by (cases u) auto
  have "\<not> (r \<noteq> [] \<and> ident_char (hd r))" using assms(2) space_no_digit by (auto simp: apart_def)
  then have "lex_number (show_base 10 n @ (if u then ''u'' else []) @ r) b =
      Inr (Some ((new_token TK_NUM (show_base 10 n @ (if u then ''u'' else [])) b)\<lparr>tk_val := int n, tk_unsigned := u\<rparr>), r, False)"
    unfolding lex_number_def digits by (simp add: suffix before_def)
  moreover have "\<not> is_space c" "c \<noteq> CHR ''/''" using c(2) by (auto simp: is_digit_def is_space_def code_of_def)
  ultimately show ?thesis using c by (simp add: lex_step_def Let_def)
qed

lemma quote_string:
  assumes "length buf + string_end (concat (map quote_char s) @ [dquote]) < cap"
  shows "lex_string cap buf (concat (map quote_char s) @ dquote # r) = Inr (buf @ s, r)"
  using assms
proof (induction s arbitrary: buf)
  case (Cons c s)
  have esc: "map_of escape_chars dquote = Some (code_of dquote)" "map_of escape_chars (CHR 0x5C) = Some (code_of (CHR 0x5C))"
    "map_of escape_chars (CHR ''n'') = Some (code_of newline)" by code_simp+
  have byte: "byte_char (int (code_of d)) = d" for d :: char
    by (simp add: byte_char_def code_of_def nat_mod_distrib)
  have ne: "dquote \<noteq> CHR 0x5C" by code_simp
  show ?case
    using Cons.IH [of "buf @ [c]"] Cons.prems ne ne [symmetric]
    by (auto simp: quote_char_def get_escape_def esc byte split: if_splits)
qed (simp add: dquote_def)

lemma step_dquote:
  "lex_step (dquote # x) b =
     (case lex_string (string_cap x) [] x of
        Inl e \<Rightarrow> Inl e
      | Inr (s, r) \<Rightarrow> Inr (Some ((new_token TK_STR (before (dquote # x) r) b)\<lparr>tk_str := s\<rparr>), r, False))"
proof -
  have plain: "\<not> is_space dquote" "dquote \<noteq> CHR ''/''" "\<not> is_digit dquote" "\<not> is_alpha dquote" "dquote \<noteq> CHR ''_''"
    "dquote \<notin> set punct1" and quoteless: "\<forall>w \<in> set (punct3 @ punct2). dquote \<notin> set w" by code_simp+
  have "dquote \<in> set (take 3 (dquote # x))" "dquote \<in> set (take 2 (dquote # x))" by simp_all
  then have "take 3 (dquote # x) \<notin> set punct3" "take 2 (dquote # x) \<notin> set punct2"
    using quoteless by fastforce+
  moreover have "take 2 (dquote # x) \<noteq> ''//''" "take 2 (dquote # x) \<noteq> ''/*''" using plain by auto
  ultimately show ?thesis
    unfolding lex_step_def Let_def list.sel by (simp only: plain if_False if_True simp_thms)
qed

lemma step_string:
  "lex_step (dquote # concat (map quote_char s) @ dquote # r) b =
     Inr (Some ((new_token TK_STR (dquote # concat (map quote_char s) @ [dquote]) b)\<lparr>tk_str := s\<rparr>), r, False)"
proof -
  have end_same: "string_end (concat (map quote_char s) @ dquote # x) = string_end (concat (map quote_char s) @ [dquote])" for x
    by (induction s) (auto simp: quote_char_def dquote_def newline_def)
  have "lex_string (string_cap (concat (map quote_char s) @ dquote # r)) [] (concat (map quote_char s) @ dquote # r) = Inr (s, r)"
    using quote_string [of "[]" s] by (simp add: string_cap_def end_same [of r])
  then show ?thesis
    by (simp add: step_dquote before_def)
qed

lemma keywords_words: "\<forall>w \<in> set cc_keywords. w \<noteq> [] \<and> list_all ident_char w \<and> \<not> is_digit (hd w)"
  by code_simp

lemma step_spelled:
  assumes "spelled t" and "apart r"
  shows "lex_step (tk_text t @ r) (tk_bol t) = Inr (Some t, r, False)"
proof (cases "tk_kind t")
  case TK_EOF
  then show ?thesis using assms(1) by (simp add: spelled_def)
next
  case TK_NUM
  then show ?thesis
    using assms step_number [of "nat (tk_val t)" r "tk_unsigned t" "tk_bol t"]
    by (cases t) (auto simp: spelled_def new_token_def Let_def)
next
  case TK_IDENT
  then show ?thesis
    using assms step_word [of "tk_text t" r "tk_bol t"] by (cases t) (auto simp: spelled_def new_token_def Let_def)
next
  case TK_KEYWORD
  then have "tk_text t \<in> set cc_keywords" using assms(1) by (simp add: spelled_def Let_def)
  moreover from this have "tk_text t \<noteq> [] \<and> list_all ident_char (tk_text t) \<and> \<not> is_digit (hd (tk_text t))"
    using keywords_words by blast
  ultimately show ?thesis
    using TK_KEYWORD assms step_word [of "tk_text t" r "tk_bol t"] by (cases t) (auto simp: spelled_def new_token_def Let_def)
next
  case TK_PUNCT
  then show ?thesis
    using assms step_punct [of "tk_text t" r "tk_bol t"] by (cases t) (auto simp: spelled_def new_token_def Let_def)
next
  case TK_STR
  then show ?thesis
    using assms step_string [of "tk_str t" r "tk_bol t"] by (cases t) (auto simp: spelled_def new_token_def Let_def)
qed

lemma step_space: "lex_step (newline # p) b = Inr (None, p, True)" "lex_step (CHR '' '' # p) b = Inr (None, p, b)"
proof -
  have "is_space newline" "is_space (CHR '' '')" "CHR '' '' \<noteq> newline" by code_simp+
  then show "lex_step (newline # p) b = Inr (None, p, True)" "lex_step (CHR '' '' # p) b = Inr (None, p, b)"
    by (simp_all add: lex_step_def Let_def)
qed

lemma print_apart: "apart (concat (map print_token ts))"
proof -
  have "is_space newline" "is_space (CHR '' '')" by code_simp+
  then show ?thesis by (cases ts) (simp_all add: apart_def print_token_def)
qed

lemma spelled_text: "spelled t \<Longrightarrow> tk_text t \<noteq> []"
  using keywords_words puncts_munch
  by (auto simp: spelled_def Let_def split: tok_kind.split_asm)

lemma loop_print:
  assumes "list_all spelled ts" and "b \<Longrightarrow> ts \<noteq> [] \<Longrightarrow> tk_bol (hd ts)"
  shows "lex_loop (concat (map print_token ts)) b = Inr (ts @ [eof_token])"
  using assms
proof (induction ts arbitrary: b)
  case (Cons t ts)
  let ?r = "concat (map print_token ts)"
  have "lex_loop ?r False = Inr (ts @ [eof_token])" using Cons by simp
  moreover have "tk_text t @ ?r \<noteq> []" "lex_step (tk_text t @ ?r) (tk_bol t) = Inr (Some t, ?r, False)"
    using step_spelled [OF _ print_apart] spelled_text Cons.prems(1) by auto
  ultimately have "lex_loop (tk_text t @ ?r) (tk_bol t) = Inr (t # ts @ [eof_token])"
    by (intro lex_loop_step(1))
  moreover have "lex_loop (print_token t @ ?r) b = lex_loop (tk_text t @ ?r) (tk_bol t)"
    using Cons.prems(2) step_space
    by (cases "tk_bol t"; cases b) (auto simp: print_token_def intro!: lex_loop_step(2))
  ultimately show ?case by simp
qed (simp add: eof_token_def)

text \<open>C8: A list of well spelled tokens, printed with a line break before each token that begins a line and a space before
  each other one, is read back by the lexer as the same tokens, the end of the source behind them.\<close>

theorem tokenize_print:
  assumes "list_all spelled ts" and "ts \<noteq> [] \<Longrightarrow> tk_bol (hd ts)"
  shows "tokenize (concat (map print_token ts)) = Inr (ts @ [eof_token])"
  using loop_print [of ts True] assms by (simp add: tokenize_def)

theorem tokenize_print_witness:
  "tokenize (concat (map print_token
      [new_token TK_KEYWORD ''return'' True, new_token TK_IDENT ''x1'' False, new_token TK_PUNCT ''<<='' False,
       (new_token TK_STR [dquote, CHR ''a'', CHR 0x5C, CHR ''n'', dquote] True)\<lparr>tk_str := [CHR ''a'', newline]\<rparr>]))
   = Inr ([new_token TK_KEYWORD ''return'' True, new_token TK_IDENT ''x1'' False, new_token TK_PUNCT ''<<='' False,
       (new_token TK_STR [dquote, CHR ''a'', CHR 0x5C, CHR ''n'', dquote] True)\<lparr>tk_str := [CHR ''a'', newline]\<rparr>] @ [eof_token])"
proof (rule tokenize_print)
  show "list_all spelled [new_token TK_KEYWORD ''return'' True, new_token TK_IDENT ''x1'' False, new_token TK_PUNCT ''<<='' False,
       (new_token TK_STR [dquote, CHR ''a'', CHR 0x5C, CHR ''n'', dquote] True)\<lparr>tk_str := [CHR ''a'', newline]\<rparr>]"
    by code_simp
qed (simp add: new_token_def)

end
