(* ===== verification/Heap.thy ===== *)
theory Heap
  imports Prelude "HOL-Library.Monad_Syntax"
begin

text \<open>
  The heap of the native programs, \<^verbatim>\<open>user/native/heap.c\<close>: \<open>malloc\<close>, \<open>free\<close>, \<open>calloc\<close>, \<open>realloc\<close>.

  A block header of 24 bytes (six words on the target) stands before the memory it describes. The headers are a map
  from addresses to records, the memory of the clients is a map from addresses to bytes; that no header lies in the
  memory of a client is proved (\<open>Heap_Client\<close>). The break is moved by the system call \<open>B\<close>, an argument of the
  operations, which acts on the state \<open>h_env\<close> of the system.
\<close>

type_synonym addr = u32

record block =
  b_size :: u32
  b_available :: bool
  b_next :: addr
  b_prev :: addr
  b_free_next :: addr
  b_free_prev :: addr

record 'e heap =
  blk :: "addr \<Rightarrow> block"
  h_tail :: addr
  h_bins :: "addr list"
  h_origin :: u32
  h_peak :: u32
  h_bytes :: "addr \<Rightarrow> u8"
  h_env :: 'e

type_synonym 'e breaker = "u32 \<Rightarrow> 'e \<Rightarrow> u32 \<times> 'e"

definition HEADER :: u32 where "HEADER = 24"

definition upd :: "addr \<Rightarrow> (block \<Rightarrow> block) \<Rightarrow> 'e heap \<Rightarrow> 'e heap" where
  "upd b f h = h\<lparr>blk := (blk h)(b := f (blk h b))\<rparr>"

definition heap_break :: "'e breaker \<Rightarrow> u32 \<Rightarrow> bool \<Rightarrow> 'e heap \<Rightarrow> addr \<times> 'e heap" where
  "heap_break B n grow h =
     (let (old, e) = B 0 (h_env h);
          h = h\<lparr>h_env := e, h_origin := (if h_origin h = 0 then old else h_origin h)\<rparr> in
      if \<not> grow then (old, h)
      else if n > - 1 - old then (0, h)
      else
        (let (r, e) = B (old + n) (h_env h); h = h\<lparr>h_env := e\<rparr> in
         if r \<noteq> old + n then (0, h)
         else (old, h\<lparr>h_peak := (if old + n - h_origin h > h_peak h then old + n - h_origin h else h_peak h)\<rparr>)))"

function bin_index :: "u32 \<Rightarrow> nat" where
  "bin_index s = (if s > 1 then Suc (bin_index (drop_bit 1 s)) else 0)"
  by pat_completeness auto
termination
  by (relation "measure unat") (auto simp: word_less_nat_alt unat_div drop_bit_Suc)

declare bin_index.simps [simp del]

definition insert_free :: "addr \<Rightarrow> 'e heap \<Rightarrow> 'e heap" where
  "insert_free b h =
     (let i = bin_index (b_size (blk h b)); f = h_bins h ! i;
          h = upd b (\<lambda>x. x\<lparr>b_available := True, b_free_prev := 0, b_free_next := f\<rparr>) h;
          h = (if f \<noteq> 0 then upd f (\<lambda>x. x\<lparr>b_free_prev := b\<rparr>) h else h) in
      h\<lparr>h_bins := (h_bins h)[i := b]\<rparr>)"

definition remove_free :: "addr \<Rightarrow> 'e heap \<Rightarrow> 'e heap" where
  "remove_free b h =
     (let p = b_free_prev (blk h b); n = b_free_next (blk h b);
          h = (if p \<noteq> 0 then upd p (\<lambda>x. x\<lparr>b_free_next := n\<rparr>) h
               else h\<lparr>h_bins := (h_bins h)[bin_index (b_size (blk h b)) := n]\<rparr>);
          h = (if n \<noteq> 0 then upd n (\<lambda>x. x\<lparr>b_free_prev := p\<rparr>) h else h) in
      upd b (\<lambda>x. x\<lparr>b_free_next := 0, b_free_prev := 0, b_available := False\<rparr>) h)"

definition join_next :: "addr \<Rightarrow> 'e heap \<Rightarrow> 'e heap" where
  "join_next b h =
     (let n = b_next (blk h b);
          h = upd b (\<lambda>x. x\<lparr>b_size := b_size x + (HEADER + b_size (blk h n)), b_next := b_next (blk h n)\<rparr>) h in
      if b_next (blk h b) \<noteq> 0 then upd (b_next (blk h b)) (\<lambda>x. x\<lparr>b_prev := b\<rparr>) h
      else h\<lparr>h_tail := b\<rparr>)"

definition split_block :: "addr \<Rightarrow> u32 \<Rightarrow> 'e heap \<Rightarrow> 'e heap" where
  "split_block b s h =
     (if b_size (blk h b) - s < HEADER + 8 then h
      else
        (let n = b + HEADER + s;
             h = upd n (\<lambda>x. x\<lparr>b_size := b_size (blk h b) - s - HEADER, b_prev := b, b_next := b_next (blk h b)\<rparr>) h;
             h = (if b_next (blk h n) \<noteq> 0 then upd (b_next (blk h n)) (\<lambda>x. x\<lparr>b_prev := n\<rparr>) h else h\<lparr>h_tail := n\<rparr>);
             h = upd b (\<lambda>x. x\<lparr>b_next := n, b_size := s\<rparr>) h in
         insert_free n h))"

text \<open>The first block of a free list that is large enough, 0 for none; the walk may not end (\<open>None\<close>).\<close>

partial_function (option) find_fit :: "'e heap \<Rightarrow> u32 \<Rightarrow> addr \<Rightarrow> addr option" where
  "find_fit h s b =
     (if b = 0 then Some 0
      else if b_size (blk h b) \<ge> s then Some b
      else find_fit h s (b_free_next (blk h b)))"

declare find_fit.simps [code]

fun find_bin :: "'e heap \<Rightarrow> u32 \<Rightarrow> addr list \<Rightarrow> addr option" where
  "find_bin h s [] = Some 0"
| "find_bin h s (f # fs) = do { b \<leftarrow> find_fit h s f; if b \<noteq> 0 then Some b else find_bin h s fs }"

definition round8 :: "u32 \<Rightarrow> u32" where "round8 s = (s + 7) AND NOT 7"

definition LARGEST :: u32 where "LARGEST = - 1 - 7 - HEADER"

definition malloc :: "'e breaker \<Rightarrow> u32 \<Rightarrow> 'e heap \<Rightarrow> (addr \<times> 'e heap) option" where
  "malloc B n h =
     (let n = (if n = 0 then 1 else n) in
      if n > LARGEST then Some (0, h)
      else
        (let s = round8 n in
         do {
           b \<leftarrow> find_bin h s (drop (bin_index s) (h_bins h));
           if b \<noteq> 0 then Some (b + HEADER, split_block b s (remove_free b h))
           else
             (let (b, h) = heap_break B (HEADER + s) True h in
              if b = 0 then Some (0, h)
              else
                (let h = upd b (\<lambda>x. x\<lparr>b_size := s, b_available := False, b_next := 0, b_prev := h_tail h,
                                 b_free_next := 0, b_free_prev := 0\<rparr>) h;
                     h = (if h_tail h \<noteq> 0 then upd (h_tail h) (\<lambda>x. x\<lparr>b_next := b\<rparr>) h else h) in
                 Some (b + HEADER, h\<lparr>h_tail := b\<rparr>)))
         }))"

definition adjacent :: "'e heap \<Rightarrow> addr \<Rightarrow> addr \<Rightarrow> bool" where
  "adjacent h a b \<longleftrightarrow> a + HEADER + b_size (blk h a) = b"

definition heap_free :: "addr \<Rightarrow> 'e heap \<Rightarrow> 'e heap" where
  "heap_free p h =
     (if p = 0 then h
      else
        (let b = p - HEADER; v = b_prev (blk h b);
             (b, h) = (if v \<noteq> 0 \<and> b_available (blk h v) \<and> adjacent h v b then (v, join_next v (remove_free v h)) else (b, h));
             x = b_next (blk h b);
             h = (if x \<noteq> 0 \<and> b_available (blk h x) \<and> adjacent h b x then join_next b (remove_free x h) else h) in
         insert_free b h))"

definition zero_bytes :: "addr \<Rightarrow> u32 \<Rightarrow> 'e heap \<Rightarrow> 'e heap" where
  "zero_bytes p n h = h\<lparr>h_bytes := fold (\<lambda>i m. m(p + of_nat i := 0)) [0..<unat n] (h_bytes h)\<rparr>"

definition copy_bytes :: "addr \<Rightarrow> addr \<Rightarrow> u32 \<Rightarrow> 'e heap \<Rightarrow> 'e heap" where
  "copy_bytes q p n h = h\<lparr>h_bytes := fold (\<lambda>i m. m(q + of_nat i := m (p + of_nat i))) [0..<unat n] (h_bytes h)\<rparr>"

definition calloc :: "'e breaker \<Rightarrow> u32 \<Rightarrow> u32 \<Rightarrow> 'e heap \<Rightarrow> (addr \<times> 'e heap) option" where
  "calloc B c s h =
     (if s \<noteq> 0 \<and> c > - 1 div s then Some (0, h)
      else do {
        (p, h) \<leftarrow> malloc B (c * s) h;
        Some (p, if p \<noteq> 0 then zero_bytes p (c * s) h else h)
      })"

definition realloc_move :: "'e breaker \<Rightarrow> addr \<Rightarrow> u32 \<Rightarrow> 'e heap \<Rightarrow> (addr \<times> 'e heap) option" where
  "realloc_move B p n h =
     do {
       (q, h) \<leftarrow> malloc B n h;
       if q = 0 then Some (0, h)
       else Some (q, heap_free p (copy_bytes q p (b_size (blk h (p - HEADER))) h))
     }"

text \<open>The last block grows with the break, when it ends there.\<close>

definition realloc_last :: "'e breaker \<Rightarrow> addr \<Rightarrow> u32 \<Rightarrow> 'e heap \<Rightarrow> (addr \<times> 'e heap) option" where
  "realloc_last B p n h =
     (let b = p - HEADER; s = round8 n; (top, h) = heap_break B 0 False h in
      if top = b + HEADER + b_size (blk h b) then
        (let (r, h) = heap_break B (s - b_size (blk h b)) True h in
         if r \<noteq> 0 then Some (p, upd b (\<lambda>x. x\<lparr>b_size := s\<rparr>) h) else realloc_move B p n h)
      else realloc_move B p n h)"

definition realloc_grow :: "'e breaker \<Rightarrow> addr \<Rightarrow> u32 \<Rightarrow> 'e heap \<Rightarrow> (addr \<times> 'e heap) option" where
  "realloc_grow B p n h =
     (let b = p - HEADER; s = round8 n; x = b_next (blk h b) in
      if x \<noteq> 0 \<and> b_available (blk h x) \<and> adjacent h b x \<and> b_size (blk h b) + HEADER + b_size (blk h x) \<ge> s
      then Some (p, split_block b s (join_next b (remove_free x h)))
      else if x = 0 then realloc_last B p n h
      else realloc_move B p n h)"

definition realloc :: "'e breaker \<Rightarrow> addr \<Rightarrow> u32 \<Rightarrow> 'e heap \<Rightarrow> (addr \<times> 'e heap) option" where
  "realloc B p n h =
     (if p = 0 then malloc B n h
      else if n = 0 then Some (0, heap_free p h)
      else if n \<le> b_size (blk h (p - HEADER)) then Some (p, h)
      else if n > LARGEST then Some (0, h)
      else realloc_grow B p n h)"

end
