(* ===== verification/Heap_Lists.thy ===== *)
theory Heap_Lists
  imports Heap
begin

text \<open>
  The two kinds of doubly linked lists of \<^verbatim>\<open>user/native/heap.c\<close>: the chain of all blocks in the order of their
  addresses, and the free lists, one for each bin. Both are segments of pointers in the sense of Mehta and Nipkow;
  the lemmas say what an update of one field does to a segment.
\<close>

section \<open>Segments\<close>

text \<open>From \<open>x\<close>, with \<open>p\<close> behind its first element, the elements \<open>bs\<close>, and \<open>y\<close> behind the last one.\<close>

fun dseg :: "(addr \<Rightarrow> addr) \<Rightarrow> (addr \<Rightarrow> addr) \<Rightarrow> addr \<Rightarrow> addr \<Rightarrow> addr list \<Rightarrow> addr \<Rightarrow> bool" where
  "dseg nx pv p x [] y \<longleftrightarrow> x = y"
| "dseg nx pv p x (b # bs) y \<longleftrightarrow> x = b \<and> b \<noteq> 0 \<and> pv b = p \<and> dseg nx pv b (nx b) bs y"

definition last_of :: "addr \<Rightarrow> addr list \<Rightarrow> addr" where "last_of p bs = (if bs = [] then p else last bs)"
definition head_of :: "addr list \<Rightarrow> addr \<Rightarrow> addr" where "head_of bs y = (if bs = [] then y else hd bs)"

lemma head_of_simps [simp]: "head_of [] y = y" "head_of (b # bs) y = b" "head_of (as @ bs) y = head_of as (head_of bs y)"
  by (simp_all add: head_of_def)

lemma last_of_simps [simp]: "last_of p [] = p" "last_of p (b # bs) = last_of b bs" "last_of p (as @ bs) = last_of (last_of p as) bs"
  by (simp_all add: last_of_def)

lemma last_of_in: "last_of p bs \<noteq> p \<Longrightarrow> last_of p bs \<in> set bs"
  by (auto simp: last_of_def split: if_splits)

lemma dseg_append [simp]:
  "dseg nx pv p x (as @ bs) y \<longleftrightarrow> dseg nx pv p x as (head_of bs y) \<and> dseg nx pv (last_of p as) (head_of bs y) bs y"
  by (induction as arbitrary: p x) (auto split: list.split simp: head_of_def, (cases bs; auto)+)

lemma dseg_head: "dseg nx pv p x bs y \<Longrightarrow> x = head_of bs y"
  by (cases bs) auto

lemma dseg_nonzero: "dseg nx pv p x bs y \<Longrightarrow> b \<in> set bs \<Longrightarrow> b \<noteq> 0"
  by (induction bs arbitrary: p x) auto

text \<open>Updates of addresses that are not in the segment do not matter.\<close>

lemma dseg_cong:
  "(\<And>b. b \<in> set bs \<Longrightarrow> nx b = nx' b \<and> pv b = pv' b) \<Longrightarrow> dseg nx pv p x bs y \<longleftrightarrow> dseg nx' pv' p x bs y"
  by (induction bs arbitrary: p x) auto

lemma dseg_update [simp]:
  "a \<notin> set bs \<Longrightarrow> dseg (nx(a := v)) pv p x bs y = dseg nx pv p x bs y"
  "a \<notin> set bs \<Longrightarrow> dseg nx (pv(a := v)) p x bs y = dseg nx pv p x bs y"
  by (rule dseg_cong; auto)+

text \<open>The first element gets another one before it, the last one another one behind it.\<close>

lemma dseg_first:
  assumes "dseg nx pv p x bs y" and "distinct bs"
  shows "dseg nx (if bs = [] then pv else pv(hd bs := q)) q x bs y"
  using assms by (cases bs) auto

lemma dseg_last:
  assumes "dseg nx pv p x bs y" and "distinct bs"
  shows "dseg (if bs = [] then nx else nx(last bs := z)) pv p (if bs = [] then z else x) bs z"
  using assms
proof (induction bs arbitrary: p x)
  case (Cons b bs)
  then show ?case by (cases "bs = []") auto
qed simp


section \<open>The fields of the headers\<close>

abbreviation sz :: "'e heap \<Rightarrow> addr \<Rightarrow> u32" where "sz h b \<equiv> b_size (blk h b)"
abbreviation av :: "'e heap \<Rightarrow> addr \<Rightarrow> bool" where "av h b \<equiv> b_available (blk h b)"

definition nx :: "'e heap \<Rightarrow> addr \<Rightarrow> addr" where "nx h b = b_next (blk h b)"
definition pv :: "'e heap \<Rightarrow> addr \<Rightarrow> addr" where "pv h b = b_prev (blk h b)"
definition fn :: "'e heap \<Rightarrow> addr \<Rightarrow> addr" where "fn h b = b_free_next (blk h b)"
definition fp :: "'e heap \<Rightarrow> addr \<Rightarrow> addr" where "fp h b = b_free_prev (blk h b)"

text \<open>The chain of all blocks.\<close>

definition chained :: "'e heap \<Rightarrow> addr list \<Rightarrow> bool" where
  "chained h bs \<longleftrightarrow> dseg (nx h) (pv h) 0 (head_of bs 0) bs 0 \<and> h_tail h = last_of 0 bs"

text \<open>The blocks lie one behind the other from \<open>lo\<close> on, below \<open>hi\<close>: no two share a byte, and none wraps around.\<close>

fun laid :: "(addr \<Rightarrow> u32) \<Rightarrow> nat \<Rightarrow> addr list \<Rightarrow> nat \<Rightarrow> bool" where
  "laid s lo [] hi \<longleftrightarrow> lo \<le> hi"
| "laid s lo (b # bs) hi \<longleftrightarrow> lo \<le> unat b \<and> laid s (unat b + 24 + unat (s b)) bs hi"

text \<open>The free list of each bin holds the available blocks of its size, among the blocks \<open>A\<close>.\<close>

definition binned :: "'e heap \<Rightarrow> addr set \<Rightarrow> (nat \<Rightarrow> addr list) \<Rightarrow> bool" where
  "binned h A F \<longleftrightarrow>
     length (h_bins h) = 32
     \<and> (\<forall>i < 32. dseg (fn h) (fp h) 0 (h_bins h ! i) (F i) 0 \<and> distinct (F i)
          \<and> set (F i) = {b \<in> A. av h b \<and> bin_index (sz h b) = i})"

lemma laid_le: "laid s lo bs hi \<Longrightarrow> lo \<le> hi"
  by (induction bs arbitrary: lo) fastforce+

lemma laid_append: "laid s lo (as @ bs) hi \<longleftrightarrow> (\<exists>m. laid s lo as m \<and> laid s m bs hi)"
proof (induction as arbitrary: lo)
  case Nil
  have "laid s m bs hi \<Longrightarrow> lo \<le> m \<Longrightarrow> laid s lo bs hi" for m
    by (cases bs) auto
  then show ?case by auto
qed simp

lemma laid_weaken: "laid s lo bs hi \<Longrightarrow> lo' \<le> lo \<Longrightarrow> hi \<le> hi' \<Longrightarrow> laid s lo' bs hi'"
  by (induction bs arbitrary: lo lo') auto

lemma laid_mem: "laid s lo bs hi \<Longrightarrow> b \<in> set bs \<Longrightarrow> lo \<le> unat b \<and> unat b + 24 + unat (s b) \<le> hi"
proof (induction bs arbitrary: lo)
  case (Cons a bs)
  then show ?case using laid_le [of s _ bs hi] by fastforce
qed simp

lemma laid_distinct: "laid s lo bs hi \<Longrightarrow> distinct bs"
  by (induction bs arbitrary: lo) (auto dest: laid_mem)

lemma laid_apart:
  assumes "laid s lo bs hi" and "a \<in> set bs" and "b \<in> set bs" and "a \<noteq> b"
  shows "unat a + 24 + unat (s a) \<le> unat b \<or> unat b + 24 + unat (s b) \<le> unat a"
  using assms by (induction bs arbitrary: lo) (auto dest: laid_mem)

lemma laid_cong: "(\<And>b. b \<in> set bs \<Longrightarrow> s b = s' b) \<Longrightarrow> laid s lo bs hi \<longleftrightarrow> laid s' lo bs hi"
  by (induction bs arbitrary: lo) auto



section \<open>Bins\<close>

lemma bin_index_less: "unat s < 2 ^ Suc n \<Longrightarrow> bin_index s \<le> n"
proof (induction s arbitrary: n rule: bin_index.induct)
  case (1 s)
  show ?case
  proof (cases "s > 1")
    case True
    then have "1 < unat s" by (simp add: word_less_nat_alt)
    with "1.prems" have "n \<noteq> 0" by (cases n) auto
    then obtain m where n: "n = Suc m" by (cases n) auto
    have "unat (drop_bit 1 s) < 2 ^ Suc m"
      using "1.prems" n by (simp add: drop_bit_Suc unat_div)
    then have "bin_index (drop_bit 1 s) \<le> m" using "1.IH" True by blast
    then show ?thesis using True n by (simp add: bin_index.simps [of s])
  qed (simp add: bin_index.simps [of s])
qed

lemma bin_index_32 [simp]: "bin_index s < 32"
  using bin_index_less [of s 31] unat32_less [of s] by simp

lemma bin_index_mono: "s \<le> t \<Longrightarrow> bin_index s \<le> bin_index t"
proof (induction s arbitrary: t rule: bin_index.induct)
  case (1 s)
  show ?case
  proof (cases "s > 1")
    case True
    then have "t > 1" using "1.prems" by simp
    moreover have "drop_bit 1 s \<le> drop_bit 1 t"
      using "1.prems" by (simp add: word_le_nat_alt drop_bit_Suc unat_div div_le_mono)
    ultimately show ?thesis
      using "1.IH" True by (simp add: bin_index.simps [of s] bin_index.simps [of t])
  qed (simp add: bin_index.simps [of s])
qed


section \<open>Into and out of a free list\<close>

lemma upd_field [simp]:
  "blk (upd b f h) = (blk h)(b := f (blk h b))" "h_tail (upd b f h) = h_tail h" "h_bins (upd b f h) = h_bins h"
  "h_origin (upd b f h) = h_origin h" "h_peak (upd b f h) = h_peak h" "h_bytes (upd b f h) = h_bytes h" "h_env (upd b f h) = h_env h"
  by (simp_all add: upd_def)

lemma insert_free_frame [simp]:
  "nx (insert_free b h) = nx h" "pv (insert_free b h) = pv h" "sz (insert_free b h) x = sz h x"
  "av (insert_free b h) x = (x = b \<or> av h x)"
  "h_tail (insert_free b h) = h_tail h" "h_env (insert_free b h) = h_env h" "h_bytes (insert_free b h) = h_bytes h"
  by (auto simp: insert_free_def Let_def nx_def pv_def)

lemma remove_free_frame [simp]:
  "nx (remove_free b h) = nx h" "pv (remove_free b h) = pv h" "sz (remove_free b h) x = sz h x"
  "av (remove_free b h) x = (x \<noteq> b \<and> av h x)"
  "h_tail (remove_free b h) = h_tail h" "h_env (remove_free b h) = h_env h" "h_bytes (remove_free b h) = h_bytes h"
  by (auto simp: remove_free_def Let_def nx_def pv_def)

lemma insert_free_lists:
  assumes "i = bin_index (sz h b)" and "f = h_bins h ! i"
  shows "h_bins (insert_free b h) = (h_bins h)[i := b]"
    and "fn (insert_free b h) = (fn h)(b := f)"
    and "fp (insert_free b h) = (if f = 0 then (fp h)(b := 0) else (fp h)(b := 0, f := b))"
  using assms by (auto simp: insert_free_def Let_def fn_def fp_def)

lemma binnedD:
  assumes "binned h A F" and "i < 32"
  shows "dseg (fn h) (fp h) 0 (h_bins h ! i) (F i) 0" and "distinct (F i)"
    and "set (F i) = {b \<in> A. av h b \<and> bin_index (sz h b) = i}" and "h_bins h ! i = head_of (F i) 0"
  using assms dseg_head by (auto simp: binned_def)

lemma insert_free_binned:
  assumes b: "binned h A F" and new: "b \<notin> A" "b \<noteq> 0" and i: "i = bin_index (sz h b)"
  shows "binned (insert_free b h) (insert b A) (F(i := b # F i))"
proof -
  let ?f = "h_bins h ! i"
  note lists = insert_free_lists [OF i refl]
  have f: "?f = head_of (F i) 0" using binnedD(4) [OF b] i by simp
  have other: "dseg (fn (insert_free b h)) (fp (insert_free b h)) 0 (h_bins h ! j) (F j) 0" if "j < 32" "j \<noteq> i" for j
  proof -
    have "b \<notin> set (F j)" using binnedD(3) [OF b that(1)] new by auto
    moreover have "?f \<notin> set (F j)"
    proof
      assume j: "?f \<in> set (F j)"
      then have "?f \<noteq> 0" using dseg_nonzero [OF binnedD(1) [OF b that(1)]] by blast
      then have "?f \<in> set (F i)" using f by (cases "F i") auto
      then show False using j binnedD(3) [OF b] that i by auto
    qed
    ultimately show ?thesis using binnedD(1) [OF b that(1)] by (simp add: lists)
  qed
  have same: "dseg (fn (insert_free b h)) (fp (insert_free b h)) 0 b (b # F i) 0"
  proof -
    have nb: "b \<notin> set (F i)" using binnedD(3) [OF b] new i by auto
    have d: "dseg (fn h) (fp h) 0 ?f (F i) 0" "distinct (F i)" using binnedD [OF b] i by simp_all
    show ?thesis
    proof (cases "F i")
      case Nil
      then show ?thesis using new f by (simp add: lists)
    next
      case (Cons c cs)
      then show ?thesis using d new f nb by (auto simp: lists)
    qed
  qed
  have len: "length (h_bins h) = 32" using b by (simp add: binned_def)
  have sets: "set ((F(i := b # F i)) j) = {x \<in> insert b A. av (insert_free b h) x \<and> bin_index (sz (insert_free b h) x) = j}"
    if "j < 32" for j
    using binnedD(3) [OF b that] new i by (auto split: if_splits)
  have dist: "distinct ((F(i := b # F i)) j)" if "j < 32" for j
    using binnedD(2,3) [OF b that] new i by (auto split: if_splits)
  show ?thesis
    unfolding binned_def
  proof (intro conjI allI impI)
    show "length (h_bins (insert_free b h)) = 32" by (simp add: lists len)
    fix j :: nat
    assume j: "j < 32"
    show "dseg (fn (insert_free b h)) (fp (insert_free b h)) 0 (h_bins (insert_free b h) ! j) ((F(i := b # F i)) j) 0"
      using other [OF j] same len j i by (cases "j = i") (simp_all add: lists(1))
    show "distinct ((F(i := b # F i)) j)" by (rule dist [OF j])
    show "set ((F(i := b # F i)) j) = {x \<in> insert b A. av (insert_free b h) x \<and> bin_index (sz (insert_free b h) x) = j}"
      by (rule sets [OF j])
  qed
qed


lemma remove_free_lists:
  shows "h_bins (remove_free b h) = (if fp h b = 0 then (h_bins h)[bin_index (sz h b) := fn h b] else h_bins h)"
    and "fn (remove_free b h) = (if fp h b = 0 then fn h else (fn h)(fp h b := fn h b))(b := 0)"
    and "fp (remove_free b h) = (if fn h b = 0 then fp h else (fp h)(fn h b := fp h b))(b := 0)"
  by (auto simp: remove_free_def Let_def fn_def fp_def)

text \<open>An element of a segment is between its neighbours, which are joined when it goes.\<close>

lemma dseg_mid:
  assumes "dseg nf pf 0 x (as @ b # bs) 0" and "distinct (as @ b # bs)"
  defines "nf' \<equiv> (if pf b = 0 then nf else nf(pf b := nf b))(b := 0)"
    and "pf' \<equiv> (if nf b = 0 then pf else pf(nf b := pf b))(b := 0)"
  shows "dseg nf' pf' 0 (if pf b = 0 then nf b else x) (as @ bs) 0"
    and "pf b = last_of 0 as" and "nf b = head_of bs 0"
proof -
  have as: "dseg nf pf 0 x as b" and b: "b \<noteq> 0" "pf b = last_of 0 as" and bs: "dseg nf pf b (nf b) bs 0"
    using assms(1) by auto
  have n: "nf b = head_of bs 0" using bs by (rule dseg_head)
  have fresh: "b \<notin> set as" "b \<notin> set bs" "set as \<inter> set bs = {}" "distinct as" "distinct bs" using assms(2) by auto
  have bs': "dseg nf' pf' (last_of 0 as) (head_of bs 0) bs 0"
  proof -
    have "dseg nf (if bs = [] then pf else pf(hd bs := pf b)) (pf b) (nf b) bs 0"
      using dseg_first [OF bs fresh(5)] .
    moreover have "dseg nf' pf' (pf b) (nf b) bs 0 = dseg nf (if bs = [] then pf else pf(hd bs := pf b)) (pf b) (nf b) bs 0"
    proof (rule dseg_cong)
      fix c
      assume c: "c \<in> set bs"
      have "pf b \<noteq> c" using b(2) c fresh(3) dseg_nonzero [OF bs] last_of_in [of 0 as] by (cases "as = []") auto
      then show "nf' c = nf c \<and> pf' c = (if bs = [] then pf else pf(hd bs := pf b)) c"
        using c fresh n dseg_nonzero [OF bs] by (cases bs) (auto simp: nf'_def pf'_def)
    qed
    ultimately show ?thesis using b(2) n by simp
  qed
  have as': "dseg nf' pf' 0 (if pf b = 0 then nf b else x) as (head_of bs 0)"
  proof -
    have "dseg (if as = [] then nf else nf(last as := nf b)) pf 0 (if as = [] then nf b else x) as (nf b)"
      using dseg_last [OF as fresh(4)] .
    moreover have "dseg nf' pf' 0 (if as = [] then nf b else x) as (nf b)
        = dseg (if as = [] then nf else nf(last as := nf b)) pf 0 (if as = [] then nf b else x) as (nf b)"
    proof (rule dseg_cong)
      fix c
      assume c: "c \<in> set as"
      then have l: "as \<noteq> []" by auto
      then have l': "last as \<noteq> 0" "pf b = last as" using b(2) dseg_nonzero [OF as last_in_set [OF l]] by (simp_all add: last_of_def)
      have "nf b \<noteq> c \<or> nf b = 0" using n c fresh(3) by (cases bs) auto
      then show "nf' c = (if as = [] then nf else nf(last as := nf b)) c \<and> pf' c = pf c"
        using c fresh l l' by (auto simp: nf'_def pf'_def)
    qed
    moreover have "(pf b = 0) = (as = [])" using b(2) dseg_nonzero [OF as last_in_set] by (auto simp: last_of_def)
    ultimately show ?thesis using n by simp
  qed
  show "dseg nf' pf' 0 (if pf b = 0 then nf b else x) (as @ bs) 0" using as' bs' by simp
  show "pf b = last_of 0 as" "nf b = head_of bs 0" using b(2) n by simp_all
qed

lemma remove_free_binned:
  assumes b: "binned h A F" and "b \<in> A" and "av h b"
  obtains F' where "binned (remove_free b h) A F'"
proof -
  define i where "i = bin_index (sz h b)"
  have i: "i < 32" by (simp add: i_def)
  have "b \<in> set (F i)" using binnedD(3) [OF b i] assms(2,3) by (simp add: i_def)
  then obtain as bs where F: "F i = as @ b # bs" by (auto simp: in_set_conv_decomp)
  let ?F = "F(i := as @ bs)" and ?h = "remove_free b h"
  have d: "dseg (fn h) (fp h) 0 (h_bins h ! i) (as @ b # bs) 0" "distinct (as @ b # bs)"
    using binnedD [OF b i] F by simp_all
  have len: "length (h_bins h) = 32" using b by (simp add: binned_def)
  note lists = remove_free_lists [of b h, folded i_def]
  note mid = dseg_mid [OF d]
  have other: "dseg (fn ?h) (fp ?h) 0 (h_bins h ! j) (F j) 0" if "j < 32" "j \<noteq> i" for j
  proof -
    have out: "c \<notin> set (F j)" if "c \<in> set (F i) \<or> c = 0" for c
      using that binnedD(3) [OF b \<open>j < 32\<close>] binnedD(3) [OF b i] \<open>j \<noteq> i\<close> dseg_nonzero [OF binnedD(1) [OF b \<open>j < 32\<close>]] by auto
    have "fp h b \<in> set (F i) \<or> fp h b = 0" "fn h b \<in> set (F i) \<or> fn h b = 0"
      using mid(2,3) F last_of_in [of 0 as] by (auto simp: head_of_def split: if_splits)
    then show ?thesis
      using out [of b] out [of "fp h b"] out [of "fn h b"] F binnedD(1) [OF b that(1)] by (simp add: lists)
  qed
  have "binned ?h A ?F"
    unfolding binned_def
  proof (intro conjI allI impI)
    show "length (h_bins ?h) = 32" by (simp add: lists len)
    fix j :: nat
    assume j: "j < 32"
    show "dseg (fn ?h) (fp ?h) 0 (h_bins ?h ! j) (?F j) 0"
    proof (cases "j = i")
      case True
      then show ?thesis using mid(1) i len by (simp add: lists split del: if_split) (simp split: if_splits)
    next
      case False
      then show ?thesis using other [OF j False] by (simp add: lists(1))
    qed
    show "distinct (?F j)" using binnedD(2) [OF b j] F by (auto split: if_splits)
    show "set (?F j) = {x \<in> A. av ?h x \<and> bin_index (sz ?h x) = j}"
      using binnedD(3) [OF b j] F d(2) by (auto simp: i_def split: if_splits)
  qed
  then show thesis by (rule that)
qed

end
