(* ===== verification/Heap_Blocks.thy ===== *)
theory Heap_Blocks
  imports Heap_Lists
begin

text \<open>
  Blocks joined and split, \<^verbatim>\<open>join_next\<close> and \<^verbatim>\<open>split_block\<close> of \<^verbatim>\<open>user/native/heap.c\<close>: the chain, the layout and
  the free lists stay in shape.
\<close>

definition shaped :: "'e heap \<Rightarrow> addr list \<Rightarrow> nat \<Rightarrow> bool" where
  "shaped h bs hi \<longleftrightarrow> chained h bs \<and> laid (sz h) 1 bs hi \<and> hi < 2 ^ 32 \<and> (\<exists>F. binned h (set bs) F)"

definition used :: "'e heap \<Rightarrow> addr list \<Rightarrow> addr set" where "used h bs = {b \<in> set bs. \<not> av h b}"

lemma shapedD:
  assumes "shaped h bs hi"
  shows "chained h bs" and "laid (sz h) 1 bs hi" and "hi < 2 ^ 32" and "distinct bs"
  using assms laid_distinct by (auto simp: shaped_def)

lemma chained_mid:
  assumes "chained h (as @ b # cs)"
  shows "nx h b = head_of cs 0" and "pv h b = last_of 0 as" and "b \<noteq> 0"
  using assms dseg_head by (auto simp: chained_def)

text \<open>The end of a block that lies below \<open>hi\<close> does not wrap around.\<close>

lemma block_end:
  assumes "laid (sz h) lo bs hi" and "hi < 2 ^ 32" and "b \<in> set bs"
  shows "unat (b + HEADER + sz h b) = unat b + 24 + unat (sz h b)"
proof -
  have "unat b + 24 + unat (sz h b) < 2 ^ 32" using laid_mem [OF assms(1,3)] assms(2) by simp
  then show ?thesis by (simp add: HEADER_def unat_word_ariths)
qed

text \<open>Free lists depend on the available blocks only.\<close>

lemma binned_cong:
  assumes "binned h A F" and "fn h' = fn h" and "fp h' = fp h" and "h_bins h' = h_bins h"
    and "\<And>b. b \<in> A \<union> A' \<Longrightarrow> b \<in> A' \<and> av h' b \<longleftrightarrow> b \<in> A \<and> av h b"
    and "\<And>b. b \<in> A \<Longrightarrow> av h b \<Longrightarrow> sz h' b = sz h b"
  shows "binned h' A' F"
proof -
  have "{b \<in> A'. av h' b \<and> bin_index (sz h' b) = i} = {b \<in> A. av h b \<and> bin_index (sz h b) = i}" for i
    using assms(5,6) by fastforce
  then show ?thesis using assms(1-4) by (simp add: binned_def)
qed


section \<open>Joining a block with the next one\<close>

lemma join_next_fields:
  assumes "nx h b \<noteq> b"
  shows "nx (join_next b h) = (nx h)(b := nx h (nx h b))"
    and "pv (join_next b h) = (if nx h (nx h b) = 0 then pv h else (pv h)(nx h (nx h b) := b))"
    and "sz (join_next b h) c = (if c = b then sz h b + (HEADER + sz h (nx h b)) else sz h c)"
    and "av (join_next b h) c = av h c" and "fn (join_next b h) = fn h" and "fp (join_next b h) = fp h"
    and "h_bins (join_next b h) = h_bins h" and "h_tail (join_next b h) = (if nx h (nx h b) = 0 then b else h_tail h)"
    and "h_env (join_next b h) = h_env h" and "h_bytes (join_next b h) = h_bytes h"
  by (auto simp: join_next_def Let_def nx_def pv_def fn_def fp_def)

lemma join_chained:
  assumes c: "chained h (as @ b # n # cs)" and d: "distinct (as @ b # n # cs)"
  shows "chained (join_next b h) (as @ b # cs)"
proof -
  have n: "nx h b = n" "nx h n = head_of cs 0" "b \<noteq> 0"
    using chained_mid(1,3) [OF c] chained_mid(1) [of h "as @ [b]" n cs] c by simp_all
  then have nb: "nx h b \<noteq> b" using d by auto
  note f = join_next_fields [OF nb]
  have as: "dseg (nx h) (pv h) 0 (head_of as b) as b" and b: "pv h b = last_of 0 as"
    and cs: "dseg (nx h) (pv h) n (head_of cs 0) cs 0" and t: "h_tail h = last_of n cs"
    using c n by (simp_all add: chained_def)
  show ?thesis
  proof (cases cs)
    case Nil
    then show ?thesis using as b n d by (simp add: chained_def f)
  next
    case (Cons x xs)
    moreover have "x \<noteq> 0" using cs Cons by simp
    ultimately show ?thesis using as b n d cs t by (auto simp: chained_def f)
  qed
qed

lemma join_shaped:
  assumes s: "shaped h (as @ b # n # cs) hi" and "\<not> av h b" and "\<not> av h n" and "adjacent h b n"
  shows "shaped (join_next b h) (as @ b # cs) hi"
    and "unat (sz (join_next b h) b) = unat (sz h b) + 24 + unat (sz h n)"
    and "used (join_next b h) (as @ b # cs) = used h (as @ b # n # cs) - {n}"
    and "c \<noteq> b \<Longrightarrow> sz (join_next b h) c = sz h c"
    and "av (join_next b h) c = av h c" and "h_env (join_next b h) = h_env h" and "h_bytes (join_next b h) = h_bytes h"
proof -
  note sd = shapedD [OF s]
  have n: "nx h b = n" using chained_mid(1) [OF sd(1)] by simp
  have ne: "nx h b \<noteq> b" using n sd(4) by auto
  note f = join_next_fields [OF ne, unfolded n]
  have a: "unat n = unat b + 24 + unat (sz h b)"
    using block_end [OF sd(2,3), of b] assms(4) by (simp add: adjacent_def)
  have "unat n + 24 + unat (sz h n) \<le> hi" using laid_mem [OF sd(2), of n] by simp
  then have "unat (sz h b) + 24 + unat (sz h n) < 2 ^ 32" using a sd(3) by simp
  then show size: "unat (sz (join_next b h) b) = unat (sz h b) + 24 + unat (sz h n)"
    by (simp add: f(3) HEADER_def unat_word_ariths mod_simps)
  have sz_other: "sz (join_next b h) c = sz h c" if "c \<noteq> b" for c using that by (simp add: f(3))
  have "laid (sz (join_next b h)) 1 (as @ b # cs) hi"
  proof -
    obtain m where m: "laid (sz h) 1 as m" "laid (sz h) m (b # n # cs) hi"
      using sd(2) by (auto simp: laid_append)
    have "laid (sz (join_next b h)) 1 as m"
      using m(1) sd(4) by (subst laid_cong [of _ _ "sz h"]) (auto simp: f(3))
    moreover have "laid (sz (join_next b h)) m (b # cs) hi"
    proof -
      have "laid (sz (join_next b h)) x cs hi = laid (sz h) x cs hi" for x
        using sd(4) by (intro laid_cong) (auto simp: f(3))
      then show ?thesis using m(2) a by (simp add: size add.assoc)
    qed
    ultimately show ?thesis by (auto simp: laid_append)
  qed
  moreover have "\<exists>F. binned (join_next b h) (set (as @ b # cs)) F"
  proof -
    obtain F where "binned h (set (as @ b # n # cs)) F" using s by (auto simp: shaped_def)
    then have "binned (join_next b h) (set (as @ b # cs)) F"
      by (rule binned_cong) (use f assms(2,3) sz_other in auto)
    then show ?thesis by blast
  qed
  ultimately show "shaped (join_next b h) (as @ b # cs) hi"
    using join_chained [OF sd(1,4)] sd(3) by (simp add: shaped_def)
  show "used (join_next b h) (as @ b # cs) = used h (as @ b # n # cs) - {n}"
    using sd(4) by (auto simp: used_def f(4))
qed (use join_next_fields(3-10) [of h b] chained_mid(1) [OF shapedD(1) [OF s]] shapedD(4) [OF s] in auto)


section \<open>Splitting a block\<close>

lemma round_split:
  assumes "\<not> sz h b - s < HEADER + 8" and "s \<le> sz h b"
  shows "unat (sz h b) = unat s + 24 + unat (sz h b - s - HEADER)"
proof -
  have d: "unat (sz h b - s) = unat (sz h b) - unat s" using assms(2) by (simp add: unat_sub_if' word_le_nat_alt)
  then have "32 \<le> unat (sz h b - s)" using assms(1) by (simp add: HEADER_def word_less_nat_alt)
  then have "unat (sz h b - s - HEADER) = unat (sz h b - s) - 24"
    by (simp add: HEADER_def unat_sub_if' word_le_nat_alt)
  then show ?thesis using d \<open>32 \<le> unat (sz h b - s)\<close> assms(2) by (simp add: word_le_nat_alt)
qed

text \<open>The chain with the new block \<open>n\<close>, before it goes to its free list.\<close>

definition split_chain :: "addr \<Rightarrow> u32 \<Rightarrow> 'e heap \<Rightarrow> 'e heap" where
  "split_chain b s h =
     (let n = b + HEADER + s;
          h = upd n (\<lambda>x. x\<lparr>b_size := b_size (blk h b) - s - HEADER, b_prev := b, b_next := b_next (blk h b)\<rparr>) h;
          h = (if b_next (blk h n) \<noteq> 0 then upd (b_next (blk h n)) (\<lambda>x. x\<lparr>b_prev := n\<rparr>) h else h\<lparr>h_tail := n\<rparr>) in
      upd b (\<lambda>x. x\<lparr>b_next := n, b_size := s\<rparr>) h)"

lemma split_block_chain:
  "split_block b s h = (if sz h b - s < HEADER + 8 then h else insert_free (b + HEADER + s) (split_chain b s h))"
  by (simp add: split_block_def split_chain_def Let_def)

lemma split_chain_fields:
  assumes "n = b + HEADER + s" and "n \<noteq> b" and "nx h b \<noteq> b" and "nx h b \<noteq> n"
  shows "nx (split_chain b s h) = (nx h)(n := nx h b, b := n)"
    and "pv (split_chain b s h) = (if nx h b = 0 then (pv h)(n := b) else (pv h)(n := b, nx h b := n))"
    and "sz (split_chain b s h) c = (if c = b then s else if c = n then sz h b - s - HEADER else sz h c)"
    and "av (split_chain b s h) c = av h c" and "fn (split_chain b s h) = fn h" and "fp (split_chain b s h) = fp h"
    and "h_bins (split_chain b s h) = h_bins h" and "h_tail (split_chain b s h) = (if nx h b = 0 then n else h_tail h)"
    and "h_env (split_chain b s h) = h_env h" and "h_bytes (split_chain b s h) = h_bytes h"
  using assms by (auto simp: split_chain_def Let_def nx_def pv_def fn_def fp_def)

lemma split_chained:
  assumes c: "chained h (as @ b # cs)" and d: "distinct (as @ b # n # cs)" and n: "n = b + HEADER + s" "n \<noteq> 0"
  shows "chained (split_chain b s h) (as @ b # n # cs)"
proof -
  have b: "nx h b = head_of cs 0" "pv h b = last_of 0 as" "b \<noteq> 0" using chained_mid [OF c] by simp_all
  have ne: "n \<noteq> b" "nx h b \<noteq> b" "nx h b \<noteq> n" using d b n by (cases cs; auto)+
  note f = split_chain_fields [OF n(1) ne]
  have as: "dseg (nx h) (pv h) 0 (head_of as b) as b" and cs: "dseg (nx h) (pv h) b (head_of cs 0) cs 0"
    and t: "h_tail h = last_of b cs"
    using c b by (simp_all add: chained_def)
  show ?thesis
  proof (cases cs)
    case Nil
    then show ?thesis using as b n ne d by (simp add: chained_def f)
  next
    case (Cons x xs)
    moreover have "x \<noteq> 0" using cs Cons by simp
    ultimately show ?thesis using as b n ne d cs t by (auto simp: chained_def f)
  qed
qed

lemma split_shaped:
  assumes s: "shaped h (as @ b # cs) hi" and "\<not> av h b" and le: "s \<le> sz h b"
  obtains bs where "shaped (split_block b s h) bs hi" and "used (split_block b s h) bs = used h (as @ b # cs)"
    and "s \<le> sz (split_block b s h) b" and "\<And>c. c \<in> set (as @ cs) \<Longrightarrow> sz (split_block b s h) c = sz h c"
    and "h_env (split_block b s h) = h_env h" and "h_bytes (split_block b s h) = h_bytes h"
proof (cases "sz h b - s < HEADER + 8")
  case True
  then show thesis using that [of "as @ b # cs"] s le by (simp add: split_block_chain)
next
  case False
  define n where "n = b + HEADER + s"
  let ?g = "split_chain b s h" and ?h = "insert_free n (split_chain b s h)"
  note sd = shapedD [OF s]
  have size: "unat (sz h b) = unat s + 24 + unat (sz h b - s - HEADER)" using round_split [OF False le] .
  have below: "unat b + 24 + unat (sz h b) \<le> hi" using laid_mem [OF sd(2), of b] by simp
  then have un: "unat n = unat b + 24 + unat s"
    using size sd(3) by (simp add: n_def HEADER_def unat_word_ariths)
  have new: "n \<notin> set (as @ b # cs)"
  proof
    assume "n \<in> set (as @ b # cs)"
    moreover have "n \<noteq> b" using un by auto
    ultimately show False
      using laid_apart [OF sd(2), of n b] un size by auto
  qed
  have n0: "n \<noteq> 0" using un by auto
  have d: "distinct (as @ b # n # cs)" using new sd(4) by auto
  have c: "chained ?g (as @ b # n # cs)" using split_chained [OF sd(1) d] n_def n0 by simp
  have nb: "nx h b = head_of cs 0" using chained_mid(1) [OF sd(1)] .
  have ne: "n \<noteq> b" "nx h b \<noteq> b" "nx h b \<noteq> n" using d nb n0 chained_mid(3) [OF sd(1)] by (cases cs; auto)+
  note f = split_chain_fields [OF n_def ne]
  have "laid (sz ?g) 1 (as @ b # n # cs) hi"
  proof -
    obtain m where m: "laid (sz h) 1 as m" "laid (sz h) m (b # cs) hi"
      using sd(2) by (auto simp: laid_append)
    have "laid (sz ?g) 1 as m"
      using m(1) d by (subst laid_cong [of _ _ "sz h"]) (auto simp: f)
    moreover have "laid (sz ?g) m (b # n # cs) hi"
    proof -
      have "laid (sz ?g) x cs hi = laid (sz h) x cs hi" for x
        using d by (intro laid_cong) (auto simp: f)
      then show ?thesis using m(2) size un by (simp add: f ne add.assoc)
    qed
    ultimately show ?thesis by (auto simp: laid_append)
  qed
  then have l: "laid (sz ?h) 1 (as @ b # n # cs) hi" by simp
  obtain F where "binned h (set (as @ b # cs)) F" using s by (auto simp: shaped_def)
  then have "binned ?g (set (as @ b # cs)) F"
    by (rule binned_cong) (use f new assms(2) in auto)
  then have "binned ?h (insert n (set (as @ b # cs))) (F(bin_index (sz ?g n) := n # F (bin_index (sz ?g n))))"
    by (rule insert_free_binned [OF _ new n0 refl])
  moreover have "insert n (set (as @ b # cs)) = set (as @ b # n # cs)" by auto
  ultimately have "\<exists>F. binned ?h (set (as @ b # n # cs)) F" by auto
  then have shaped: "shaped ?h (as @ b # n # cs) hi"
    using c l sd(3) by (simp add: shaped_def chained_def)
  have eq: "split_block b s h = ?h" using False by (simp add: split_block_chain n_def)
  show thesis
  proof (rule that [of "as @ b # n # cs", unfolded eq])
    show "shaped ?h (as @ b # n # cs) hi" by (rule shaped)
    show "used ?h (as @ b # n # cs) = used h (as @ b # cs)" using new by (auto simp: used_def f)
    show "s \<le> sz ?h b" using ne by (simp add: f)
    show "sz ?h c = sz h c" if "c \<in> set (as @ cs)" for c using that new sd(4) by (auto simp: f)
    show "h_env ?h = h_env h" "h_bytes ?h = h_bytes h" by (simp_all add: f)
  qed
qed


section \<open>Free lists and the shape\<close>

lemma remove_shaped:
  assumes "shaped h bs hi" and "b \<in> set bs" and "av h b"
  shows "shaped (remove_free b h) bs hi" and "used (remove_free b h) bs = insert b (used h bs)"
proof -
  obtain F where "binned h (set bs) F" using assms(1) by (auto simp: shaped_def)
  then obtain F' where "binned (remove_free b h) (set bs) F'" by (rule remove_free_binned [OF _ assms(2,3)])
  then have "\<exists>F. binned (remove_free b h) (set bs) F" by blast
  then show "shaped (remove_free b h) bs hi" using assms(1) by (simp add: shaped_def chained_def)
  show "used (remove_free b h) bs = insert b (used h bs)" using assms(2) by (auto simp: used_def)
qed

lemma insert_shaped:
  assumes "shaped h bs hi" and "b \<in> used h bs"
  shows "shaped (insert_free b h) bs hi" and "used (insert_free b h) bs = used h bs - {b}"
proof -
  have b: "b \<in> set bs" "\<not> av h b" using assms(2) by (auto simp: used_def)
  have "b \<noteq> 0" using laid_mem [OF shapedD(2) [OF assms(1)] b(1)] by auto
  obtain F where "binned h (set bs) F" using assms(1) by (auto simp: shaped_def)
  then have "binned h (set bs - {b}) F" by (rule binned_cong) (use b in auto)
  from insert_free_binned [OF this _ \<open>b \<noteq> 0\<close> refl]
  have "binned (insert_free b h) (insert b (set bs - {b})) (F(bin_index (sz h b) := b # F (bin_index (sz h b))))" by simp
  then have "\<exists>F. binned (insert_free b h) (set bs) F" using b(1) by (auto simp: insert_absorb)
  then show "shaped (insert_free b h) bs hi" using assms(1) by (simp add: shaped_def chained_def)
  show "used (insert_free b h) bs = used h bs - {b}" by (auto simp: used_def)
qed

text \<open>Two neighbours, of which the available one has been taken out of its list, become one.\<close>

lemma absorb_next:
  assumes s: "shaped h (as @ b # x # cs) hi" and "\<not> av h b" and "av h x" and "adjacent h b x"
  defines "h' \<equiv> join_next b (remove_free x h)"
  shows "shaped h' (as @ b # cs) hi" and "used h' (as @ b # cs) = used h (as @ b # x # cs)"
    and "unat (sz h' b) = unat (sz h b) + 24 + unat (sz h x)"
    and "c \<noteq> b \<Longrightarrow> sz h' c = sz h c" and "h_env h' = h_env h" and "h_bytes h' = h_bytes h"
proof -
  have r: "shaped (remove_free x h) (as @ b # x # cs) hi" "used (remove_free x h) (as @ b # x # cs) = insert x (used h (as @ b # x # cs))"
    using remove_shaped [OF s] assms(3) by simp_all
  have pre: "\<not> av (remove_free x h) b" "\<not> av (remove_free x h) x" "adjacent (remove_free x h) b x"
    using assms(2,4) by (simp_all add: adjacent_def)
  note j = join_shaped [OF r(1) pre]
  show "shaped h' (as @ b # cs) hi" unfolding h'_def by (rule j(1))
  show "used h' (as @ b # cs) = used h (as @ b # x # cs)"
    unfolding h'_def j(3) r(2) using assms(3) by (auto simp: used_def)
  show "unat (sz h' b) = unat (sz h b) + 24 + unat (sz h x)" "c \<noteq> b \<Longrightarrow> sz h' c = sz h c" "h_env h' = h_env h" "h_bytes h' = h_bytes h"
    unfolding h'_def using j by simp_all
qed

lemma absorb_prev:
  assumes s: "shaped h (as @ v # b # cs) hi" and "\<not> av h b" and "av h v" and "adjacent h v b"
  defines "h' \<equiv> join_next v (remove_free v h)"
  shows "shaped h' (as @ v # cs) hi" and "used h' (as @ v # cs) = insert v (used h (as @ v # b # cs) - {b})"
    and "c \<noteq> v \<Longrightarrow> sz h' c = sz h c" and "h_env h' = h_env h" and "h_bytes h' = h_bytes h" and "\<not> av h' v"
    and "sz h b \<le> sz h' v"
proof -
  have r: "shaped (remove_free v h) (as @ v # b # cs) hi" "used (remove_free v h) (as @ v # b # cs) = insert v (used h (as @ v # b # cs))"
    using remove_shaped [OF s] assms(3) by simp_all
  have pre: "\<not> av (remove_free v h) v" "\<not> av (remove_free v h) b" "adjacent (remove_free v h) v b"
    using assms(2,4) by (simp_all add: adjacent_def)
  note j = join_shaped [OF r(1) pre]
  show "shaped h' (as @ v # cs) hi" unfolding h'_def by (rule j(1))
  have "v \<noteq> b" using shapedD(4) [OF s] by auto
  then show "used h' (as @ v # cs) = insert v (used h (as @ v # b # cs) - {b})"
    unfolding h'_def j(3) r(2) by auto
  show "c \<noteq> v \<Longrightarrow> sz h' c = sz h c" "h_env h' = h_env h" "h_bytes h' = h_bytes h" "\<not> av h' v" "sz h b \<le> sz h' v"
    unfolding h'_def using j by (simp_all add: word_le_nat_alt)
qed


section \<open>\<open>free\<close>\<close>

definition free_left :: "addr \<Rightarrow> 'e heap \<Rightarrow> addr \<times> 'e heap" where
  "free_left b h =
     (let v = b_prev (blk h b) in
      if v \<noteq> 0 \<and> b_available (blk h v) \<and> adjacent h v b then (v, join_next v (remove_free v h)) else (b, h))"

definition free_right :: "addr \<Rightarrow> 'e heap \<Rightarrow> 'e heap" where
  "free_right b h =
     (let x = b_next (blk h b) in
      if x \<noteq> 0 \<and> b_available (blk h x) \<and> adjacent h b x then join_next b (remove_free x h) else h)"

lemma heap_free_parts:
  "p \<noteq> 0 \<Longrightarrow> heap_free p h = (let (b, h) = free_left (p - HEADER) h in insert_free b (free_right b h))"
  by (simp add: heap_free_def free_left_def free_right_def Let_def split: prod.split)

lemma free_left_shaped:
  assumes s: "shaped h bs hi" and b: "b \<in> used h bs" and e: "free_left b h = (b', h')"
  obtains bs' where "shaped h' bs' hi" and "used h' bs' = insert b' (used h bs - {b})" and "b' \<notin> used h bs - {b}"
    and "\<And>c. c \<in> used h bs - {b} \<Longrightarrow> sz h' c = sz h c" and "h_env h' = h_env h" and "h_bytes h' = h_bytes h"
    and "sz h b \<le> sz h' b'"
proof -
  obtain as cs where bs: "bs = as @ b # cs" using b by (auto simp: used_def in_set_conv_decomp)
  have nb: "\<not> av h b" using b by (simp add: used_def)
  have v: "pv h b = last_of 0 as" using chained_mid(2) shapedD(1) [OF s] bs by blast
  show thesis
  proof (cases "pv h b \<noteq> 0 \<and> av h (pv h b) \<and> adjacent h (pv h b) b")
    case True
    then obtain as' where as: "as = as' @ [pv h b]"
      using v by (cases as rule: rev_cases) (auto simp: last_of_def split: if_splits)
    have s': "shaped h (as' @ pv h b # b # cs) hi" using s bs as by simp
    have eq: "b' = pv h b" "h' = join_next (pv h b) (remove_free (pv h b) h)"
      using e True by (auto simp: free_left_def Let_def pv_def)
    note a = absorb_prev [OF s' nb _ _, folded eq]
    have "b' \<notin> used h bs" using True eq by (simp add: used_def)
    then have "c \<noteq> b'" if "c \<in> used h bs - {b}" for c using that by auto
    then show thesis
      using a True bs as eq \<open>b' \<notin> used h bs\<close> by (intro that [of "as' @ b' # cs"]) auto
  next
    case False
    then have "b' = b" "h' = h" using e by (auto simp: free_left_def Let_def pv_def)
    then show thesis using that [of bs] s b by auto
  qed
qed

lemma free_right_shaped:
  assumes s: "shaped h bs hi" and b: "b \<in> used h bs"
  obtains bs' where "shaped (free_right b h) bs' hi" and "used (free_right b h) bs' = used h bs"
    and "\<And>c. c \<noteq> b \<Longrightarrow> sz (free_right b h) c = sz h c" and "h_env (free_right b h) = h_env h"
    and "h_bytes (free_right b h) = h_bytes h" and "sz h b \<le> sz (free_right b h) b"
proof -
  obtain as cs where bs: "bs = as @ b # cs" using b by (auto simp: used_def in_set_conv_decomp)
  have nb: "\<not> av h b" using b by (simp add: used_def)
  have x: "nx h b = head_of cs 0" using chained_mid(1) shapedD(1) [OF s] bs by blast
  show thesis
  proof (cases "nx h b \<noteq> 0 \<and> av h (nx h b) \<and> adjacent h b (nx h b)")
    case True
    then obtain cs' where cs: "cs = nx h b # cs'" using x by (cases cs) auto
    have s': "shaped h (as @ b # nx h b # cs') hi" using s bs cs by simp
    have eq: "free_right b h = join_next b (remove_free (nx h b) h)"
      using True by (auto simp: free_right_def Let_def nx_def)
    note a = absorb_next [OF s' nb _ _, folded eq]
    have "sz h b \<le> sz (free_right b h) b" using a(3) True by (simp add: word_le_nat_alt)
    show thesis
      using that [of "as @ b # cs'"] a True bs cs \<open>sz h b \<le> sz (free_right b h) b\<close> by auto
  next
    case False
    then have "free_right b h = h" by (auto simp: free_right_def Let_def nx_def)
    then show thesis using that [of bs] s by auto
  qed
qed

lemma free_shaped:
  assumes s: "shaped h bs hi" and b: "b \<in> used h bs" and p: "b + HEADER \<noteq> 0"
  obtains bs' where "shaped (heap_free (b + HEADER) h) bs' hi" and "used (heap_free (b + HEADER) h) bs' = used h bs - {b}"
    and "\<And>c. c \<in> used h bs - {b} \<Longrightarrow> sz (heap_free (b + HEADER) h) c = sz h c"
    and "h_env (heap_free (b + HEADER) h) = h_env h" and "h_bytes (heap_free (b + HEADER) h) = h_bytes h"
    and "\<exists>c \<in> set bs'. av (heap_free (b + HEADER) h) c \<and> sz h b \<le> sz (heap_free (b + HEADER) h) c"
proof -
  obtain b' h1 where e: "free_left b h = (b', h1)" by (cases "free_left b h")
  obtain bs1 where l: "shaped h1 bs1 hi" "used h1 bs1 = insert b' (used h bs - {b})" "b' \<notin> used h bs - {b}"
      "\<And>c. c \<in> used h bs - {b} \<Longrightarrow> sz h1 c = sz h c" "h_env h1 = h_env h" "h_bytes h1 = h_bytes h" "sz h b \<le> sz h1 b'"
    using free_left_shaped [OF s b e] by blast
  have b': "b' \<in> used h1 bs1" using l(2) by simp
  let ?h2 = "free_right b' h1"
  obtain bs2 where r: "shaped ?h2 bs2 hi" "used ?h2 bs2 = used h1 bs1" "\<And>c. c \<noteq> b' \<Longrightarrow> sz ?h2 c = sz h1 c"
      "h_env ?h2 = h_env h1" "h_bytes ?h2 = h_bytes h1" "sz h1 b' \<le> sz ?h2 b'"
    using free_right_shaped [OF l(1) b'] by blast
  have "b' \<in> used ?h2 bs2" using b' r(2) by simp
  note i = insert_shaped [OF r(1) this]
  have eq: "heap_free (b + HEADER) h = insert_free b' ?h2" using heap_free_parts [OF p, of h] e by simp
  show thesis
  proof (rule that [of bs2, unfolded eq])
    show "shaped (insert_free b' ?h2) bs2 hi" by (rule i(1))
    show "used (insert_free b' ?h2) bs2 = used h bs - {b}" using i(2) r(2) l(2,3) by auto
    show "sz (insert_free b' ?h2) c = sz h c" if "c \<in> used h bs - {b}" for c
    proof -
      have "c \<noteq> b'" using that l(3) by auto
      then show ?thesis using r(3) l(4) [OF that] by simp
    qed
    show "h_env (insert_free b' ?h2) = h_env h" "h_bytes (insert_free b' ?h2) = h_bytes h" using r l by simp_all
    have "b' \<in> set bs2" using \<open>b' \<in> used ?h2 bs2\<close> by (simp add: used_def)
    then show "\<exists>c \<in> set bs2. av (insert_free b' ?h2) c \<and> sz h b \<le> sz (insert_free b' ?h2) c"
      using l(7) r(6) by (intro bexI [of _ b']) auto
  qed
qed

end
