(* ===== verification/Heap_Alloc.thy ===== *)
theory Heap_Alloc
  imports Heap_Blocks
begin

text \<open>
  Allocation, \<^verbatim>\<open>malloc\<close> and \<^verbatim>\<open>realloc\<close> of \<^verbatim>\<open>user/native/heap.c\<close>, over any system call that moves the break as
  \<open>break_provider\<close> says.
\<close>

section \<open>Sizes\<close>

lemma mask3: "mask 3 = (7 :: u32)"
  by (simp add: mask_eq_exp_minus_1)

lemma unat_round8:
  assumes "n \<le> LARGEST"
  shows "unat n \<le> unat (round8 n)" and "unat (round8 n) + 24 < 2 ^ 32" and "8 dvd unat (round8 n)"
proof -
  have n: "unat n \<le> 4294967264" using assms by (simp add: LARGEST_def HEADER_def word_le_nat_alt)
  have m: "(n + 7) AND 7 = (n + 7) mod 8"
    using take_bit_eq_mask [of 3 "n + 7"] take_bit_eq_mod [of 3 "n + 7"] by (simp add: mask_eq_exp_minus_1)
  have "round8 n = (n + 7) - ((n + 7) AND 7)"
  proof -
    have "round8 n = push_bit 3 (drop_bit 3 (n + 7))"
      by (rule bit_word_eqI) (auto simp: round8_def bit_simps mask3 [symmetric])
    moreover have "(n + 7) AND 7 = take_bit 3 (n + 7)" by (simp add: take_bit_eq_mask mask_eq_exp_minus_1)
    ultimately show ?thesis using bits_ident [of 3 "n + 7"] by (metis add_diff_cancel_right')
  qed
  moreover have "(n + 7) mod 8 \<le> n + 7" by (simp add: word_le_nat_alt unat_mod)
  moreover have "unat (n + 7) = unat n + 7" using n by (simp add: unat_word_ariths)
  ultimately have u: "unat (round8 n) = (unat n + 7) - (unat n + 7) mod 8"
    using m by (simp add: unat_sub unat_mod)
  have "(unat n + 7) mod 8 < 8" by simp
  then show "unat n \<le> unat (round8 n)" unfolding u by linarith
  have "(unat n + 7) - (unat n + 7) mod 8 = (unat n + 7) div 8 * 8" by (simp add: minus_mod_eq_div_mult)
  moreover have "(unat n + 7) div 8 \<le> 536870908" using n by linarith
  ultimately show "unat (round8 n) + 24 < 2 ^ 32" unfolding u by simp
  show "8 dvd unat (round8 n)" unfolding u by (rule dvd_minus_mod)
qed


section \<open>The search of the free lists\<close>

text \<open>The walk along a free list ends, since the list does.\<close>


lemma find_fit_ends:
  assumes "dseg (fn h) pf q f bs 0"
  shows "\<exists>b. find_fit h s f = Some b \<and> (if b = 0 then \<forall>c \<in> set bs. sz h c < s else b \<in> set bs \<and> s \<le> sz h b)"
  using assms
proof (induction bs arbitrary: q f)
  case Nil
  then show ?case by (simp add: find_fit.simps)
next
  case (Cons c cs)
  moreover have "b_free_next (blk h c) = fn h c" by (simp add: fn_def)
  ultimately have f: "f = c" "c \<noteq> 0" "dseg (fn h) pf c (b_free_next (blk h c)) cs 0" by auto
  show ?case
  proof (cases "s \<le> sz h c")
    case True
    then show ?thesis using f by (simp add: find_fit.simps)
  next
    case False
    obtain b where b: "find_fit h s (b_free_next (blk h c)) = Some b"
        "if b = 0 then \<forall>c \<in> set cs. sz h c < s else b \<in> set cs \<and> s \<le> sz h b"
      using Cons.IH [OF f(3)] by blast
    then show ?thesis using False f by (intro exI [of _ b]) (auto simp: find_fit.simps [of h s c])
  qed
qed

lemma find_bin_ends:
  assumes "list_all2 (\<lambda>f bs. dseg (fn h) (fp h) 0 f bs 0) fs Bs"
  shows "\<exists>b. find_bin h s fs = Some b \<and>
     (if b = 0 then \<forall>bs \<in> set Bs. \<forall>c \<in> set bs. sz h c < s else (\<exists>bs \<in> set Bs. b \<in> set bs) \<and> s \<le> sz h b)"
  using assms
proof (induction fs Bs rule: list_all2_induct)
  case (Cons f fs bs Bs)
  obtain b where b: "find_fit h s f = Some b" "if b = 0 then \<forall>c \<in> set bs. sz h c < s else b \<in> set bs \<and> s \<le> sz h b"
    using find_fit_ends [OF Cons.hyps(1)] by blast
  show ?case
  proof (cases "b = 0")
    case True
    then show ?thesis using b Cons.IH by (auto split: if_splits)
  next
    case False
    then show ?thesis using b by auto
  qed
qed simp

lemma find_available:
  assumes s: "shaped h bs hi"
  obtains b where "find_bin h s (drop (bin_index s) (h_bins h)) = Some b"
    and "b = 0 \<Longrightarrow> (\<forall>c \<in> set bs. av h c \<longrightarrow> sz h c < s)"
    and "b \<noteq> 0 \<Longrightarrow> b \<in> set bs \<and> av h b \<and> s \<le> sz h b"
proof -
  obtain F where F: "binned h (set bs) F" using s by (auto simp: shaped_def)
  let ?k = "bin_index s"
  have "list_all2 (\<lambda>f bs. dseg (fn h) (fp h) 0 f bs 0) (drop ?k (h_bins h)) (map F [?k..<32])"
    using F by (auto simp: list_all2_conv_all_nth binned_def)
  from find_bin_ends [OF this, of s] obtain b where b: "find_bin h s (drop ?k (h_bins h)) = Some b"
      "if b = 0 then \<forall>l \<in> set (map F [?k..<32]). \<forall>c \<in> set l. sz h c < s
       else (\<exists>l \<in> set (map F [?k..<32]). b \<in> set l) \<and> s \<le> sz h b" by blast
  show thesis
  proof (rule that [OF b(1)])
    show "\<forall>c \<in> set bs. av h c \<longrightarrow> sz h c < s" if "b = 0"
    proof (intro ballI impI)
      fix c
      assume c: "c \<in> set bs" "av h c"
      show "sz h c < s"
      proof (rule ccontr)
        assume "\<not> sz h c < s"
        then have "?k \<le> bin_index (sz h c)" by (simp add: bin_index_mono)
        moreover have "c \<in> set (F (bin_index (sz h c)))" using binnedD(3) [OF F bin_index_32] c by simp
        ultimately show False using b(2) \<open>b = 0\<close> \<open>\<not> sz h c < s\<close> by fastforce
      qed
    qed
    show "b \<in> set bs \<and> av h b \<and> s \<le> sz h b" if "b \<noteq> 0"
      using b(2) that binnedD(3) [OF F] by fastforce
  qed
qed



section \<open>A fresh block\<close>

definition append_block :: "addr \<Rightarrow> u32 \<Rightarrow> 'e heap \<Rightarrow> 'e heap" where
  "append_block b s h =
     (let h = upd b (\<lambda>x. x\<lparr>b_size := s, b_available := False, b_next := 0, b_prev := h_tail h,
                      b_free_next := 0, b_free_prev := 0\<rparr>) h;
          h = (if h_tail h \<noteq> 0 then upd (h_tail h) (\<lambda>x. x\<lparr>b_next := b\<rparr>) h else h) in
      h\<lparr>h_tail := b\<rparr>)"

lemma append_block_fields:
  assumes "h_tail h \<noteq> b"
  shows "nx (append_block b s h) = (if h_tail h = 0 then (nx h)(b := 0) else (nx h)(b := 0, h_tail h := b))"
    and "pv (append_block b s h) = (pv h)(b := h_tail h)"
    and "sz (append_block b s h) c = (if c = b then s else sz h c)"
    and "av (append_block b s h) c = (c \<noteq> b \<and> av h c)"
    and "fn (append_block b s h) = (fn h)(b := 0)" and "fp (append_block b s h) = (fp h)(b := 0)"
    and "h_bins (append_block b s h) = h_bins h" and "h_tail (append_block b s h) = b"
    and "h_env (append_block b s h) = h_env h" and "h_bytes (append_block b s h) = h_bytes h"
  using assms by (auto simp: append_block_def Let_def nx_def pv_def fn_def fp_def)

lemma append_shaped:
  assumes s: "shaped h bs hi" and b: "b \<noteq> 0" "hi \<le> unat b" and hi': "unat b + 24 + unat s \<le> hi'" "hi' < 2 ^ 32"
  shows "shaped (append_block b s h) (bs @ [b]) hi'" and "used (append_block b s h) (bs @ [b]) = insert b (used h bs)"
    and "b \<notin> set bs"
proof -
  note sd = shapedD [OF s]
  show new: "b \<notin> set bs" using laid_mem [OF sd(2), of b] b(2) by auto
  have t: "h_tail h = last_of 0 bs" using sd(1) by (simp add: chained_def)
  have tb: "h_tail h \<noteq> b" using t new b(1) by (auto simp: last_of_def)
  note f = append_block_fields [OF tb]
  have seg: "dseg (nx h) (pv h) 0 (head_of bs 0) bs 0" using sd(1) by (simp add: chained_def)
  have "chained (append_block b s h) (bs @ [b])"
  proof (cases "bs = []")
    case True
    then show ?thesis using b t by (simp add: chained_def f)
  next
    case False
    have t': "h_tail h = last bs" "h_tail h \<noteq> 0"
      using t False dseg_nonzero [OF seg last_in_set [OF False]] by (simp_all add: last_of_def)
    have "dseg ((nx h)(last bs := b)) (pv h) 0 (head_of bs 0) bs b"
      using dseg_last [OF seg sd(4), of b] False by simp
    then have "dseg (nx (append_block b s h)) (pv (append_block b s h)) 0 (head_of bs b) bs b"
      using new False t' by (subst dseg_cong [of _ _ "(nx h)(last bs := b)" _ "pv h"]) (auto simp: f head_of_def)
    then show ?thesis using b(1) t t' False tb by (simp add: chained_def f)
  qed
  moreover have "laid (sz (append_block b s h)) 1 (bs @ [b]) hi'"
  proof -
    have "laid (sz (append_block b s h)) 1 bs hi = laid (sz h) 1 bs hi"
      using new by (intro laid_cong) (auto simp: f)
    then show ?thesis using sd(2) b(2) hi'(1) by (auto simp: laid_append f)
  qed
  moreover have "\<exists>F. binned (append_block b s h) (set (bs @ [b])) F"
  proof -
    obtain F where F: "binned h (set bs) F" using s by (auto simp: shaped_def)
    have "b \<notin> set (F i)" if "i < 32" for i using binnedD(3) [OF F that] new by auto
    then have "binned (append_block b s h) (set (bs @ [b])) F"
      using F new by (auto simp: binned_def f)
    then show ?thesis by blast
  qed
  ultimately show "shaped (append_block b s h) (bs @ [b]) hi'" using hi'(2) by (simp add: shaped_def)
  show "used (append_block b s h) (bs @ [b]) = insert b (used h bs)" using new by (auto simp: used_def f)
qed

section \<open>A block that is found\<close>

lemma payload:
  assumes "shaped h bs hi" and "b \<in> set bs"
  shows "unat (b + HEADER) = unat b + 24" and "b + HEADER \<noteq> 0" and "unat (b + HEADER) + unat (sz h b) \<le> hi"
proof -
  have l: "unat b + 24 + unat (sz h b) \<le> hi" "hi < 2 ^ 32"
    using laid_mem [OF shapedD(2) [OF assms(1)] assms(2)] shapedD(3) [OF assms(1)] by simp_all
  then show u: "unat (b + HEADER) = unat b + 24" by (simp add: HEADER_def unat_word_ariths)
  then show "b + HEADER \<noteq> 0" by auto
  show "unat (b + HEADER) + unat (sz h b) \<le> hi" using u l by simp
qed

text \<open>What an operation leaves as it is: the sizes of the blocks in use and the bytes.\<close>

definition same_sizes :: "'e heap \<Rightarrow> 'e heap \<Rightarrow> addr set \<Rightarrow> bool" where
  "same_sizes h h' A \<longleftrightarrow> (\<forall>c \<in> A. sz h' c = sz h c)"

lemma reuse_block:
  assumes s: "shaped h bs hi" and b: "b \<in> set bs" "av h b" "s \<le> sz h b"
  obtains bs' where "shaped (split_block b s (remove_free b h)) bs' hi"
    and "used (split_block b s (remove_free b h)) bs' = insert b (used h bs)"
    and "same_sizes h (split_block b s (remove_free b h)) (used h bs)" and "s \<le> sz (split_block b s (remove_free b h)) b"
    and "h_env (split_block b s (remove_free b h)) = h_env h" and "h_bytes (split_block b s (remove_free b h)) = h_bytes h"
proof -
  obtain as cs where bs: "bs = as @ b # cs" using b(1) by (auto simp: in_set_conv_decomp)
  note r = remove_shaped [OF s b(1,2)]
  have pre: "shaped (remove_free b h) (as @ b # cs) hi" "\<not> av (remove_free b h) b" "s \<le> sz (remove_free b h) b"
    using r(1) bs b(3) by simp_all
  show thesis
  proof (rule split_shaped [OF pre])
    fix bs'
    assume x: "shaped (split_block b s (remove_free b h)) bs' hi"
      "used (split_block b s (remove_free b h)) bs' = used (remove_free b h) (as @ b # cs)"
      "s \<le> sz (split_block b s (remove_free b h)) b"
      "\<And>c. c \<in> set (as @ cs) \<Longrightarrow> sz (split_block b s (remove_free b h)) c = sz (remove_free b h) c"
      "h_env (split_block b s (remove_free b h)) = h_env (remove_free b h)"
      "h_bytes (split_block b s (remove_free b h)) = h_bytes (remove_free b h)"
    have "same_sizes h (split_block b s (remove_free b h)) (used h bs)"
      unfolding same_sizes_def
    proof
      fix c
      assume "c \<in> used h bs"
      then have "c \<in> set (as @ cs)" using bs b(2) by (auto simp: used_def)
      then show "sz (split_block b s (remove_free b h)) c = sz h c" using x(4) by simp
    qed
    then show thesis using that [of bs'] x r(2) bs by simp
  qed
qed

lemma malloc_eq:
  "malloc B n h =
     (let n = (if n = 0 then 1 else n) in
      if n > LARGEST then Some (0, h)
      else
        (let s = round8 n in
         do {
           b \<leftarrow> find_bin h s (drop (bin_index s) (h_bins h));
           if b \<noteq> 0 then Some (b + HEADER, split_block b s (remove_free b h))
           else
             (let (b, h) = heap_break B (HEADER + s) True h in
              if b = 0 then Some (0, h) else Some (b + HEADER, append_block b s h))
         }))"
  by (simp add: malloc_def append_block_def Let_def cong: if_cong)

definition at_least :: "u32 \<Rightarrow> u32" where "at_least n = (if n = 0 then 1 else n)"

section \<open>The break\<close>

text \<open>The heap lies below the break.\<close>

definition good :: "('e \<Rightarrow> u32) \<Rightarrow> ('e \<Rightarrow> bool) \<Rightarrow> 'e heap \<Rightarrow> addr list \<Rightarrow> bool" where
  "good brk sane h bs \<longleftrightarrow> sane (h_env h) \<and> shaped h bs (unat (brk (h_env h)))"

lemma shaped_env:
  assumes "blk h' = blk h" and "h_tail h' = h_tail h" and "h_bins h' = h_bins h" and "shaped h bs hi" and "hi \<le> hi'" and "hi' < 2 ^ 32"
  shows "shaped h' bs hi'" and "used h' bs = used h bs"
proof -
  have f: "nx h' = nx h" "pv h' = pv h" "fn h' = fn h" "fp h' = fp h"
    using assms(1) by (auto simp: nx_def pv_def fn_def fp_def)
  then show "shaped h' bs hi'"
    using assms laid_weaken [of "sz h" 1 bs hi 1 hi'] by (simp add: shaped_def chained_def binned_def)
  show "used h' bs = used h bs" using assms(1) by (simp add: used_def)
qed

locale break_provider =
  fixes B :: "u32 \<Rightarrow> 'e \<Rightarrow> u32 \<times> 'e"
    and brk :: "'e \<Rightarrow> u32"
    and sane :: "'e \<Rightarrow> bool"
  assumes query: "sane e \<Longrightarrow> B 0 e = (brk e, e)"
    and move: "sane e \<Longrightarrow> B a e = (r, e') \<Longrightarrow> sane e' \<and> r = brk e' \<and> (r = a \<or> e' = e)"
begin

lemma heap_break_query:
  assumes "sane (h_env h)" and "heap_break B n False h = (r, h')"
  shows "r = brk (h_env h)" and "blk h' = blk h" and "h_tail h' = h_tail h" and "h_bins h' = h_bins h"
    and "h_bytes h' = h_bytes h" and "h_env h' = h_env h"
  using assms query [OF assms(1)] by (auto simp: heap_break_def Let_def)

lemma heap_break_grow:
  assumes s: "sane (h_env h)" and e: "heap_break B n True h = (r, h')"
  shows "blk h' = blk h" and "h_tail h' = h_tail h" and "h_bins h' = h_bins h" and "h_bytes h' = h_bytes h" and "sane (h_env h')"
    and "r = brk (h_env h) \<or> r = 0" and "brk (h_env h) \<le> brk (h_env h')"
    and "r \<noteq> 0 \<Longrightarrow> unat (brk (h_env h')) = unat (brk (h_env h)) + unat n"
proof -
  define old where "old = brk (h_env h)"
  obtain x e' where B: "B (old + n) (h_env h) = (x, e')" by (cases "B (old + n) (h_env h)")
  note m = move [OF s B]
  have q: "B 0 (h_env h) = (old, h_env h)" using query [OF s] by (simp add: old_def)
  have fits: "unat (old + n) = unat old + unat n" if "\<not> n > - 1 - old"
  proof -
    have "unat (- 1 - old) = 4294967295 - unat old"
      using unat32_less [of old] by (simp add: unat_sub_if' word_le_nat_alt unsigned_minus_1_eq_mask mask_eq_exp_minus_1)
    then have "unat n + unat old \<le> 4294967295" using that unat32_less [of old] by (simp add: word_less_nat_alt)
    then show ?thesis by (simp add: unat_word_ariths)
  qed
  show "blk h' = blk h" "h_tail h' = h_tail h" "h_bins h' = h_bins h" "h_bytes h' = h_bytes h"
    using e q B by (auto simp: heap_break_def Let_def split: if_splits)
  show "sane (h_env h')" "r = brk (h_env h) \<or> r = 0"
    using e q B m s by (auto simp: heap_break_def Let_def old_def split: if_splits)
  show "brk (h_env h) \<le> brk (h_env h')"
  proof (cases "n > - 1 - old \<or> e' = h_env h")
    case True
    then show ?thesis using e q B by (auto simp: heap_break_def Let_def split: if_splits)
  next
    case False
    then have "brk e' = old + n" using m by auto
    moreover have "h_env h' = e'" using e q B False by (auto simp: heap_break_def Let_def split: if_splits)
    ultimately show ?thesis using fits False by (simp add: word_le_nat_alt old_def)
  qed
  show "unat (brk (h_env h')) = unat (brk (h_env h)) + unat n" if "r \<noteq> 0"
    using e q B m fits that by (auto simp: heap_break_def Let_def old_def split: if_splits)
qed

text \<open>What \<open>malloc\<close> does: it always returns, and when it returns 0 the size is too large or no available block is large enough.\<close>

lemma malloc_ok:
  assumes g: "good brk sane h bs"
  obtains p h' bs' where "malloc B n h = Some (p, h')" and "good brk sane h' bs'" and "h_bytes h' = h_bytes h"
    and "same_sizes h h' (used h bs)" and "p = 0 \<longrightarrow> used h' bs' = used h bs"
    and "p \<noteq> 0 \<longrightarrow> p - HEADER \<notin> used h bs \<and> used h' bs' = insert (p - HEADER) (used h bs) \<and> n \<le> sz h' (p - HEADER)"
    and "p = 0 \<longrightarrow> at_least n > LARGEST \<or> (\<forall>c \<in> set bs. av h c \<longrightarrow> sz h c < round8 (at_least n))"
    and "at_least n \<le> LARGEST \<and> (\<exists>c \<in> set bs. av h c \<and> round8 (at_least n) \<le> sz h c) \<longrightarrow> h_env h' = h_env h"
proof -
  let ?n = "at_least n"
  define s where "s = round8 ?n"
  have sane: "sane (h_env h)" and sh: "shaped h bs (unat (brk (h_env h)))" using g by (simp_all add: good_def)
  have refl: "same_sizes h h A" for h :: "'e heap" and A by (simp add: same_sizes_def)
  show thesis
  proof (cases "?n > LARGEST")
    case True
    then have "malloc B n h = Some (0, h)" by (simp add: malloc_eq at_least_def Let_def)
    then show thesis using that [of 0 h bs] g True refl by simp
  next
    case False
    then have n: "unat n \<le> unat s" "unat s + 24 < 2 ^ 32"
      using unat_round8 [of ?n] by (auto simp: s_def at_least_def split: if_splits)
    obtain b where b: "find_bin h s (drop (bin_index s) (h_bins h)) = Some b"
        "b = 0 \<Longrightarrow> (\<forall>c \<in> set bs. av h c \<longrightarrow> sz h c < s)" "b \<noteq> 0 \<Longrightarrow> b \<in> set bs \<and> av h b \<and> s \<le> sz h b"
      using find_available [OF sh] by blast
    show thesis
    proof (cases "b = 0")
      case False
      let ?h = "split_block b s (remove_free b h)"
      have m: "malloc B n h = Some (b + HEADER, ?h)"
        using \<open>\<not> ?n > LARGEST\<close> b(1) False by (simp add: malloc_eq s_def at_least_def Let_def)
      have bb: "b \<in> set bs" "av h b" "s \<le> sz h b" using b(3) False by simp_all
      obtain bs' where r: "shaped ?h bs' (unat (brk (h_env h)))" "used ?h bs' = insert b (used h bs)"
          "same_sizes h ?h (used h bs)" "s \<le> sz ?h b" "h_env ?h = h_env h" "h_bytes ?h = h_bytes h"
        using reuse_block [OF sh bb] by blast
      have "n \<le> sz ?h b" using n(1) r(4) by (simp add: word_le_nat_alt)
      moreover have "b \<notin> used h bs" using bb(2) by (simp add: used_def)
      ultimately show thesis
        using that [OF m, of bs'] r sane payload(2) [OF sh bb(1)] by (simp add: good_def)
    next
      case True
      obtain r h1 where e: "heap_break B (HEADER + s) True h = (r, h1)" by (cases "heap_break B (HEADER + s) True h")
      note hb = heap_break_grow [OF sane e]
      have hi: "unat (brk (h_env h)) \<le> unat (brk (h_env h1))" "unat (brk (h_env h1)) < 2 ^ 32"
        using hb(7) unat32_less by (simp_all add: word_le_nat_alt)
      have sh1: "shaped h1 bs (unat (brk (h_env h1)))" "used h1 bs = used h bs"
        using shaped_env [OF hb(1-3) sh hi] by blast+
      have none: "\<forall>c \<in> set bs. av h c \<longrightarrow> sz h c < s" using b(2) True by simp
      then have full: "\<not> (\<exists>c \<in> set bs. av h c \<and> round8 ?n \<le> sz h c)" by (auto simp: s_def)
      show thesis
      proof (cases "r = 0")
        case True
        then have "malloc B n h = Some (0, h1)"
          using \<open>\<not> ?n > LARGEST\<close> b(1) \<open>b = 0\<close> e by (simp add: malloc_eq s_def at_least_def Let_def)
        then show thesis
          using that [of 0 h1 bs] sh1 hb(1,4,5) none full by (simp add: good_def same_sizes_def s_def)
      next
        case False
        let ?h = "append_block r s h1"
        have m: "malloc B n h = Some (r + HEADER, ?h)"
          using \<open>\<not> ?n > LARGEST\<close> b(1) \<open>b = 0\<close> e False by (simp add: malloc_eq s_def at_least_def Let_def)
        have r: "r = brk (h_env h)" using hb(6) False by simp
        have "unat (HEADER + s) = 24 + unat s" using n(2) by (simp add: HEADER_def unat_word_ariths)
        then have top: "unat (brk (h_env h1)) = unat r + 24 + unat s" using hb(8) False r by simp
        have sh0: "shaped h1 bs (unat r)" "used h1 bs = used h bs"
          using shaped_env [OF hb(1-3) sh] r unat32_less by auto
        have le: "unat r \<le> unat r" "unat r + 24 + unat s \<le> unat (brk (h_env h1))" using top by simp_all
        note a = append_shaped [OF sh0(1) False le hi(2)]
        have tb: "h_tail h1 \<noteq> r" using shapedD(1) [OF sh0(1)] a(3) False by (auto simp: chained_def last_of_def split: if_splits)
        note f = append_block_fields [OF tb]
        have "r + HEADER \<noteq> 0" using payload(2) [OF a(1)] by simp
        moreover have "same_sizes h ?h (used h bs)"
          using a(3) hb(1) by (auto simp: same_sizes_def f used_def)
        moreover have "n \<le> sz ?h r" using n(1) by (simp add: f word_le_nat_alt)
        moreover have "r \<notin> used h bs" using a(3) by (simp add: used_def)
        ultimately show thesis
          using that [OF m, of "bs @ [r]"] a(1,2) hb(4,5) full sh0(2) by (simp add: good_def f)
      qed
    qed
  qed
qed

end

end
