(* ===== verification/Heap_Client.thy ===== *)
theory Heap_Client
  imports Heap_Alloc
begin

text \<open>
  The heap of \<^verbatim>\<open>user/native/heap.c\<close> as its clients see it, over the kernel's \<^verbatim>\<open>sys_brk\<close>: what every sequence of
  calls, stores and moves of the break leaves true.
\<close>

section \<open>Clearing and copying\<close>

text \<open>The bytes \<open>p\<close>, \<open>p + 1\<close>, \dots of a region that does not wrap around.\<close>

definition region :: "addr \<Rightarrow> u32 \<Rightarrow> addr set" where
  "region p n = {a. unat p \<le> unat a \<and> unat a < unat p + unat n}"

lemma region_offset:
  assumes "i < unat n" and "unat p + unat n \<le> 2 ^ 32"
  shows "p + of_nat i \<in> region p n" and "unat (p + of_nat i) = unat p + i"
proof -
  have "unat (of_nat i :: u32) = i"
    using assms unat32_less [of n] by (simp add: unsigned_of_nat take_bit_nat_eq_self_iff)
  then show "unat (p + of_nat i) = unat p + i" using assms by (simp add: unat_word_ariths)
  then show "p + of_nat i \<in> region p n" using assms by (simp add: region_def)
qed

lemma fold_outside:
  assumes "\<And>i. i \<in> set is \<Longrightarrow> a \<noteq> p + of_nat i"
  shows "fold (\<lambda>i m. m(p + of_nat i := f i m)) is m a = m a"
  using assms by (induction "is" arbitrary: m) auto

lemma zero_outside:
  assumes "a \<notin> region p n" and "unat p + unat n \<le> 2 ^ 32"
  shows "h_bytes (zero_bytes p n h) a = h_bytes h a"
  using assms region_offset(1) [OF _ assms(2)] by (auto simp: zero_bytes_def intro!: fold_outside)

lemma copy_outside:
  assumes "a \<notin> region q n" and "unat q + unat n \<le> 2 ^ 32"
  shows "h_bytes (copy_bytes q p n h) a = h_bytes h a"
  using assms region_offset(1) [OF _ assms(2)] by (auto simp: copy_bytes_def intro!: fold_outside)

lemma zero_inside:
  assumes "i < unat n" and "unat p + unat n \<le> 2 ^ 32"
  shows "h_bytes (zero_bytes p n h) (p + of_nat i) = 0"
proof -
  have "fold (\<lambda>i m. m(p + of_nat i := 0)) [0..<k] m (p + of_nat i) = (if i < k then 0 else m (p + of_nat i))"
    if "k \<le> unat n" for k and m :: "addr \<Rightarrow> u8"
    using that
  proof (induction k)
    case (Suc k)
    have "p + of_nat i = p + of_nat k \<longleftrightarrow> i = k"
      using region_offset(2) [OF _ assms(2)] assms(1) Suc.prems by (metis Suc_le_lessD add_left_cancel)
    then show ?case using Suc by auto
  qed simp
  then show ?thesis using assms(1) by (simp add: zero_bytes_def)
qed

lemma copy_inside:
  assumes "i < unat n" and q: "unat q + unat n \<le> 2 ^ 32" and p: "unat p + unat n \<le> 2 ^ 32"
    and d: "region q n \<inter> region p n = {}"
  shows "h_bytes (copy_bytes q p n h) (q + of_nat i) = h_bytes h (p + of_nat i)"
proof -
  define f where "f = (\<lambda>i m. m(q + of_nat i := (m :: addr \<Rightarrow> u8) (p + of_nat i)))"
  have app: "f i m a = (if a = q + of_nat i then m (p + of_nat i) else m a)" for i m a by (simp add: f_def)
  have "fold f [0..<k] m (q + of_nat i) = (if i < k then m (p + of_nat i) else m (q + of_nat i))"
    if "k \<le> unat n" for k and m :: "addr \<Rightarrow> u8"
    using that
  proof (induction k)
    case (Suc k)
    then have k: "k < unat n" by simp
    have eq: "q + of_nat i = q + of_nat k \<longleftrightarrow> i = k"
      using region_offset(2) [OF _ q] assms(1) k by (metis add_left_cancel)
    have "fold f [0..<k] m (p + of_nat k) = m (p + of_nat k)" unfolding f_def
    proof (rule fold_outside)
      fix j
      assume "j \<in> set [0..<k]"
      then have "q + of_nat j \<in> region q n" using region_offset(1) [OF _ q] k by simp
      then show "p + of_nat k \<noteq> q + of_nat j" using region_offset(1) [OF k p] d by auto
    qed
    then show ?case
      using Suc eq app [of k "fold f [0..<k] m" "q + of_nat i"] by auto
  qed simp
  then show ?thesis using assms(1) by (simp add: copy_bytes_def f_def)
qed

lemma bytes_only [simp]:
  "blk (zero_bytes p n h) = blk h" "h_tail (zero_bytes p n h) = h_tail h" "h_bins (zero_bytes p n h) = h_bins h"
  "h_env (zero_bytes p n h) = h_env h"
  "blk (copy_bytes q p n h) = blk h" "h_tail (copy_bytes q p n h) = h_tail h" "h_bins (copy_bytes q p n h) = h_bins h"
  "h_env (copy_bytes q p n h) = h_env h"
  by (simp_all add: zero_bytes_def copy_bytes_def)


section \<open>Regions of blocks\<close>

lemma payload_region:
  assumes "shaped h bs hi" and "b \<in> set bs" and "n \<le> sz h b"
  shows "unat (b + HEADER) + unat n \<le> hi" and "unat (b + HEADER) + unat n \<le> 2 ^ 32"
  using payload(3) [OF assms(1,2)] assms(3) shapedD(3) [OF assms(1)] by (simp_all add: word_le_nat_alt)

lemma payloads_apart:
  assumes s: "shaped h bs hi" and "b \<in> set bs" and "c \<in> set bs" and "b \<noteq> c" and "m \<le> sz h b" and "n \<le> sz h c"
  shows "region (b + HEADER) m \<inter> region (c + HEADER) n = {}"
  using laid_apart [OF shapedD(2) [OF s] assms(2-4)] payload(1) [OF s assms(2)] payload(1) [OF s assms(3)] assms(5,6)
  by (auto simp: region_def word_le_nat_alt)


section \<open>\<open>realloc\<close>\<close>

text \<open>A block in use grows into the available one behind it.\<close>

lemma grow_into_next:
  assumes s: "shaped h bs hi" and b: "b \<in> used h bs" and x: "nx h b \<noteq> 0" "av h (nx h b)" "adjacent h b (nx h b)"
    and fit: "s \<le> sz h b + HEADER + sz h (nx h b)"
  defines "h' \<equiv> split_block b s (join_next b (remove_free (nx h b) h))"
  obtains bs' where "shaped h' bs' hi" and "used h' bs' = used h bs" and "same_sizes h h' (used h bs - {b})" and "s \<le> sz h' b"
    and "h_env h' = h_env h" and "h_bytes h' = h_bytes h"
proof -
  define n where "n = nx h b"
  obtain as cs where bs: "bs = as @ b # cs" using b by (auto simp: used_def in_set_conv_decomp)
  have nb: "\<not> av h b" using b by (simp add: used_def)
  have "n = head_of cs 0" using chained_mid(1) shapedD(1) [OF s] bs by (auto simp: n_def)
  then obtain cs' where cs: "cs = n # cs'" using x(1) by (cases cs) (auto simp: n_def)
  have s': "shaped h (as @ b # n # cs') hi" using s bs cs by simp
  let ?j = "join_next b (remove_free n h)"
  note a = absorb_next [OF s' nb x(2,3) [folded n_def]]
  have "unat (sz h b) + 24 + unat (sz h n) < 2 ^ 32"
    using a(3) unat32_less [of "sz ?j b"] by simp
  then have "sz h b + HEADER + sz h n = sz ?j b"
    using a(3) by (intro word_unat_eq_iff [THEN iffD2]) (simp add: HEADER_def unat_word_ariths)
  then have "s \<le> sz ?j b" using fit by (simp add: n_def)
  moreover have "b \<in> used ?j (as @ b # cs')" using a(2) b bs cs by simp
  then have "\<not> av ?j b" by (simp add: used_def)
  ultimately obtain bs' where r: "shaped (split_block b s ?j) bs' hi" "used (split_block b s ?j) bs' = used ?j (as @ b # cs')"
      "s \<le> sz (split_block b s ?j) b" "\<And>c. c \<in> set (as @ cs') \<Longrightarrow> sz (split_block b s ?j) c = sz ?j c"
      "h_env (split_block b s ?j) = h_env ?j" "h_bytes (split_block b s ?j) = h_bytes ?j"
    using split_shaped [OF a(1)] by blast
  have "same_sizes h (split_block b s ?j) (used h bs - {b})"
    unfolding same_sizes_def
  proof
    fix c
    assume c: "c \<in> used h bs - {b}"
    then have "c \<in> set (as @ cs')" using bs cs x(2) by (auto simp: used_def n_def)
    then show "sz (split_block b s ?j) c = sz h c" using r(4) a(4) c by simp
  qed
  then show thesis
    using that [of bs'] r a bs cs by (simp add: h'_def n_def)
qed

text \<open>The last block in use grows with the break.\<close>

lemma grow_last:
  assumes s: "shaped h bs hi" and b: "b \<in> used h bs" and last: "nx h b = 0"
    and le: "sz h b \<le> s" "unat b + 24 + unat s \<le> hi'" "hi' < 2 ^ 32" "hi \<le> hi'"
  defines "h' \<equiv> upd b (\<lambda>x. x\<lparr>b_size := s\<rparr>) h"
  shows "shaped h' bs hi'" and "used h' bs = used h bs" and "same_sizes h h' (used h bs - {b})" and "sz h' b = s"
proof -
  obtain as cs where bs: "bs = as @ b # cs" using b by (auto simp: used_def in_set_conv_decomp)
  have nb: "\<not> av h b" using b by (simp add: used_def)
  note sd = shapedD [OF s]
  have "cs = []"
    using chained_mid(1) [of h as b cs] sd(1) bs last laid_mem [OF sd(2), of "hd cs"] by (cases cs) auto
  then have bs': "bs = as @ [b]" using bs by simp
  have f: "nx h' = nx h" "pv h' = pv h" "fn h' = fn h" "fp h' = fp h" "h_bins h' = h_bins h" "h_tail h' = h_tail h"
    "sz h' c = (if c = b then s else sz h c)" "av h' c = av h c" for c
    by (auto simp: h'_def nx_def pv_def fn_def fp_def)
  obtain m where m: "laid (sz h) 1 as m" "m \<le> unat b" using sd(2) bs' by (auto simp: laid_append)
  have "laid (sz h') 1 as m" using m(1) sd(4) bs' by (subst laid_cong [of _ _ "sz h"]) (auto simp: f)
  then have "laid (sz h') 1 bs hi'" using m(2) le by (auto simp: bs' laid_append f)
  moreover have "\<exists>F. binned h' (set bs) F"
  proof -
    obtain F where "binned h (set bs) F" using s by (auto simp: shaped_def)
    then have "binned h' (set bs) F" by (rule binned_cong) (use f nb in auto)
    then show ?thesis by blast
  qed
  ultimately show "shaped h' bs hi'" using sd(1) le(3) by (simp add: shaped_def chained_def f)
  show "used h' bs = used h bs" "same_sizes h h' (used h bs - {b})" "sz h' b = s"
    by (auto simp: used_def same_sizes_def f)
qed



section \<open>What a client owns\<close>

text \<open>The pointers a client holds, with the sizes it asked for. The blocks in use are theirs, no others.\<close>

type_synonym client = "addr \<Rightarrow> u32 option"

definition owns :: "('e \<Rightarrow> u32) \<Rightarrow> ('e \<Rightarrow> bool) \<Rightarrow> 'e heap \<Rightarrow> client \<Rightarrow> addr list \<Rightarrow> bool" where
  "owns brk sane h L bs \<longleftrightarrow>
     good brk sane h bs \<and> 0 \<notin> dom L \<and> used h bs = (\<lambda>p. p - HEADER) ` dom L
     \<and> (\<forall>p n. L p = Some n \<longrightarrow> n \<le> sz h (p - HEADER))"

lemma owns_block:
  assumes "owns brk sane h L bs" and "L p = Some n"
  shows "p - HEADER \<in> used h bs" and "p - HEADER \<in> set bs" and "n \<le> sz h (p - HEADER)" and "p \<noteq> 0" and "p - HEADER + HEADER = p"
  using assms by (auto simp: owns_def used_def)

lemma owns_shaped: "owns brk sane h L bs \<Longrightarrow> shaped h bs (unat (brk (h_env h)))"
  by (simp add: owns_def good_def)

lemma owns_apart:
  assumes o: "owns brk sane h L bs" and "L p = Some m" and "L q = Some n" and "p \<noteq> q"
  shows "region p m \<inter> region q n = {}"
proof -
  have "p - HEADER \<noteq> q - HEADER" using assms(4) by simp
  then show ?thesis
    using payloads_apart [OF owns_shaped [OF o] owns_block(2) [OF o assms(2)] owns_block(2) [OF o assms(3)]]
      owns_block(3) [OF o assms(2)] owns_block(3) [OF o assms(3)] by simp
qed

lemma owns_below:
  assumes o: "owns brk sane h L bs" and "L p = Some n"
  shows "unat p + unat n \<le> unat (brk (h_env h))" and "unat p + unat n \<le> 2 ^ 32"
  using payload_region [OF owns_shaped [OF o] owns_block(2,3) [OF assms]] owns_block(5) [OF assms] by simp_all

text \<open>An operation that leaves the sizes alone leaves the client what it owns.\<close>

lemma owns_insert:
  assumes o: "owns brk sane h L bs" and g: "good brk sane h' bs'" and s: "same_sizes h h' (used h bs)"
    and q: "q \<noteq> 0" "used h' bs' = insert (q - HEADER) (used h bs)" "n \<le> sz h' (q - HEADER)" "q - HEADER \<notin> used h bs"
  shows "owns brk sane h' (L(q \<mapsto> n)) bs'" and "L q = None"
proof -
  show "L q = None" using q(4) owns_block(1) [OF o, of q] by (cases "L q") auto
  show "owns brk sane h' (L(q \<mapsto> n)) bs'"
    unfolding owns_def
  proof (intro conjI allI impI)
    show "good brk sane h' bs'" by (rule g)
    show "0 \<notin> dom (L(q \<mapsto> n))" "used h' bs' = (\<lambda>p. p - HEADER) ` dom (L(q \<mapsto> n))"
      using o q by (auto simp: owns_def)
    fix p m
    assume "(L(q \<mapsto> n)) p = Some m"
    then show "m \<le> sz h' (p - HEADER)"
      using owns_block(1,3) [OF o, of p m] q(3) s by (auto simp: same_sizes_def split: if_splits)
  qed
qed

lemma owns_same:
  assumes o: "owns brk sane h L bs" and g: "good brk sane h' bs'" and u: "used h' bs' = used h bs" and s: "same_sizes h h' (used h bs - A)"
    and A: "\<And>p n. L' p = Some n \<Longrightarrow> p - HEADER \<in> A \<Longrightarrow> n \<le> sz h' (p - HEADER)" and d: "dom L' = dom L"
    and out: "\<And>p. p - HEADER \<notin> A \<Longrightarrow> L' p = L p"
  shows "owns brk sane h' L' bs'"
  unfolding owns_def
proof (intro conjI allI impI)
  show "good brk sane h' bs'" by (rule g)
  show "0 \<notin> dom L'" "used h' bs' = (\<lambda>p. p - HEADER) ` dom L'" using o u d by (auto simp: owns_def)
  fix p n
  assume n: "L' p = Some n"
  show "n \<le> sz h' (p - HEADER)"
  proof (cases "p - HEADER \<in> A")
    case False
    then have "L p = Some n" using out n by simp
    then show ?thesis using owns_block(1,3) [OF o] s False by (simp add: same_sizes_def)
  qed (rule A [OF n])
qed

lemma owns_remove:
  assumes o: "owns brk sane h L bs" and p: "L p = Some n" and g: "good brk sane h' bs'"
    and u: "used h' bs' = used h bs - {p - HEADER}" and s: "same_sizes h h' (used h bs - {p - HEADER})"
  shows "owns brk sane h' (L(p := None)) bs'"
  unfolding owns_def
proof (intro conjI allI impI)
  show "good brk sane h' bs'" by (rule g)
  show "0 \<notin> dom (L(p := None))" "used h' bs' = (\<lambda>p. p - HEADER) ` dom (L(p := None))"
    using o u by (auto simp: owns_def)
  fix q m
  assume "(L(p := None)) q = Some m"
  then have "L q = Some m" "q \<noteq> p" by (auto split: if_splits)
  moreover from this have "q - HEADER \<in> used h bs - {p - HEADER}" using owns_block(1) [OF o] by auto
  ultimately show "m \<le> sz h' (q - HEADER)" using owns_block(3) [OF o] s by (auto simp: same_sizes_def)
qed

lemma free_owns:
  assumes o: "owns brk sane h L bs" and p: "L p = Some n"
  obtains bs' where "owns brk sane (heap_free p h) (L(p := None)) bs'" and "h_bytes (heap_free p h) = h_bytes h"
    and "h_env (heap_free p h) = h_env h"
    and "\<exists>c \<in> set bs'. av (heap_free p h) c \<and> sz h (p - HEADER) \<le> sz (heap_free p h) c"
proof -
  have b: "p - HEADER \<in> used h bs" "p - HEADER + HEADER \<noteq> 0" using owns_block [OF o p] by auto
  obtain bs' where f: "shaped (heap_free p h) bs' (unat (brk (h_env h)))" "used (heap_free p h) bs' = used h bs - {p - HEADER}"
      "\<And>c. c \<in> used h bs - {p - HEADER} \<Longrightarrow> sz (heap_free p h) c = sz h c" "h_env (heap_free p h) = h_env h"
      "h_bytes (heap_free p h) = h_bytes h"
      "\<exists>c \<in> set bs'. av (heap_free p h) c \<and> sz h (p - HEADER) \<le> sz (heap_free p h) c"
    using free_shaped [OF owns_shaped [OF o] b, unfolded owns_block(5) [OF o p]] by blast
  have "sane (h_env h)" using o by (simp add: owns_def good_def)
  then have g: "good brk sane (heap_free p h) bs'" using f(1,4) by (simp add: good_def)
  have "same_sizes h (heap_free p h) (used h bs - {p - HEADER})" using f(3) by (simp add: same_sizes_def)
  then have "owns brk sane (heap_free p h) (L(p := None)) bs'" by (rule owns_remove [OF o p g f(2)])
  then show thesis using that f by simp
qed

text \<open>What the client owns after a call of \<open>realloc\<close> with result \<open>q\<close>.\<close>

definition moved :: "client \<Rightarrow> addr \<Rightarrow> u32 \<Rightarrow> addr \<Rightarrow> client" where
  "moved L p n q = (if q \<noteq> 0 then L(p := None, q \<mapsto> n) else if n = 0 then L(p := None) else L)"

text \<open>The bytes of the other regions stay as they are, and those of the region itself go with it.\<close>

definition kept :: "client \<Rightarrow> addr \<Rightarrow> u32 \<Rightarrow> u32 \<Rightarrow> addr \<Rightarrow> 'e heap \<Rightarrow> 'e heap \<Rightarrow> bool" where
  "kept L p m n q h h' \<longleftrightarrow>
     (\<forall>r k. L r = Some k \<longrightarrow> r \<noteq> p \<or> q = 0 \<longrightarrow> (\<forall>a \<in> region r k. h_bytes h' a = h_bytes h a))
     \<and> (q \<noteq> 0 \<longrightarrow> (\<forall>i < min (unat m) (unat n). h_bytes h' (q + of_nat i) = h_bytes h (p + of_nat i)))"

lemma kept_same: "h_bytes h' = h_bytes h \<Longrightarrow> q = p \<or> q = 0 \<Longrightarrow> kept L p m n q h h'"
  by (auto simp: kept_def)

context break_provider
begin

lemma malloc_owns:
  assumes o: "owns brk sane h L bs"
  obtains p h' bs' where "malloc B n h = Some (p, h')" and "owns brk sane h' (if p = 0 then L else L(p \<mapsto> n)) bs'"
    and "h_bytes h' = h_bytes h" and "L p = None" and "same_sizes h h' (used h bs)"
proof -
  have "good brk sane h bs" using o by (simp add: owns_def)
  obtain p h' bs' where m: "malloc B n h = Some (p, h')" "good brk sane h' bs'"
      "h_bytes h' = h_bytes h" "same_sizes h h' (used h bs)" "p = 0 \<longrightarrow> used h' bs' = used h bs"
      "p \<noteq> 0 \<longrightarrow> p - HEADER \<notin> used h bs \<and> used h' bs' = insert (p - HEADER) (used h bs) \<and> n \<le> sz h' (p - HEADER)"
    by (rule malloc_ok [OF \<open>good brk sane h bs\<close>, where n = n]) blast
  have z: "L 0 = None" using o by (auto simp: owns_def)
  show thesis
  proof (cases "p = 0")
    case True
    have "owns brk sane h' L bs'"
      by (rule owns_same [OF o m(2) m(5) [rule_format, OF True], of "{}"]) (use m(4) in auto)
    then show thesis using that [OF m(1)] m(3,4) z True by simp
  next
    case False
    then have q: "used h' bs' = insert (p - HEADER) (used h bs)" "n \<le> sz h' (p - HEADER)" "p - HEADER \<notin> used h bs"
      using m(6) by simp_all
    note i = owns_insert [OF o m(2,4) False q]
    then show thesis using that [OF m(1)] m(3,4) False by simp
  qed
qed


lemma realloc_move_owns:
  assumes o: "owns brk sane h L bs" and p: "L p = Some m" and n: "sz h (p - HEADER) < n"
  obtains q h' bs' where "realloc_move B p n h = Some (q, h')" and "owns brk sane h' (moved L p n q) bs'"
    and "kept L p m n q h h'"
proof -
  let ?b = "p - HEADER"
  obtain q h1 bs1 where a: "malloc B n h = Some (q, h1)" "owns brk sane h1 (if q = 0 then L else L(q \<mapsto> n)) bs1"
      "h_bytes h1 = h_bytes h" "L q = None" "same_sizes h h1 (used h bs)"
    using malloc_owns [OF o, of n] by blast
  have z: "n \<noteq> 0" using n by auto
  show thesis
  proof (cases "q = 0")
    case True
    then have "realloc_move B p n h = Some (0, h1)" using a(1) by (simp add: realloc_move_def)
    then show thesis using that [of 0 h1 bs1] a(2) z True kept_same [OF a(3)] by (simp add: moved_def)
  next
    case False
    let ?s = "sz h ?b"
    have s1: "sz h1 ?b = ?s" using a(5) owns_block(1) [OF o p] by (simp add: same_sizes_def)
    have qp: "q \<noteq> p" using a(4) p by auto
    have o1: "owns brk sane h1 (L(q \<mapsto> n)) bs1" using a(2) False by simp
    let ?h2 = "copy_bytes q p ?s h1"
    have e: "realloc_move B p n h = Some (q, heap_free p ?h2)"
      using a(1) False s1 by (simp add: realloc_move_def)
    have o2: "owns brk sane ?h2 (L(q \<mapsto> n)) bs1"
    proof -
      have sh: "shaped ?h2 bs1 (unat (brk (h_env h1)))" "used ?h2 bs1 = used h1 bs1"
        using shaped_env [of ?h2 h1 bs1 "unat (brk (h_env h1))" "unat (brk (h_env h1))"] owns_shaped [OF o1]
          shapedD(3) [OF owns_shaped [OF o1]] by simp_all
      then have "good brk sane ?h2 bs1" using o1 by (simp add: owns_def good_def)
      then show ?thesis
        by (rule owns_same [OF o1 _ sh(2), of "{}"]) (auto simp: same_sizes_def)
    qed
    have p2: "(L(q \<mapsto> n)) p = Some m" using p qp by simp
    obtain bs' where f: "owns brk sane (heap_free p ?h2) ((L(q \<mapsto> n))(p := None)) bs'"
        "h_bytes (heap_free p ?h2) = h_bytes ?h2"
      using free_owns [OF o2 p2] by blast
    have q1: "(L(q \<mapsto> n)) q = Some n" by simp
    have below: "unat q + unat n \<le> 2 ^ 32" using owns_below(2) [OF o1 q1] .
    then have sq: "unat q + unat ?s \<le> 2 ^ 32" using n by (simp add: word_less_nat_alt)
    have sub: "region q ?s \<subseteq> region q n" using n by (auto simp: region_def word_less_nat_alt)
    have others: "h_bytes (heap_free p ?h2) x = h_bytes h x" if r: "L r = Some k" "x \<in> region r k" for r k x
    proof -
      have "r \<noteq> q" using a(4) r by auto
      then have "region r k \<inter> region q n = {}"
        using owns_apart [OF o1, of r k q n] r by simp
      then have "x \<notin> region q ?s" using r sub by auto
      then show ?thesis using copy_outside [OF _ sq, of x p h1] f(2) a(3) by simp
    qed
    have ms: "m \<le> ?s" using owns_block(3) [OF o p] .
    have copied: "h_bytes (heap_free p ?h2) (q + of_nat i) = h_bytes h (p + of_nat i)" if "i < unat m" for i
    proof -
      have pb: "p - HEADER \<in> set bs1" "q - HEADER \<in> set bs1" "p - HEADER \<noteq> q - HEADER"
        using owns_block(2) [OF o1 p2] owns_block(2) [OF o1 q1] qp by auto
      have "?s \<le> sz h1 (q - HEADER)" using owns_block(3) [OF o1 q1] n by simp
      then have d: "region q ?s \<inter> region p ?s = {}"
        using payloads_apart [OF owns_shaped [OF o1] pb(2,1) pb(3) [symmetric], of ?s ?s] s1
          owns_block(5) [OF o1 p2] owns_block(5) [OF o1 q1] by simp
      have "unat p + unat ?s \<le> 2 ^ 32"
        using payload_region(2) [OF owns_shaped [OF o1] pb(1), of ?s] s1 owns_block(5) [OF o1 p2] by simp
      moreover have "i < unat ?s" using that ms by (simp add: word_le_nat_alt)
      ultimately show ?thesis using copy_inside [OF _ sq _ d, of i h1] f(2) a(3) by simp
    qed
    have "kept L p m n q h (heap_free p ?h2)"
      using others copied False by (auto simp: kept_def)
    moreover have "owns brk sane (heap_free p ?h2) (moved L p n q) bs'"
      using f(1) False qp by (simp add: moved_def fun_upd_twist)
    ultimately show thesis using that [OF e] by blast
  qed
qed

text \<open>A result in place: the block is still in use and large enough.\<close>

lemma in_place:
  assumes o: "owns brk sane h L bs" and p: "L p = Some m" and g: "good brk sane h' bs'" and u: "used h' bs' = used h bs"
    and s: "same_sizes h h' (used h bs - {p - HEADER})" and le: "n \<le> sz h' (p - HEADER)" and b: "h_bytes h' = h_bytes h"
  shows "owns brk sane h' (moved L p n p) bs'" and "kept L p m n p h h'"
proof -
  have "owns brk sane h' (L(p \<mapsto> n)) bs'"
    by (rule owns_same [OF o g u s]) (use p le in \<open>auto split: if_splits\<close>)
  then show "owns brk sane h' (moved L p n p) bs'" using owns_block(4) [OF o p] by (simp add: moved_def)
  show "kept L p m n p h h'" using kept_same [OF b] by simp
qed

lemma realloc_last_owns:
  assumes o: "owns brk sane h L bs" and p: "L p = Some m" and big: "sz h (p - HEADER) < n" and le: "n \<le> LARGEST"
    and last: "nx h (p - HEADER) = 0"
  shows "\<exists>q h' bs'. realloc_last B p n h = Some (q, h') \<and> owns brk sane h' (moved L p n q) bs' \<and> kept L p m n q h h'"
proof -
  let ?b = "p - HEADER" and ?s = "round8 n"
  have ns: "n \<le> ?s" using unat_round8(1) [OF le] by (simp add: word_le_nat_alt [symmetric])
  have sane: "sane (h_env h)" using o by (simp add: owns_def good_def)
  note sh = owns_shaped [OF o] and own = owns_block [OF o p]
  obtain top h1 where q: "heap_break B 0 False h = (top, h1)" by (cases "heap_break B 0 False h")
  obtain r h2 where e: "heap_break B (?s - sz h ?b) True h1 = (r, h2)" by (cases "heap_break B (?s - sz h ?b) True h1")
  note hq = heap_break_query [OF sane q]
  have sane1: "sane (h_env h1)" using sane hq(6) by simp
  note hg = heap_break_grow [OF sane1 e]
  have env: "shaped g bs (unat (brk (h_env g)))" "used g bs = used h bs" "sz g c = sz h c" "nx g = nx h"
      "h_bytes g = h_bytes h" "sane (h_env g)"
    if "g = h1 \<or> g = h2" for g c
  proof -
    have f: "blk g = blk h" "h_tail g = h_tail h" "h_bins g = h_bins h" "unat (brk (h_env h)) \<le> unat (brk (h_env g))"
      using that hq hg by (auto simp: word_le_nat_alt)
    show "shaped g bs (unat (brk (h_env g)))" "used g bs = used h bs"
      using shaped_env [OF f(1-3) sh f(4)] unat32_less by auto
    show "sz g c = sz h c" "nx g = nx h" using f(1) by (auto simp: nx_def)
    show "h_bytes g = h_bytes h" "sane (h_env g)" using that hq hg sane1 by auto
  qed
  have move: "\<exists>q h' bs'. realloc_move B p n g = Some (q, h') \<and> owns brk sane h' (moved L p n q) bs' \<and> kept L p m n q h h'"
    if g: "g = h1 \<or> g = h2" for g
  proof -
    have "good brk sane g bs" using env [OF g] by (simp add: good_def)
    then have "owns brk sane g L bs"
      by (rule owns_same [OF o _ env(2) [OF g], of "{}"]) (auto simp: same_sizes_def env(3) [OF g])
    moreover have "sz g ?b < n" using big env(3) [OF g] by simp
    ultimately obtain q h' bs' where "realloc_move B p n g = Some (q, h')" "owns brk sane h' (moved L p n q) bs'" "kept L p m n q g h'"
      using realloc_move_owns p by blast
    then show ?thesis using env(5) [OF g] by (auto simp: kept_def)
  qed
  show ?thesis
  proof (cases "top = ?b + HEADER + sz h ?b \<and> r \<noteq> 0")
    case False
    then have "realloc_last B p n h = realloc_move B p n (if top = ?b + HEADER + sz h ?b then h2 else h1)"
      using q e hq(2) by (auto simp: realloc_last_def Let_def)
    then show ?thesis using move by simp
  next
    case True
    let ?h = "upd ?b (\<lambda>x. x\<lparr>b_size := ?s\<rparr>) h2"
    have eq: "realloc_last B p n h = Some (p, ?h)" using q e hq(2) True by (auto simp: realloc_last_def Let_def)
    have le': "sz h ?b \<le> ?s" using big ns by simp
    have "unat (brk (h_env h2)) = unat (brk (h_env h)) + unat (?s - sz h ?b)" using hg(8) True hq(6) by simp
    moreover have "unat (?s - sz h ?b) = unat ?s - unat (sz h ?b)" using le' by (simp add: unat_sub)
    moreover have "unat (brk (h_env h)) = unat ?b + 24 + unat (sz h ?b)"
      using True hq(1) block_end [OF shapedD(2,3) [OF sh] own(2)] by simp
    ultimately have top2: "unat (brk (h_env h2)) = unat ?b + 24 + unat ?s" using le' by (simp add: word_le_nat_alt)
    have h2: "?b \<in> used h2 bs" "nx h2 ?b = 0" "sz h2 ?b \<le> ?s"
      using own(1) env(2-4) [of h2] last le' by simp_all
    have hi: "unat ?b + 24 + unat ?s \<le> unat (brk (h_env h2))" "unat (brk (h_env h2)) < 2 ^ 32"
      using top2 unat32_less [of "brk (h_env h2)"] by simp_all
    have sh2: "shaped h2 bs (unat (brk (h_env h2)))" using env(1) by simp
    note gl = grow_last [OF sh2 h2 hi order.refl]
    have "good brk sane ?h bs" using gl(1) env(6) [of h2] by (simp add: good_def)
    moreover have "used ?h bs = used h bs" "same_sizes h ?h (used h bs - {?b})"
      using gl(2,3) env(2,3) [of h2] by (auto simp: same_sizes_def)
    ultimately show ?thesis
      using in_place [OF o p, of ?h bs n] gl(4) ns env(5) [of h2] eq by auto
  qed
qed

lemma realloc_grow_owns:
  assumes o: "owns brk sane h L bs" and p: "L p = Some m" and big: "sz h (p - HEADER) < n" and le: "n \<le> LARGEST"
  shows "\<exists>q h' bs'. realloc_grow B p n h = Some (q, h') \<and> owns brk sane h' (moved L p n q) bs' \<and> kept L p m n q h h'"
proof -
  let ?b = "p - HEADER" and ?s = "round8 n" and ?x = "nx h (p - HEADER)"
  have ns: "n \<le> ?s" using unat_round8(1) [OF le] by (simp add: word_le_nat_alt [symmetric])
  have sane: "sane (h_env h)" using o by (simp add: owns_def good_def)
  show ?thesis
  proof (cases "?x \<noteq> 0 \<and> av h ?x \<and> adjacent h ?b ?x \<and> ?s \<le> sz h ?b + HEADER + sz h ?x")
    case True
    let ?h = "split_block ?b ?s (join_next ?b (remove_free ?x h))"
    have e: "realloc_grow B p n h = Some (p, ?h)" using True by (simp add: realloc_grow_def Let_def nx_def)
    obtain bs' where g: "shaped ?h bs' (unat (brk (h_env h)))" "used ?h bs' = used h bs"
        "same_sizes h ?h (used h bs - {?b})" "?s \<le> sz ?h ?b" "h_env ?h = h_env h" "h_bytes ?h = h_bytes h"
      using grow_into_next [OF owns_shaped [OF o] owns_block(1) [OF o p], of ?s] True by blast
    have "good brk sane ?h bs'" using g(1,5) sane by (simp add: good_def)
    moreover have "n \<le> sz ?h ?b" using g(4) ns by simp
    ultimately show ?thesis using in_place [OF o p _ g(2,3) _ g(6)] e by blast
  next
    case False
    then have "realloc_grow B p n h = (if ?x = 0 then realloc_last B p n h else realloc_move B p n h)"
      by (auto simp: realloc_grow_def Let_def nx_def)
    moreover have "\<exists>q h' bs'. realloc_move B p n h = Some (q, h') \<and> owns brk sane h' (moved L p n q) bs' \<and> kept L p m n q h h'"
      using realloc_move_owns [OF o p big] by blast
    ultimately show ?thesis using realloc_last_owns [OF o p big le] by (cases "?x = 0") simp_all
  qed
qed

lemma realloc_owns:
  assumes o: "owns brk sane h L bs" and p: "L p = Some m"
  shows "\<exists>q h' bs'. realloc B p n h = Some (q, h') \<and> owns brk sane h' (moved L p n q) bs' \<and> kept L p m n q h h'"
proof -
  let ?b = "p - HEADER"
  have p0: "p \<noteq> 0" using owns_block(4) [OF o p] .
  have g: "good brk sane h bs" using o by (simp add: owns_def)
  consider "n = 0" | "n \<noteq> 0" "n \<le> sz h ?b" | "n \<noteq> 0" "\<not> n \<le> sz h ?b" "n > LARGEST" | "n \<noteq> 0" "sz h ?b < n" "n \<le> LARGEST"
    by fastforce
  then show ?thesis
  proof cases
    case 1
    obtain bs' where f: "owns brk sane (heap_free p h) (L(p := None)) bs'" "h_bytes (heap_free p h) = h_bytes h"
      using free_owns [OF o p] by blast
    then show ?thesis using 1 p0 kept_same [OF f(2), of 0] by (auto simp: realloc_def moved_def)
  next
    case 2
    then have "realloc B p n h = Some (p, h)" using p0 by (simp add: realloc_def)
    then show ?thesis using in_place [OF o p g refl, of n] 2 by (auto simp: same_sizes_def)
  next
    case 3
    then have "realloc B p n h = Some (0, h)" using p0 by (simp add: realloc_def)
    then show ?thesis using o 3 kept_same [of h h 0] by (auto simp: moved_def)
  next
    case 4
    then have "realloc B p n h = realloc_grow B p n h" using p0 by (auto simp: realloc_def)
    then show ?thesis using realloc_grow_owns [OF o p 4(2,3)] by simp
  qed
qed

end

end
