(* ===== verification/Heap_Steps.thy ===== *)
theory Heap_Steps
  imports Heap_Client
begin

text \<open>
  Programs over the heap of \<^verbatim>\<open>user/native/heap.c\<close>: the steps a program takes, and what it owns after any number of
  them, for every system call that moves the break as \<open>break_provider\<close> says.
\<close>

section \<open>The steps of a program\<close>

definition init_heap :: "(addr \<Rightarrow> block) \<Rightarrow> (addr \<Rightarrow> u8) \<Rightarrow> 'e \<Rightarrow> 'e heap" where
  "init_heap m d e =
     \<lparr>blk = m, h_tail = 0, h_bins = replicate 32 0, h_origin = 0, h_peak = 0, h_bytes = d, h_env = e\<rparr>"

text \<open>
  A program calls the heap, stores into its regions, moves the break up, and lets the system run. After a failed
  \<open>realloc\<close> the region stays as it was.
\<close>

inductive heap_step ::
    "'e breaker \<Rightarrow> ('e \<Rightarrow> u32) \<Rightarrow> ('e \<Rightarrow> bool) \<Rightarrow> 'e heap \<times> client \<Rightarrow> 'e heap \<times> client \<Rightarrow> bool"
  for B brk sane where
  Malloc: "malloc B n h = Some (p, h') \<Longrightarrow> heap_step B brk sane (h, L) (h', if p = 0 then L else L(p \<mapsto> n))"
| Calloc: "calloc B c s h = Some (p, h') \<Longrightarrow> heap_step B brk sane (h, L) (h', if p = 0 then L else L(p \<mapsto> c * s))"
| Free: "p = 0 \<or> p \<in> dom L \<Longrightarrow> heap_step B brk sane (h, L) (heap_free p h, L(p := None))"
| Realloc: "p \<in> dom L \<Longrightarrow> realloc B p n h = Some (q, h') \<Longrightarrow> heap_step B brk sane (h, L) (h', moved L p n q)"
| Store: "L p = Some n \<Longrightarrow> a \<in> region p n \<Longrightarrow> heap_step B brk sane (h, L) (h\<lparr>h_bytes := (h_bytes h)(a := v)\<rparr>, L)"
| Break: "B a (h_env h) = (r, e) \<Longrightarrow> brk (h_env h) \<le> brk e \<Longrightarrow> heap_step B brk sane (h, L) (h\<lparr>h_env := e\<rparr>, L)"
| System: "sane e \<Longrightarrow> brk e = brk (h_env h) \<Longrightarrow> heap_step B brk sane (h, L) (h\<lparr>h_env := e\<rparr>, L)"

definition heap_runs ::
    "'e breaker \<Rightarrow> ('e \<Rightarrow> u32) \<Rightarrow> ('e \<Rightarrow> bool) \<Rightarrow> 'e heap \<Rightarrow> client \<Rightarrow> bool" where
  "heap_runs B brk sane h L \<longleftrightarrow>
     (\<exists>m d e. sane e \<and> (heap_step B brk sane)\<^sup>*\<^sup>* (init_heap m d e, Map.empty) (h, L))"

lemma init_owns: "sane e \<Longrightarrow> 0 < unat (brk e) \<Longrightarrow> owns brk sane (init_heap m d e) Map.empty []"
  using unat32_less [of "brk e"]
  by (simp add: owns_def good_def shaped_def chained_def binned_def used_def init_heap_def)
     (intro exI [of _ "\<lambda>_. []"], simp)

lemma owns_env:
  assumes o: "owns brk sane h L bs" and "sane e" and "brk (h_env h) \<le> brk e"
  shows "owns brk sane (h\<lparr>h_env := e, h_bytes := d\<rparr>) L bs"
proof -
  let ?h = "h\<lparr>h_env := e, h_bytes := d\<rparr>"
  have s: "shaped ?h bs (unat (brk e))" "used ?h bs = used h bs"
    using shaped_env [of ?h h, OF _ _ _ owns_shaped [OF o], of "unat (brk e)"] assms(3) unat32_less [of "brk e"]
    by (simp_all add: word_le_nat_alt)
  then have "good brk sane ?h bs" using assms(2) by (simp add: good_def)
  then show ?thesis by (rule owns_same [OF o _ s(2), of "{}"]) (auto simp: same_sizes_def)
qed

context break_provider
begin

lemma calloc_owns:
  assumes o: "owns brk sane h L bs"
  shows "\<exists>p h' bs'. calloc B c s h = Some (p, h') \<and> owns brk sane h' (if p = 0 then L else L(p \<mapsto> c * s)) bs'
    \<and> (\<forall>q k. L q = Some k \<longrightarrow> (\<forall>a \<in> region q k. h_bytes h' a = h_bytes h a))
    \<and> (p \<noteq> 0 \<longrightarrow> unat (c * s) = unat c * unat s \<and> (\<forall>i < unat (c * s). h_bytes h' (p + of_nat i) = 0))"
proof (cases "s \<noteq> 0 \<and> c > - 1 div s")
  case True
  then show ?thesis using o by (auto simp: calloc_def)
next
  case False
  obtain p h1 bs1 where m: "malloc B (c * s) h = Some (p, h1)" "owns brk sane h1 (if p = 0 then L else L(p \<mapsto> c * s)) bs1"
      "h_bytes h1 = h_bytes h" "L p = None"
    using malloc_owns [OF o] by metis
  show ?thesis
  proof (cases "p = 0")
    case True
    then have "calloc B c s h = Some (0, h1)" using m(1) False by (auto simp: calloc_def)
    then show ?thesis using m(2,3) True by (auto intro!: exI [of _ bs1])
  next
    case p0: False
    let ?h = "zero_bytes p (c * s) h1"
    have e: "calloc B c s h = Some (p, ?h)" using m(1) False p0 by (simp add: calloc_def)
    have o1: "owns brk sane h1 (L(p \<mapsto> c * s)) bs1" using m(2) p0 by simp
    have below: "unat p + unat (c * s) \<le> 2 ^ 32" using owns_below(2) [OF o1] by simp
    have "owns brk sane ?h (L(p \<mapsto> c * s)) bs1"
      using owns_env [OF o1, of "h_env h1" "h_bytes ?h"] o1 by (simp add: owns_def good_def zero_bytes_def)
    moreover have "h_bytes ?h a = h_bytes h a" if "L q = Some k" "a \<in> region q k" for q k a
    proof -
      have "q \<noteq> p" using that m(4) by auto
      then have "region q k \<inter> region p (c * s) = {}" using owns_apart [OF o1, of q k p "c * s"] that by simp
      then show ?thesis using zero_outside [OF _ below, of a h1] that m(3) by auto
    qed
    moreover have "unat (c * s) = unat c * unat s"
    proof (cases "s = 0")
      case s0: False
      have m1: "unat (- 1 :: u32) = 4294967295" by (simp add: unsigned_minus_1_eq_mask mask_eq_exp_minus_1)
      have "unat c \<le> 4294967295 div unat s"
        using False s0 m1 by (simp add: word_less_nat_alt unat_div not_less)
      then have "unat c * unat s \<le> 4294967295"
        by (metis div_times_less_eq_dividend le_trans mult_le_mono1)
      then show ?thesis by (simp add: unat_word_ariths)
    qed simp
    moreover have "h_bytes ?h (p + of_nat i) = 0" if "i < unat (c * s)" for i
      using zero_inside [OF that below] .
    ultimately show ?thesis using e p0 by auto
  qed
qed

lemma step_owns:
  assumes "heap_step B brk sane (h, L) (h', L')" and o: "owns brk sane h L bs"
  shows "\<exists>bs'. owns brk sane h' L' bs'"
  using assms(1)
proof cases
  case (Malloc n p)
  obtain q g bs' where "malloc B n h = Some (q, g)" "owns brk sane g (if q = 0 then L else L(q \<mapsto> n)) bs'"
    using malloc_owns [OF o, where n = n] by blast
  then show ?thesis using Malloc by auto
next
  case (Calloc c s p)
  then show ?thesis using calloc_owns [OF o, of c s] by auto
next
  case (Free p)
  show ?thesis
  proof (cases "p = 0")
    case True
    then have "h' = h" "L' = L" using Free o by (auto simp: heap_free_def owns_def fun_upd_idem)
    then show ?thesis using o by blast
  next
    case False
    then obtain n where "L p = Some n" using Free by auto
    then show ?thesis using free_owns [OF o] Free by metis
  qed
next
  case (Realloc p n q)
  then obtain m where "L p = Some m" by auto
  then show ?thesis using realloc_owns [OF o, of p m n] Realloc by auto
next
  case (Store p n a v)
  then show ?thesis
    using owns_env [OF o, of "h_env h"] o by (auto simp: owns_def good_def intro!: exI [of _ bs])
next
  case (Break a r e)
  have "sane (h_env h)" using o by (simp add: owns_def good_def)
  then have "sane e" using move Break by blast
  then show ?thesis using owns_env [OF o, of e "h_bytes h"] Break by auto
next
  case (System e)
  then show ?thesis using owns_env [OF o, of e "h_bytes h"] by auto
qed

lemma runs_owns:
  assumes "heap_runs B brk sane h L" and "\<And>e. sane e \<Longrightarrow> brk e \<noteq> 0"
  shows "\<exists>bs. owns brk sane h L bs"
proof -
  obtain m d e where e: "sane e" "(heap_step B brk sane)\<^sup>*\<^sup>* (init_heap m d e, Map.empty) (h, L)"
    using assms(1) by (auto simp: heap_runs_def)
  have "owns brk sane (init_heap m d e) Map.empty []"
    using init_owns e(1) assms(2) [OF e(1)] by (simp add: unat_gt_0)
  with e(2) show ?thesis
  proof (induction rule: rtranclp_induct2)
    case (step h L h' L')
    then show ?case using step_owns by blast
  qed blast
qed

end

end
