(* ===== verification/Heap_Kernel.thy ===== *)
theory Heap_Kernel
  imports Heap_Steps Process_Memory
begin

text \<open>
  The heap of \<^verbatim>\<open>user/native/heap.c\<close> on the kernel: the contract \<open>break_provider\<close> is discharged for the model of
  \<^verbatim>\<open>sys_brk\<close>, and the properties of the heap are stated for programs that run on it.
\<close>

text \<open>\<^verbatim>\<open>sp_brk\<close> of \<^verbatim>\<open>user/lib/libc.c\<close>: system call 45, its result read as an unsigned word.\<close>

definition sp_brk :: "u32 \<Rightarrow> 'v kern \<Rightarrow> u32 \<times> 'v kern" where
  "sp_brk a k = (let (r, k') = sys_brk a k in (word_of_int r, k'))"

definition break_of :: "'v kern \<Rightarrow> u32" where "break_of k = p_brk (current k)"

definition break_ok :: "'v kern \<Rightarrow> bool" where
  "break_ok k \<longleftrightarrow> 0 < p_end_data (current k) \<and> p_end_data (current k) \<le> p_brk (current k)"

lemma set_current [simp]: "set_proc (active k) (current k) k = k"
  by (simp add: set_proc_def)

interpretation kb: break_provider sp_brk break_of break_ok
proof
  show "sp_brk 0 k = (break_of k, k)" if "break_ok k" for k :: "'v kern"
    using that by (auto simp: sp_brk_def sys_brk_def break_of_def break_ok_def Let_def)
  show "break_ok k' \<and> r = break_of k' \<and> (r = a \<or> k' = k)" if "break_ok k" "sp_brk a k = (r, k')" for k k' :: "'v kern" and a r
    using that by (auto simp: sp_brk_def sys_brk_def break_of_def break_ok_def Let_def set_proc_def split: if_splits)
qed

lemma kernel_owns:
  "heap_runs sp_brk break_of break_ok h L \<Longrightarrow> \<exists>bs. owns break_of break_ok h L bs"
  by (rule kb.runs_owns) (auto simp: break_of_def break_ok_def)

text \<open>A block with its header, as addresses.\<close>

lemma owned_span:
  assumes o: "owns brk sane h L bs" and p: "L p = Some n"
  shows "unat p = unat (p - HEADER) + 24" and "unat (p - HEADER) + 24 + unat n \<le> unat (p - HEADER) + 24 + unat (sz h (p - HEADER))"
  using payload(1) [OF owns_shaped [OF o] owns_block(2) [OF o p]] owns_block(3,5) [OF o p] by (simp_all add: word_le_nat_alt)

text \<open>C5: However a program calls \<open>malloc\<close>, \<open>calloc\<close>, \<open>realloc\<close> and \<open>free\<close>, stores into what it owns and moves
  the break up, two regions it owns share no byte, and neither shares one with the header before the other; each ends at or
  below the program break.\<close>

theorem heap_regions_apart:
  assumes "heap_runs sp_brk break_of break_ok h L" and "L p = Some m" and "L q = Some n" and "p \<noteq> q"
  shows "(unat p + unat m + unat HEADER \<le> unat q \<or> unat q + unat n + unat HEADER \<le> unat p)
     \<and> unat HEADER \<le> unat p \<and> unat p + unat m \<le> unat (break_of (h_env h))"
proof -
  obtain bs where o: "owns break_of break_ok h L bs" using kernel_owns [OF assms(1)] ..
  have ne: "p - HEADER \<noteq> q - HEADER" using assms(4) by simp
  have "unat (p - HEADER) + 24 + unat (sz h (p - HEADER)) \<le> unat (q - HEADER)
      \<or> unat (q - HEADER) + 24 + unat (sz h (q - HEADER)) \<le> unat (p - HEADER)"
    by (rule laid_apart [OF shapedD(2) [OF owns_shaped [OF o]] owns_block(2) [OF o assms(2)] owns_block(2) [OF o assms(3)] ne])
  then have "unat p + unat m + 24 \<le> unat q \<or> unat q + unat n + 24 \<le> unat p"
    using owned_span [OF o assms(2)] owned_span [OF o assms(3)] by linarith
  moreover have "24 \<le> unat p" using owned_span(1) [OF o assms(2)] by simp
  moreover have "unat p + unat m \<le> unat (break_of (h_env h))" by (rule owns_below(1) [OF o assms(2)])
  moreover have "unat HEADER = 24" by (simp add: HEADER_def)
  ultimately show ?thesis by simp
qed

text \<open>A program on the kernel that asks for ten bytes and then for twenty.\<close>

definition demo_heap :: "unit kern heap" where
  "demo_heap = init_heap (\<lambda>_. \<lparr>b_size = 0, b_available = False, b_next = 0, b_prev = 0, b_free_next = 0, b_free_prev = 0\<rparr>) (\<lambda>_. 0) demo_kern"

definition demo_first :: "addr \<times> unit kern heap" where "demo_first = the (malloc sp_brk 10 demo_heap)"
definition demo_second :: "addr \<times> unit kern heap" where "demo_second = the (malloc sp_brk 20 (snd demo_first))"

lemma demo_calls:
  "malloc sp_brk 10 demo_heap = Some (0x210018, snd demo_first)"
  "malloc sp_brk 20 (snd demo_first) = Some (0x210040, snd demo_second)"
proof -
  have "map_option fst (malloc sp_brk 10 demo_heap) = Some 0x210018"
    "map_option fst (malloc sp_brk 20 (snd demo_first)) = Some 0x210040" by code_simp+
  then show "malloc sp_brk 10 demo_heap = Some (0x210018, snd demo_first)"
    "malloc sp_brk 20 (snd demo_first) = Some (0x210040, snd demo_second)"
    by (auto simp: demo_first_def demo_second_def)
qed

lemma demo_runs: "heap_runs sp_brk break_of break_ok (snd demo_second) [0x210018 \<mapsto> 10, 0x210040 \<mapsto> 20]"
proof -
  have "heap_step sp_brk break_of break_ok (demo_heap, Map.empty) (snd demo_first, [0x210018 \<mapsto> 10])"
    using Malloc [OF demo_calls(1), of break_of break_ok Map.empty] by simp
  moreover have "heap_step sp_brk break_of break_ok (snd demo_first, [0x210018 \<mapsto> 10]) (snd demo_second, [0x210018 \<mapsto> 10, 0x210040 \<mapsto> 20])"
    using Malloc [OF demo_calls(2), of break_of break_ok "[0x210018 \<mapsto> 10]"] by simp
  moreover have "break_ok demo_kern" by code_simp
  ultimately show ?thesis
    unfolding heap_runs_def demo_heap_def by (meson rtranclp.rtrancl_into_rtrancl rtranclp.rtrancl_refl)
qed

theorem heap_regions_apart_witness:
  "(unat (0x210018 :: addr) + 10 + unat HEADER \<le> unat (0x210040 :: addr))
    \<and> unat (0x210040 :: addr) + 20 \<le> unat (break_of (h_env (snd demo_second)))"
  using heap_regions_apart [OF demo_runs, where p = "0x210018" and m = 10 and q = "0x210040" and n = 20]
    heap_regions_apart [OF demo_runs, where p = "0x210040" and m = 20 and q = "0x210018" and n = 10]
  by (simp add: HEADER_def)

text \<open>C9: \<open>realloc\<close> always returns: the pointer it returns is owned with the new size and no other region is given up, the
  bytes of every other region are as they were, those of the region itself come along up to the smaller of the two sizes, and when
  the result is 0 they stay where they are.\<close>

theorem realloc_returns:
  assumes "heap_runs sp_brk break_of break_ok h L" and "L p = Some m"
  shows "\<exists>q h'. realloc sp_brk p n h = Some (q, h')
     \<and> heap_runs sp_brk break_of break_ok h' (if q \<noteq> 0 then L(p := None, q \<mapsto> n) else if n = 0 then L(p := None) else L)
     \<and> (\<forall>r k. L r = Some k \<longrightarrow> r \<noteq> p \<or> q = 0 \<longrightarrow> (\<forall>a \<in> region r k. h_bytes h' a = h_bytes h a))
     \<and> (q \<noteq> 0 \<longrightarrow> (\<forall>i < min (unat m) (unat n). h_bytes h' (q + of_nat i) = h_bytes h (p + of_nat i)))"
proof -
  obtain bs where o: "owns break_of break_ok h L bs" using kernel_owns [OF assms(1)] ..
  obtain q h' where r: "realloc sp_brk p n h = Some (q, h')" "kept L p m n q h h'"
    using kb.realloc_owns [OF o assms(2), of n] by blast
  have "heap_step sp_brk break_of break_ok (h, L) (h', moved L p n q)"
    using Realloc r(1) assms(2) by blast
  then have "heap_runs sp_brk break_of break_ok h' (moved L p n q)"
    using assms(1) unfolding heap_runs_def by (meson rtranclp.rtrancl_into_rtrancl)
  then show ?thesis using r by (auto simp: kept_def moved_def)
qed

theorem realloc_returns_witness:
  "\<exists>q h'. realloc sp_brk 0x210018 100 (snd demo_second) = Some (q, h')
     \<and> (q \<noteq> 0 \<longrightarrow> (\<forall>i < 10. h_bytes h' (q + of_nat i) = h_bytes (snd demo_second) (0x210018 + of_nat i)))"
  using realloc_returns [OF demo_runs, where p = "0x210018" and m = 10 and n = 100] by auto

text \<open>C20: Freed memory is found again: after \<open>free\<close> of a region, \<open>malloc\<close> of any size up to that of its block returns a
  pointer that the program does not own, and leaves the kernel, and so the break, alone.\<close>

theorem free_then_malloc:
  assumes "heap_runs sp_brk break_of break_ok h L" and "L p = Some m"
    and "0 < n" and "n \<le> LARGEST" and "round8 n \<le> b_size (blk h (p - HEADER))"
  shows "\<exists>q h'. malloc sp_brk n (heap_free p h) = Some (q, h') \<and> q \<noteq> 0 \<and> (q = p \<or> L q = None)
     \<and> h_env h' = h_env h \<and> h_bytes h' = h_bytes h"
proof -
  obtain bs where o: "owns break_of break_ok h L bs" using kernel_owns [OF assms(1)] ..
  let ?g = "heap_free p h"
  obtain cs where f: "owns break_of break_ok ?g (L(p := None)) cs" "h_bytes ?g = h_bytes h" "h_env ?g = h_env h"
      "\<exists>c \<in> set cs. av ?g c \<and> sz h (p - HEADER) \<le> sz ?g c"
    using free_owns [OF o assms(2)] by blast
  have g: "good break_of break_ok ?g cs" using f(1) by (simp add: owns_def)
  have n: "at_least n = n" using assms(3) by (auto simp: at_least_def)
  have fit: "\<exists>c \<in> set cs. av ?g c \<and> round8 n \<le> sz ?g c" using f(4) assms(5) by fastforce
  obtain q h' bs' where m: "malloc sp_brk n ?g = Some (q, h')" "h_bytes h' = h_bytes ?g"
      "q \<noteq> 0 \<longrightarrow> q - HEADER \<notin> used ?g cs \<and> used h' bs' = insert (q - HEADER) (used ?g cs) \<and> n \<le> sz h' (q - HEADER)"
      "q = 0 \<longrightarrow> at_least n > LARGEST \<or> (\<forall>c \<in> set cs. av ?g c \<longrightarrow> sz ?g c < round8 (at_least n))"
      "at_least n \<le> LARGEST \<and> (\<exists>c \<in> set cs. av ?g c \<and> round8 (at_least n) \<le> sz ?g c) \<longrightarrow> h_env h' = h_env ?g"
    by (rule kb.malloc_ok [OF g, where n = n]) blast
  have "q \<noteq> 0" using m(4) fit assms(4) n by auto
  moreover have "(L(p := None)) q = None"
    using m(3) \<open>q \<noteq> 0\<close> owns_block(1) [OF f(1), of q] by (cases "(L(p := None)) q") auto
  then have "q = p \<or> L q = None" by (auto split: if_splits)
  moreover have "h_env h' = h_env h" using m(5) fit assms(4) n f(3) by simp
  ultimately show ?thesis using m(1,2) f(2) by auto
qed

theorem free_then_malloc_witness:
  "\<exists>q h'. malloc sp_brk 9 (heap_free 0x210018 (snd demo_second)) = Some (q, h') \<and> q \<noteq> 0
     \<and> (q = 0x210018 \<or> [0x210018 \<mapsto> 10, 0x210040 \<mapsto> (20 :: u32)] q = None)
     \<and> h_env h' = h_env (snd demo_second) \<and> h_bytes h' = h_bytes (snd demo_second)"
proof (rule free_then_malloc [OF demo_runs])
  show "round8 9 \<le> b_size (blk (snd demo_second) (0x210018 - HEADER))" by code_simp
qed (simp_all add: LARGEST_def HEADER_def word_le_nat_alt)

end
