(* ===== verification/Minix.thy ===== *)
theory Minix
  imports Prelude "HOL-Library.Signed_Division" "HOL-Library.Monad_Syntax"
begin

text \<open>
  Files on a disk of the ported kernel: the records of the disk (\<^verbatim>\<open>fs/minix_disk.c\<close>), the zone bitmap (\<^verbatim>\<open>fs/bitmap.c\<close>), the
  zones of an inode (\<^verbatim>\<open>_bmap\<close> of \<^verbatim>\<open>fs/inode.c\<close>), reading and writing of files (\<^verbatim>\<open>fs/file_dev.c\<close>) and \<^verbatim>\<open>fs/truncate.c\<close>.

  One device. The buffer cache is the map \<open>blocks\<close> from block numbers to their 1024 bytes; \<^verbatim>\<open>bread\<close> of a block gives its
  buffer, or NULL when \<open>dev_reads\<close> says that the block cannot be read, and \<^verbatim>\<open>getblk\<close> gives one where \<open>dev_gets\<close> says so.
  \<open>None\<close> is a panic. An \<^verbatim>\<open>int\<close> is an integer; values of 16 and 32 bits that are stored are words.
\<close>

section \<open>Records\<close>

record super_block =
  s_ninodes :: u16
  s_nzones :: u16
  s_imap_blocks :: u16
  s_zmap_blocks :: u16
  s_firstdatazone :: u16
  s_log_zone_size :: u16
  s_max_size :: u32
  s_magic :: u16

record m_inode =
  i_mode :: u16
  i_uid :: u16
  i_size :: u32
  i_mtime :: u32
  i_gid :: u8
  i_nlinks :: u8
  i_zone :: "u16 list"
  i_atime :: u32
  i_ctime :: u32
  i_dirt :: bool

record device =
  dev_reads :: "int \<Rightarrow> bool"
  dev_gets :: "int \<Rightarrow> bool"

record minix =
  get_super :: "super_block option"
  zmap :: "nat \<Rightarrow> (nat \<Rightarrow> u8) option"
  blocks :: "int \<Rightarrow> nat \<Rightarrow> u8"
  current_time :: u32

definition BLOCK_SIZE :: int where "BLOCK_SIZE = 1024"

section \<open>Disk records\<close>

text \<open>Records are lists of bytes; the numbers in them are big-endian.\<close>

definition disk16 :: "u8 list \<Rightarrow> nat \<Rightarrow> u16" where "disk16 p k = be_word16 (p ! k) (p ! (k + 1))"

definition disk32 :: "u8 list \<Rightarrow> nat \<Rightarrow> u32" where
  "disk32 p k = be_word32 (p ! k) (p ! (k + 1)) (p ! (k + 2)) (p ! (k + 3))"

definition sp_inode_decode :: "u8 list \<Rightarrow> m_inode \<Rightarrow> m_inode" where
  "sp_inode_decode p n =
     n\<lparr>i_mode := disk16 p 0, i_uid := disk16 p 2, i_size := disk32 p 4, i_mtime := disk32 p 8, i_gid := p ! 12,
       i_nlinks := p ! 13, i_zone := map (\<lambda>i. disk16 p (14 + 2 * i)) [0..<9]\<rparr>"

definition sp_inode_encode :: "m_inode \<Rightarrow> u8 list" where
  "sp_inode_encode n =
     be_bytes16 (i_mode n) @ be_bytes16 (i_uid n) @ be_bytes32 (i_size n) @ be_bytes32 (i_mtime n)
     @ [i_gid n, i_nlinks n] @ concat (map (\<lambda>i. be_bytes16 (i_zone n ! i)) [0..<9])"

definition sp_super_decode :: "u8 list \<Rightarrow> super_block" where
  "sp_super_decode p =
     \<lparr>s_ninodes = disk16 p 0, s_nzones = disk16 p 2, s_imap_blocks = disk16 p 4, s_zmap_blocks = disk16 p 6,
      s_firstdatazone = disk16 p 8, s_log_zone_size = disk16 p 10, s_max_size = disk32 p 12, s_magic = disk16 p 16\<rparr>"

section \<open>The zone bitmap\<close>

definition zone_bit :: "super_block \<Rightarrow> int \<Rightarrow> nat" where
  "zone_bit sb zone = nat (zone - uint (s_firstdatazone sb) + 1)"

text \<open>The map that holds the bit of a zone, as far as there is one.\<close>

definition zone_map :: "minix \<Rightarrow> super_block \<Rightarrow> int \<Rightarrow> (nat \<Rightarrow> u8) option" where
  "zone_map s sb zone =
     (let index = zone_bit sb zone div 8192 in
      if int index \<ge> uint (s_zmap_blocks sb) then None else zmap s index)"

definition bit_byte :: "super_block \<Rightarrow> int \<Rightarrow> nat" where "bit_byte sb zone = zone_bit sb zone mod 8192 div 8"
definition bit_mask :: "super_block \<Rightarrow> int \<Rightarrow> u8" where "bit_mask sb zone = push_bit (zone_bit sb zone mod 8) 1"

definition set_byte :: "super_block \<Rightarrow> int \<Rightarrow> u8 \<Rightarrow> minix \<Rightarrow> minix" where
  "set_byte sb zone v s =
     (let index = zone_bit sb zone div 8192 in
      s\<lparr>zmap := (zmap s)(index := map_option (\<lambda>m. m(bit_byte sb zone := v)) (zmap s index))\<rparr>)"

fun new_block_from :: "device \<Rightarrow> super_block \<Rightarrow> int list \<Rightarrow> minix \<Rightarrow> int \<times> minix" where
  "new_block_from d sb [] s = (0, s)"
| "new_block_from d sb (zone # zones) s =
     (case zone_map s sb zone of
        None \<Rightarrow> (0, s)
      | Some m \<Rightarrow>
          if m (bit_byte sb zone) AND bit_mask sb zone = 0 then
            (if \<not> dev_gets d zone then (0, s)
             else
               (let s = set_byte sb zone (m (bit_byte sb zone) OR bit_mask sb zone) s in
                (zone, s\<lparr>blocks := (blocks s)(zone := (\<lambda>_. 0))\<rparr>)))
          else new_block_from d sb zones s)"

definition data_zones :: "super_block \<Rightarrow> int list" where
  "data_zones sb = [uint (s_firstdatazone sb) .. uint (s_nzones sb) - 1]"

definition new_block :: "device \<Rightarrow> minix \<Rightarrow> int \<times> minix" where
  "new_block d s = (case get_super s of None \<Rightarrow> (0, s) | Some sb \<Rightarrow> new_block_from d sb (data_zones sb) s)"

definition in_data :: "super_block \<Rightarrow> int \<Rightarrow> bool" where
  "in_data sb zone \<longleftrightarrow> uint (s_firstdatazone sb) \<le> zone \<and> zone < uint (s_nzones sb)"

definition free_block :: "int \<Rightarrow> minix \<Rightarrow> minix" where
  "free_block zone s =
     (case get_super s of
        None \<Rightarrow> s
      | Some sb \<Rightarrow>
          if \<not> in_data sb zone then s
          else
            (case zone_map s sb zone of
               None \<Rightarrow> s
             | Some m \<Rightarrow> set_byte sb zone (m (bit_byte sb zone) AND NOT (bit_mask sb zone)) s))"

section \<open>The zones of an inode\<close>

definition valid_zone :: "minix \<Rightarrow> int \<Rightarrow> bool" where
  "valid_zone s zone \<longleftrightarrow> zone = 0 \<or> (case get_super s of None \<Rightarrow> False | Some sb \<Rightarrow> in_data sb zone)"

definition checked :: "minix \<Rightarrow> int \<Rightarrow> int" where "checked s zone = (if valid_zone s zone then zone else - 1)"

text \<open>\<^verbatim>\<open>((unsigned short *) bh->b_data)[k]\<close>.\<close>

definition zone_number :: "minix \<Rightarrow> int \<Rightarrow> nat \<Rightarrow> int" where
  "zone_number s z k = uint (be_word16 (blocks s z (2 * k)) (blocks s z (2 * k + 1)))"

definition set_entry :: "int \<Rightarrow> nat \<Rightarrow> u16 \<Rightarrow> minix \<Rightarrow> minix" where
  "set_entry z k v s =
     s\<lparr>blocks := (blocks s)(z := (blocks s z)(2 * k := ucast (drop_bit 8 v), 2 * k + 1 := ucast v))\<rparr>"

text \<open>The zone in a slot of the inode, made when it is missing and wanted.\<close>

definition root_zone :: "device \<Rightarrow> nat \<Rightarrow> bool \<Rightarrow> minix \<Rightarrow> m_inode \<Rightarrow> int \<times> minix \<times> m_inode" where
  "root_zone d k create s n =
     (if create \<and> i_zone n ! k = 0 then
        (let (z, s) = new_block d s; n = n\<lparr>i_zone := (i_zone n)[k := word_of_int z]\<rparr> in
         if z \<noteq> 0 then (uint (i_zone n ! k), s, n\<lparr>i_ctime := current_time s, i_dirt := True\<rparr>)
         else (uint (i_zone n ! k), s, n))
      else (uint (i_zone n ! k), s, n))"

text \<open>The zone in an entry of a block of zones; the block must have been read.\<close>

definition entry_zone :: "device \<Rightarrow> int \<Rightarrow> nat \<Rightarrow> bool \<Rightarrow> minix \<Rightarrow> int \<times> minix" where
  "entry_zone d b k create s =
     (let i = zone_number s b k in
      if create \<and> i = 0 then
        (let (i, s) = new_block d s in (i, if i \<noteq> 0 then set_entry b k (word_of_int i) s else s))
      else (i, s))"

definition do_bmap :: "device \<Rightarrow> int \<Rightarrow> bool \<Rightarrow> minix \<Rightarrow> m_inode \<Rightarrow> (int \<times> minix \<times> m_inode) option" where
  "do_bmap d block create s n =
     (if block < 0 \<or> block \<ge> 7 + 512 + 512 * 512 then None
      else if block < 7 then
        (let (z, s, n) = root_zone d (nat block) create s n in Some (checked s z, s, n))
      else if block < 7 + 512 then
        (let (z, s, n) = root_zone d 7 create s n in
         if z = 0 then Some (0, s, n)
         else if \<not> valid_zone s z then Some (- 1, s, n)
         else if \<not> dev_reads d z then Some (0, s, n)
         else
           (let (i, s) = entry_zone d z (nat (block - 7)) create s in Some (checked s i, s, n)))
      else
        (let (z, s, n) = root_zone d 8 create s n; b = nat (block - 7 - 512) in
         if z = 0 then Some (0, s, n)
         else if \<not> valid_zone s z then Some (- 1, s, n)
         else if \<not> dev_reads d z then Some (0, s, n)
         else
           (let (i, s) = entry_zone d z (b div 512) create s in
            if i = 0 then Some (0, s, n)
            else if \<not> valid_zone s i then Some (- 1, s, n)
            else if \<not> dev_reads d i then Some (0, s, n)
            else
              (let (j, s) = entry_zone d i (b mod 512) create s in Some (checked s j, s, n)))))"

definition bmap :: "device \<Rightarrow> int \<Rightarrow> minix \<Rightarrow> m_inode \<Rightarrow> (int \<times> minix \<times> m_inode) option" where
  "bmap d block s n = do_bmap d block False s n"

definition create_block :: "device \<Rightarrow> int \<Rightarrow> minix \<Rightarrow> m_inode \<Rightarrow> (int \<times> minix \<times> m_inode) option" where
  "create_block d block s n = do_bmap d block True s n"

section \<open>Reading and writing\<close>

definition ERROR :: int where "ERROR = 99"
definition O_APPEND :: u16 where "O_APPEND = 0x400"

record file_ptr =
  f_flags :: u16
  f_pos :: int

text \<open>The bytes of a block from \<open>k\<close> on.\<close>

definition block_bytes :: "minix \<Rightarrow> int \<Rightarrow> nat \<Rightarrow> nat \<Rightarrow> u8 list" where
  "block_bytes s z k c = map (blocks s z) [k..<k + c]"

definition put_bytes :: "int \<Rightarrow> nat \<Rightarrow> u8 list \<Rightarrow> minix \<Rightarrow> minix" where
  "put_bytes z k bs s =
     s\<lparr>blocks := (blocks s)(z := (\<lambda>a. if k \<le> a \<and> a < k + length bs then bs ! (a - k) else blocks s z a))\<rparr>"

text \<open>
  The loop of \<^verbatim>\<open>file_read\<close>: what is left, the position, and what has been put into the buffer of the user.
\<close>

lemma smod_less: "pos smod BLOCK_SIZE < BLOCK_SIZE"
proof -
  have "pos mod 1024 < 1024" "0 \<le> - pos mod 1024" by simp_all
  then show ?thesis by (auto simp: smod_int_alt_def BLOCK_SIZE_def sgn_if)
qed

function read_loop :: "device \<Rightarrow> minix \<Rightarrow> m_inode \<Rightarrow> int \<Rightarrow> int \<Rightarrow> u8 list \<Rightarrow> (int \<times> int \<times> u8 list) option" where
  "read_loop d s n left pos out =
     (if left \<le> 0 then Some (left, pos, out)
      else do {
        (nr, _, _) \<leftarrow> bmap d (pos sdiv BLOCK_SIZE) s n;
        if nr \<noteq> 0 \<and> \<not> dev_reads d nr then Some (left, pos, out)
        else
          (let k = pos smod BLOCK_SIZE; chars = min (BLOCK_SIZE - k) left in
           read_loop d s n (left - chars) (pos + chars)
             (out @ (if nr \<noteq> 0 then block_bytes s nr (nat k) (nat chars) else replicate (nat chars) 0)))
      })"
  by pat_completeness auto
termination
proof (relation "measure (\<lambda>(d, s, n, left, pos, out). nat left)")
  show "wf (measure (\<lambda>(d :: device, s :: minix, n :: m_inode, left :: int, pos :: int, out :: u8 list). nat left))" by simp
qed (use smod_less in \<open>auto simp: min_def not_le\<close>)

definition file_read :: "device \<Rightarrow> minix \<Rightarrow> m_inode \<Rightarrow> file_ptr \<Rightarrow> int \<Rightarrow> (int \<times> m_inode \<times> file_ptr \<times> u8 list) option" where
  "file_read d s n filp count =
     (if count \<le> 0 then Some (0, n, filp, [])
      else do {
        (left, pos, out) \<leftarrow> read_loop d s n count (f_pos filp) [];
        Some (if count - left \<noteq> 0 then count - left else - ERROR, n\<lparr>i_atime := current_time s\<rparr>, filp\<lparr>f_pos := pos\<rparr>, out)
      })"

text \<open>The loop of \<^verbatim>\<open>file_write\<close>: \<open>buf\<close> is what is left of the bytes of the user, \<open>i\<close> the number of those written.\<close>

function write_loop :: "device \<Rightarrow> minix \<Rightarrow> m_inode \<Rightarrow> int \<Rightarrow> u8 list \<Rightarrow> int \<Rightarrow> (int \<times> int \<times> minix \<times> m_inode) option" where
  "write_loop d s n pos buf i =
     (if buf = [] then Some (i, pos, s, n)
      else do {
        (block, s, n) \<leftarrow> create_block d (pos sdiv BLOCK_SIZE) s n;
        if block = 0 \<or> \<not> dev_reads d block then Some (i, pos, s, n)
        else
          (let k = pos smod BLOCK_SIZE; c = min (BLOCK_SIZE - k) (int (length buf)); pos = pos + c;
               n = (if pos > uint (i_size n) then n\<lparr>i_size := word_of_int pos, i_dirt := True\<rparr> else n) in
           write_loop d (put_bytes block (nat k) (take (nat c) buf) s) n pos (drop (nat c) buf) (i + c))
      })"
  by pat_completeness auto
termination
proof (relation "measure (\<lambda>(d, s, n, pos, buf, i). length buf)")
  show "wf (measure (\<lambda>(d :: device, s :: minix, n :: m_inode, pos :: int, buf :: u8 list, i :: int). length buf))" by simp
qed (use smod_less in \<open>auto simp: min_def not_le\<close>)

definition file_write :: "device \<Rightarrow> minix \<Rightarrow> m_inode \<Rightarrow> file_ptr \<Rightarrow> u8 list \<Rightarrow> (int \<times> minix \<times> m_inode \<times> file_ptr) option" where
  "file_write d s n filp buf =
     (let append = f_flags filp AND O_APPEND \<noteq> 0; pos = (if append then uint (i_size n) else f_pos filp) in
      do {
        (i, pos, s, n) \<leftarrow> write_loop d s n pos buf 0;
        let n = n\<lparr>i_mtime := current_time s\<rparr> in
        Some (if i \<noteq> 0 then i else - 1, s,
          if append then n else n\<lparr>i_ctime := current_time s\<rparr>, if append then filp else filp\<lparr>f_pos := pos\<rparr>)
      })"

text \<open>The position that \<^verbatim>\<open>sys_lseek\<close> sets, or EINVAL_fs; an \<^verbatim>\<open>int\<close> has 32 bits.\<close>

definition EINVAL_fs :: int where "EINVAL_fs = 22"

definition int32 :: "int \<Rightarrow> int" where "int32 = signed_take_bit 31"

definition lseek_pos :: "m_inode \<Rightarrow> int \<Rightarrow> int \<Rightarrow> int \<Rightarrow> int + int" where
  "lseek_pos n pos offset origin =
     (if origin = 0 then (if offset < 0 then Inl (- EINVAL_fs) else Inr offset)
      else if origin = 1 then
        (if int32 (pos + offset) < 0 then Inl (- EINVAL_fs) else Inr (int32 (pos + offset)))
      else if origin = 2 then
        (let tmp = int32 (uint (i_size n) + offset) in if tmp < 0 then Inl (- EINVAL_fs) else Inr tmp)
      else Inl (- EINVAL_fs))"

definition lseek :: "m_inode \<Rightarrow> file_ptr \<Rightarrow> int \<Rightarrow> int \<Rightarrow> int \<times> file_ptr" where
  "lseek n filp offset origin =
     (case lseek_pos n (f_pos filp) offset origin of Inl e \<Rightarrow> (e, filp) | Inr p \<Rightarrow> (p, filp\<lparr>f_pos := p\<rparr>))"

text \<open>\<^verbatim>\<open>sys_read\<close> and \<^verbatim>\<open>sys_write\<close> on a file that is no pipe and no device.\<close>

definition S_ISREG :: "m_inode \<Rightarrow> bool" where "S_ISREG n \<longleftrightarrow> i_mode n AND 0xF000 = 0x8000"
definition S_ISDIR :: "m_inode \<Rightarrow> bool" where "S_ISDIR n \<longleftrightarrow> i_mode n AND 0xF000 = 0x4000"

definition sys_read :: "device \<Rightarrow> minix \<Rightarrow> m_inode \<Rightarrow> file_ptr \<Rightarrow> int \<Rightarrow> (int \<times> m_inode \<times> file_ptr \<times> u8 list) option" where
  "sys_read d s n filp count =
     (if count < 0 then Some (- EINVAL_fs, n, filp, [])
      else if count = 0 then Some (0, n, filp, [])
      else if S_ISDIR n \<or> S_ISREG n then
        (let count = (if word_of_int (count + f_pos filp) > i_size n then sint (i_size n - word_of_int (f_pos filp)) else count) in
         if count \<le> 0 then Some (0, n, filp, []) else file_read d s n filp count)
      else Some (- EINVAL_fs, n, filp, []))"

definition sys_write :: "device \<Rightarrow> minix \<Rightarrow> m_inode \<Rightarrow> file_ptr \<Rightarrow> u8 list \<Rightarrow> (int \<times> minix \<times> m_inode \<times> file_ptr) option" where
  "sys_write d s n filp buf =
     (if buf = [] then Some (0, s, n, filp)
      else if S_ISREG n then file_write d s n filp buf
      else Some (- EINVAL_fs, s, n, filp))"

section \<open>Truncation\<close>

definition valid_indirect :: "minix \<Rightarrow> int \<Rightarrow> bool" where
  "valid_indirect s block = (case get_super s of None \<Rightarrow> False | Some sb \<Rightarrow> in_data sb block)"

definition free_ind :: "device \<Rightarrow> int \<Rightarrow> minix \<Rightarrow> minix" where
  "free_ind d block s =
     (if \<not> valid_indirect s block then s
      else
        free_block block
          (if dev_reads d block
           then fold (\<lambda>i s. if zone_number s block i \<noteq> 0 then free_block (zone_number s block i) s else s) [0..<512] s
           else s))"

definition free_dind :: "device \<Rightarrow> int \<Rightarrow> minix \<Rightarrow> minix" where
  "free_dind d block s =
     (if \<not> valid_indirect s block then s
      else
        free_block block
          (if dev_reads d block
           then fold (\<lambda>i s. if zone_number s block i \<noteq> 0 then free_ind d (zone_number s block i) s else s) [0..<512] s
           else s))"

definition truncate :: "device \<Rightarrow> minix \<Rightarrow> m_inode \<Rightarrow> minix \<times> m_inode" where
  "truncate d s n =
     (if \<not> (S_ISREG n \<or> S_ISDIR n) then (s, n)
      else
        (let s = fold (\<lambda>i s. if i_zone n ! i \<noteq> 0 then free_block (uint (i_zone n ! i)) s else s) [0..<7] s;
             s = free_ind d (uint (i_zone n ! 7)) s;
             s = free_dind d (uint (i_zone n ! 8)) s in
         (s, n\<lparr>i_zone := map (\<lambda>_. 0) (i_zone n), i_size := 0, i_dirt := True,
               i_mtime := current_time s, i_ctime := current_time s\<rparr>)))"

section \<open>Records on a disk\<close>

lemma sp_inode_length: "length (sp_inode_encode n) = 32"
  by (simp add: sp_inode_encode_def be_bytes16_def be_bytes32_def upt_rec)

text \<open>
  C40: an inode written into its 32 bytes on the disk is read back, all of it but the times of access and change and the mark
  of a change, which the disk does not hold.
\<close>

theorem inode_roundtrip:
  assumes "length (i_zone n) = 9"
  shows "sp_inode_decode (sp_inode_encode n) m =
    n\<lparr>i_atime := i_atime m, i_ctime := i_ctime m, i_dirt := i_dirt m\<rparr>"
proof -
  have [simp]: "[0..<9] = [0, 1, 2, 3, 4, 5, 6, 7, 8 :: nat]" by (simp add: upt_rec)
  have "i_zone n = map ((!) (i_zone n)) [0..<9]" using map_nth [of "i_zone n"] assms by simp
  then show ?thesis
    by (simp add: sp_inode_decode_def sp_inode_encode_def be_bytes16_def be_bytes32_def disk16_def disk32_def)
qed

theorem inode_roundtrip_witness:
  "\<exists>n. i_zone n = [10, 11, 12, 13, 14, 15, 16, 17, 18] \<and> sp_inode_decode (sp_inode_encode n) n = n"
proof -
  let ?n = "\<lparr>i_mode = 0x81A4, i_uid = 3, i_size = 70000, i_mtime = 5, i_gid = 4, i_nlinks = 1,
    i_zone = [10, 11, 12, 13, 14, 15, 16, 17, 18], i_atime = 6, i_ctime = 7, i_dirt = False\<rparr>"
  have "sp_inode_decode (sp_inode_encode ?n) ?n = ?n" by (subst inode_roundtrip) simp_all
  then show ?thesis by (intro exI [of _ ?n]) simp
qed

end
