(* ===== verification/Minix_Tree.thy ===== *)
theory Minix_Tree
  imports Minix
begin

text \<open>
  The zones of all inodes of a disk: every inode is a tree of zones, no zone is used twice, and each one in use is marked
  in the bitmap. What \<^verbatim>\<open>new_block\<close> and the links that \<^verbatim>\<open>_bmap\<close> of \<^verbatim>\<open>fs/inode.c\<close> makes do to it.
\<close>

section \<open>Bits of the zone map\<close>

definition marked :: "minix \<Rightarrow> super_block \<Rightarrow> int \<Rightarrow> bool" where
  "marked s sb zone \<longleftrightarrow>
     (case zone_map s sb zone of None \<Rightarrow> True | Some m \<Rightarrow> m (bit_byte sb zone) AND bit_mask sb zone \<noteq> 0)"

lemma and_mask_bit: "(v :: u8) AND push_bit k 1 \<noteq> 0 \<longleftrightarrow> bit v k"
  by (rule bit_iff_and_push_bit_not_eq_0 [symmetric])

lemma marked_bit:
  "zone_map s sb zone = Some m \<Longrightarrow> marked s sb zone \<longleftrightarrow> bit (m (bit_byte sb zone)) (zone_bit sb zone mod 8)"
  unfolding marked_def bit_mask_def by (simp only: option.case and_mask_bit)

lemma zone_bit_parts:
  assumes "zone_bit sb y div 8192 = zone_bit sb z div 8192" and "bit_byte sb y = bit_byte sb z"
    and "zone_bit sb y mod 8 = zone_bit sb z mod 8"
  shows "zone_bit sb y = zone_bit sb z"
proof -
  have *: "b = 8192 * (b div 8192) + 8 * (b mod 8192 div 8) + b mod 8" for b :: nat
  proof -
    have "b mod 8192 mod 8 = b mod 8" by (simp add: mod_mod_cancel)
    then show ?thesis
      using div_mult_mod_eq [of b 8192] div_mult_mod_eq [of "b mod 8192" 8] by linarith
  qed
  show ?thesis using assms * [of "zone_bit sb y"] * [of "zone_bit sb z"] by (simp add: bit_byte_def)
qed

lemma zone_bit_inj: "in_data sb y \<Longrightarrow> in_data sb z \<Longrightarrow> zone_bit sb y = zone_bit sb z \<Longrightarrow> y = z"
  by (simp add: zone_bit_def in_data_def eq_nat_nat_iff)

lemma set_byte_super [simp]:
  "get_super (set_byte sb z v s) = get_super s" "blocks (set_byte sb z v s) = blocks s"
  "current_time (set_byte sb z v s) = current_time s"
  by (simp_all add: set_byte_def Let_def)

lemma zone_map_set_byte:
  assumes "zone_map s sb z = Some m"
  shows "zone_map (set_byte sb z v s) sb y =
     (if zone_bit sb y div 8192 = zone_bit sb z div 8192 then Some (m(bit_byte sb z := v)) else zone_map s sb y)"
  using assms by (auto simp: zone_map_def set_byte_def Let_def split: if_splits)

text \<open>Setting and clearing the bit of one zone.\<close>

lemma marked_set:
  assumes m: "zone_map s sb z = Some m" and z: "in_data sb z" and y: "in_data sb y"
  shows "marked (set_byte sb z (m (bit_byte sb z) OR bit_mask sb z) s) sb y \<longleftrightarrow> y = z \<or> marked s sb y"
    and "marked (set_byte sb z (m (bit_byte sb z) AND NOT (bit_mask sb z)) s) sb y \<longleftrightarrow> y \<noteq> z \<and> marked s sb y"
proof -
  have own: "zone_map s sb y = Some m" if "zone_bit sb y div 8192 = zone_bit sb z div 8192"
    using that m by (simp add: zone_map_def Let_def)
  have k8: "zone_bit sb z mod 8 < 8" "zone_bit sb y mod 8 < 8" by simp_all
  have eq: "zone_bit sb y mod 8 = zone_bit sb z mod 8 \<longleftrightarrow> y = z"
    if "zone_bit sb y div 8192 = zone_bit sb z div 8192" "bit_byte sb y = bit_byte sb z"
    using that zone_bit_parts [of sb y z] zone_bit_inj [OF y z] by auto
  have ne: "y = z" if "y = z \<or> (zone_bit sb y div 8192 = zone_bit sb z div 8192 \<and> bit_byte sb y = bit_byte sb z \<and>
      zone_bit sb y mod 8 = zone_bit sb z mod 8)"
    using that eq by auto
  show "marked (set_byte sb z (m (bit_byte sb z) OR bit_mask sb z) s) sb y \<longleftrightarrow> y = z \<or> marked s sb y"
  proof (cases "zone_bit sb y div 8192 = zone_bit sb z div 8192")
    case True
    then show ?thesis
      using eq [OF True] k8 marked_bit [OF own [OF True]]
        marked_bit [of "set_byte sb z (m (bit_byte sb z) OR bit_mask sb z) s" sb y]
      by (auto simp: zone_map_set_byte [OF m] bit_mask_def bit_simps)
  next
    case False
    then show ?thesis by (auto simp: marked_def zone_map_set_byte [OF m])
  qed
  show "marked (set_byte sb z (m (bit_byte sb z) AND NOT (bit_mask sb z)) s) sb y \<longleftrightarrow> y \<noteq> z \<and> marked s sb y"
  proof (cases "zone_bit sb y div 8192 = zone_bit sb z div 8192")
    case True
    then show ?thesis
      using eq [OF True] k8 marked_bit [OF own [OF True]]
        marked_bit [of "set_byte sb z (m (bit_byte sb z) AND NOT (bit_mask sb z)) s" sb y]
      by (auto simp: zone_map_set_byte [OF m] bit_mask_def bit_simps)
  next
    case False
    then show ?thesis by (auto simp: marked_def zone_map_set_byte [OF m])
  qed
qed



section \<open>Slots\<close>

text \<open>The places that hold zone numbers: in the inode, in its indirect block, in its double indirect block, and in the blocks
  that the last one names.\<close>

datatype slot = Dir nat | Ind nat | Dind nat | Leaf nat nat

fun slot_fits :: "slot \<Rightarrow> bool" where
  "slot_fits (Dir k) \<longleftrightarrow> k < 9"
| "slot_fits (Ind j) \<longleftrightarrow> j < 512"
| "slot_fits (Dind j) \<longleftrightarrow> j < 512"
| "slot_fits (Leaf j k) \<longleftrightarrow> j < 512 \<and> k < 512"

fun parent :: "slot \<Rightarrow> slot option" where
  "parent (Dir k) = None"
| "parent (Ind j) = Some (Dir 7)"
| "parent (Dind j) = Some (Dir 8)"
| "parent (Leaf j k) = Some (Dind j)"

fun slot_index :: "slot \<Rightarrow> nat" where
  "slot_index (Dir k) = k"
| "slot_index (Ind j) = j"
| "slot_index (Dind j) = j"
| "slot_index (Leaf j k) = k"

definition down :: "minix \<Rightarrow> int \<Rightarrow> nat \<Rightarrow> int" where "down s z k = (if z = 0 then 0 else zone_number s z k)"

fun zone_at :: "minix \<Rightarrow> m_inode \<Rightarrow> slot \<Rightarrow> int" where
  "zone_at s n (Dir k) = uint (i_zone n ! k)"
| "zone_at s n (Ind j) = down s (uint (i_zone n ! 7)) j"
| "zone_at s n (Dind j) = down s (uint (i_zone n ! 8)) j"
| "zone_at s n (Leaf j k) = down s (down s (uint (i_zone n ! 8)) j) k"

lemma zone_at_parent: "parent t = Some p \<Longrightarrow> zone_at s n t = down s (zone_at s n p) (slot_index t)"
  by (cases t) auto

lemma parent_ok: "parent t = Some p \<Longrightarrow> slot_fits t \<Longrightarrow> slot_fits p \<and> slot_index t < 512"
  by (cases t) auto

lemma slot_same: "parent t = Some p \<Longrightarrow> parent u = Some p \<Longrightarrow> slot_index t = slot_index u \<Longrightarrow> t = u"
  by (cases t; cases u) auto

lemma slot_induct:
  assumes "\<And>k. P (Dir k)" and "\<And>t p. parent t = Some p \<Longrightarrow> P p \<Longrightarrow> P t"
  shows "P t"
  using assms by (cases t) (metis parent.simps)+

text \<open>The slots for data, in the order of the file.\<close>

definition block_slot :: "nat \<Rightarrow> slot" where
  "block_slot b = (if b < 7 then Dir b else if b < 7 + 512 then Ind (b - 7) else Leaf ((b - 7 - 512) div 512) ((b - 7 - 512) mod 512))"

definition FILE_BLOCKS :: nat where "FILE_BLOCKS = 7 + 512 + 512 * 512"

lemma block_slot_ok: "b < FILE_BLOCKS \<Longrightarrow> slot_fits (block_slot b)"
  by (auto simp: block_slot_def FILE_BLOCKS_def)

lemma block_slot_inj:
  assumes "block_slot a = block_slot b"
  shows "a = b"
proof (cases "a < 519 \<or> b < 519")
  case True
  then show ?thesis using assms unfolding block_slot_def by (simp split: if_split_asm)
next
  case False
  define x y where "x = a - 519" and "y = b - 519"
  have "x div 512 = y div 512" "x mod 512 = y mod 512"
    using assms False unfolding block_slot_def x_def y_def by simp_all
  then have "x = y" by (metis div_mult_mod_eq)
  then show ?thesis using False unfolding x_def y_def by arith
qed

text \<open>No slot for data is the parent of one.\<close>

lemma block_slot_leaf: "parent t = Some (block_slot b) \<Longrightarrow> False"
  by (cases t) (auto simp: block_slot_def split: if_splits)


section \<open>A disk in order\<close>

definition disk_ok :: "device \<Rightarrow> minix \<Rightarrow> ('f \<Rightarrow> m_inode) \<Rightarrow> bool" where
  "disk_ok d s F \<longleftrightarrow>
     (case get_super s of
        None \<Rightarrow> False
      | Some sb \<Rightarrow>
          0 < s_firstdatazone sb
          \<and> (\<forall>z. in_data sb z \<longrightarrow> zone_map s sb z \<noteq> None \<and> dev_reads d z \<and> dev_gets d z)
          \<and> (\<forall>f. length (i_zone (F f)) = 9)
          \<and> (\<forall>f t. slot_fits t \<and> zone_at s (F f) t \<noteq> 0 \<longrightarrow>
               in_data sb (zone_at s (F f) t) \<and> marked s sb (zone_at s (F f) t))
          \<and> (\<forall>f g t u. slot_fits t \<and> slot_fits u \<and> zone_at s (F f) t \<noteq> 0 \<and> zone_at s (F f) t = zone_at s (F g) u \<longrightarrow> f = g \<and> t = u))"

lemma disk_okD:
  assumes "disk_ok d s F"
  obtains sb where "get_super s = Some sb" and "0 < s_firstdatazone sb"
    and "\<And>z. in_data sb z \<Longrightarrow> zone_map s sb z \<noteq> None \<and> dev_reads d z \<and> dev_gets d z"
    and "\<And>f. length (i_zone (F f)) = 9"
    and "\<And>f t. slot_fits t \<Longrightarrow> zone_at s (F f) t \<noteq> 0 \<Longrightarrow> in_data sb (zone_at s (F f) t) \<and> marked s sb (zone_at s (F f) t)"
    and "\<And>f g t u. slot_fits t \<Longrightarrow> slot_fits u \<Longrightarrow> zone_at s (F f) t \<noteq> 0 \<Longrightarrow> zone_at s (F f) t = zone_at s (F g) u \<Longrightarrow> f = g \<and> t = u"
proof -
  obtain sb where sb: "get_super s = Some sb" using assms by (auto simp: disk_ok_def split: option.splits)
  note ok = assms [unfolded disk_ok_def sb option.case]
  note o1 = ok [THEN conjunct1] and o2 = ok [THEN conjunct2, THEN conjunct1]
    and o3 = ok [THEN conjunct2, THEN conjunct2, THEN conjunct1]
    and o4 = ok [THEN conjunct2, THEN conjunct2, THEN conjunct2, THEN conjunct1]
    and o5 = ok [THEN conjunct2, THEN conjunct2, THEN conjunct2, THEN conjunct2]
  show thesis
  proof (rule that [OF sb o1])
    show "zone_map s sb z \<noteq> None \<and> dev_reads d z \<and> dev_gets d z" if "in_data sb z" for z
      by (rule o2 [rule_format, OF that])
    show "length (i_zone (F f)) = 9" for f by (rule o3 [rule_format])
    show "in_data sb (zone_at s (F f) t) \<and> marked s sb (zone_at s (F f) t)" if "slot_fits t" "zone_at s (F f) t \<noteq> 0" for f t
      by (rule o4 [rule_format, OF conjI [OF that]])
    show "f = g \<and> t = u" if "slot_fits t" "slot_fits u" "zone_at s (F f) t \<noteq> 0" "zone_at s (F f) t = zone_at s (F g) u" for f g t u
      by (rule o5 [rule_format]) (use that in simp)
  qed
qed

lemma disk_ok_used:
  assumes "disk_ok d s F" and "get_super s = Some sb"
  shows "slot_fits t \<Longrightarrow> zone_at s (F f) t \<noteq> 0 \<Longrightarrow> in_data sb (zone_at s (F f) t) \<and> marked s sb (zone_at s (F f) t)"
    and "in_data sb z \<Longrightarrow> zone_map s sb z \<noteq> None \<and> dev_reads d z \<and> dev_gets d z"
    and "0 < s_firstdatazone sb"
  using assms(2) by (rule_tac disk_okD [OF assms(1)]; simp)+

lemma disk_ok_unique:
  assumes "disk_ok d s F"
  shows "slot_fits t \<Longrightarrow> slot_fits u \<Longrightarrow> zone_at s (F f) t \<noteq> 0 \<Longrightarrow> zone_at s (F f) t = zone_at s (F g) u \<Longrightarrow> f = g \<and> t = u"
    and "length (i_zone (F f)) = 9"
  by (rule_tac disk_okD [OF assms]; blast)+

lemma disk_okI:
  assumes "get_super s = Some sb" and "0 < s_firstdatazone sb"
    and "\<And>z. in_data sb z \<Longrightarrow> zone_map s sb z \<noteq> None \<and> dev_reads d z \<and> dev_gets d z"
    and "\<And>f. length (i_zone (F f)) = 9"
    and "\<And>f t. slot_fits t \<Longrightarrow> zone_at s (F f) t \<noteq> 0 \<Longrightarrow> in_data sb (zone_at s (F f) t) \<and> marked s sb (zone_at s (F f) t)"
    and "\<And>f g t u. slot_fits t \<Longrightarrow> slot_fits u \<Longrightarrow> zone_at s (F f) t \<noteq> 0 \<Longrightarrow> zone_at s (F f) t = zone_at s (F g) u \<Longrightarrow> f = g \<and> t = u"
  shows "disk_ok d s F"
  unfolding disk_ok_def assms(1) option.case
proof (intro conjI)
  show "\<forall>z. in_data sb z \<longrightarrow> zone_map s sb z \<noteq> None \<and> dev_reads d z \<and> dev_gets d z" using assms(3) by blast
  show "\<forall>f t. slot_fits t \<and> zone_at s (F f) t \<noteq> 0 \<longrightarrow> in_data sb (zone_at s (F f) t) \<and> marked s sb (zone_at s (F f) t)"
    using assms(5) by blast
  show "\<forall>f g t u. slot_fits t \<and> slot_fits u \<and> zone_at s (F f) t \<noteq> 0 \<and> zone_at s (F f) t = zone_at s (F g) u \<longrightarrow> f = g \<and> t = u"
    using assms(6) by blast
qed (use assms(2,4) in simp_all)

lemma disk_ok_same:
  assumes ok: "disk_ok d s F" and s': "get_super s' = get_super s" "zone_map s' = zone_map s" "marked s' = marked s"
    and F': "\<And>g. length (i_zone (F' g)) = 9" "\<And>g t. slot_fits t \<Longrightarrow> zone_at s' (F' g) t = zone_at s (F g) t"
  shows "disk_ok d s' F'"
proof -
  obtain sb where sb: "get_super s = Some sb" and o1: "0 < s_firstdatazone sb"
    and o2: "\<And>z. in_data sb z \<Longrightarrow> zone_map s sb z \<noteq> None \<and> dev_reads d z \<and> dev_gets d z"
    and o3: "\<And>f t. slot_fits t \<Longrightarrow> zone_at s (F f) t \<noteq> 0 \<Longrightarrow> in_data sb (zone_at s (F f) t) \<and> marked s sb (zone_at s (F f) t)"
    and o4: "\<And>f g t u. slot_fits t \<Longrightarrow> slot_fits u \<Longrightarrow> zone_at s (F f) t \<noteq> 0 \<Longrightarrow> zone_at s (F f) t = zone_at s (F g) u \<Longrightarrow> f = g \<and> t = u"
    by (rule disk_okD [OF ok]) blast
  show ?thesis
  proof (rule disk_okI [of s' sb])
    show "get_super s' = Some sb" using s' sb by simp
    show "in_data sb (zone_at s' (F' f) t) \<and> marked s' sb (zone_at s' (F' f) t)"
      if "slot_fits t" "zone_at s' (F' f) t \<noteq> 0" for f t
      using o3 [of t f] that by (simp add: F' s')
    show "f = g \<and> t = u"
      if "slot_fits t" "slot_fits u" "zone_at s' (F' f) t \<noteq> 0" "zone_at s' (F' f) t = zone_at s' (F' g) u" for f g t u
      using o4 [of t u f g] that by (simp add: F' s')
  qed (use o1 o2 F' s' in simp_all)
qed

section \<open>\<open>new_block\<close>\<close>

lemma new_block_from_cases:
  assumes "new_block_from d sb zs s = (z, s')" and "\<And>z. z \<in> set zs \<Longrightarrow> zone_map s sb z \<noteq> None \<and> dev_gets d z"
  shows "z = 0 \<and> s' = s \<and> (\<forall>z \<in> set zs. marked s sb z)
    \<or> (\<exists>m. z \<in> set zs \<and> zone_map s sb z = Some m \<and> \<not> marked s sb z
        \<and> s' = (set_byte sb z (m (bit_byte sb z) OR bit_mask sb z) s)\<lparr>blocks := (blocks s)(z := (\<lambda>_. 0))\<rparr>)"
  using assms
proof (induction zs)
  case (Cons y zs)
  obtain m where m: "zone_map s sb y = Some m" using Cons.prems(2) [of y] by auto
  have g: "dev_gets d y" using Cons.prems(2) by simp
  show ?case
  proof (cases "m (bit_byte sb y) AND bit_mask sb y = 0")
    case True
    then have "\<not> marked s sb y" using m by (simp add: marked_def)
    then show ?thesis using Cons.prems(1) m g True by (simp add: Let_def del: fun_upd_apply) (metis (no_types))
  next
    case False
    then have "marked s sb y" "new_block_from d sb zs s = (z, s')" using Cons.prems(1) m by (simp_all add: marked_def)
    then show ?thesis using Cons.IH Cons.prems(2) by auto
  qed
qed simp

text \<open>\<open>new_block\<close> fails on a full disk only; else it marks a zone that was free and clears its block.\<close>

lemma new_block_cases:
  assumes ok: "disk_ok d s F" and e: "new_block d s = (z, s')" and sb: "get_super s = Some sb"
  shows "z = 0 \<and> s' = s \<and> (\<forall>z. in_data sb z \<longrightarrow> marked s sb z)
    \<or> in_data sb z \<and> z \<noteq> 0 \<and> z < 2 ^ 16 \<and> \<not> marked s sb z \<and> get_super s' = Some sb
      \<and> current_time s' = current_time s \<and> blocks s' = (blocks s)(z := (\<lambda>_. 0))
      \<and> (\<forall>y. in_data sb y \<longrightarrow> (marked s' sb y \<longleftrightarrow> y = z \<or> marked s sb y) \<and> zone_map s' sb y \<noteq> None)"
proof -
  have d: "0 < s_firstdatazone sb" "\<And>z. in_data sb z \<Longrightarrow> zone_map s sb z \<noteq> None \<and> dev_reads d z \<and> dev_gets d z"
    using ok sb by (auto simp: disk_ok_def)
  have zs: "set (data_zones sb) = {z. in_data sb z}" by (auto simp: data_zones_def in_data_def)
  have "new_block_from d sb (data_zones sb) s = (z, s')" using e sb by (simp add: new_block_def)
  from new_block_from_cases [OF this] consider
      "z = 0" "s' = s" "\<forall>z. in_data sb z \<longrightarrow> marked s sb z"
    | m where "in_data sb z" "zone_map s sb z = Some m" "\<not> marked s sb z"
        "s' = (set_byte sb z (m (bit_byte sb z) OR bit_mask sb z) s)\<lparr>blocks := (blocks s)(z := (\<lambda>_. 0))\<rparr>"
    using d(2) zs by auto
  then show ?thesis
  proof cases
    case 1
    then show ?thesis by simp
  next
    case 2
    let ?s = "set_byte sb z (m (bit_byte sb z) OR bit_mask sb z) s"
    have same: "marked s' sb y = marked ?s sb y" "zone_map s' sb y = zone_map ?s sb y" for y
      using 2(4) by (simp_all add: marked_def zone_map_def Let_def)
    have "0 < uint (s_firstdatazone sb)" using d(1) by (simp add: word_less_def)
    then have "z \<noteq> 0" using 2(1) by (auto simp: in_data_def)
    moreover have "z < 2 ^ 16"
      using 2(1) uint_lt2p [of "s_nzones sb"] by (simp add: in_data_def)
    moreover have "zone_map ?s sb y \<noteq> None" if "in_data sb y" for y
      using d(2) [OF that] by (simp add: zone_map_set_byte [OF 2(2)])
    ultimately show ?thesis
      using 2 sb same marked_set(1) [OF 2(2,1)] by simp
  qed
qed

end
