(* ===== verification/Minix_Grow.thy ===== *)
theory Minix_Grow
  imports Minix_Tree
begin

text \<open>
  The zones that \<^verbatim>\<open>_bmap\<close> of \<^verbatim>\<open>fs/inode.c\<close> adds to a file: each is put into a slot that was empty, so no byte of any file
  changes.
\<close>

section \<open>Bytes of a file\<close>

definition FILE_BYTES :: int where "FILE_BYTES = (7 + 512 + 512 * 512) * 1024"

definition byte_of :: "minix \<Rightarrow> m_inode \<Rightarrow> int \<Rightarrow> u8" where
  "byte_of s n i =
     (let z = zone_at s n (block_slot (nat (i div BLOCK_SIZE))) in if z = 0 then 0 else blocks s z (nat (i mod BLOCK_SIZE)))"

definition disk_full :: "minix \<Rightarrow> bool" where
  "disk_full s \<longleftrightarrow> (case get_super s of None \<Rightarrow> True | Some sb \<Rightarrow> \<forall>z. in_data sb z \<longrightarrow> marked s sb z)"

text \<open>What stays of an inode when its zones change.\<close>

definition same_attributes :: "m_inode \<Rightarrow> m_inode \<Rightarrow> bool" where
  "same_attributes n n' \<longleftrightarrow>
     i_mode n' = i_mode n \<and> i_uid n' = i_uid n \<and> i_size n' = i_size n \<and> i_mtime n' = i_mtime n \<and> i_gid n' = i_gid n
     \<and> i_nlinks n' = i_nlinks n \<and> i_atime n' = i_atime n"

definition disk_grows :: "device \<Rightarrow> minix \<Rightarrow> ('f \<Rightarrow> m_inode) \<Rightarrow> minix \<Rightarrow> ('f \<Rightarrow> m_inode) \<Rightarrow> bool" where
  "disk_grows d s F s' F' \<longleftrightarrow>
     disk_ok d s F \<and> disk_ok d s' F' \<and> get_super s' = get_super s \<and> current_time s' = current_time s
     \<and> (\<forall>g. same_attributes (F g) (F' g))
     \<and> (\<forall>g t. slot_fits t \<and> zone_at s (F g) t \<noteq> 0 \<longrightarrow> zone_at s' (F' g) t = zone_at s (F g) t)
     \<and> (\<forall>g i. 0 \<le> i \<and> i < FILE_BYTES \<longrightarrow> byte_of s' (F' g) i = byte_of s (F g) i)"

lemma file_block:
  assumes "0 \<le> i" and "i < FILE_BYTES"
  shows "nat (i div BLOCK_SIZE) < FILE_BLOCKS" "0 \<le> i div BLOCK_SIZE" "i div BLOCK_SIZE < 7 + 512 + 512 * 512"
proof -
  have "i < 262663 * 1024" using assms(2) by (simp add: FILE_BYTES_def)
  then have "i div 1024 < 262663" by presburger
  then show "nat (i div BLOCK_SIZE) < FILE_BLOCKS" "0 \<le> i div BLOCK_SIZE" "i div BLOCK_SIZE < 7 + 512 + 512 * 512"
    using assms(1) by (simp_all add: BLOCK_SIZE_def FILE_BLOCKS_def nat_less_iff)
qed

lemma file_slot: "0 \<le> i \<Longrightarrow> i < FILE_BYTES \<Longrightarrow> slot_fits (block_slot (nat (i div BLOCK_SIZE)))"
  by (rule block_slot_ok [OF file_block(1)])

lemma same_attributes_refl [simp]: "same_attributes n n"
  by (simp add: same_attributes_def)

lemma grows_refl: "disk_ok d s F \<Longrightarrow> disk_grows d s F s F"
  by (simp add: disk_grows_def)

lemma disk_grows_trans:
  assumes a: "disk_grows d s F s' F'" and b: "disk_grows d s' F' s'' F''"
  shows "disk_grows d s F s'' F''"
  unfolding disk_grows_def
proof (intro conjI allI impI)
  show "disk_ok d s F" "disk_ok d s'' F''" "get_super s'' = get_super s" "current_time s'' = current_time s"
    using a b by (simp_all add: disk_grows_def)
  show "same_attributes (F g) (F'' g)" for g
    using a b unfolding disk_grows_def same_attributes_def by metis
  show "zone_at s'' (F'' g) t = zone_at s (F g) t" if "slot_fits t \<and> zone_at s (F g) t \<noteq> 0" for g t
    using a b that unfolding disk_grows_def by metis
  show "byte_of s'' (F'' g) i = byte_of s (F g) i" if "0 \<le> i \<and> i < FILE_BYTES" for g i
    using a b that unfolding disk_grows_def by metis
qed

section \<open>Links\<close>

lemma entry_set_entry [simp]: "zone_number (set_entry b k v s) y j = (if y = b \<and> j = k then uint v else zone_number s y j)"
proof -
  have "2 * j \<noteq> 2 * k + 1" "2 * j + 1 \<noteq> 2 * k" by presburger+
  then show ?thesis by (auto simp: zone_number_def set_entry_def)
qed

lemma set_entry_other [simp]:
  "get_super (set_entry b k v s) = get_super s" "zmap (set_entry b k v s) = zmap s"
  "current_time (set_entry b k v s) = current_time s" "y \<noteq> b \<Longrightarrow> blocks (set_entry b k v s) y = blocks s y"
  by (simp_all add: set_entry_def)

lemma same_zmap:
  assumes "zmap s' = zmap s"
  shows "zone_map s' = zone_map s" "marked s' = marked s"
  unfolding zone_map_def [abs_def] marked_def [abs_def] assms by (rule refl)+

text \<open>A new zone \<open>z\<close> that is put into the empty slot \<open>t0\<close> of the file \<open>f\<close>.\<close>

definition linked :: "minix \<Rightarrow> ('f \<Rightarrow> m_inode) \<Rightarrow> 'f \<Rightarrow> slot \<Rightarrow> int \<Rightarrow> minix \<Rightarrow> ('f \<Rightarrow> m_inode) \<Rightarrow> bool" where
  "linked s F f t0 z s' F' \<longleftrightarrow>
     (\<forall>g k. k < 9 \<longrightarrow> uint (i_zone (F' g) ! k) = (if g = f \<and> Dir k = t0 then z else uint (i_zone (F g) ! k)))
     \<and> (\<forall>p. parent t0 = Some p \<longrightarrow> zone_at s (F f) p \<noteq> 0)
     \<and> (\<forall>k. zone_number s' z k = 0)
     \<and> (\<forall>y k. y \<noteq> z \<longrightarrow> zone_number s' y k =
           (if (\<exists>p. parent t0 = Some p \<and> y = zone_at s (F f) p) \<and> k = slot_index t0 then z else zone_number s y k))"

lemma linked_zone_at:
  assumes ok: "disk_ok d s F" and sb: "get_super s = Some sb" and l: "linked s F f t0 z s' F'"
    and z: "\<not> marked s sb z" "z \<noteq> 0" and t0: "slot_fits t0" "zone_at s (F f) t0 = 0" and t: "slot_fits t"
  shows "zone_at s' (F' g) t = (if g = f \<and> t = t0 then z else zone_at s (F g) t)"
  using t
proof (induction t rule: slot_induct)
  case (1 k)
  then show ?case using l by (auto simp: linked_def)
next
  case (2 t p)
  have p: "slot_fits p" using parent_ok 2 by blast
  have e: "zone_at s' (F' g) t = down s' (zone_at s' (F' g) p) (slot_index t)"
    "zone_at s (F g) t = down s (zone_at s (F g) p) (slot_index t)"
    using zone_at_parent 2(1) by simp_all
  note u1 = disk_ok_used(1) [OF ok sb, THEN conjunct2] and u2 = disk_ok_unique(1) [OF ok]
  show ?case
  proof (cases "g = f \<and> p = t0")
    case True
    then have "zone_at s' (F' g) t = 0" "zone_at s (F g) t = 0"
      using e 2(2) p l z t0 by (simp_all add: down_def linked_def)
    moreover have "t \<noteq> t0" using True 2(1) by (cases t) auto
    ultimately show ?thesis by simp
  next
    case False
    then have ih: "zone_at s' (F' g) p = zone_at s (F g) p" using 2(2) p by auto
    show ?thesis
    proof (cases "zone_at s (F g) p = 0")
      case True
      then have "\<not> (g = f \<and> t = t0)" using 2(1) l by (auto simp: linked_def)
      then show ?thesis using e ih True by (auto simp: down_def)
    next
      case nz: False
      then have "zone_at s (F g) p \<noteq> z" using u1 [OF p nz] z by metis
      then have s': "zone_at s' (F' g) t =
          (if (\<exists>q. parent t0 = Some q \<and> zone_at s (F g) p = zone_at s (F f) q) \<and> slot_index t = slot_index t0 then z
           else zone_number s (zone_at s (F g) p) (slot_index t))"
        using e ih nz l by (simp add: down_def linked_def)
      have "(\<exists>q. parent t0 = Some q \<and> zone_at s (F g) p = zone_at s (F f) q) \<and> slot_index t = slot_index t0
          \<longleftrightarrow> g = f \<and> t = t0" (is "?l \<longleftrightarrow> ?r")
      proof
        assume ?l
        then obtain q where q: "parent t0 = Some q" "zone_at s (F g) p = zone_at s (F f) q" "slot_index t = slot_index t0" by blast
        have "slot_fits q" using parent_ok q(1) t0(1) by blast
        then have "g = f \<and> p = q" using u2 [OF p _ nz q(2)] by blast
        then show ?r using slot_same [OF 2(1)] q by blast
      next
        assume ?r then show ?l using 2(1) by auto
      qed
      then show ?thesis using s' e(2) nz by (simp add: down_def)
    qed
  qed
qed

text \<open>Data blocks keep their bytes; the block of the new zone is clear.\<close>

lemma linked_grows:
  assumes ok: "disk_ok d s F" and sb: "get_super s = Some sb" and l: "linked s F f t0 z s' F'"
    and z: "\<not> marked s sb z" "z \<noteq> 0" "in_data sb z" and t0: "slot_fits t0" "zone_at s (F f) t0 = 0"
    and s': "get_super s' = Some sb" "current_time s' = current_time s"
    and m: "\<And>y. in_data sb y \<Longrightarrow> (marked s' sb y \<longleftrightarrow> y = z \<or> marked s sb y) \<and> zone_map s' sb y \<noteq> None"
    and F': "\<And>g. same_attributes (F g) (F' g)" "\<And>g. length (i_zone (F' g)) = 9"
    and b: "blocks s' z = (\<lambda>_. 0)"
      "\<And>y. y \<noteq> z \<Longrightarrow> (\<forall>p. parent t0 = Some p \<longrightarrow> y \<noteq> zone_at s (F f) p) \<Longrightarrow> blocks s' y = blocks s y"
  shows "disk_grows d s F s' F'"
proof -
  note za = linked_zone_at [OF ok sb l z(1,2) t0]
  note u1 = disk_ok_used(1) [OF ok sb] and o2 = disk_ok_used(2) [OF ok sb] and o1 = disk_ok_used(3) [OF ok sb]
    and u2 = disk_ok_unique(1) [OF ok]
  have fresh: "zone_at s (F g) t \<noteq> z" if "slot_fits t" for g t
    using u1 [OF that] z by metis
  have ok': "disk_ok d s' F'"
  proof (rule disk_okI [OF s'(1) o1])
    show "zone_map s' sb z \<noteq> None \<and> dev_reads d z \<and> dev_gets d z" if "in_data sb z" for z using m o2 that by blast
    show "length (i_zone (F' f)) = 9" for f by (rule F')
    show "in_data sb (zone_at s' (F' g) t) \<and> marked s' sb (zone_at s' (F' g) t)"
      if "slot_fits t" "zone_at s' (F' g) t \<noteq> 0" for g t
      using that za [of t g] u1 [of t g] m z by (auto split: if_splits)
    show "g = h \<and> t = u"
      if t: "slot_fits t" "slot_fits u" and a: "zone_at s' (F' g) t \<noteq> 0" "zone_at s' (F' g) t = zone_at s' (F' h) u" for g h t u
    proof -
      note e = a [unfolded za [OF t(1)] za [OF t(2)]]
      show ?thesis
      proof (cases "g = f \<and> t = t0")
        case True
        then show ?thesis using e fresh [OF t(2)] by (metis (full_types))
      next
        case False
        then have "\<not> (h = f \<and> u = t0)" using e fresh [OF t(1)] by (metis (full_types))
        then show ?thesis using e False u2 [OF t] by (metis (full_types))
      qed
    qed
  qed
  have byte: "byte_of s' (F' g) i = byte_of s (F g) i" if "0 \<le> i \<and> i < FILE_BYTES" for g i
  proof -
    let ?t = "block_slot (nat (i div BLOCK_SIZE))"
    have t: "slot_fits ?t" using that by (simp add: file_slot)
    show ?thesis
    proof (cases "g = f \<and> ?t = t0")
      case True
      then show ?thesis using za [OF t, of g] t0 b z by (simp add: byte_of_def Let_def)
    next
      case False
      then have zz: "zone_at s' (F' g) ?t = zone_at s (F g) ?t" using za [OF t, of g] by auto
      show ?thesis
      proof (cases "zone_at s (F g) ?t = 0")
        case nz: False
        have "zone_at s (F g) ?t \<noteq> zone_at s (F f) p" if "parent t0 = Some p" for p
        proof
          assume "zone_at s (F g) ?t = zone_at s (F f) p"
          then have "?t = p" using u2 [OF t _ nz] parent_ok [OF that t0(1)] by blast
          then show False using block_slot_leaf that by metis
        qed
        then show ?thesis using b(2) [OF fresh [OF t]] zz by (simp add: byte_of_def Let_def)
      qed (simp add: byte_of_def zz)
    qed
  qed
  show ?thesis
    unfolding disk_grows_def using ok ok' s' sb F' byte za t0 by auto
qed

section \<open>\<open>do_bmap\<close>\<close>

text \<open>
  One step of \<open>do_bmap\<close>: the zone in the slot \<open>t\<close> of the file \<open>f\<close> is \<open>z\<close> now. Without \<open>create\<close> nothing has changed, and with it
  the slot is empty on a full disk only.
\<close>

definition bmap_ok ::
  "device \<Rightarrow> bool \<Rightarrow> minix \<Rightarrow> ('f \<Rightarrow> m_inode) \<Rightarrow> 'f \<Rightarrow> slot \<Rightarrow> int \<Rightarrow> minix \<Rightarrow> m_inode \<Rightarrow> bool" where
  "bmap_ok d create s F f t z s' n' \<longleftrightarrow>
     disk_grows d s F s' (F(f := n')) \<and> z = zone_at s' n' t \<and> (\<not> create \<longrightarrow> s' = s \<and> n' = F f)
     \<and> (create \<and> z = 0 \<longrightarrow> disk_full s')"

lemma bmap_okD:
  "bmap_ok d create s F f t z s' n' \<Longrightarrow> disk_grows d s F s' (F(f := n'))"
  "bmap_ok d create s F f t z s' n' \<Longrightarrow> disk_ok d s' (F(f := n'))"
  "bmap_ok d create s F f t z s' n' \<Longrightarrow> z = zone_at s' n' t"
  by (simp_all add: bmap_ok_def disk_grows_def)

lemma data_zone_word:
  assumes "in_data sb z" and "z < 2 ^ 16"
  shows "uint (word_of_int z :: u16) = z"
proof -
  have "0 \<le> z" by (rule order_trans [OF uint_ge_0 [of "s_firstdatazone sb"]]) (use assms in \<open>simp add: in_data_def\<close>)
  then show ?thesis using assms(2) by (simp add: uint_word_of_int_eq take_bit_int_eq_self)
qed

lemma grows_linked_root:
  assumes ok: "disk_ok d s F" and k: "k < 9" and e: "new_block d s = (z, s')" and z: "z \<noteq> 0" and i: "i_zone (F f) ! k = 0"
    and n': "same_attributes (F f) n'" "i_zone n' = (i_zone (F f))[k := word_of_int z]"
  shows "disk_grows d s F s' (F(f := n')) \<and> uint (i_zone n' ! k) = z"
proof -
  obtain sb where sb: "get_super s = Some sb" by (rule disk_okD [OF ok])
  note len = disk_ok_unique(2) [OF ok]
  from new_block_cases [OF ok e sb] z have n: "in_data sb z" "z < 2 ^ 16" "\<not> marked s sb z" "get_super s' = Some sb"
    "current_time s' = current_time s" "blocks s' = (blocks s)(z := (\<lambda>_. 0))"
    "\<And>y. in_data sb y \<Longrightarrow> (marked s' sb y \<longleftrightarrow> y = z \<or> marked s sb y) \<and> zone_map s' sb y \<noteq> None"
    by simp_all
  have u: "uint (word_of_int z :: u16) = z" by (rule data_zone_word [OF n(1,2)])
  have lk: "linked s F f (Dir k) z s' (F(f := n'))"
    unfolding linked_def using n(6) u len [of f] n'(2) k by (auto simp: zone_number_def nth_list_update be_word16_def)
  have "disk_grows d s F s' (F(f := n'))"
    by (rule linked_grows [OF ok sb lk n(3) z n(1) _ _ n(4,5,7)]) (use n(6) n' len k i in auto)
  then show ?thesis using u n'(2) len [of f] k by simp
qed

lemma root_zone_ok:
  assumes ok: "disk_ok d s F" and k: "k < 9" and e: "root_zone d k create s (F f) = (z, s', n')"
  shows "bmap_ok d create s F f (Dir k) z s' n'"
proof (cases "create \<and> i_zone (F f) ! k = 0")
  case False
  then show ?thesis using e ok by (auto simp: root_zone_def bmap_ok_def grows_refl uint_0_iff)
next
  case True
  obtain y t where y: "new_block d s = (y, t)" by fastforce
  obtain sb where sb: "get_super s = Some sb" by (rule disk_okD [OF ok])
  note len = disk_ok_unique(2) [OF ok]
  show ?thesis
  proof (cases "y = 0")
    case y0: True
    have "(i_zone (F f))[k := 0] = i_zone (F f)" using True by (metis list_update_id)
    moreover have "t = s \<and> disk_full s" using new_block_cases [OF ok y sb] y0 sb by (auto simp: disk_full_def)
    ultimately show ?thesis using e True y y0 ok by (auto simp: root_zone_def Let_def bmap_ok_def grows_refl)
  next
    case False
    have n': "s' = t" "n' = F f\<lparr>i_zone := (i_zone (F f))[k := word_of_int y], i_ctime := current_time t, i_dirt := True\<rparr>"
      "z = uint (i_zone n' ! k)"
      using e True y False by (auto simp: root_zone_def Let_def)
    have "disk_grows d s F s' (F(f := n')) \<and> uint (i_zone n' ! k) = y"
      unfolding n'(1) by (rule grows_linked_root [OF ok k y False]) (use True n'(2) in \<open>auto simp: same_attributes_def\<close>)
    then show ?thesis using True n'(3) False by (simp add: bmap_ok_def)
  qed
qed

lemma entry_zone_ok:
  assumes ok: "disk_ok d s F" and t: "slot_fits t" "parent t = Some p" and b: "zone_at s (F f) p = b" "b \<noteq> 0"
    and e: "entry_zone d b (slot_index t) create s = (z, s')"
  shows "bmap_ok d create s F f t z s' (F f)"
proof -
  have za: "zone_at s (F f) t = zone_number s b (slot_index t)" using zone_at_parent [OF t(2)] b by (simp add: down_def)
  show ?thesis
  proof (cases "create \<and> zone_number s b (slot_index t) = 0")
    case False
    then show ?thesis using e ok za by (auto simp: entry_zone_def Let_def bmap_ok_def grows_refl)
  next
    case True
    obtain y s1 where y: "new_block d s = (y, s1)" by fastforce
    obtain sb where sb: "get_super s = Some sb" by (rule disk_okD [OF ok])
    note len = disk_ok_unique(2) [OF ok] and u = disk_ok_used(1) [OF ok sb]
    note cases = new_block_cases [OF ok y sb]
    show ?thesis
    proof (cases "y = 0")
      case y0: True
      then have "s1 = s \<and> disk_full s" using cases sb by (auto simp: disk_full_def)
      then show ?thesis using e True y y0 ok za by (auto simp: entry_zone_def Let_def bmap_ok_def grows_refl)
    next
      case False
      with cases have n: "in_data sb y" "y < 2 ^ 16" "\<not> marked s sb y" "get_super s1 = Some sb"
        "current_time s1 = current_time s" "blocks s1 = (blocks s)(y := (\<lambda>_. 0))"
        "\<And>x. in_data sb x \<Longrightarrow> (marked s1 sb x \<longleftrightarrow> x = y \<or> marked s sb x) \<and> zone_map s1 sb x \<noteq> None"
        by simp_all
      have s': "s' = set_entry b (slot_index t) (word_of_int y) s1" "z = y"
        using e True y False by (auto simp: entry_zone_def Let_def)
      have uy: "uint (word_of_int y :: u16) = y" by (rule data_zone_word [OF n(1,2)])
      have "marked s sb b" using u [of p f] b parent_ok [OF t(2,1)] by simp
      then have bny: "b \<noteq> y" using n(3) by auto
      have en: "zone_number s1 x k = (if x = y then 0 else zone_number s x k)" for x k
        using n(6) by (simp add: zone_number_def be_word16_def)
      have lk: "linked s F f t y s' (F(f := F f))"
        unfolding linked_def s'(1) using t b uy bny en by (cases t) auto
      have "disk_grows d s F s' (F(f := F f))"
      proof (rule linked_grows [OF ok sb lk n(3) False n(1) t(1)])
        show "marked s' sb x = (x = y \<or> marked s sb x) \<and> zone_map s' sb x \<noteq> None" if "in_data sb x" for x
          using n(7) [OF that] same_zmap [of s' s1] s'(1) by simp
      qed (use n(4-6) s' za True bny len t b in auto)
      moreover have "zone_at s' (F f) t = y"
        using linked_zone_at [OF ok sb lk n(3) False t(1) _ t(1), of f] za True by simp
      ultimately show ?thesis using True False s'(2) by (simp add: bmap_ok_def)
    qed
  qed
qed

lemma bmap_ok_trans:
  assumes a: "disk_grows d s F s1 (F(f := n1))" and b: "bmap_ok d create s1 (F(f := n1)) f t z s2 n2"
    and "\<not> create \<Longrightarrow> s1 = s \<and> n1 = F f"
  shows "bmap_ok d create s F f t z s2 n2"
  using assms disk_grows_trans [OF a, of s2 "F(f := n2)"] by (auto simp: bmap_ok_def)

text \<open>An empty parent, on a full disk when zones are wanted.\<close>

lemma bmap_ok_none:
  assumes "bmap_ok d create s F f p 0 s' n'" and "parent t = Some p"
  shows "bmap_ok d create s F f t 0 s' n'"
  using assms zone_at_parent [OF assms(2), of s' n'] by (auto simp: bmap_ok_def down_def)

lemma bmap_ok_checked:
  assumes "bmap_ok d create s F f t z s' n'" and "slot_fits t"
  shows "valid_zone s' z" "checked s' z = z" "z \<noteq> 0 \<Longrightarrow> dev_reads d z"
proof -
  have ok: "disk_ok d s' (F(f := n'))" and z: "z = zone_at s' ((F(f := n')) f) t" using bmap_okD [OF assms(1)] by simp_all
  obtain sb where "get_super s' = Some sb" "\<And>z. in_data sb z \<Longrightarrow> dev_reads d z"
    "zone_at s' ((F(f := n')) f) t \<noteq> 0 \<Longrightarrow> in_data sb (zone_at s' ((F(f := n')) f) t)"
    by (rule disk_okD [OF ok]) (use assms(2) in blast)
  then show "valid_zone s' z" "z \<noteq> 0 \<Longrightarrow> dev_reads d z" unfolding z by (auto simp: valid_zone_def)
  then show "checked s' z = z" by (simp add: checked_def)
qed

lemma bmap_ok_entry:
  assumes p: "bmap_ok d create s F f p b s1 n1" "b \<noteq> 0" and t: "slot_fits t" "parent t = Some p"
    and e: "entry_zone d b (slot_index t) create s1 = (z, s2)"
  shows "bmap_ok d create s F f t z s2 n1"
proof (rule bmap_ok_trans [OF bmap_okD(1) [OF p(1)]])
  show "bmap_ok d create s1 (F(f := n1)) f t z s2 n1"
    using entry_zone_ok [OF bmap_okD(2) [OF p(1)] t, of f b create z s2] bmap_okD(3) [OF p(1)] p(2) e by simp
qed (use p(1) in \<open>simp add: bmap_ok_def\<close>)

theorem do_bmap_ok:
  assumes ok: "disk_ok d s F" and b: "0 \<le> block" "block < 7 + 512 + 512 * 512"
  shows "\<exists>z s' n'. do_bmap d block create s (F f) = Some (z, s', n')
    \<and> bmap_ok d create s F f (block_slot (nat block)) z s' n'"
proof -
  have nt: "\<not> (block < 0 \<or> block \<ge> 7 + 512 + 512 * 512)" using b by simp
  consider (dir) "block < 7" | (ind) "7 \<le> block" "block < 519" | (dind) "519 \<le> block" by linarith
  then show ?thesis
  proof cases
    case dir
    obtain z s' n' where r: "root_zone d (nat block) create s (F f) = (z, s', n')" by (metis prod_cases3)
    have k: "nat block < 9" "nat block < 7" using dir b by simp_all
    have a: "bmap_ok d create s F f (Dir (nat block)) z s' n'" by (rule root_zone_ok [OF ok k(1) r])
    then show ?thesis
      using r k dir nt bmap_ok_checked(2) [OF a] by (simp add: do_bmap_def block_slot_def)
  next
    case ind
    obtain z s1 n1 where r: "root_zone d 7 create s (F f) = (z, s1, n1)" by (metis prod_cases3)
    define t where "t = Ind (nat (block - 7))"
    have t: "slot_fits t" "parent t = Some (Dir 7)" "block_slot (nat block) = t" "slot_index t = nat (block - 7)"
      using ind by (auto simp: t_def block_slot_def nat_diff_distrib)
    have a: "bmap_ok d create s F f (Dir 7) z s1 n1" by (rule root_zone_ok [OF ok _ r]) simp
    show ?thesis
    proof (cases "z = 0")
      case True
      then show ?thesis using bmap_ok_none [OF _ t(2)] a r ind nt t(3) by (fastforce simp: do_bmap_def)
    next
      case False
      obtain y s2 where e: "entry_zone d z (nat (block - 7)) create s1 = (y, s2)" by fastforce
      have c: "bmap_ok d create s F f t y s2 n1" by (rule bmap_ok_entry [OF a False t(1,2)]) (simp add: t(4) e)
      show ?thesis
        using bmap_ok_checked [OF a] bmap_ok_checked(2) [OF c t(1)] c False r e ind nt t(3)
        by (simp add: do_bmap_def)
    qed
  next
    case dind
    obtain z s1 n1 where r: "root_zone d 8 create s (F f) = (z, s1, n1)" by (metis prod_cases3)
    define c where "c = nat (block - 7 - 512)"
    define p t where "p = Dind (c div 512)" and "t = Leaf (c div 512) (c mod 512)"
    have "c < 512 * 512" using dind b by (simp add: c_def nat_less_iff)
    then have c: "c div 512 < 512" by (simp add: less_mult_imp_div_less)
    have c2: "nat block - 519 = c" "\<not> nat block < 7" "\<not> nat block < 519"
      using dind by (simp_all add: c_def nat_diff_distrib)
    have t: "slot_fits t" "parent t = Some p" "block_slot (nat block) = t" "slot_index t = c mod 512"
      and p: "slot_fits p" "parent p = Some (Dir 8)" "slot_index p = c div 512"
      using c by (simp_all add: p_def t_def block_slot_def c2)
    have a: "bmap_ok d create s F f (Dir 8) z s1 n1" by (rule root_zone_ok [OF ok _ r]) simp
    have nd: "\<not> block < 7" "\<not> block < 7 + 512" using dind by simp_all
    show ?thesis
    proof (cases "z = 0")
      case True
      then show ?thesis
        using bmap_ok_none [OF bmap_ok_none [OF _ p(2)] t(2)] a r nd nt t(3) by (fastforce simp: do_bmap_def)
    next
      case False
      obtain y s2 where e: "entry_zone d z (c div 512) create s1 = (y, s2)" by fastforce
      have q: "bmap_ok d create s F f p y s2 n1" by (rule bmap_ok_entry [OF a False p(1,2)]) (simp add: p(3) e)
      show ?thesis
      proof (cases "y = 0")
        case True
        then show ?thesis
          using bmap_ok_none [OF _ t(2)] bmap_ok_checked [OF a] q False r e nd nt t(3)
          by (fastforce simp: do_bmap_def c_def)
      next
        case y: False
        obtain x s3 where e3: "entry_zone d y (c mod 512) create s2 = (x, s3)" by fastforce
        have w: "bmap_ok d create s F f t x s3 n1" by (rule bmap_ok_entry [OF q y t(1,2)]) (simp add: t(4) e3)
        show ?thesis
          using bmap_ok_checked [OF a] bmap_ok_checked [OF q p(1)] bmap_ok_checked(2) [OF w t(1)] w False y r e e3 nd nt t(3)
          by (simp add: do_bmap_def c_def)
      qed
    qed
  qed
qed

end
