(* ===== verification/Minix_File.thy ===== *)
theory Minix_File
  imports Minix_Grow
begin

text \<open>
  Reading and writing of files (\<^verbatim>\<open>fs/file_dev.c\<close>) against what a user expects: every file is a list of bytes, a write
  replaces bytes of one file, a read gives them.
\<close>

declare read_loop.simps [simp del] write_loop.simps [simp del]

section \<open>Bytes of one block\<close>

lemma zone_at_cong: "i_zone m = i_zone n \<Longrightarrow> zone_at s m t = zone_at s n t"
  by (cases t) simp_all

lemma byte_of_cong:
  assumes "i_zone m = i_zone n"
  shows "byte_of s m i = byte_of s n i"
  by (simp only: byte_of_def zone_at_cong [OF assms])

lemma disk_ok_cong:
  assumes "disk_ok d s F" and "\<And>g. i_zone (F' g) = i_zone (F g)"
  shows "disk_ok d s F'"
proof (rule disk_ok_same [OF assms(1)])
  show "length (i_zone (F' g)) = 9" for g by (rule disk_okD [OF assms(1)]) (simp add: assms(2))
  show "zone_at s (F' g) t = zone_at s (F g) t" for g t by (rule zone_at_cong) (rule assms(2))
qed simp_all

lemma put_bytes_simps [simp]:
  "get_super (put_bytes z k bs s) = get_super s" "zmap (put_bytes z k bs s) = zmap s"
  "current_time (put_bytes z k bs s) = current_time s"
  "blocks (put_bytes z k bs s) y a = (if y = z \<and> k \<le> a \<and> a < k + length bs then bs ! (a - k) else blocks s y a)"
  by (simp_all add: put_bytes_def)

text \<open>A change to a block of data does not move zones.\<close>

lemma put_bytes_zone_at:
  assumes ok: "disk_ok d s F" and b: "b < FILE_BLOCKS" and z: "zone_at s (F f) (block_slot b) = z" "z \<noteq> 0" and t: "slot_fits t"
  shows "zone_at (put_bytes z k bs s) (F g) t = zone_at s (F g) t"
  using t
proof (induction t rule: slot_induct)
  case (2 t p)
  have p: "slot_fits p" using parent_ok 2 by blast
  have "zone_at s (F g) p \<noteq> z"
  proof
    assume eq: "zone_at s (F g) p = z"
    note u = disk_ok_unique(1) [OF ok]
    have "block_slot b = p" using u [OF block_slot_ok [OF b] p, of f g] z eq by simp
    then show False using block_slot_leaf 2(1) by metis
  qed
  then have "zone_number (put_bytes z k bs s) (zone_at s (F g) p) j = zone_number s (zone_at s (F g) p) j" for j
    by (simp add: zone_number_def)
  then show ?case using 2 p zone_at_parent [OF 2(1)] by (simp add: down_def)
qed simp

lemma put_bytes_ok:
  assumes ok: "disk_ok d s F" and b: "b < FILE_BLOCKS" and z: "zone_at s (F f) (block_slot b) = z" "z \<noteq> 0"
  shows "disk_ok d (put_bytes z k bs s) F"
proof (rule disk_ok_same [OF ok])
  show "length (i_zone (F g)) = 9" for g by (rule disk_okD [OF ok])
  show "zone_map (put_bytes z k bs s) = zone_map s" "marked (put_bytes z k bs s) = marked s"
    using same_zmap [of "put_bytes z k bs s" s] by simp_all
qed (simp_all add: put_bytes_zone_at [OF ok b z])

lemma put_bytes_byte_of:
  assumes ok: "disk_ok d s F" and p: "0 \<le> p" "p < FILE_BYTES"
    and z: "zone_at s (F f) (block_slot (nat (p div BLOCK_SIZE))) = z" "z \<noteq> 0"
    and k: "nat (p mod BLOCK_SIZE) + length bs \<le> 1024" and i: "0 \<le> i" "i < FILE_BYTES"
  shows "byte_of (put_bytes z (nat (p mod BLOCK_SIZE)) bs s) (F g) i =
    (if g = f \<and> p \<le> i \<and> i < p + int (length bs) then bs ! nat (i - p) else byte_of s (F g) i)"
proof -
  let ?s = "put_bytes z (nat (p mod BLOCK_SIZE)) bs s" and ?t = "block_slot (nat (i div BLOCK_SIZE))"
  have t: "slot_fits ?t" by (rule file_slot [OF i])
  have tp: "slot_fits (block_slot (nat (p div BLOCK_SIZE)))" by (rule file_slot [OF p])
  have za: "zone_at ?s (F g) ?t = zone_at s (F g) ?t"
    by (rule put_bytes_zone_at [OF ok file_block(1) [OF p] z t])
  have div: "p = 1024 * (p div BLOCK_SIZE) + p mod BLOCK_SIZE" "i = 1024 * (i div BLOCK_SIZE) + i mod BLOCK_SIZE"
    "0 \<le> p mod BLOCK_SIZE" "0 \<le> i mod BLOCK_SIZE" "i mod BLOCK_SIZE < 1024"
    by (simp_all add: BLOCK_SIZE_def)
  show ?thesis
  proof (cases "zone_at s (F g) ?t = z")
    case True
    note u = disk_ok_unique(1) [OF ok]
    have "g = f" "block_slot (nat (p div BLOCK_SIZE)) = ?t" using u [OF tp t, of f g] z True by simp_all
    then have "nat (p div BLOCK_SIZE) = nat (i div BLOCK_SIZE)" using block_slot_inj by blast
    then have same: "p div BLOCK_SIZE = i div BLOCK_SIZE"
      using file_block(2) [OF p] file_block(2) [OF i] by simp
    have "nat (p mod BLOCK_SIZE) \<le> nat (i mod BLOCK_SIZE) \<and> nat (i mod BLOCK_SIZE) < nat (p mod BLOCK_SIZE) + length bs
        \<longleftrightarrow> p \<le> i \<and> i < p + int (length bs)"
      using div same by linarith
    moreover have "nat (i mod BLOCK_SIZE) - nat (p mod BLOCK_SIZE) = nat (i - p)" using div same by linarith
    ultimately show ?thesis using \<open>g = f\<close> True z(2) za by (simp add: byte_of_def Let_def)
  next
    case False
    have "\<not> (g = f \<and> p \<le> i \<and> i < p + int (length bs))"
    proof
      assume a: "g = f \<and> p \<le> i \<and> i < p + int (length bs)"
      then have "i div BLOCK_SIZE = p div BLOCK_SIZE"
        using div k by linarith
      then show False using False z a by simp
    qed
    then show ?thesis using False za by (auto simp: byte_of_def Let_def)
  qed
qed

section \<open>Writing\<close>

text \<open>The bytes \<open>bs\<close> have been written at the position \<open>pos\<close> of the file \<open>f\<close>.\<close>

definition writes ::
  "device \<Rightarrow> minix \<Rightarrow> ('f \<Rightarrow> m_inode) \<Rightarrow> 'f \<Rightarrow> int \<Rightarrow> u8 list \<Rightarrow> minix \<Rightarrow> m_inode \<Rightarrow> bool" where
  "writes d s F f pos bs s' n' \<longleftrightarrow>
     disk_ok d s' (F(f := n')) \<and> get_super s' = get_super s \<and> current_time s' = current_time s
     \<and> (\<forall>g i. 0 \<le> i \<and> i < FILE_BYTES \<longrightarrow>
          byte_of s' ((F(f := n')) g) i =
            (if g = f \<and> pos \<le> i \<and> i < pos + int (length bs) then bs ! nat (i - pos) else byte_of s (F g) i))
     \<and> (\<forall>g t. slot_fits t \<and> zone_at s (F g) t \<noteq> 0 \<longrightarrow> zone_at s' ((F(f := n')) g) t = zone_at s (F g) t)
     \<and> uint (i_size n') =
         (if bs = [] then uint (i_size (F f)) else max (uint (i_size (F f))) (pos + int (length bs)))
     \<and> i_mode n' = i_mode (F f) \<and> i_uid n' = i_uid (F f) \<and> i_gid n' = i_gid (F f) \<and> i_nlinks n' = i_nlinks (F f)"

lemma writesD:
  assumes "writes d s F f pos bs s' n'"
  shows "disk_ok d s' (F(f := n'))"
    and "0 \<le> i \<Longrightarrow> i < FILE_BYTES \<Longrightarrow> byte_of s' ((F(f := n')) g) i =
      (if g = f \<and> pos \<le> i \<and> i < pos + int (length bs) then bs ! nat (i - pos) else byte_of s (F g) i)"
    and "uint (i_size n') = (if bs = [] then uint (i_size (F f)) else max (uint (i_size (F f))) (pos + int (length bs)))"
    and "slot_fits t \<Longrightarrow> zone_at s (F g) t \<noteq> 0 \<Longrightarrow> zone_at s' ((F(f := n')) g) t = zone_at s (F g) t"
  using assms unfolding writes_def by blast+

lemma grows_writes:
  assumes "disk_grows d s F s' (F(f := n'))"
  shows "writes d s F f pos [] s' n'"
proof -
  have "same_attributes (F f) ((F(f := n')) f)" using assms unfolding disk_grows_def by blast
  moreover have "(if g = f \<and> pos \<le> i \<and> i < pos + int (length []) then x else y) = y" for g i and x y :: u8 by auto
  ultimately show ?thesis
    using assms unfolding writes_def disk_grows_def same_attributes_def by (simp del: fun_upd_apply add: fun_upd_same)
qed

lemma writes_trans:
  assumes a: "writes d s F f pos xs s1 n1" and b: "writes d s1 (F(f := n1)) f (pos + int (length xs)) ys s2 n2"
  shows "writes d s F f pos (xs @ ys) s2 n2"
  unfolding writes_def
proof (intro conjI allI impI)
  fix g i assume i: "0 \<le> i \<and> i < FILE_BYTES"
  have "(xs @ ys) ! nat (i - pos) = ys ! nat (i - (pos + int (length xs)))" if "pos + int (length xs) \<le> i"
  proof -
    have "nat (i - (pos + int (length xs))) = nat (i - pos) - length xs" "\<not> nat (i - pos) < length xs" using that by simp_all
    then show ?thesis by (simp add: nth_append)
  qed
  moreover have "(xs @ ys) ! nat (i - pos) = xs ! nat (i - pos)" if "pos \<le> i" "i < pos + int (length xs)"
    using that by (simp add: nth_append nat_less_iff)
  moreover have "byte_of s2 ((F(f := n2)) g) i =
      (if g = f \<and> pos + int (length xs) \<le> i \<and> i < pos + int (length xs) + int (length ys)
       then ys ! nat (i - (pos + int (length xs))) else byte_of s1 ((F(f := n1)) g) i)"
    using b i unfolding writes_def by simp
  moreover have "byte_of s1 ((F(f := n1)) g) i =
      (if g = f \<and> pos \<le> i \<and> i < pos + int (length xs) then xs ! nat (i - pos) else byte_of s (F g) i)"
    using a i unfolding writes_def by blast
  ultimately show "byte_of s2 ((F(f := n2)) g) i =
      (if g = f \<and> pos \<le> i \<and> i < pos + int (length (xs @ ys)) then (xs @ ys) ! nat (i - pos) else byte_of s (F g) i)"
    by (auto simp: not_le)
next
  show "zone_at s2 ((F(f := n2)) g) t = zone_at s (F g) t" if "slot_fits t \<and> zone_at s (F g) t \<noteq> 0" for g t
    using that writesD(4) [OF a, of t g] writesD(4) [OF b, of t g] by (metis fun_upd_apply)
next
  show "disk_ok d s2 (F(f := n2))" "get_super s2 = get_super s" "current_time s2 = current_time s"
    "i_mode n2 = i_mode (F f)" "i_uid n2 = i_uid (F f)" "i_gid n2 = i_gid (F f)" "i_nlinks n2 = i_nlinks (F f)"
    using a b by (simp_all add: writes_def)
  have "uint (i_size n1) = (if xs = [] then uint (i_size (F f)) else max (uint (i_size (F f))) (pos + int (length xs)))"
    "uint (i_size n2) =
       (if ys = [] then uint (i_size n1) else max (uint (i_size n1)) (pos + int (length xs) + int (length ys)))"
    using a b by (simp_all add: writes_def)
  then show "uint (i_size n2) =
      (if xs @ ys = [] then uint (i_size (F f)) else max (uint (i_size (F f))) (pos + int (length (xs @ ys))))"
    by (auto simp: max_def)
qed

text \<open>One round of the loop.\<close>

definition bump_size :: "int \<Rightarrow> m_inode \<Rightarrow> m_inode" where
  "bump_size pos n = (if pos > uint (i_size n) then n\<lparr>i_size := word_of_int pos, i_dirt := True\<rparr> else n)"

lemma bump_size_simps [simp]:
  "i_zone (bump_size pos n) = i_zone n" "i_mode (bump_size pos n) = i_mode n" "i_uid (bump_size pos n) = i_uid n"
  "i_gid (bump_size pos n) = i_gid n" "i_nlinks (bump_size pos n) = i_nlinks n"
  by (simp_all add: bump_size_def)

lemma bump_size_size: "0 \<le> pos \<Longrightarrow> pos < 2 ^ 32 \<Longrightarrow> uint (i_size (bump_size pos n)) = max (uint (i_size n)) pos"
  by (simp add: bump_size_def uint_word_of_int_eq take_bit_int_eq_self)

lemma put_bytes_writes:
  assumes ok: "disk_ok d s F" and p: "0 \<le> p" "p + int (length bs) \<le> FILE_BYTES" "bs \<noteq> []"
    and z: "zone_at s (F f) (block_slot (nat (p div BLOCK_SIZE))) = z" "z \<noteq> 0"
    and k: "nat (p mod BLOCK_SIZE) + length bs \<le> 1024"
  shows "writes d s F f p bs (put_bytes z (nat (p mod BLOCK_SIZE)) bs s) (bump_size (p + int (length bs)) (F f))"
proof -
  have "0 < int (length bs)" using p(3) by simp
  then have p2: "p < FILE_BYTES" using p(2) by linarith
  have p3: "p + int (length bs) < 2 ^ 32" using p(2) by (simp add: FILE_BYTES_def)
  let ?s = "put_bytes z (nat (p mod BLOCK_SIZE)) bs s" and ?n = "bump_size (p + int (length bs)) (F f)"
  have iz: "i_zone ((F(f := ?n)) g) = i_zone (F g)" for g by simp
  have "disk_ok d ?s F" by (rule put_bytes_ok [OF ok file_block(1) [OF p(1) p2] z])
  then have "disk_ok d ?s (F(f := ?n))" by (rule disk_ok_cong) (rule iz)
  then show ?thesis
    unfolding writes_def using put_bytes_byte_of [OF ok p(1) p2 z k] p(1,3) p3
      put_bytes_zone_at [OF ok file_block(1) [OF p(1) p2] z]
    by (simp add: byte_of_cong [OF iz] zone_at_cong [OF iz] bump_size_size del: fun_upd_apply)
qed

theorem write_loop_ok:
  assumes "disk_ok d s F" and "n = F f" and "0 \<le> pos" and "pos + int (length buf) \<le> FILE_BYTES"
  shows "\<exists>r s' n'. write_loop d s n pos buf i = Some (i + int r, pos + int r, s', n') \<and> r \<le> length buf
    \<and> (r < length buf \<longrightarrow> disk_full s') \<and> writes d s F f pos (take r buf) s' n'"
  using assms
proof (induction "length buf" arbitrary: s n pos buf i F rule: less_induct)
  case less
  note ok = less.prems(1) and n = less.prems(2) and p0 = less.prems(3) and fits = less.prems(4)
  show ?case
  proof (cases "buf = []")
    case True
    have "disk_grows d s F s (F(f := F f))" using grows_refl [OF ok] by simp
    then have "writes d s F f pos [] s n" unfolding n by (rule grows_writes)
    then show ?thesis using True by (intro exI [of _ 0] exI [of _ s] exI [of _ n]) (simp add: write_loop.simps)
  next
    case False
    then have len: "0 < length buf" by simp
    then have p: "pos < FILE_BYTES" using fits by linarith
    let ?b = "pos sdiv BLOCK_SIZE" and ?k = "pos smod BLOCK_SIZE"
    have sd: "?b = pos div BLOCK_SIZE" "?k = pos mod BLOCK_SIZE"
      using p0 by (simp_all add: BLOCK_SIZE_def signed_divide_int_def sgn_if smod_int_alt_def)
    have k: "0 \<le> ?k" "?k < 1024" unfolding sd by (simp_all add: BLOCK_SIZE_def)
    from do_bmap_ok [OF ok file_block(2,3) [OF p0 p], of True f] obtain z s1 n1
      where e: "do_bmap d ?b True s n = Some (z, s1, n1)"
        and m: "bmap_ok d True s F f (block_slot (nat (pos div BLOCK_SIZE))) z s1 n1"
      unfolding sd n by blast
    have w1: "writes d s F f pos [] s1 n1" by (rule grows_writes [OF bmap_okD(1) [OF m]])
    note slot = file_slot [OF p0 p]
    show ?thesis
    proof (cases "z = 0")
      case True
      then have "disk_full s1" using m by (simp add: bmap_ok_def)
      then show ?thesis using True False e w1
        by (intro exI [of _ 0] exI [of _ s1] exI [of _ n1]) (simp add: create_block_def write_loop.simps)
    next
      case z: False
      have rd: "dev_reads d z" by (rule bmap_ok_checked(3) [OF m slot z])
      define c where "c = min (BLOCK_SIZE - ?k) (int (length buf))"
      have c: "0 < c" "c \<le> int (length buf)" "c \<le> 1024 - ?k" using k len by (auto simp: c_def BLOCK_SIZE_def)
      define s2 n2 where "s2 = put_bytes z (nat ?k) (take (nat c) buf) s1" and "n2 = bump_size (pos + c) n1"
      have lc: "length (take (nat c) buf) = nat c" "int (nat c) = c" using c by simp_all
      have "writes d s1 (F(f := n1)) f pos (take (nat c) buf) s2 (bump_size (pos + int (length (take (nat c) buf))) ((F(f := n1)) f))"
        unfolding s2_def sd(2)
      proof (rule put_bytes_writes [OF bmap_okD(2) [OF m] p0])
        show "nat (pos mod BLOCK_SIZE) + length (take (nat c) buf) \<le> 1024" using c k unfolding lc sd by linarith
        show "zone_at s1 ((F(f := n1)) f) (block_slot (nat (pos div BLOCK_SIZE))) = z" using bmap_okD(3) [OF m] by simp
      qed (use fits c z False in \<open>simp_all add: lc\<close>)
      then have w2: "writes d s1 (F(f := n1)) f (pos + int (length ([] :: u8 list))) (take (nat c) buf) s2 n2"
        by (simp only: lc n2_def fun_upd_same list.size(3) semiring_1_class.of_nat_0 add_0_right)
      have w: "writes d s F f pos (take (nat c) buf) s2 n2" using writes_trans [OF w1 w2] by simp
      have loop: "write_loop d s n pos buf i = write_loop d s2 n2 (pos + c) (drop (nat c) buf) (i + c)"
        using False z rd e
        by (subst write_loop.simps) (simp add: create_block_def s2_def n2_def bump_size_def c_def Let_def)
      have "\<exists>r s' n'. write_loop d s2 n2 (pos + c) (drop (nat c) buf) (i + c) = Some (i + c + int r, pos + c + int r, s', n')
          \<and> r \<le> length (drop (nat c) buf) \<and> (r < length (drop (nat c) buf) \<longrightarrow> disk_full s')
          \<and> writes d s2 (F(f := n2)) f (pos + c) (take r (drop (nat c) buf)) s' n'"
      proof (rule less.hyps)
        show "disk_ok d s2 (F(f := n2))" using w by (simp add: writes_def)
      qed (use c len p0 fits in auto)
      then obtain r s' n' where r: "write_loop d s2 n2 (pos + c) (drop (nat c) buf) (i + c) = Some (i + c + int r, pos + c + int r, s', n')"
        "r \<le> length (drop (nat c) buf)" "r < length (drop (nat c) buf) \<longrightarrow> disk_full s'"
        "writes d s2 (F(f := n2)) f (pos + c) (take r (drop (nat c) buf)) s' n'"
        by blast
      have "writes d s F f pos (take (nat c) buf @ take r (drop (nat c) buf)) s' n'"
        by (rule writes_trans [OF w]) (use r(4) in \<open>simp only: lc\<close>)
      then have "writes d s F f pos (take (nat c + r) buf) s' n'" by (simp only: take_add)
      then show ?thesis
        using r(1-3) c(1,2) unfolding loop
        by (intro exI [of _ "nat c + r"] exI [of _ s'] exI [of _ n']) (auto simp: nat_le_iff)
    qed
  qed
qed

section \<open>Reading\<close>

text \<open>\<open>c\<close> bytes from the position \<open>pos\<close> on.\<close>

definition bytes_at :: "minix \<Rightarrow> m_inode \<Rightarrow> int \<Rightarrow> nat \<Rightarrow> u8 list" where
  "bytes_at s n pos c = map (\<lambda>j. byte_of s n (pos + int j)) [0..<c]"

lemma bytes_at_simps [simp]: "length (bytes_at s n pos c) = c" "j < c \<Longrightarrow> bytes_at s n pos c ! j = byte_of s n (pos + int j)"
  by (simp_all add: bytes_at_def)

lemma bytes_at_add: "bytes_at s n pos (a + b) = bytes_at s n pos a @ bytes_at s n (pos + int a) b"
  by (rule nth_equalityI) (auto simp: nth_append)

lemma bytes_at_block:
  assumes z: "zone_at s n (block_slot (nat (pos div BLOCK_SIZE))) = z" and c: "nat (pos mod BLOCK_SIZE) + c \<le> 1024"
  shows "bytes_at s n pos c = (if z \<noteq> 0 then block_bytes s z (nat (pos mod BLOCK_SIZE)) c else replicate c 0)"
proof (rule nth_equalityI)
  fix j assume "j < length (bytes_at s n pos c)"
  then have j: "j < c" by simp
  let ?q = "pos div 1024" and ?k = "pos mod 1024"
  have "pos + int j = 1024 * ?q + (?k + int j)" "0 \<le> ?k" "?k + int j < 1024" using j c by (simp_all add: BLOCK_SIZE_def)
  then have "(pos + int j) div 1024 = ?q" "(pos + int j) mod 1024 = ?k + int j" "0 \<le> ?k"
    using int_div_pos_eq [of "pos + int j" 1024 ?q "?k + int j"] int_mod_pos_eq [of "pos + int j" 1024 ?q "?k + int j"] by simp_all
  then have "byte_of s n (pos + int j) = (if z = 0 then 0 else blocks s z (nat ?k + j))"
    using z by (simp add: byte_of_def Let_def BLOCK_SIZE_def nat_add_distrib)
  then show "bytes_at s n pos c ! j = (if z \<noteq> 0 then block_bytes s z (nat (pos mod BLOCK_SIZE)) c else replicate c 0) ! j"
    using j by (simp add: block_bytes_def BLOCK_SIZE_def)
qed (simp add: block_bytes_def)

lemma read_loop_ok:
  assumes ok: "disk_ok d s F" and "0 \<le> pos" and "0 \<le> left" and "pos + left \<le> FILE_BYTES"
  shows "read_loop d s (F f) left pos out = Some (0, pos + left, out @ bytes_at s (F f) pos (nat left))"
  using assms(2-)
proof (induction "nat left" arbitrary: left pos out rule: less_induct)
  case less
  show ?case
  proof (cases "left = 0")
    case True
    then show ?thesis by (simp add: bytes_at_def read_loop.simps)
  next
    case False
    then have left: "0 < left" "0 \<le> pos" "pos < FILE_BYTES" using less.prems by simp_all
    let ?b = "pos sdiv BLOCK_SIZE" and ?k = "pos smod BLOCK_SIZE"
    have sd: "?b = pos div BLOCK_SIZE" "?k = pos mod BLOCK_SIZE"
      using left by (simp_all add: BLOCK_SIZE_def signed_divide_int_def sgn_if smod_int_alt_def)
    have k: "0 \<le> ?k" "?k < 1024" unfolding sd by (simp_all add: BLOCK_SIZE_def)
    from do_bmap_ok [OF ok file_block(2,3) [OF left(2,3)], of False f] obtain z
      where e: "do_bmap d ?b False s (F f) = Some (z, s, F f)"
        and m: "bmap_ok d False s F f (block_slot (nat (pos div BLOCK_SIZE))) z s (F f)"
      unfolding sd bmap_ok_def by auto
    have rd: "z \<noteq> 0 \<Longrightarrow> dev_reads d z" by (rule bmap_ok_checked(3) [OF m file_slot [OF left(2,3)]])
    define c where "c = min (BLOCK_SIZE - ?k) left"
    have c: "0 < c" "c \<le> left" "c \<le> 1024 - ?k" using k left by (auto simp: c_def BLOCK_SIZE_def)
    have loop: "read_loop d s (F f) left pos out = read_loop d s (F f) (left - c) (pos + c) (out @ bytes_at s (F f) pos (nat c))"
    proof -
      have "bytes_at s (F f) pos (nat c) = (if z \<noteq> 0 then block_bytes s z (nat ?k) (nat c) else replicate (nat c) 0)"
        unfolding sd
        by (rule bytes_at_block) (use c k m in \<open>auto simp: sd [symmetric] bmap_ok_def nat_add_distrib [symmetric] nat_le_iff\<close>)
      then show ?thesis
        using left rd e by (subst read_loop.simps) (auto simp: bmap_def c_def [symmetric] Let_def)
    qed
    have "read_loop d s (F f) (left - c) (pos + c) (out @ bytes_at s (F f) pos (nat c)) =
        Some (0, pos + c + (left - c), (out @ bytes_at s (F f) pos (nat c)) @ bytes_at s (F f) (pos + c) (nat (left - c)))"
      by (rule less.hyps) (use c left less.prems in auto)
    moreover have "bytes_at s (F f) pos (nat left) = bytes_at s (F f) pos (nat c) @ bytes_at s (F f) (pos + c) (nat (left - c))"
      using bytes_at_add [of s "F f" pos "nat c" "nat (left - c)"] c by (simp add: nat_add_distrib [symmetric])
    ultimately show ?thesis unfolding loop by simp
  qed
qed

section \<open>Files as lists\<close>

definition contents :: "minix \<Rightarrow> m_inode \<Rightarrow> u8 list" where
  "contents s n = bytes_at s n 0 (unat (i_size n))"

text \<open>A file of a size it can have, with nothing but zeros behind its end.\<close>

definition tidy :: "minix \<Rightarrow> m_inode \<Rightarrow> bool" where
  "tidy s n \<longleftrightarrow>
     uint (i_size n) \<le> FILE_BYTES \<and> (\<forall>i. uint (i_size n) \<le> i \<and> i < FILE_BYTES \<longrightarrow> byte_of s n i = 0)"

text \<open>A list in which \<open>bs\<close> replaces what is at \<open>p\<close>; a gap before \<open>p\<close> is filled with zeros.\<close>

definition overwrite :: "nat \<Rightarrow> u8 list \<Rightarrow> u8 list \<Rightarrow> u8 list" where
  "overwrite p bs xs =
     (if bs = [] then xs else take p (xs @ replicate (p - length xs) 0) @ bs @ drop (p + length bs) xs)"

lemma overwrite_length: "length (overwrite p bs xs) = (if bs = [] then length xs else max (length xs) (p + length bs))"
  by (auto simp: overwrite_def)

lemma overwrite_nth:
  assumes "i < length (overwrite p bs xs)"
  shows "overwrite p bs xs ! i =
    (if p \<le> i \<and> i < p + length bs then bs ! (i - p) else if i < length xs then xs ! i else 0)"
proof (cases "bs = []")
  case False
  consider "i < p" | "p \<le> i" "i < p + length bs" | "p + length bs \<le> i" by linarith
  then show ?thesis using assms False by cases (auto simp: overwrite_def nth_append min_def)
qed (use assms in \<open>auto simp: overwrite_def\<close>)

lemma uint_unat_eq: "uint (w :: u32) = int (unat w)"
  by simp

lemma contents_overwrite:
  assumes w: "writes d s F f pos bs s' n'" and t: "tidy s (F f)" and p: "0 \<le> pos" "pos + int (length bs) \<le> FILE_BYTES"
  shows "contents s' n' = overwrite (nat pos) bs (contents s (F f))" and "tidy s' n'"
proof -
  let ?m = "unat (i_size (F f))"
  have sz: "uint (i_size n') = (if bs = [] then int ?m else max (int ?m) (pos + int (length bs)))"
    using writesD(3) [OF w] by simp
  have byte: "byte_of s' n' i = (if pos \<le> i \<and> i < pos + int (length bs) then bs ! nat (i - pos) else byte_of s (F f) i)"
    if "0 \<le> i" "i < FILE_BYTES" for i
    using writesD(2) [OF w that, of f] by simp
  have zero: "\<And>i. int ?m \<le> i \<Longrightarrow> i < FILE_BYTES \<Longrightarrow> byte_of s (F f) i = 0" and mm: "int ?m \<le> FILE_BYTES"
    using t unfolding tidy_def by auto
  have fits: "uint (i_size n') \<le> FILE_BYTES" using sz mm p by auto
  have len: "unat (i_size n') = length (overwrite (nat pos) bs (contents s (F f)))"
  proof (cases "bs = []")
    case True
    then have "int (unat (i_size n')) = int ?m" using sz by (simp only: uint_unat_eq if_True simp_thms)
    then have "unat (i_size n') = ?m" by linarith
    then show ?thesis using True by (simp add: overwrite_length contents_def)
  next
    case False
    then have "int (unat (i_size n')) = max (int ?m) (pos + int (length bs))" using sz by (simp only: uint_unat_eq if_False)
    then have "unat (i_size n') = max ?m (nat pos + length bs)" using p(1) by arith
    then show ?thesis using False by (simp add: overwrite_length contents_def)
  qed
  show "contents s' n' = overwrite (nat pos) bs (contents s (F f))"
  proof (rule nth_equalityI)
    fix i assume "i < length (contents s' n')"
    then have i: "i < unat (i_size n')" by (simp add: contents_def)
    then have "int i < FILE_BYTES" using fits unfolding uint_unat_eq by linarith
    moreover have "byte_of s (F f) (int i) = 0" if "\<not> i < ?m" by (rule zero) (use that calculation in linarith)+
    ultimately show "contents s' n' ! i = overwrite (nat pos) bs (contents s (F f)) ! i"
      using i byte [of "int i"] p(1) unfolding len overwrite_nth [OF i [unfolded len]]
      by (auto simp: contents_def len nat_le_iff nat_less_iff less_diff_conv2 nat_diff_distrib le_nat_iff)
  qed (simp add: contents_def len)
  show "tidy s' n'"
    unfolding tidy_def
  proof (intro conjI allI impI fits)
    fix i assume i: "uint (i_size n') \<le> i \<and> i < FILE_BYTES"
    then have "int ?m \<le> i" "\<not> (pos \<le> i \<and> i < pos + int (length bs))" using sz by (auto split: if_splits)
    moreover have "0 \<le> i" using i uint_ge_0 [of "i_size n'"] by linarith
    ultimately show "byte_of s' n' i = 0" using i byte [of i] zero [of i] by metis
  qed
qed

lemma contents_other:
  assumes w: "writes d s F f pos bs s' n'" and t: "tidy s (F g)" and g: "g \<noteq> f"
  shows "contents s' (F g) = contents s (F g)" and "tidy s' (F g)"
proof -
  have byte: "byte_of s' (F g) i = byte_of s (F g) i" if "0 \<le> i" "i < FILE_BYTES" for i
    using writesD(2) [OF w that, of g] g by simp
  have m: "uint (i_size (F g)) \<le> FILE_BYTES" using t by (simp add: tidy_def)
  show "contents s' (F g) = contents s (F g)"
  proof (rule nth_equalityI)
    fix i assume "i < length (contents s' (F g))"
    then have i: "i < unat (i_size (F g))" by (simp add: contents_def)
    then have "int i < FILE_BYTES" using m unfolding uint_unat_eq by linarith
    then show "contents s' (F g) ! i = contents s (F g) ! i" using i byte by (simp add: contents_def)
  qed (simp add: contents_def)
  show "tidy s' (F g)"
    using t byte unfolding tidy_def by (metis order_trans uint_ge_0)
qed

section \<open>\<open>file_read\<close> and \<open>file_write\<close>\<close>

definition put_contents :: "'f \<Rightarrow> nat \<Rightarrow> u8 list \<Rightarrow> ('f \<Rightarrow> u8 list) \<Rightarrow> 'f \<Rightarrow> u8 list" where
  "put_contents f p bs C = C(f := overwrite p bs (C f))"

definition write_pos :: "m_inode \<Rightarrow> file_ptr \<Rightarrow> int" where
  "write_pos n filp = (if f_flags filp AND O_APPEND \<noteq> 0 then uint (i_size n) else f_pos filp)"

lemma writes_zones:
  assumes "writes d s F f pos bs s' n'" and "i_zone m = i_zone n'" and "i_size m = i_size n'" and "i_mode m = i_mode n'"
    and "i_uid m = i_uid n'" and "i_gid m = i_gid n'" and "i_nlinks m = i_nlinks n'"
  shows "writes d s F f pos bs s' m"
proof -
  have iz: "i_zone ((F(f := m)) g) = i_zone ((F(f := n')) g)" for g using assms(2) by simp
  have "disk_ok d s' (F(f := m))" by (rule disk_ok_cong [OF writesD(1) [OF assms(1)]]) (rule iz)
  then show ?thesis
    using assms unfolding writes_def byte_of_cong [OF iz] zone_at_cong [OF iz] by simp
qed

text \<open>What \<^verbatim>\<open>file_write\<close> does to the disk, and what it returns.\<close>

lemma file_write_ok:
  assumes ok: "disk_ok d s F" and pos: "0 \<le> write_pos (F f) filp" "write_pos (F f) filp + int (length buf) \<le> FILE_BYTES"
  shows "\<exists>r s' n'. r \<le> length buf \<and> (r < length buf \<longrightarrow> disk_full s')
    \<and> writes d s F f (write_pos (F f) filp) (take r buf) s' n'
    \<and> file_write d s (F f) filp buf =
        Some (if r \<noteq> 0 then int r else - 1, s', n',
          if f_flags filp AND O_APPEND \<noteq> 0 then filp else filp\<lparr>f_pos := write_pos (F f) filp + int r\<rparr>)"
proof -
  obtain r s' n1 where w: "write_loop d s (F f) (write_pos (F f) filp) buf 0 = Some (0 + int r, write_pos (F f) filp + int r, s', n1)"
    "r \<le> length buf" "r < length buf \<longrightarrow> disk_full s'" "writes d s F f (write_pos (F f) filp) (take r buf) s' n1"
    using write_loop_ok [OF ok refl pos, where i = 0] by blast
  define n2 where "n2 = n1\<lparr>i_mtime := current_time s'\<rparr>"
  define n' where "n' = (if f_flags filp AND O_APPEND \<noteq> 0 then n2 else n2\<lparr>i_ctime := current_time s'\<rparr>)"
  have "writes d s F f (write_pos (F f) filp) (take r buf) s' n'"
    by (rule writes_zones [OF w(4)]) (simp_all add: n'_def n2_def)
  moreover have "file_write d s (F f) filp buf = Some (if r \<noteq> 0 then int r else - 1, s', n',
      if f_flags filp AND O_APPEND \<noteq> 0 then filp else filp\<lparr>f_pos := write_pos (F f) filp + int r\<rparr>)"
    using w(1) by (simp add: file_write_def write_pos_def Let_def n'_def n2_def split: if_splits)
  ultimately show ?thesis using w(2,3) by blast
qed

text \<open>A disk with ten zones and no files' data on it, for examples.\<close>

lemma zone_at_empty: "i_zone n = replicate 9 0 \<Longrightarrow> slot_fits t \<Longrightarrow> zone_at s n t = 0"
  by (cases t) (simp_all add: down_def)

definition demo_device :: device where "demo_device = \<lparr>dev_reads = (\<lambda>_. True), dev_gets = (\<lambda>_. True)\<rparr>"

definition demo_super :: super_block where
  "demo_super = \<lparr>s_ninodes = 8, s_nzones = 20, s_imap_blocks = 1, s_zmap_blocks = 1, s_firstdatazone = 10, s_log_zone_size = 0,
     s_max_size = 0x10081C00, s_magic = 0x137F\<rparr>"
definition demo_disk :: minix where
  "demo_disk = \<lparr>get_super = Some demo_super, zmap = (\<lambda>i. if i = 0 then Some (\<lambda>_. 0) else None), blocks = (\<lambda>_ _. 0), current_time = 7\<rparr>"
definition demo_inode :: m_inode where
  "demo_inode = \<lparr>i_mode = 0x81A4, i_uid = 0, i_size = 0, i_mtime = 0, i_gid = 0, i_nlinks = 1, i_zone = replicate 9 0, i_atime = 0,
     i_ctime = 0, i_dirt = False\<rparr>"

lemma demo_ok: "disk_ok demo_device demo_disk (\<lambda>_ :: bool. demo_inode)"
proof -
  have z: "zone_at demo_disk demo_inode t = 0" if "slot_fits t" for t
    by (rule zone_at_empty [OF _ that]) (simp add: demo_inode_def)
  show ?thesis
  proof (rule disk_okI [of _ demo_super])
    show "zone_map demo_disk demo_super y \<noteq> None \<and> dev_reads demo_device y \<and> dev_gets demo_device y"
      if "in_data demo_super y" for y
    proof -
      have "nat (y - 9) < 8192" using that by (auto simp: demo_super_def in_data_def)
      then show ?thesis
        by (simp add: demo_disk_def demo_device_def demo_super_def zone_map_def zone_bit_def Let_def)
    qed
  qed (simp_all add: z, simp_all add: demo_disk_def demo_super_def demo_inode_def)
qed

lemma demo_tidy: "tidy demo_disk demo_inode"
  by (simp add: tidy_def byte_of_def demo_disk_def demo_inode_def FILE_BYTES_def Let_def)

text \<open>
  C3: \<^verbatim>\<open>file_write\<close> on a disk in order refines the overwriting of a list: it returns, the bytes it has taken replace those
  of the file at its position (at its end with \<^verbatim>\<open>O_APPEND\<close>), a gap is filled with zeros, every other file keeps its
  contents, the disk stays in order, and fewer bytes than asked for are written only when no zone is left.
\<close>

theorem file_write_refines:
  assumes "disk_ok d s F" and "\<And>g. tidy s (F g)" and "0 \<le> write_pos (F f) filp"
    and "write_pos (F f) filp + int (length buf) \<le> FILE_BYTES"
  shows "\<exists>ret s' n' filp' r. file_write d s (F f) filp buf = Some (ret, s', n', filp')
    \<and> r \<le> length buf \<and> ret = (if r \<noteq> 0 then int r else - 1) \<and> (r < length buf \<longrightarrow> disk_full s')
    \<and> disk_ok d s' (F(f := n')) \<and> (\<forall>g. tidy s' ((F(f := n')) g))
    \<and> (\<lambda>g. contents s' ((F(f := n')) g))
        = put_contents f (nat (write_pos (F f) filp)) (take r buf) (\<lambda>g. contents s (F g))"
proof -
  let ?p = "write_pos (F f) filp"
  obtain r s' n' where w: "r \<le> length buf" "r < length buf \<longrightarrow> disk_full s'" "writes d s F f ?p (take r buf) s' n'"
    "file_write d s (F f) filp buf = Some (if r \<noteq> 0 then int r else - 1, s', n',
       if f_flags filp AND O_APPEND \<noteq> 0 then filp else filp\<lparr>f_pos := ?p + int r\<rparr>)"
    using file_write_ok [OF assms(1,3,4)] by blast
  have fits: "?p + int (length (take r buf)) \<le> FILE_BYTES" using assms(4) by simp
  note own = contents_overwrite [OF w(3) assms(2) assms(3) fits] and other = contents_other [OF w(3) assms(2)]
  have "(\<lambda>g. contents s' ((F(f := n')) g)) = put_contents f (nat ?p) (take r buf) (\<lambda>g. contents s (F g))"
    using own(1) other(1) by (auto simp: put_contents_def)
  moreover have "\<forall>g. tidy s' ((F(f := n')) g)" using own(2) other(2) by simp
  ultimately show ?thesis using w(1,2,4) writesD(1) [OF w(3)] by blast
qed

theorem file_write_refines_witness:
  "\<exists>ret s' n' filp' r.
     file_write demo_device demo_disk demo_inode \<lparr>f_flags = 0, f_pos = 1000\<rparr> (replicate 50 65) = Some (ret, s', n', filp')
     \<and> r \<le> 50 \<and> contents s' n' = overwrite 1000 (take r (replicate 50 65)) (contents demo_disk demo_inode)"
proof -
  let ?filp = "\<lparr>f_flags = 0, f_pos = 1000\<rparr>" and ?buf = "replicate 50 (65 :: u8)" and ?F = "\<lambda>_ :: bool. demo_inode"
  have p: "write_pos demo_inode ?filp = 1000" by (simp add: write_pos_def)
  have "0 \<le> write_pos (?F True) ?filp" "write_pos (?F True) ?filp + int (length ?buf) \<le> FILE_BYTES"
    unfolding p by (simp_all add: FILE_BYTES_def)
  from file_write_refines [OF demo_ok demo_tidy this] obtain ret s' n' filp' r where
    e: "file_write demo_device demo_disk demo_inode ?filp ?buf = Some (ret, s', n', filp')" and r: "r \<le> length ?buf"
    and c: "(\<lambda>g. contents s' ((?F(True := n')) g)) = put_contents True (nat 1000) (take r ?buf) (\<lambda>g. contents demo_disk (?F g))"
    unfolding p by blast
  from fun_cong [OF c, of True] have "contents s' n' = overwrite 1000 (take r ?buf) (contents demo_disk demo_inode)"
    by (simp add: put_contents_def)
  then show ?thesis using e r by (metis length_replicate)
qed

lemma file_read_bytes:
  assumes "disk_ok d s F" and "0 \<le> f_pos filp" and "0 < count" and "f_pos filp + count \<le> FILE_BYTES"
  shows "file_read d s (F f) filp count =
    Some (count, (F f)\<lparr>i_atime := current_time s\<rparr>, filp\<lparr>f_pos := f_pos filp + count\<rparr>, bytes_at s (F f) (f_pos filp) (nat count))"
  using read_loop_ok [OF assms(1,2) _ assms(4), of f "[]"] assms(3) by (simp add: file_read_def)

text \<open>
  Bytes that \<^verbatim>\<open>file_write\<close> has written are what \<^verbatim>\<open>file_read\<close> at the same position returns.
\<close>

theorem write_then_read:
  assumes ok: "disk_ok d s F" and flags: "f_flags filp AND O_APPEND = 0" and pos: "0 \<le> f_pos filp"
    and fits: "f_pos filp + int (length buf) \<le> FILE_BYTES"
    and w: "file_write d s (F f) filp buf = Some (int (length buf), s', n', filp')" and ne: "buf \<noteq> []"
  shows "file_read d s' n' (filp'\<lparr>f_pos := f_pos filp\<rparr>) (int (length buf)) =
    Some (int (length buf), n'\<lparr>i_atime := current_time s'\<rparr>, filp', buf)"
proof -
  have p: "write_pos (F f) filp = f_pos filp" using flags by (simp add: write_pos_def)
  have nf: "\<not> f_flags filp AND O_APPEND \<noteq> 0" using flags by simp
  obtain r t m where a: "writes d s F f (f_pos filp) (take r buf) t m"
    and b: "file_write d s (F f) filp buf = Some (if r \<noteq> 0 then int r else - 1, t, m, filp\<lparr>f_pos := f_pos filp + int r\<rparr>)"
    using file_write_ok [OF ok, of f filp buf, unfolded p if_not_P [OF nf], OF pos fits] by blast
  have "t = s'" "m = n'" using b w by simp_all
  then have r: "writes d s F f (f_pos filp) (take r buf) s' n'" "(if r \<noteq> 0 then int r else - 1) = int (length buf)"
    "filp' = filp\<lparr>f_pos := f_pos filp + int r\<rparr>"
    using a b w by simp_all
  have re: "r = length buf" using r(2) ne by (auto split: if_splits)
  have wr: "writes d s F f (f_pos filp) buf s' n'" using r(1) unfolding re by simp
  have fp: "filp' = filp\<lparr>f_pos := f_pos filp + int (length buf)\<rparr>" using r(3) unfolding re .
  have read: "bytes_at s' n' (f_pos filp) (length buf) = buf"
  proof (rule nth_equalityI)
    fix i assume "i < length (bytes_at s' n' (f_pos filp) (length buf))"
    then have "i < length buf" by simp
    then show "bytes_at s' n' (f_pos filp) (length buf) ! i = buf ! i"
      using writesD(2) [OF wr, of "f_pos filp + int i" f] pos fits by simp
  qed simp
  define q where "q = filp'\<lparr>f_pos := f_pos filp\<rparr>"
  have "0 \<le> f_pos q" "0 < int (length buf)" "f_pos q + int (length buf) \<le> FILE_BYTES"
    unfolding q_def using pos fits ne by simp_all
  note r = file_read_bytes [OF writesD(1) [OF wr] this, of f]
  have "q\<lparr>f_pos := f_pos q + int (length buf)\<rparr> = filp'" "f_pos q = f_pos filp" unfolding q_def fp by simp_all
  then show ?thesis using r unfolding q_def [symmetric] fun_upd_same nat_int by (simp only: read)
qed

theorem write_then_read_witness:
  "\<exists>s' n' filp'.
     file_write demo_device demo_disk demo_inode \<lparr>f_flags = 0, f_pos = 1000\<rparr> (replicate 50 65) = Some (50, s', n', filp')
     \<and> file_read demo_device s' n' (filp'\<lparr>f_pos := 1000\<rparr>) 50
         = Some (50, n'\<lparr>i_atime := current_time s'\<rparr>, filp', replicate 50 65)"
proof -
  let ?filp = "\<lparr>f_flags = 0, f_pos = 1000\<rparr>" and ?buf = "replicate 50 (65 :: u8)"
  have "map_option fst (file_write demo_device demo_disk demo_inode ?filp ?buf) = Some 50" by code_simp
  then obtain s' n' filp' where
    w: "file_write demo_device demo_disk demo_inode ?filp ?buf = Some (int (length ?buf), s', n', filp')"
    by auto
  have "file_read demo_device s' n' (filp'\<lparr>f_pos := f_pos ?filp\<rparr>) (int (length ?buf)) =
      Some (int (length ?buf), n'\<lparr>i_atime := current_time s'\<rparr>, filp', ?buf)"
    by (rule write_then_read [OF demo_ok, where filp = ?filp and buf = ?buf]) (use w in \<open>simp_all add: FILE_BYTES_def\<close>)
  then show ?thesis using w by auto
qed

section \<open>The system calls\<close>

lemma bytes_at_drop:
  assumes "a + c \<le> m"
  shows "bytes_at s n (int a) c = take c (drop a (bytes_at s n 0 m))"
  by (rule nth_equalityI) (use assms in auto)

text \<open>
  C19: \<^verbatim>\<open>sys_read\<close> of a file returns the bytes of its contents from the position on, as many as are wanted and there are, and
  moves the position behind them.
\<close>

theorem sys_read_contents:
  assumes ok: "disk_ok d s F" and td: "tidy s (F f)" and fl: "S_ISREG (F f) \<or> S_ISDIR (F f)"
    and pos: "0 \<le> f_pos filp" "0 < count" "f_pos filp + count < 2 ^ 31"
  shows "\<exists>n' out. sys_read d s (F f) filp count = Some (int (length out), n', filp\<lparr>f_pos := f_pos filp + int (length out)\<rparr>, out)
    \<and> out = take (nat count) (drop (nat (f_pos filp)) (contents s (F f)))
    \<and> n' = (if out = [] then F f else (F f)\<lparr>i_atime := current_time s\<rparr>)"
proof -
  let ?p = "f_pos filp" and ?n = "F f"
  define m where "m = unat (i_size (F f))"
  have m: "int m \<le> FILE_BYTES" using td by (simp add: tidy_def m_def)
  have m31: "int m < 2 ^ 31" using m by (simp add: FILE_BYTES_def)
  define c where "c = min count (int m - ?p)"
  have word: "(word_of_int (count + ?p) > i_size ?n) \<longleftrightarrow> count + ?p > int m"
  proof -
    have "uint (word_of_int (count + ?p) :: u32) = count + ?p"
      using pos by (simp only: uint_word_of_int_eq) (simp add: take_bit_int_eq_self)
    then show ?thesis unfolding word_less_def by (simp add: m_def del: of_int_add)
  qed
  have sub: "sint (i_size ?n - word_of_int ?p) = int m - ?p"
  proof -
    have "i_size ?n - word_of_int ?p = word_of_int (int m - ?p)" by (simp add: m_def)
    moreover have "signed_take_bit 31 (int m - ?p) = int m - ?p"
      by (rule signed_take_bit_int_eq_self) (use m31 pos in auto)
    ultimately show ?thesis by (simp only: sint_sbintrunc') simp
  qed
  have clip: "sys_read d s ?n filp count = (if c \<le> 0 then Some (0, ?n, filp, []) else file_read d s ?n filp c)"
  proof -
    have "(if word_of_int (count + ?p) > i_size ?n then sint (i_size ?n - word_of_int ?p) else count) = c"
      unfolding word sub c_def by auto
    then show ?thesis unfolding sys_read_def Let_def using fl pos(2) by (auto simp del: of_int_add)
  qed
  define C where "C = contents s ?n"
  have C: "C = bytes_at s ?n 0 m" "length C = m" by (simp_all add: C_def contents_def m_def)
  show ?thesis
  proof (cases "c \<le> 0")
    case True
    then have "drop (nat ?p) C = []" using C(2) pos(2) by (simp add: c_def)
    then show ?thesis using clip True unfolding C_def by simp
  next
    case False
    have "nat ?p + nat c \<le> m" using False pos by (auto simp: c_def)
    from bytes_at_drop [OF this, of s ?n] have out: "bytes_at s ?n ?p (nat c) = take (nat c) (drop (nat ?p) C)"
      using pos(1) by (simp add: C(1))
    also have "\<dots> = take (nat count) (drop (nat ?p) C)"
    proof (cases "c = count")
      case False
      then have "nat c = m - nat ?p" "m - nat ?p \<le> nat count" using pos by (auto simp: c_def min_def split: if_splits)
      then show ?thesis using C(2) by simp
    qed simp
    finally have "bytes_at s ?n ?p (nat c) = take (nat count) (drop (nat ?p) C)" .
    moreover have "?p + c \<le> FILE_BYTES" using m by (auto simp: c_def)
    moreover have "bytes_at s ?n ?p (nat c) \<noteq> []" using False by (metis bytes_at_simps(1) list.size(3) nat_le_0 nat_0_iff)
    moreover have "int (length (bytes_at s ?n ?p (nat c))) = c" using False by simp
    ultimately show ?thesis
      using clip False file_read_bytes [OF ok pos(1), of c f] unfolding C_def by (metis linorder_not_le)
  qed
qed

theorem sys_read_contents_witness:
  "\<exists>n'. sys_read demo_device demo_disk (demo_inode\<lparr>i_size := 3\<rparr>) \<lparr>f_flags = 0, f_pos = 1\<rparr> 10
     = Some (2, n', \<lparr>f_flags = 0, f_pos = 3\<rparr>, [0, 0])"
proof -
  let ?n = "demo_inode\<lparr>i_size := 3\<rparr>"
  have ok: "disk_ok demo_device demo_disk (\<lambda>_ :: bool. ?n)" by (rule disk_ok_cong [OF demo_ok]) simp
  have td: "tidy demo_disk ?n" by (simp add: tidy_def byte_of_def demo_disk_def FILE_BYTES_def Let_def)
  have fl: "S_ISREG ?n \<or> S_ISDIR ?n" by (simp add: S_ISREG_def demo_inode_def)
  have c: "contents demo_disk ?n = [0, 0, 0]"
    by (simp add: contents_def bytes_at_def byte_of_def demo_disk_def Let_def upt_rec)
  show ?thesis
    using sys_read_contents [OF ok td fl, of "\<lparr>f_flags = 0, f_pos = 1\<rparr>" 10] unfolding c by simp
qed

lemma do_bmap_big: "block \<ge> 7 + 512 + 512 * 512 \<Longrightarrow> do_bmap d block create s n = None"
  by (simp add: do_bmap_def)

text \<open>
  C39: \<^verbatim>\<open>sys_lseek\<close> accepts a position behind the last block that an inode can name, and \<^verbatim>\<open>sys_write\<close> there is a panic of
  the kernel (\<^verbatim>\<open>_bmap: block>big\<close>) and not an error of the caller.
\<close>

theorem write_beyond_panics:
  assumes "FILE_BYTES \<le> offset" and "S_ISREG n" and "f_flags filp AND O_APPEND = 0" and "buf \<noteq> []"
  shows "\<exists>filp'. lseek n filp offset 0 = (offset, filp') \<and> sys_write d s n filp' buf = None"
proof -
  have o: "0 \<le> offset" using assms(1) by (simp add: FILE_BYTES_def)
  have "262663 \<le> offset div 1024" using assms(1) by (simp add: FILE_BYTES_def zdiv_mono1)
  moreover have "offset sdiv BLOCK_SIZE = offset div 1024" using o by (simp add: BLOCK_SIZE_def signed_divide_int_def sgn_if)
  ultimately have "do_bmap d (offset sdiv BLOCK_SIZE) True s n = None" by (simp add: do_bmap_big)
  then have "write_loop d s n offset buf 0 = None" using assms(4) by (simp add: write_loop.simps create_block_def)
  then show ?thesis
    using assms o by (simp add: lseek_def lseek_pos_def sys_write_def file_write_def Let_def)
qed

theorem write_beyond_panics_witness:
  "\<exists>filp'. lseek demo_inode \<lparr>f_flags = 0, f_pos = 0\<rparr> 0x10081C00 0 = (0x10081C00, filp')
     \<and> sys_write demo_device demo_disk demo_inode filp' [1] = None"
  by (rule write_beyond_panics) (simp_all add: FILE_BYTES_def S_ISREG_def demo_inode_def)

end
