(* ===== verification/Minix_Truncate.thy ===== *)
theory Minix_Truncate
  imports Minix_File
begin

text \<open>
  Truncation of a file (\<^verbatim>\<open>fs/truncate.c\<close>): all its zones are free afterwards, those of its indirect blocks too, and no
  other file changes.
\<close>

section \<open>Zones that are made free\<close>

definition frees :: "super_block \<Rightarrow> minix \<Rightarrow> int set \<Rightarrow> minix \<Rightarrow> bool" where
  "frees sb s Z s' \<longleftrightarrow>
     get_super s' = Some sb \<and> blocks s' = blocks s \<and> current_time s' = current_time s
     \<and> (\<forall>y. in_data sb y \<longrightarrow> zone_map s' sb y \<noteq> None \<and> (marked s' sb y \<longleftrightarrow> marked s sb y \<and> y \<notin> Z))"

definition maps_ok :: "super_block \<Rightarrow> minix \<Rightarrow> bool" where
  "maps_ok sb s \<longleftrightarrow> get_super s = Some sb \<and> (\<forall>y. in_data sb y \<longrightarrow> zone_map s sb y \<noteq> None)"

lemma frees_maps: "frees sb s Z s' \<Longrightarrow> maps_ok sb s'" and frees_blocks: "frees sb s Z s' \<Longrightarrow> blocks s' = blocks s"
  by (simp_all add: frees_def maps_ok_def)

lemma frees_none: "maps_ok sb s \<Longrightarrow> Z \<inter> {y. in_data sb y} = {} \<Longrightarrow> frees sb s Z s"
  by (auto simp: frees_def maps_ok_def)

lemma frees_trans: "frees sb s Y s1 \<Longrightarrow> frees sb s1 Z s2 \<Longrightarrow> frees sb s (Y \<union> Z) s2"
  by (auto simp: frees_def)

lemma free_block_frees:
  assumes "maps_ok sb s"
  shows "frees sb s {z} (free_block z s)"
proof (cases "in_data sb z")
  case False
  then show ?thesis using assms frees_none [OF assms, of "{z}"] by (simp add: free_block_def maps_ok_def)
next
  case True
  then obtain m where m: "zone_map s sb z = Some m" using assms by (auto simp: maps_ok_def)
  have e: "free_block z s = set_byte sb z (m (bit_byte sb z) AND NOT (bit_mask sb z)) s"
    using assms True m by (simp add: free_block_def maps_ok_def)
  show ?thesis
    unfolding frees_def e
  proof (intro conjI allI impI)
    fix y assume y: "in_data sb y"
    show "zone_map (set_byte sb z (m (bit_byte sb z) AND NOT (bit_mask sb z)) s) sb y \<noteq> None"
      using assms y by (simp add: zone_map_set_byte [OF m] maps_ok_def)
    show "marked (set_byte sb z (m (bit_byte sb z) AND NOT (bit_mask sb z)) s) sb y = (marked s sb y \<and> y \<notin> {z})"
      using marked_set(2) [OF m True y] by auto
  qed (use assms in \<open>simp_all add: maps_ok_def\<close>)
qed

text \<open>A loop over numbers of zones, all of them read from the same blocks.\<close>

lemma frees_fold:
  assumes "\<And>s i. i \<in> set ks \<Longrightarrow> maps_ok sb s \<Longrightarrow> blocks s = B \<Longrightarrow> frees sb s (Z i) (step i s)"
    and "maps_ok sb s" and "blocks s = B"
  shows "frees sb s (\<Union>i\<in>set ks. Z i) (fold step ks s)"
  using assms
proof (induction ks arbitrary: s)
  case Nil
  then show ?case by (simp add: frees_none)
next
  case (Cons k ks)
  have a: "frees sb s (Z k) (step k s)" using Cons.prems by simp
  then have "frees sb (step k s) (\<Union>i\<in>set ks. Z i) (fold step ks (step k s))"
    using Cons frees_maps [OF a] frees_blocks [OF a] by simp
  from frees_trans [OF a this] show ?case by simp
qed

definition entries :: "minix \<Rightarrow> int \<Rightarrow> int set" where
  "entries s b = {zone_number s b i | i. i < 512 \<and> zone_number s b i \<noteq> 0}"

lemma entry_blocks: "blocks s' = blocks s \<Longrightarrow> zone_number s' = zone_number s"
  by (simp add: zone_number_def fun_eq_iff)

lemma free_ind_frees:
  assumes "maps_ok sb s" and rd: "\<And>y. in_data sb y \<Longrightarrow> dev_reads d y"
  shows "frees sb s (if in_data sb b then insert b (entries s b) else {}) (free_ind d b s)"
proof (cases "in_data sb b")
  case False
  then show ?thesis using assms frees_none [OF assms(1), of "{}"] by (simp add: free_ind_def valid_indirect_def maps_ok_def)
next
  case True
  let ?step = "\<lambda>i s. if zone_number s b i \<noteq> 0 then free_block (zone_number s b i) s else s"
  have "frees sb s (\<Union>i\<in>set [0..<512]. if zone_number s b i \<noteq> 0 then {zone_number s b i} else {}) (fold ?step [0..<512] s)"
  proof (rule frees_fold [OF _ assms(1) refl])
    fix t i assume t: "maps_ok sb t" "blocks t = blocks s"
    show "frees sb t (if zone_number s b i \<noteq> 0 then {zone_number s b i} else {}) (?step i t)"
      using free_block_frees [OF t(1)] frees_none [OF t(1), of "{}"] entry_blocks [OF t(2)] by simp
  qed
  moreover have "(\<Union>i\<in>set [0..<512]. if zone_number s b i \<noteq> 0 then {zone_number s b i} else {}) = entries s b"
    by (auto simp: entries_def split: if_splits)
  ultimately have a: "frees sb s (entries s b) (fold ?step [0..<512] s)" by simp
  have "free_ind d b s = free_block b (fold ?step [0..<512] s)"
    using True rd assms(1) by (simp add: free_ind_def valid_indirect_def maps_ok_def)
  then show ?thesis using frees_trans [OF a free_block_frees [OF frees_maps [OF a], of b]] True by simp
qed

lemma free_dind_frees:
  assumes "maps_ok sb s" and rd: "\<And>y. in_data sb y \<Longrightarrow> dev_reads d y"
    and ent: "\<And>z. in_data sb b \<Longrightarrow> z \<in> entries s b \<Longrightarrow> in_data sb z"
  shows "frees sb s (if in_data sb b then insert b (entries s b \<union> (\<Union>z\<in>entries s b. entries s z)) else {}) (free_dind d b s)"
proof (cases "in_data sb b")
  case False
  then show ?thesis using assms frees_none [OF assms(1), of "{}"] by (simp add: free_dind_def valid_indirect_def maps_ok_def)
next
  case True
  let ?step = "\<lambda>i s. if zone_number s b i \<noteq> 0 then free_ind d (zone_number s b i) s else s"
  let ?Z = "\<lambda>i. if zone_number s b i \<noteq> 0 then insert (zone_number s b i) (entries s (zone_number s b i)) else {}"
  have "frees sb s (\<Union>i\<in>set [0..<512]. ?Z i) (fold ?step [0..<512] s)"
  proof (rule frees_fold [OF _ assms(1) refl])
    fix t i assume i: "i \<in> set [0..<512]" and t: "maps_ok sb t" "blocks t = blocks s"
    have "entries t = entries s" unfolding entries_def entry_blocks [OF t(2)] ..
    moreover have "zone_number s b i \<noteq> 0 \<Longrightarrow> in_data sb (zone_number s b i)" using ent [OF True] i by (auto simp: entries_def)
    ultimately show "frees sb t (?Z i) (?step i t)"
      using free_ind_frees [OF t(1) rd, of "zone_number s b i"] frees_none [OF t(1), of "{}"] entry_blocks [OF t(2)]
      by (cases "zone_number s b i = 0") simp_all
  qed
  moreover have "(\<Union>i\<in>set [0..<512]. ?Z i) = entries s b \<union> (\<Union>z\<in>entries s b. entries s z)"
  proof (intro set_eqI)
    fix z
    have "z \<in> (\<Union>i\<in>set [0..<512]. ?Z i) \<longleftrightarrow>
        (\<exists>i<512. zone_number s b i \<noteq> 0 \<and> (z = zone_number s b i \<or> z \<in> entries s (zone_number s b i)))"
      by (auto split: if_splits)
    also have "\<dots> \<longleftrightarrow> (\<exists>y\<in>entries s b. z = y \<or> z \<in> entries s y)"
      unfolding entries_def [of s b] by blast
    finally show "z \<in> (\<Union>i\<in>set [0..<512]. ?Z i) \<longleftrightarrow> z \<in> entries s b \<union> (\<Union>z\<in>entries s b. entries s z)" by blast
  qed
  ultimately have a: "frees sb s (entries s b \<union> (\<Union>z\<in>entries s b. entries s z)) (fold ?step [0..<512] s)" by simp
  have "free_dind d b s = free_block b (fold ?step [0..<512] s)"
    using True rd assms(1) by (simp add: free_dind_def valid_indirect_def maps_ok_def)
  then show ?thesis using frees_trans [OF a free_block_frees [OF frees_maps [OF a], of b]] True by simp
qed

section \<open>\<open>truncate\<close>\<close>

definition zones_of :: "minix \<Rightarrow> m_inode \<Rightarrow> int set" where
  "zones_of s n = {zone_at s n t | t. slot_fits t \<and> zone_at s n t \<noteq> 0}"

lemma zones_of_parts:
  assumes first: "0 < s_firstdatazone sb"
    and ind: "\<And>t. slot_fits t \<Longrightarrow> zone_at s n t \<noteq> 0 \<Longrightarrow> in_data sb (zone_at s n t)"
  defines "a \<equiv> uint (i_zone n ! 7)" and "b \<equiv> uint (i_zone n ! 8)"
  shows "zones_of s n =
    (\<Union>i\<in>set [0..<7]. if i_zone n ! i \<noteq> 0 then {uint (i_zone n ! i)} else {})
    \<union> (if in_data sb a then insert a (entries s a) else {})
    \<union> (if in_data sb b then insert b (entries s b \<union> (\<Union>z\<in>entries s b. entries s z)) else {})" (is "_ = ?D \<union> ?A \<union> ?B")
proof -
  have zero: "\<not> in_data sb 0" using first by (simp add: in_data_def word_less_def)
  have ia: "in_data sb a \<longleftrightarrow> a \<noteq> 0" and ib: "in_data sb b \<longleftrightarrow> b \<noteq> 0"
    using ind [of "Dir 7"] ind [of "Dir 8"] zero by (auto simp: a_def b_def)
  have A: "?A = {z. z \<noteq> 0 \<and> (z = a \<or> (\<exists>j. slot_fits (Ind j) \<and> z = zone_at s n (Ind j)))}"
    unfolding ia entries_def by (auto simp: down_def a_def)
  have B: "?B = {z. z \<noteq> 0 \<and> (z = b \<or> (\<exists>j. slot_fits (Dind j) \<and> z = zone_at s n (Dind j))
      \<or> (\<exists>j k. slot_fits (Leaf j k) \<and> z = zone_at s n (Leaf j k)))}"
    unfolding ib entries_def by (auto simp: down_def b_def)
  have D: "?D = {z. z \<noteq> 0 \<and> (\<exists>k<7. z = zone_at s n (Dir k))}"
    by (auto simp: uint_0_iff split: if_splits)
  have nine: "(\<exists>k<9. P k) \<longleftrightarrow> (\<exists>k<7. P k) \<or> P 7 \<or> P 8" for P :: "nat \<Rightarrow> bool"
    by (auto simp: less_Suc_eq numeral_eq_Suc)
  have "zones_of s n = {z. z \<noteq> 0 \<and> (\<exists>t. slot_fits t \<and> z = zone_at s n t)}" by (auto simp: zones_of_def)
  moreover have "(\<exists>t. slot_fits t \<and> z = zone_at s n t) \<longleftrightarrow>
      (\<exists>k<9. z = zone_at s n (Dir k)) \<or> (\<exists>j. slot_fits (Ind j) \<and> z = zone_at s n (Ind j))
      \<or> (\<exists>j. slot_fits (Dind j) \<and> z = zone_at s n (Dind j)) \<or> (\<exists>j k. slot_fits (Leaf j k) \<and> z = zone_at s n (Leaf j k))" for z
    by (metis slot.exhaust slot_fits.simps(1))
  ultimately show ?thesis unfolding A B D nine by (auto simp: a_def b_def)
qed

theorem truncate_frees:
  assumes ok: "disk_ok d s F" and fl: "S_ISREG (F f) \<or> S_ISDIR (F f)" and sb: "get_super s = Some sb" and t: "truncate d s (F f) = (s', n')"
  shows "frees sb s (zones_of s (F f)) s' \<and> i_size n' = 0 \<and> i_zone n' = replicate 9 0"
proof -
  note o1 = disk_ok_used(3) [OF ok sb] and o2 = disk_ok_used(2) [OF ok sb] and len = disk_ok_unique(2) [OF ok]
    and o3 = disk_ok_used(1) [OF ok sb, THEN conjunct1]
  let ?n = "F f" and ?a = "uint (i_zone (F f) ! 7)" and ?b = "uint (i_zone (F f) ! 8)"
  have rd: "in_data sb y \<Longrightarrow> dev_reads d y" for y using o2 by blast
  have m: "maps_ok sb s" using sb o2 by (simp add: maps_ok_def)
  define s1 where "s1 = fold (\<lambda>i s. if i_zone ?n ! i \<noteq> 0 then free_block (uint (i_zone ?n ! i)) s else s) [0..<7] s"
  define s2 where "s2 = free_ind d ?a s1"
  have f1: "frees sb s (\<Union>i\<in>set [0..<7]. if i_zone ?n ! i \<noteq> 0 then {uint (i_zone ?n ! i)} else {}) s1"
    unfolding s1_def
    by (rule frees_fold [OF _ m refl]) (simp add: free_block_frees frees_none)
  have e1: "entries s1 = entries s" unfolding entries_def entry_blocks [OF frees_blocks [OF f1]] ..
  have f2: "frees sb s1 (if in_data sb ?a then insert ?a (entries s ?a) else {}) s2"
    using free_ind_frees [OF frees_maps [OF f1] rd, of ?a] by (simp only: s2_def e1)
  have e2: "entries s2 = entries s" unfolding entries_def entry_blocks [OF frees_blocks [OF frees_trans [OF f1 f2]]] ..
  have s': "s' = free_dind d ?b s2" "n' = ?n\<lparr>i_zone := map (\<lambda>_. 0) (i_zone ?n), i_size := 0, i_dirt := True,
      i_mtime := current_time s', i_ctime := current_time s'\<rparr>"
    using t fl by (auto simp: truncate_def Let_def s1_def s2_def)
  have z0: "z \<noteq> 0" if "in_data sb z" for z using that o1 by (auto simp: in_data_def word_less_def)
  have ent: "in_data sb z" if b: "in_data sb ?b" and z: "z \<in> entries s ?b" for z
  proof -
    obtain j where j: "j < 512" "z = zone_number s ?b j" "z \<noteq> 0" using z by (auto simp: entries_def)
    then have "z = zone_at s ?n (Dind j)" using z0 [OF b] by (simp add: down_def)
    then show ?thesis using o3 [of "Dind j"] j by simp
  qed
  have f3: "frees sb s2 (if in_data sb ?b then insert ?b (entries s ?b \<union> (\<Union>z\<in>entries s ?b. entries s z)) else {}) s'"
    using free_dind_frees [OF frees_maps [OF f2] rd, of ?b] ent unfolding e2 s'(1) by blast
  have "frees sb s (zones_of s ?n) s'"
    using frees_trans [OF frees_trans [OF f1 f2] f3] zones_of_parts [OF o1 o3] by simp
  moreover have "i_size n' = 0" "i_zone n' = replicate 9 0" using s'(2) len by (simp_all add: map_replicate_const)
  ultimately show ?thesis by blast
qed

definition in_use :: "minix \<Rightarrow> int \<Rightarrow> bool" where
  "in_use s y \<longleftrightarrow> (case get_super s of None \<Rightarrow> False | Some sb \<Rightarrow> in_data sb y \<and> marked s sb y)"

lemma zone_at_blocks: "blocks s' = blocks s \<Longrightarrow> zone_at s' n t = zone_at s n t"
  using entry_blocks [of s' s] by (cases t) (simp_all add: down_def)

lemma truncate_fs_ok:
  assumes ok: "disk_ok d s F" and sb: "get_super s = Some sb" and fr: "frees sb s (zones_of s (F f)) s'"
    and n': "i_zone n' = replicate 9 0"
  shows "disk_ok d s' (F(f := n'))"
proof -
  note o1 = disk_ok_used(3) [OF ok sb] and o2 = disk_ok_used(2) [OF ok sb] and len = disk_ok_unique(2) [OF ok]
    and o3 = disk_ok_used(1) [OF ok sb] and o4 = disk_ok_unique(1) [OF ok]
  have za: "zone_at s' ((F(f := n')) g) t = (if g = f then 0 else zone_at s (F g) t)" if "slot_fits t" for g t
    using zone_at_blocks [OF frees_blocks [OF fr]] zone_at_empty [OF n' that] by simp
  show ?thesis
  proof (rule disk_okI [of s' sb])
    show "get_super s' = Some sb" using fr by (simp add: frees_def)
    show "0 < s_firstdatazone sb" by (rule o1)
    show "zone_map s' sb z \<noteq> None \<and> dev_reads d z \<and> dev_gets d z" if "in_data sb z" for z
      using fr o2 that by (simp add: frees_def)
    show "length (i_zone ((F(f := n')) g)) = 9" for g using n' len by simp
    show "in_data sb (zone_at s' ((F(f := n')) g) t) \<and> marked s' sb (zone_at s' ((F(f := n')) g) t)"
      if t: "slot_fits t" "zone_at s' ((F(f := n')) g) t \<noteq> 0" for g t
    proof -
      have g: "g \<noteq> f" "zone_at s (F g) t \<noteq> 0" using za [OF t(1), of g] t(2) by (auto split: if_splits)
      have "zone_at s (F g) t \<notin> zones_of s (F f)" using o4 [OF t(1) _ g(2)] g(1) unfolding zones_of_def by blast
      then show ?thesis using o3 [OF t(1) g(2)] fr za [OF t(1), of g] g(1) by (simp add: frees_def)
    qed
    show "g = h \<and> t = u" if t: "slot_fits t" "slot_fits u" "zone_at s' ((F(f := n')) g) t \<noteq> 0"
      "zone_at s' ((F(f := n')) g) t = zone_at s' ((F(f := n')) h) u" for g h t u
      using o4 [OF t(1,2), of g h] t(3,4) za [OF t(1), of g] za [OF t(2), of h] by (auto split: if_splits)
  qed
qed

text \<open>
  C13: \<^verbatim>\<open>truncate\<close> leaves a file empty and the disk in order; it makes exactly the zones of this file free, its indirect
  blocks among them, and no other file changes.
\<close>

theorem truncate_empties:
  assumes ok: "disk_ok d s F" and fl: "S_ISREG (F f) \<or> S_ISDIR (F f)" and t: "truncate d s (F f) = (s', n')"
  shows "disk_ok d s' (F(f := n')) \<and> contents s' n' = [] \<and> (\<forall>g. g \<noteq> f \<longrightarrow> contents s' (F g) = contents s (F g))
    \<and> (\<forall>z. in_use s' z \<longleftrightarrow> in_use s z \<and> z \<notin> zones_of s (F f))"
proof -
  obtain sb where sb: "get_super s = Some sb" by (rule disk_okD [OF ok]) blast
  have fr: "frees sb s (zones_of s (F f)) s'" "i_size n' = 0" "i_zone n' = replicate 9 0"
    using truncate_frees [OF ok fl sb t] by simp_all
  have "contents s' (F g) = contents s (F g)" for g
    using zone_at_blocks [OF frees_blocks [OF fr(1)]] frees_blocks [OF fr(1)]
    by (simp add: contents_def bytes_at_def byte_of_def Let_def)
  moreover have "in_use s' z \<longleftrightarrow> in_use s z \<and> z \<notin> zones_of s (F f)" for z
    using fr(1) sb by (auto simp: in_use_def frees_def)
  ultimately show ?thesis
    using truncate_fs_ok [OF ok sb fr(1,3)] fr(2) by (simp add: contents_def bytes_at_def)
qed

theorem truncate_empties_witness:
  "\<exists>s' n'. truncate demo_device demo_disk demo_inode = (s', n')
     \<and> disk_ok demo_device s' ((\<lambda>_ :: bool. demo_inode)(True := n')) \<and> contents s' n' = []"
proof -
  obtain s' n' where t: "truncate demo_device demo_disk demo_inode = (s', n')" by fastforce
  have "S_ISREG demo_inode \<or> S_ISDIR demo_inode" by (simp add: S_ISREG_def demo_inode_def)
  from truncate_empties [OF demo_ok this t] t show ?thesis by blast
qed

end
