(* ===== verification/Spec2Isabelle.thy ===== *)
theory Spec2Isabelle
  imports Machine_Steps Asm Probe Process_Tty Sdk_Address Codegen_Switch Codegen_Labels Token_Print Heap_Kernel Minix_Truncate
begin

text \<open>
  Verification of SymphonyPlus: a 32-bit machine with a toolchain of its own, a port of Linux 0.11 to it, and the
  programs that run there.

  \<^bold>\<open>The program.\<close> The machine is given by an instruction table (\<^verbatim>\<open>emu/isa.c\<close>), which the assembler (\<^verbatim>\<open>emu/asm.c\<close>) and the
  emulator (\<^verbatim>\<open>emu/emu.c\<close>) share. A C compiler (\<^verbatim>\<open>symcc/src\<close>) splits a source into tokens, parses it into syntax trees and
  writes assembly text, as relocatable objects (\<^verbatim>\<open>obj.c\<close>). One linker (\<^verbatim>\<open>link.c\<close>) joins objects into a flat program
  whose jumps have 16-bit immediates; the other one (\<^verbatim>\<open>link_image.c\<close>) makes images of the kernel and of programs with
  addresses of 32 bits. The ported kernel (\<^verbatim>\<open>Reference/Linux-0.11-main/kernel/symplus\<close>) runs up to eight processes in
  one memory window, copied in and out, and serves their system calls. The programs use the heap of
  \<^verbatim>\<open>user/native/heap.c\<close>. Divisions and the clock of the target are \<^verbatim>\<open>runtime/divsi3.c\<close> and \<^verbatim>\<open>kernel/symplus/tick.c\<close>.

  \<^bold>\<open>The theories.\<close> Each models one part, and the theories that import it prove what makes it correct.

    \<^item> \<open>Prelude\<close>: machine words, byte sequences, collections of rules. \<open>Cstd\<close>: the character classes, number
      conversions and scanning of the C library that the text processing uses.

    \<^item> \<open>Isa\<close> (\<^verbatim>\<open>isa.c\<close>): the table, the encoder; the masks of the table, and operands read back from the word.
      \<open>Emu\<close> (\<^verbatim>\<open>emu.c\<close>): \<open>emu_env\<close> holds the buffers and callbacks, \<open>emu\<close> the locals of \<^verbatim>\<open>emu_run_ex\<close>; one definition for
      each group of cases of its \<^verbatim>\<open>switch\<close>. \<open>Machine\<close>: a semantics by mnemonic and operands, and that the emulator on
      an encoded word does it. \<open>Machine_Run\<close>: the invariant of all runs and their limit. \<open>Machine_Steps\<close>: sequences of
      instructions, \<^verbatim>\<open>push\<close>, \<^verbatim>\<open>pop\<close>, \<^verbatim>\<open>call\<close> and \<^verbatim>\<open>ret\<close>.

    \<^item> \<open>Asm\<close> (\<^verbatim>\<open>asm.c\<close>): both passes; labels are addresses, the second pass writes as many bytes as the first counts.

    \<^item> \<open>Token\<close>, \<open>Token_Print\<close> (\<^verbatim>\<open>tokenize.c\<close>): the lexer; its memory accesses, that the tokens cover the source in
      order, and that printed tokens are read back.

    \<^item> \<open>Codegen\<close> (\<^verbatim>\<open>codegen.c\<close>): \<open>node\<close> and \<open>stmt\<close> are the syntax trees, \<open>gen_expr\<close>, \<open>gen_stmt\<close>, \<open>gen_func\<close>, \<open>emit_data\<close> return
      lines and the next label number. \<open>Codegen_Exec\<close>: the lines executed by the semantics of \<open>Machine\<close>.
      \<open>Codegen_Sem\<close>: what expressions mean. \<open>Codegen_Lines\<close>, \<open>Codegen_Data\<close>, \<open>Codegen_Expr\<close>, \<open>Codegen_Stmt\<close>,
      \<open>Codegen_Switch\<close>: the code of every node and statement does what it means. \<open>Codegen_Labels\<close>: labels differ.

    \<^item> \<open>Obj\<close> (\<^verbatim>\<open>obj.c\<close>): objects written and read back. \<open>Link\<close>, \<open>Link_Layout\<close>, \<open>Link_Image\<close> (\<^verbatim>\<open>link.c\<close>): the passes of the flat
      linker; its jumps through the pool reach their targets, and the addresses it computes are those of the
      assembler. \<open>Sdk_Image\<close>, \<open>Sdk_Layout\<close>, \<open>Sdk_Address\<close> (\<^verbatim>\<open>link_image.c\<close>): the same for images, and their bounds.

    \<^item> \<open>Runtime\<close>: division and clock. \<open>Probe\<close> (\<^verbatim>\<open>capacity_probe.c\<close>): the memory test. \<open>Process\<close> (\<^verbatim>\<open>process.c\<close>): the state of
      the process layer is the record \<open>kern\<close>, one definition for each function; the file system below it is a record
      of functions (\<open>file_system\<close>). \<open>Process_Memory\<close>: switches keep every image, fork copies one. \<open>Process_Table\<close>: the
      table of processes, wait, exit, and the dispatch of system calls. \<open>Process_Tty\<close>: the line editor.

    \<^item> \<open>Heap\<close> (\<^verbatim>\<open>heap.c\<close>): headers, chain and free lists. \<open>Heap_Lists\<close>: segments of doubly linked lists. \<open>Heap_Blocks\<close>: split,
      join and free. \<open>Heap_Alloc\<close>: the search and \<open>malloc\<close>, over the contract \<open>break_provider\<close> of the call that moves the
      break. \<open>Heap_Client\<close>, \<open>Heap_Steps\<close>: what a program owns after any steps. \<open>Heap_Kernel\<close>: the contract discharged
      for \<open>sys_brk\<close> of \<open>Process\<close>, and the properties.

  \<^bold>\<open>How code becomes definitions.\<close> Structures are records, enumerations datatypes, integers words of their width where
  they wrap and \<open>int\<close> or \<open>nat\<close> where the code keeps them in range, which is proved or is a branch of the model. Every
  exit with a message, failed check and missing memory cell is an error value, \<open>None\<close> or a flow of its own. Output is
  a list. Text is a list of characters up to its NUL. The target's memory is big-endian bytes.

  \<^bold>\<open>Bounds and fuel.\<close> \<open>emu_loop\<close> takes as many turns as \<^verbatim>\<open>max_instr\<close> allows, as the code does. The dispatcher
  and other loops recurse on what they count. \<open>exec\<close> of \<open>Codegen_Stmt\<close> takes fuel for the turns of loops; the theorem on
  generated code is about every run that ends within some fuel, and the steps of the machine it gives are
  counted. Its hypotheses say that the stack has room for the temporaries (\<open>stmt_need\<close>, four bytes for each node of
  an expression) and that data and stack do not overlap. The walks of the free lists in \<open>Heap\<close> are partial functions
  and are proved to end in every state that a program reaches. The lexer ends on every source.

  \<^bold>\<open>Not modelled.\<close> The parser and the preprocessor of the compiler: the theorems on tokens and on generated code
  stand on either side of them. The file system of the kernel, which the process layer takes as a parameter. Code
  of the original kernel that the port replaces or that drives a PC. Formatting, buffered files, the shell and
  the programs. Drivers with command lines, assembly text, tests and scripts. Running out of memory in the host tools.

  \<^bold>\<open>Plan.\<close> Next the file layer of the kernel (bitmaps, zone trees, reading and writing files), with the abstract
  contents of files as its specification; then the types and declarations of the parser.
\<close>

end
